(* ===== verification/Prelude.thy ===== *)
theory Prelude
  imports Main "HOL-Library.Word"
begin

text \<open>
  Shared vocabulary of the development: the machine types, the state-and-failure
  combinators in which the C functions that return 0 or 1 are written, byte-array
  updates, and big-endian numbers as lists of bytes.
\<close>

unbundle bit_operations_syntax

section \<open>Types\<close>

type_synonym byte = "8 word"
type_synonym u16 = "16 word"
type_synonym u32 = "32 word"
type_synonym u64 = "64 word"

text \<open>
  The target of the project is a 64-bit iOS device: \<open>size_t\<close> has 64 bits and \<open>int\<close> has 32.
  Sizes are natural numbers; every addition or multiplication that the code checks for
  wrap-around is written with \<open>mod size_modulus\<close>.
\<close>

abbreviation size_modulus :: nat where "size_modulus \<equiv> 18446744073709551616"
abbreviation object_max :: nat where "object_max \<equiv> 9223372036854775808"
abbreviation int_max :: nat where "int_max \<equiv> 2147483647"

lemma size_modulus_pow: "size_modulus = 2 ^ 64"
  by simp

section \<open>Actions: a state and a result that may fail\<close>

text \<open>
  A C function that reads and writes an object through a pointer, returns 1 with its
  out-parameters set on success and 0 on failure, is an action: a function from the old
  state to an optional result and the new state. The state is kept on failure, because C
  does not roll back what was written before \<open>return 0\<close>.
\<close>

type_synonym ('s, 'a) act = "'s \<Rightarrow> 'a option \<times> 's"

definition ret_act :: "'a \<Rightarrow> ('s, 'a) act" where
  "ret_act x s = (Some x, s)"

definition fail_act :: "('s, 'a) act" where
  "fail_act s = (None, s)"

definition bind_act :: "('s, 'a) act \<Rightarrow> ('a \<Rightarrow> ('s, 'b) act) \<Rightarrow> ('s, 'b) act" where
  "bind_act f g s = (case f s of (None, s') \<Rightarrow> (None, s') | (Some x, s') \<Rightarrow> g x s')"

definition then_act :: "('s, 'a) act \<Rightarrow> ('s, 'b) act \<Rightarrow> ('s, 'b) act" where
  "then_act f g = bind_act f (\<lambda>_. g)"

definition guard_act :: "bool \<Rightarrow> ('s, unit) act" where
  "guard_act b = (if b then ret_act () else fail_act)"

named_theorems act_defs \<open>unfolds the combinators to case expressions\<close>

declare ret_act_def [act_defs] fail_act_def [act_defs] bind_act_def [act_defs]
  then_act_def [act_defs] guard_act_def [act_defs]

lemma ret_act_simp [simp]: "ret_act x s = (Some x, s)"
  by (simp add: ret_act_def)

lemma fail_act_simp [simp]: "fail_act s = (None, s)"
  by (simp add: fail_act_def)

lemma guard_act_simp [simp]: "guard_act b s = (if b then Some () else None, s)"
  by (simp add: guard_act_def)

lemma bind_act_Some [simp]: "f s = (Some x, s') \<Longrightarrow> bind_act f g s = g x s'"
  by (simp add: bind_act_def)

lemma bind_act_None [simp]: "f s = (None, s') \<Longrightarrow> bind_act f g s = (None, s')"
  by (simp add: bind_act_def)

lemma then_act_Some [simp]: "f s = (Some x, s') \<Longrightarrow> then_act f g s = g s'"
  by (simp add: then_act_def)

lemma then_act_None [simp]: "f s = (None, s') \<Longrightarrow> then_act f g s = (None, s')"
  by (simp add: then_act_def)

lemma bind_act_eq_Some:
  "bind_act f g s = (Some y, t) \<longleftrightarrow> (\<exists>x s'. f s = (Some x, s') \<and> g x s' = (Some y, t))"
  by (auto simp: bind_act_def split: prod.splits option.splits)

lemma then_act_eq_Some:
  "then_act f g s = (Some y, t) \<longleftrightarrow> (\<exists>x s'. f s = (Some x, s') \<and> g s' = (Some y, t))"
  by (simp add: then_act_def bind_act_eq_Some)

lemma bind_act_assoc: "bind_act (bind_act f g) h = bind_act f (\<lambda>x. bind_act (g x) h)"
  by (rule ext) (simp add: bind_act_def split: prod.splits option.splits)

lemma bind_act_ret [simp]: "bind_act (ret_act x) g = g x"
  by (rule ext) (simp add: bind_act_def)

lemma bind_act_cong:
  "(\<And>x s'. f s = (Some x, s') \<Longrightarrow> g x s' = h x s') \<Longrightarrow> bind_act f g s = bind_act f h s"
  by (auto simp: bind_act_def split: prod.splits option.splits)

section \<open>Arrays of bytes\<close>

text \<open>\<open>memcpy(ys + i, xs, n)\<close> for \<open>n = length xs\<close>, inside an array \<open>ys\<close>.\<close>

definition blit :: "nat \<Rightarrow> 'a list \<Rightarrow> 'a list \<Rightarrow> 'a list" where
  "blit i xs ys = take i ys @ xs @ drop (i + length xs) ys"

lemma length_blit [simp]: "i + length xs \<le> length ys \<Longrightarrow> length (blit i xs ys) = length ys"
  by (simp add: blit_def)

lemma take_blit_append:
  "i + length xs \<le> length ys \<Longrightarrow> take (i + length xs) (blit i xs ys) = take i ys @ xs"
  by (simp add: blit_def)

lemma take_blit_before: "j \<le> i \<Longrightarrow> i \<le> length ys \<Longrightarrow> take j (blit i xs ys) = take j ys"
  by (simp add: blit_def min_def)

lemma blit_Nil [simp]: "blit i [] ys = ys"
  by (simp add: blit_def)

lemma blit_single: "i < length ys \<Longrightarrow> blit i [x] ys = ys[i := x]"
  by (simp add: blit_def upd_conv_take_nth_drop)

section \<open>Words\<close>

lemma unat_byte_less [simp]: "unat (b :: byte) < 256"
  using unsigned_less [of b, where ?'a = nat] by simp

lemma xor_word_eq_0_iff [simp]: "a XOR b = 0 \<longleftrightarrow> a = (b :: 'a :: len word)"
proof
  assume h: "a XOR b = 0"
  show "a = b"
  proof (rule bit_word_eqI)
    fix n
    have "bit (a XOR b) n = False" using h by simp
    then show "bit a n = bit b n" by (simp add: bit_xor_iff)
  qed
qed simp

text \<open>Masks, shifts and tests, read as arithmetic on the unsigned value.\<close>

lemma unat_and_mask: "unat (w AND mask n :: 'a :: len word) = unat w mod 2 ^ n"
proof -
  have "unat (take_bit n w) = take_bit n (unat w)" by (rule unsigned_take_bit_eq)
  then show ?thesis
    by (simp only: take_bit_eq_mask take_bit_eq_mod [of n "unat w", symmetric])
qed

lemma unat_drop_bit: "unat (drop_bit n w :: 'a :: len word) = unat w div 2 ^ n"
  by (simp only: unat_drop_bit_eq drop_bit_eq_div [of n "unat w"])

lemma unat_push_bit:
  "unat (push_bit n w :: 'a :: len word) = unat w * 2 ^ n mod 2 ^ LENGTH('a)"
proof -
  have "unat (push_bit n w) = take_bit LENGTH('a) (push_bit n (unat w))"
    by (simp add: unsigned_push_bit_eq)
  then show ?thesis by (simp only: take_bit_nat_def push_bit_nat_def)
qed

lemma push_drop_bit_eq_mask: "push_bit n (drop_bit n w) = (w AND NOT (mask n) :: 'a :: len word)"
  by (rule bit_word_eqI) (auto simp: bit_simps)

lemma unat_and_not_mask:
  "unat (w AND NOT (mask n) :: 'a :: len word) = unat w div 2 ^ n * 2 ^ n"
proof -
  have "unat w div 2 ^ n * 2 ^ n \<le> unat w" by simp
  also have "\<dots> < 2 ^ LENGTH('a)" by (rule unsigned_less)
  finally show ?thesis
    by (simp add: push_drop_bit_eq_mask [symmetric] unat_push_bit unat_drop_bit)
qed

lemma push_bit_or_eq_plus:
  assumes "unat b < 2 ^ n"
  shows "push_bit n a OR b = push_bit n a + (b :: 'a :: len word)"
proof -
  have "unat (take_bit n b) = take_bit n (unat b)" by (rule unsigned_take_bit_eq)
  also have "\<dots> = unat b" using assms by (simp add: take_bit_nat_eq_self)
  finally have t: "take_bit n b = b" by (rule word_unat_eq_iff [THEN iffD2])
  have "push_bit n a AND b = 0"
    by (subst t [symmetric], rule bit_word_eqI) (auto simp: bit_simps)
  then show ?thesis by (simp add: disjunctive_add_eq_or)
qed

lemma unat_push_bit_or:
  assumes "unat b < 2 ^ n" and "unat a * 2 ^ n + unat b < 2 ^ LENGTH('a)"
  shows "unat (push_bit n a OR b :: 'a :: len word) = unat a * 2 ^ n + unat b"
  using assms by (simp add: push_bit_or_eq_plus unat_word_ariths unat_push_bit)

lemma unat_ucast_le: "LENGTH('a :: len) \<le> LENGTH('b :: len) \<Longrightarrow>
    unat (ucast (w :: 'a word) :: 'b word) = unat w"
  by (simp add: unsigned_ucast_eq take_bit_nat_eq_self_iff order_less_le_trans [OF unsigned_less])

lemma byte_and_7f: "unat (b AND 0x7f :: byte) = unat b mod 128"
  using unat_and_mask [of b 7] by (simp add: mask_numeral)

lemma byte_bit7: "bit (b :: byte) 7 \<longleftrightarrow> 128 \<le> unat b"
proof -
  have "bit b 7 = bit (unat b) 7"
    by (simp add: bit_unsigned_iff)
  also have "\<dots> = odd (unat b div 2 ^ 7)" by (rule bit_iff_odd)
  also have "unat b div 2 ^ 7 = (if 128 \<le> unat b then 1 else 0)"
    using unat_byte_less [of b] by (auto intro!: div_nat_eqI)
  finally show ?thesis by simp
qed

lemma byte_and_80: "(b AND 0x80 :: byte) \<noteq> 0 \<longleftrightarrow> 128 \<le> unat b"
  using bit_iff_and_push_bit_not_eq_0 [of b 7] byte_bit7 [of b] by simp

lemma byte_and_80_eq_0: "(b AND 0x80 :: byte) = 0 \<longleftrightarrow> unat b < 128"
  using byte_and_80 [of b] by linarith

lemma drop_bit_eq_0_iff_unat: "(drop_bit n w :: 'a :: len word) = 0 \<longleftrightarrow> unat w < 2 ^ n"
  by (simp add: unat_eq_zero [symmetric] unat_drop_bit div_eq_0_iff del: unsigned_0)

section \<open>Big-endian numbers\<close>

definition be_nat :: "byte list \<Rightarrow> nat" where
  "be_nat bs = foldl (\<lambda>a b. a * 256 + unat b) 0 bs"

fun nat_be :: "nat \<Rightarrow> nat \<Rightarrow> byte list" where
  "nat_be 0 v = []"
| "nat_be (Suc n) v = nat_be n (v div 256) @ [word_of_nat v]"

lemma be_nat_Nil [simp]: "be_nat [] = 0"
  by (simp add: be_nat_def)

lemma be_nat_snoc [simp]: "be_nat (bs @ [b]) = be_nat bs * 256 + unat b"
  by (simp add: be_nat_def)

lemma length_nat_be [simp]: "length (nat_be n v) = n"
  by (induction n arbitrary: v) auto

lemma unat_of_nat_byte: "unat (word_of_nat v :: byte) = v mod 256"
  by (simp add: unat_of_nat)

lemma be_nat_less: "be_nat bs < 256 ^ length bs"
proof (induction bs rule: rev_induct)
  case Nil
  then show ?case by simp
next
  case (snoc b bs)
  have "be_nat bs * 256 + unat b < (be_nat bs + 1) * 256"
    by simp
  also have "\<dots> \<le> 256 ^ length bs * 256"
    using snoc by (intro mult_le_mono1) simp
  finally show ?case by simp
qed

lemma be_nat_nat_be: "be_nat (nat_be n v) = v mod 256 ^ n"
proof (induction n arbitrary: v)
  case 0
  then show ?case by simp
next
  case (Suc n)
  have "(v div 256) mod 256 ^ n * 256 + v mod 256 = v mod 256 ^ Suc n"
    by (simp add: mod_mult2_eq mult.commute)
  with Suc show ?case by (simp add: unat_of_nat_byte)
qed

lemma nat_be_be_nat: "nat_be (length bs) (be_nat bs) = bs"
proof (induction bs rule: rev_induct)
  case Nil
  then show ?case by simp
next
  case (snoc b bs)
  have "(be_nat bs * 256 + unat b) div 256 = be_nat bs"
    using unat_byte_less [of b] by (simp add: div_add1_eq)
  moreover have "(word_of_nat (be_nat bs * 256 + unat b) :: byte) = b"
    unfolding of_nat_eq by (rule exI [of _ "be_nat bs"]) simp
  ultimately show ?case using snoc by simp
qed

lemma be_nat_Cons: "be_nat (b # bs) = unat b * 256 ^ length bs + be_nat bs"
  by (induction bs rule: rev_induct) (simp_all add: be_nat_def algebra_simps)

lemma be_nat_append: "be_nat (xs @ ys) = be_nat xs * 256 ^ length ys + be_nat ys"
  by (induction ys rule: rev_induct) (simp_all add: be_nat_def algebra_simps)

text \<open>The loop of the code: shift the accumulator by eight bits and or in the next byte.\<close>

lemma push_bit_or_byte:
  "(push_bit 8 r OR ucast (b :: byte) :: u64) = r * 256 + ucast b"
proof -
  have "push_bit 8 r AND (ucast b :: u64) = 0"
    by (rule bit_word_eqI) (auto simp: bit_simps dest: bit_imp_le_length)
  then show ?thesis
    by (simp add: disjunctive_add_eq_or [symmetric] push_bit_eq_mult mult.commute)
qed

end
