(* ===== verification/Consttime.thy ===== *)
theory Consttime
  imports Prelude
begin

text \<open>
  The branch-free comparisons and selections of \<^verbatim>\<open>crypto/internal.h\<close>. A condition is a mask:
  all ones or all zeros. \<^verbatim>\<open>value_barrier_w\<close> only stops the compiler from optimising; its value is
  its argument.
\<close>

type_synonym crypto_word = "64 word"

definition value_barrier_w :: "crypto_word \<Rightarrow> crypto_word" where
  "value_barrier_w a = a"

definition constant_time_msb_w :: "crypto_word \<Rightarrow> crypto_word" where
  "constant_time_msb_w a = 0 - drop_bit (8 * 8 - 1) a"

definition constant_time_lt_w :: "crypto_word \<Rightarrow> crypto_word \<Rightarrow> crypto_word" where
  "constant_time_lt_w a b = constant_time_msb_w (a XOR ((a XOR b) OR ((a - b) XOR a)))"

definition constant_time_lt_8 :: "crypto_word \<Rightarrow> crypto_word \<Rightarrow> byte" where
  "constant_time_lt_8 a b = ucast (constant_time_lt_w a b)"

definition constant_time_ge_w :: "crypto_word \<Rightarrow> crypto_word \<Rightarrow> crypto_word" where
  "constant_time_ge_w a b = NOT (constant_time_lt_w a b)"

definition constant_time_ge_8 :: "crypto_word \<Rightarrow> crypto_word \<Rightarrow> byte" where
  "constant_time_ge_8 a b = ucast (constant_time_ge_w a b)"

definition constant_time_is_zero_w :: "crypto_word \<Rightarrow> crypto_word" where
  "constant_time_is_zero_w a = constant_time_msb_w (NOT a AND (a - 1))"

definition constant_time_is_zero_8 :: "crypto_word \<Rightarrow> byte" where
  "constant_time_is_zero_8 a = ucast (constant_time_is_zero_w a)"

definition constant_time_eq_w :: "crypto_word \<Rightarrow> crypto_word \<Rightarrow> crypto_word" where
  "constant_time_eq_w a b = constant_time_is_zero_w (a XOR b)"

definition constant_time_eq_8 :: "crypto_word \<Rightarrow> crypto_word \<Rightarrow> byte" where
  "constant_time_eq_8 a b = ucast (constant_time_eq_w a b)"

definition constant_time_eq_int :: "u32 \<Rightarrow> u32 \<Rightarrow> crypto_word" where
  "constant_time_eq_int a b = constant_time_eq_w (scast a) (scast b)"

definition constant_time_eq_int_8 :: "u32 \<Rightarrow> u32 \<Rightarrow> byte" where
  "constant_time_eq_int_8 a b = constant_time_eq_8 (scast a) (scast b)"

definition constant_time_select_w :: "crypto_word \<Rightarrow> crypto_word \<Rightarrow> crypto_word \<Rightarrow> crypto_word" where
  "constant_time_select_w m a b = (value_barrier_w m AND a) OR (value_barrier_w (NOT m) AND b)"

definition constant_time_select_8 :: "byte \<Rightarrow> byte \<Rightarrow> byte \<Rightarrow> byte" where
  "constant_time_select_8 m a b = ucast (constant_time_select_w (ucast m) (ucast a) (ucast b))"

definition constant_time_select_int :: "crypto_word \<Rightarrow> u32 \<Rightarrow> u32 \<Rightarrow> u32" where
  "constant_time_select_int m a b = ucast (constant_time_select_w m (scast a) (scast b))"

section \<open>Masks\<close>

definition true_or_false :: "bool \<Rightarrow> 'a :: len word" where
  "true_or_false p = (if p then - 1 else 0)"

lemma drop_bit_63: "drop_bit 63 (a :: crypto_word) = (if bit a 63 then 1 else 0)"
proof (rule bit_word_eqI)
  fix n assume "n < LENGTH(64)"
  show "bit (drop_bit 63 a) n = bit (if bit a 63 then 1 else 0 :: crypto_word) n"
    using bit_imp_le_length [of a "63 + n"] by (cases n) (auto simp: bit_simps bit_1_iff)
qed

lemma msb_w_eq: "constant_time_msb_w a = true_or_false (bit a 63)"
  by (simp add: constant_time_msb_w_def true_or_false_def drop_bit_63)

lemma bit_63_iff: "bit (a :: crypto_word) 63 \<longleftrightarrow> 2 ^ 63 \<le> unat a"
proof -
  have lt: "unat a < 2 ^ 64" using unsigned_less [of a, where ?'a = nat] by simp
  have "bit a 63 = bit (unat a) 63" by (simp add: bit_unsigned_iff)
  also have "\<dots> = odd (unat a div 2 ^ 63)" by (rule bit_iff_odd)
  also have "unat a div 2 ^ 63 = (if 2 ^ 63 \<le> unat a then 1 else 0)"
    using lt by (auto intro!: div_nat_eqI)
  finally show ?thesis by simp
qed

lemma is_zero_w_eq: "constant_time_is_zero_w a = true_or_false (a = 0)"
proof -
  have "bit (NOT a AND (a - 1)) 63 \<longleftrightarrow> a = 0"
  proof (cases "a = 0")
    case False
    show ?thesis
    proof (cases "bit a 63")
      case True
      then show ?thesis using False by (simp add: bit_simps)
    next
      case f: False
      then have lt: "unat a < 2 ^ 63" by (simp add: bit_63_iff)
      have "unat (a - 1) = unat a - 1" using False by (simp add: unat_sub_if' word_le_nat_alt Suc_le_eq unat_gt_0)
      then have "\<not> bit (a - 1) 63" using lt by (simp add: bit_63_iff)
      then show ?thesis using False by (simp add: bit_simps)
    qed
  qed (simp add: bit_simps)
  then show ?thesis by (simp add: constant_time_is_zero_w_def msb_w_eq)
qed

lemma eq_w_eq: "constant_time_eq_w a b = true_or_false (a = b)"
  by (simp add: constant_time_eq_w_def is_zero_w_eq)

lemma lt_w_eq: "constant_time_lt_w a b = true_or_false (a < b)"
proof -
  have d: "bit (a - b) 63 \<longleftrightarrow> a < b" if "bit a 63 = bit b 63"
    using that unsigned_less [of a, where ?'a = nat] unsigned_less [of b, where ?'a = nat]
    by (auto simp: bit_63_iff word_less_nat_alt unat_sub_if')
  have "a < b \<longleftrightarrow> bit b 63" if "bit a 63 \<noteq> bit b 63"
    using that by (auto simp: bit_63_iff word_less_nat_alt)
  with d show ?thesis
    by (cases "bit a 63"; cases "bit b 63")
      (auto simp: constant_time_lt_w_def msb_w_eq bit_simps true_or_false_def)
qed

lemma select_w_eq: "constant_time_select_w (true_or_false p) a b = (if p then a else b)"
  by (simp add: constant_time_select_w_def value_barrier_w_def true_or_false_def)

lemma ucast_true_or_false: "LENGTH('b) \<le> LENGTH('a) \<Longrightarrow>
    (ucast (true_or_false p :: 'a :: len word) :: 'b :: len word) = true_or_false p"
  by (simp add: true_or_false_def) (rule impI, rule bit_word_eqI, simp add: bit_simps)

lemma select_8_eq: "constant_time_select_8 (true_or_false p) a b = (if p then a else b)"
proof (cases p)
  case True
  have "(ucast ((ucast (- 1 :: byte) :: crypto_word) AND ucast a OR NOT (ucast (- 1 :: byte)) AND ucast b) :: byte) = a"
    by (rule bit_word_eqI) (auto simp: bit_simps)
  then show ?thesis
    using True
    by (simp add: constant_time_select_8_def constant_time_select_w_def value_barrier_w_def true_or_false_def)
next
  case False
  have "(ucast (ucast b :: crypto_word) :: byte) = b"
    by (rule bit_word_eqI) (auto simp: bit_simps)
  then show ?thesis
    using False
    by (simp add: constant_time_select_8_def constant_time_select_w_def value_barrier_w_def true_or_false_def)
qed

lemma eq_8_eq: "constant_time_eq_8 a b = true_or_false (a = b)"
  by (simp add: constant_time_eq_8_def eq_w_eq ucast_true_or_false)

end
