(* ===== verification/Base64.thy ===== *)
theory Base64
  imports Consttime
begin

text \<open>
  \<^verbatim>\<open>crypto/base64/base64.c\<close>: the constant-time alphabet, block and streaming encoder, block and
  streaming decoder. An output pointer is modelled by the bytes that are written from it on.
  Sizes of C objects are below \<^verbatim>\<open>PTRDIFF_MAX\<close>, so the counter of \<^verbatim>\<open>EVP_EncodeBlock\<close> does not wrap.
\<close>

section \<open>The alphabet\<close>

definition constant_time_lt_args_8 :: "byte \<Rightarrow> byte \<Rightarrow> byte" where
  "constant_time_lt_args_8 a b = ucast (constant_time_msb_w (ucast a - ucast b))"

definition constant_time_in_range_8 :: "byte \<Rightarrow> byte \<Rightarrow> byte \<Rightarrow> byte" where
  "constant_time_in_range_8 a lo hi = constant_time_lt_args_8 (a - lo) (hi - lo + 1)"

definition conv_bin2ascii :: "byte \<Rightarrow> byte" where
  "conv_bin2ascii a =
     (let a = a AND 0x3f;
          ret = constant_time_select_8 (constant_time_eq_8 (ucast a) 62) 43 47;
          ret = constant_time_select_8 (constant_time_lt_args_8 a 62) (a - 52 + 48) ret;
          ret = constant_time_select_8 (constant_time_lt_args_8 a 52) (a - 26 + 97) ret;
          ret = constant_time_select_8 (constant_time_lt_args_8 a 26) (a + 65) ret
      in ret)"

definition base64_ascii_to_bin :: "byte \<Rightarrow> byte" where
  "base64_ascii_to_bin a =
     (let is_upper = constant_time_in_range_8 a 65 90;
          is_lower = constant_time_in_range_8 a 97 122;
          is_digit = constant_time_in_range_8 a 48 57;
          is_plus = constant_time_eq_8 (ucast a) 43;
          is_slash = constant_time_eq_8 (ucast a) 47;
          is_equals = constant_time_eq_8 (ucast a) 61;
          ret = 0xff;
          ret = constant_time_select_8 is_upper (a - 65) ret;
          ret = constant_time_select_8 is_lower (a - 97 + 26) ret;
          ret = constant_time_select_8 is_digit (a - 48 + 52) ret;
          ret = constant_time_select_8 is_plus 62 ret;
          ret = constant_time_select_8 is_slash 63 ret;
          ret = constant_time_select_8 is_equals 0 ret
      in ret)"

section \<open>Encoding\<close>

definition EVP_EncodedLength :: "nat \<Rightarrow> nat option" where
  "EVP_EncodedLength n =
     (if (n + 2) mod size_modulus < n then None
      else
        (let n = (n + 2) mod size_modulus div 3
         in if n * 4 mod size_modulus div 4 \<noteq> n then None
            else (let n = n * 4 mod size_modulus
                  in if (n + 1) mod size_modulus < n then None
                     else Some ((n + 1) mod size_modulus))))"

text \<open>The characters written, without the final NUL, and the counter.\<close>

fun encode_block_loop :: "byte list \<Rightarrow> byte list \<times> nat" where
  "encode_block_loop (b0 # b1 # b2 # src) =
     (let l = push_bit 16 (ucast b0) OR push_bit 8 (ucast b1) OR ucast b2 :: u32
      in case encode_block_loop src of (dst, ret) \<Rightarrow>
        (conv_bin2ascii (ucast (drop_bit 18 l)) # conv_bin2ascii (ucast (drop_bit 12 l)) #
         conv_bin2ascii (ucast (drop_bit 6 l)) # conv_bin2ascii (ucast l) # dst, ret + 4))"
| "encode_block_loop [] = ([], 0)"
| "encode_block_loop [b0] =
     (let l = push_bit 16 (ucast b0) :: u32
      in ([conv_bin2ascii (ucast (drop_bit 18 l)), conv_bin2ascii (ucast (drop_bit 12 l)), 61, 61], 4))"
| "encode_block_loop [b0, b1] =
     (let l = push_bit 16 (ucast b0) OR push_bit 8 (ucast b1) :: u32
      in ([conv_bin2ascii (ucast (drop_bit 18 l)), conv_bin2ascii (ucast (drop_bit 12 l)),
           conv_bin2ascii (ucast (drop_bit 6 l)), 61], 4))"

definition EVP_EncodeBlock :: "byte list \<Rightarrow> byte list \<times> nat" where
  "EVP_EncodeBlock src = (case encode_block_loop src of (dst, ret) \<Rightarrow> (dst @ [0], ret))"

record EVP_ENCODE_CTX =
  data_used :: nat
  ctx_data :: "byte list"
  eof_seen :: bool
  error_encountered :: bool

definition sizeof_ctx_data :: nat where
  "sizeof_ctx_data = 48"

definition EVP_EncodeInit :: EVP_ENCODE_CTX where
  "EVP_EncodeInit = \<lparr>data_used = 0, ctx_data = replicate sizeof_ctx_data 0, eof_seen = False,
     error_encountered = False\<rparr>"

text \<open>The loop of \<^verbatim>\<open>EVP_EncodeUpdate\<close> over full lines: what has been written to \<open>out\<close> without the
  final NUL, the running total (\<open>None\<close> when it wraps and the function returns), and the rest.\<close>

function encode_lines :: "byte list \<Rightarrow> nat \<Rightarrow> byte list \<Rightarrow> byte list \<times> nat option \<times> byte list" where
  "encode_lines out written inp =
     (if sizeof_ctx_data \<le> length inp then
        (case EVP_EncodeBlock (take sizeof_ctx_data inp) of (dst, encoded) \<Rightarrow>
           (let inp = drop sizeof_ctx_data inp;
                out = out @ take encoded dst @ [10]
            in if (written + encoded + 1) mod size_modulus < written then (out, None, inp)
               else encode_lines out ((written + encoded + 1) mod size_modulus) inp))
      else (out, Some written, inp))"
  by auto
termination
  by (relation "measure (\<lambda>(out, written, inp). length inp)") (auto simp: sizeof_ctx_data_def)

declare encode_lines.simps [simp del]

text \<open>The result is the new context, the characters written to \<open>out\<close> (after which comes a NUL if
  there are any), and \<^verbatim>\<open>*out_len\<close>.\<close>

definition EVP_EncodeUpdate :: "EVP_ENCODE_CTX \<Rightarrow> byte list \<Rightarrow> EVP_ENCODE_CTX \<times> byte list \<times> nat" where
  "EVP_EncodeUpdate ctx inp =
     (if length inp = 0 then (ctx, [], 0)
      else if sizeof_ctx_data - data_used ctx > length inp then
        (ctx\<lparr>ctx_data := blit (data_used ctx) inp (ctx_data ctx), data_used := data_used ctx + length inp\<rparr>, [], 0)
      else
        (let (ctx, out, written, inp) =
           (if data_used ctx \<noteq> 0 then
              (let todo = sizeof_ctx_data - data_used ctx;
                   ctx = ctx\<lparr>ctx_data := blit (data_used ctx) (take todo inp) (ctx_data ctx)\<rparr>
               in case EVP_EncodeBlock (take sizeof_ctx_data (ctx_data ctx)) of (dst, encoded) \<Rightarrow>
                    (ctx\<lparr>data_used := 0\<rparr>, take encoded dst @ [10], encoded + 1, drop todo inp))
            else (ctx, [], 0, inp))
         in case encode_lines out written inp of
              (out, None, inp) \<Rightarrow> (ctx, out, 0)
            | (out, Some written, inp) \<Rightarrow>
                (ctx\<lparr>ctx_data := blit 0 inp (ctx_data ctx), data_used := length inp\<rparr>, out,
                 if written > int_max then 0 else written)))"

definition EVP_EncodeFinal :: "EVP_ENCODE_CTX \<Rightarrow> EVP_ENCODE_CTX \<times> byte list \<times> nat" where
  "EVP_EncodeFinal ctx =
     (if data_used ctx = 0 then (ctx, [], 0)
      else case EVP_EncodeBlock (take (data_used ctx) (ctx_data ctx)) of (dst, encoded) \<Rightarrow>
        (ctx\<lparr>data_used := 0\<rparr>, take encoded dst @ [10], encoded + 1))"

section \<open>Decoding\<close>

definition EVP_DecodedLength :: "nat \<Rightarrow> nat option" where
  "EVP_DecodedLength n = (if n mod 4 \<noteq> 0 then None else Some (n div 4 * 3))"

definition EVP_DecodeInit :: EVP_ENCODE_CTX where
  "EVP_DecodeInit = \<lparr>data_used = 0, ctx_data = replicate sizeof_ctx_data 0, eof_seen = False,
     error_encountered = False\<rparr>"

text \<open>The bytes written for four characters; their number is \<^verbatim>\<open>*out_num_bytes\<close>.\<close>

definition base64_decode_quad :: "byte list \<Rightarrow> byte list option" where
  "base64_decode_quad inp =
     (let a = base64_ascii_to_bin (inp ! 0); b = base64_ascii_to_bin (inp ! 1);
          c = base64_ascii_to_bin (inp ! 2); d = base64_ascii_to_bin (inp ! 3)
      in if a = 0xff \<or> b = 0xff \<or> c = 0xff \<or> d = 0xff then None
         else
           (let v = push_bit 18 (ucast a) OR push_bit 12 (ucast b) OR push_bit 6 (ucast c) OR ucast d :: u32;
                padding_pattern = push_bit 3 (of_bool (inp ! 0 = 61)) OR push_bit 2 (of_bool (inp ! 1 = 61))
                  OR push_bit 1 (of_bool (inp ! 2 = 61)) OR of_bool (inp ! 3 = 61) :: u32
            in if padding_pattern = 0 then Some [ucast (drop_bit 16 v), ucast (drop_bit 8 v), ucast v]
               else if padding_pattern = 1 then Some [ucast (drop_bit 16 v), ucast (drop_bit 8 v)]
               else if padding_pattern = 3 then Some [ucast (drop_bit 16 v)]
               else None))"

definition is_base64_space :: "byte \<Rightarrow> bool" where
  "is_base64_space c \<longleftrightarrow> c = 32 \<or> c = 9 \<or> c = 13 \<or> c = 10"

text \<open>The loop of \<^verbatim>\<open>EVP_DecodeUpdate\<close>: whether it ran to its end, the context and the bytes written.\<close>

fun decode_update_loop :: "EVP_ENCODE_CTX \<Rightarrow> byte list \<Rightarrow> byte list \<Rightarrow> bool \<times> EVP_ENCODE_CTX \<times> byte list" where
  "decode_update_loop ctx out [] = (True, ctx, out)"
| "decode_update_loop ctx out (c # inp) =
     (if is_base64_space c then decode_update_loop ctx out inp
      else if eof_seen ctx then (False, ctx\<lparr>error_encountered := True\<rparr>, out)
      else
        (let ctx = ctx\<lparr>ctx_data := (ctx_data ctx)[data_used ctx := c], data_used := data_used ctx + 1\<rparr>
         in if data_used ctx = 4 then
              (case base64_decode_quad (ctx_data ctx) of
                 None \<Rightarrow> (False, ctx\<lparr>error_encountered := True\<rparr>, out)
               | Some bs \<Rightarrow>
                   decode_update_loop
                     (ctx\<lparr>data_used := 0, eof_seen := (if length bs < 3 then True else eof_seen ctx)\<rparr>)
                     (out @ bs) inp)
            else decode_update_loop ctx out inp))"

text \<open>The return value, the context, the bytes written and \<^verbatim>\<open>*out_len\<close>.\<close>

definition EVP_DecodeUpdate :: "EVP_ENCODE_CTX \<Rightarrow> byte list \<Rightarrow> int \<times> EVP_ENCODE_CTX \<times> byte list \<times> nat" where
  "EVP_DecodeUpdate ctx inp =
     (if error_encountered ctx then (-1, ctx, [], 0)
      else case decode_update_loop ctx [] inp of
          (False, ctx, out) \<Rightarrow> (-1, ctx, out, 0)
        | (True, ctx, out) \<Rightarrow>
            if length out > int_max then (-1, ctx\<lparr>error_encountered := True\<rparr>, out, 0)
            else (if eof_seen ctx then 0 else 1, ctx, out, length out))"

definition EVP_DecodeFinal :: "EVP_ENCODE_CTX \<Rightarrow> int" where
  "EVP_DecodeFinal ctx = (if error_encountered ctx \<or> data_used ctx \<noteq> 0 then -1 else 1)"

text \<open>The state of these actions is what has been written to the output.\<close>

function decode_base64_loop :: "byte list \<Rightarrow> (byte list, unit) act" where
  "decode_base64_loop inp out =
     (if inp = [] then (Some (), out)
      else case base64_decode_quad (take 4 inp) of
          None \<Rightarrow> (None, out)
        | Some bs \<Rightarrow>
            if length bs \<noteq> 3 \<and> length inp \<noteq> 4 then (None, out @ bs)
            else decode_base64_loop (drop 4 inp) (out @ bs))"
  by auto
termination
  by (relation "measure (\<lambda>(inp, out). length inp)") (auto simp: length_greater_0_conv)

declare decode_base64_loop.simps [simp del]

definition EVP_DecodeBase64 :: "nat \<Rightarrow> byte list \<Rightarrow> (byte list, nat) act" where
  "EVP_DecodeBase64 max_out inp out =
     (if length inp mod 4 \<noteq> 0 then (None, out)
      else case EVP_DecodedLength (length inp) of
          None \<Rightarrow> (None, out)
        | Some max_len \<Rightarrow>
            if max_out < max_len then (None, out)
            else case decode_base64_loop inp out of
                (None, out') \<Rightarrow> (None, out')
              | (Some _, out') \<Rightarrow> (Some (length out' - length out), out'))"

definition pad_nuls :: "byte list \<Rightarrow> byte list" where
  "pad_nuls dst =
     (if length dst mod 3 = 0 then dst else dst @ replicate (3 - length dst mod 3) 0)"

text \<open>The return value and the bytes written to \<^verbatim>\<open>dst\<close>.\<close>

definition EVP_DecodeBlock :: "byte list \<Rightarrow> int \<times> byte list" where
  "EVP_DecodeBlock src =
     (let src = dropWhile (\<lambda>c. c = 32 \<or> c = 9) src;
          src = rev (dropWhile is_base64_space (rev src))
      in case EVP_DecodedLength (length src) of
           None \<Rightarrow> (-1, [])
         | Some dst_len \<Rightarrow>
             if dst_len > int_max then (-1, [])
             else case EVP_DecodeBase64 dst_len src [] of
                 (None, dst) \<Rightarrow> (-1, dst)
               | (Some _, dst) \<Rightarrow> (int (length (pad_nuls dst)), pad_nuls dst))"

end
