(* ===== verification/Base64_Correct.thy ===== *)
theory Base64_Correct
  imports Base64
begin

text \<open>
  The constant-time alphabet is the table look-up, decoding inverts encoding, the announced
  length is the length written, and neither the streaming encoder nor the streaming decoder
  depends on how its input is cut into pieces.
\<close>

section \<open>The alphabet\<close>

lemma lt_args_8_eq: "constant_time_lt_args_8 a b = true_or_false (a < b)"
proof -
  have "unat (ucast a - ucast b :: crypto_word) =
      (if unat b \<le> unat a then unat a - unat b else unat a + size_modulus - unat b)"
    by (simp add: unat_sub_if' unat_ucast_le)
  then have "bit (ucast a - ucast b :: crypto_word) 63 \<longleftrightarrow> a < b"
    using unat_byte_less [of a] unat_byte_less [of b]
    by (simp add: bit_63_iff word_less_nat_alt del: unat_byte_less) linarith
  then show ?thesis
    by (simp add: constant_time_lt_args_8_def msb_w_eq ucast_true_or_false)
qed

lemma in_range_8_eq:
  assumes "lo \<le> hi" "unat hi < 255"
  shows "constant_time_in_range_8 a lo hi = true_or_false (lo \<le> a \<and> a \<le> hi)"
proof -
  have d: "unat (hi - lo) = unat hi - unat lo"
    using assms by (simp add: unat_sub_if' word_le_nat_alt)
  have "unat (hi - lo + 1) = (unat (hi - lo) + 1) mod 256"
    by (simp add: unat_word_ariths)
  then have n: "unat (hi - lo + 1) = unat hi - unat lo + 1"
    using assms unfolding d by simp
  have "a - lo < hi - lo + 1 \<longleftrightarrow> lo \<le> a \<and> a \<le> hi"
    using assms unat_byte_less [of a] unat_byte_less [of lo]
    by (auto simp: word_less_nat_alt word_le_nat_alt n unat_sub_if')
  then show ?thesis by (simp add: constant_time_in_range_8_def lt_args_8_eq)
qed

lemma ucast_eq_byte: "(ucast (a :: byte) :: crypto_word) = numeral k \<longleftrightarrow> unat a = unat (numeral k :: crypto_word)"
  by (simp only: word_unat_eq_iff unat_ucast_le) (simp add: unat_ucast_le)

lemma eq_8_byte: "unat (numeral k :: crypto_word) = unat (numeral k :: byte) \<Longrightarrow>
    constant_time_eq_8 (ucast (a :: byte)) (numeral k) = true_or_false (a = numeral k)"
  by (simp only: eq_8_eq ucast_eq_byte) (simp add: word_unat_eq_iff [of a])

lemma conv_bin2ascii_if:
  "conv_bin2ascii a =
    (let a = a AND 0x3f in if a < 26 then a + 65 else if a < 52 then a - 26 + 97
      else if a < 62 then a - 52 + 48 else if a = 62 then 43 else 47)"
  by (simp add: conv_bin2ascii_def Let_def lt_args_8_eq eq_8_byte select_8_eq del: word_unat_eq_iff)

lemma base64_ascii_to_bin_if:
  "base64_ascii_to_bin a =
    (if a = 61 then 0 else if a = 47 then 63 else if a = 43 then 62
     else if 48 \<le> a \<and> a \<le> 57 then a - 48 + 52 else if 97 \<le> a \<and> a \<le> 122 then a - 97 + 26
     else if 65 \<le> a \<and> a \<le> 90 then a - 65 else 0xff)"
  by (simp add: base64_ascii_to_bin_def Let_def in_range_8_eq eq_8_byte select_8_eq)

definition base64_alphabet :: "byte list" where
  "base64_alphabet = map word_of_nat ([65..<91] @ [97..<123] @ [48..<58] @ [43, 47])"

lemma conv_bin2ascii_nat:
  "unat (conv_bin2ascii a) =
    (let n = unat a mod 64 in if n < 26 then n + 65 else if n < 52 then n + 71
      else if n < 62 then n - 4 else if n = 62 then 43 else 47)"
proof -
  define b where "b = a AND 0x3f"
  have b: "unat b = unat a mod 64" using unat_and_mask [of a 6] by (simp add: b_def mask_numeral)
  have lt: "unat b < 64" unfolding b by simp
  have "b < 62 \<Longrightarrow> 52 \<le> b \<Longrightarrow> unat (b - 52 + 48) = unat b - 4"
    by (simp add: word_less_nat_alt word_le_nat_alt unat_plus_if' unat_sub_if')
  moreover have "b < 52 \<Longrightarrow> 26 \<le> b \<Longrightarrow> unat (b - 26 + 97) = unat b + 71"
    by (simp add: word_less_nat_alt word_le_nat_alt unat_plus_if' unat_sub_if')
  moreover have "b < 26 \<Longrightarrow> unat (b + 65) = unat b + 65"
    by (simp add: word_less_nat_alt unat_plus_if')
  ultimately have "unat (conv_bin2ascii a) =
    (if unat b < 26 then unat b + 65 else if unat b < 52 then unat b + 71
      else if unat b < 62 then unat b - 4 else if unat b = 62 then 43 else 47)"
    by (auto simp: conv_bin2ascii_if Let_def b_def [symmetric] word_less_nat_alt word_le_nat_alt
        word_unat_eq_iff [of b])
  then show ?thesis by (simp only: b Let_def)
qed

lemma conv_bin2ascii_eq: "conv_bin2ascii a = base64_alphabet ! (unat a mod 64)"
proof -
  have "base64_alphabet ! n = word_of_nat (if n < 26 then n + 65 else if n < 52 then n + 71
      else if n < 62 then n - 4 else if n = 62 then 43 else 47)" if "n < 64" for n
    using that by (auto simp: base64_alphabet_def nth_append nth_Cons' simp del: upt_conv_Cons upt_rec_numeral)
  then have "base64_alphabet ! (unat a mod 64) = word_of_nat (unat (conv_bin2ascii a))"
    by (simp add: conv_bin2ascii_nat Let_def)
  then show ?thesis by simp
qed

lemma ascii_to_bin:
  "base64_ascii_to_bin (conv_bin2ascii a) = a AND 0x3f" "conv_bin2ascii a \<noteq> 61"
  "\<not> is_base64_space (conv_bin2ascii a)"
proof -
  define c where "c = conv_bin2ascii a"
  define n where "n = unat a mod 64"
  have n: "n < 64" by (simp add: n_def)
  have c: "unat c = (if n < 26 then n + 65 else if n < 52 then n + 71
      else if n < 62 then n - 4 else if n = 62 then 43 else 47)"
    by (simp add: c_def conv_bin2ascii_nat Let_def n_def)
  have u: "unat (a AND 0x3f) = n" using unat_and_mask [of a 6] by (simp add: mask_numeral n_def)
  show "conv_bin2ascii a \<noteq> 61" "\<not> is_base64_space (conv_bin2ascii a)"
    using c n by (auto simp: c_def [symmetric] is_base64_space_def split: if_splits)
  have "unat (base64_ascii_to_bin c) = n"
    using c n
    by (auto simp: base64_ascii_to_bin_if word_le_nat_alt word_unat_eq_iff [of c] unat_plus_if' unat_sub_if'
        split: if_splits)
  then show "base64_ascii_to_bin (conv_bin2ascii a) = a AND 0x3f"
    using u by (simp add: c_def word_unat_eq_iff)
qed


section \<open>Groups of four characters\<close>

definition sextet :: "nat \<Rightarrow> u32 \<Rightarrow> byte" where
  "sextet i l = ucast (drop_bit (6 * i) l) AND 0x3f"

lemma bit_sextet: "bit (sextet i l) n \<longleftrightarrow> n < 6 \<and> bit l (6 * i + n)"
proof -
  have "sextet i l = ucast (drop_bit (6 * i) l) AND mask 6" by (simp add: sextet_def mask_numeral)
  then show ?thesis by (auto simp: bit_simps)
qed

lemma sextets_word:
  assumes "\<And>n. bit l n \<Longrightarrow> n < 24"
  shows "push_bit 18 (ucast (sextet 3 l)) OR push_bit 12 (ucast (sextet 2 l)) OR
    push_bit 6 (ucast (sextet (Suc 0) l)) OR ucast (sextet 0 l) = (l :: u32)"
proof (rule bit_word_eqI)
  fix n assume "n < LENGTH(32)"
  consider "n < 6" | "6 \<le> n" "n < 12" | "12 \<le> n" "n < 18" | "18 \<le> n" "n < 24" | "24 \<le> n" by linarith
  then show "bit (push_bit 18 (ucast (sextet 3 l)) OR push_bit 12 (ucast (sextet 2 l)) OR
    push_bit 6 (ucast (sextet (Suc 0) l)) OR ucast (sextet 0 l) :: u32) n = bit l n"
    using assms [of n] by cases (auto simp: bit_simps bit_sextet)
qed

lemma group_bits:
  fixes b0 b1 b2 :: byte
  defines "l \<equiv> push_bit 16 (ucast b0) OR push_bit 8 (ucast b1) OR ucast b2 :: u32"
  shows "bit l n \<Longrightarrow> n < 24" and "ucast (drop_bit 16 l) = b0" and "ucast (drop_bit 8 l) = b1" and "ucast l = b2"
proof -
  show "bit l n \<Longrightarrow> n < 24"
    by (auto simp: l_def bit_simps dest: bit_imp_le_length)
  show "ucast (drop_bit 16 l) = b0"
    by (rule bit_word_eqI) (auto simp: l_def bit_simps dest: bit_imp_le_length)
  show "ucast (drop_bit 8 l) = b1"
    by (rule bit_word_eqI) (auto simp: l_def bit_simps dest: bit_imp_le_length)
  show "ucast l = b2"
    by (rule bit_word_eqI) (auto simp: l_def bit_simps dest: bit_imp_le_length)
qed

lemma sextet_valid: "sextet i l \<noteq> 0xff"
proof -
  have "\<not> bit (sextet i l) 7" by (simp add: bit_sextet)
  moreover have "bit (0xff :: byte) 7" by code_simp
  ultimately show ?thesis by metis
qed

lemma decode_char: "base64_ascii_to_bin (conv_bin2ascii (ucast (drop_bit (6 * i) (l :: u32)))) = sextet i l"
  by (simp add: ascii_to_bin sextet_def)

lemma base64_pad: "base64_ascii_to_bin 61 = 0"
  by (simp add: base64_ascii_to_bin_if)

lemma quad_full:
  fixes b0 b1 b2 :: byte
  defines "l \<equiv> push_bit 16 (ucast b0) OR push_bit 8 (ucast b1) OR ucast b2 :: u32"
  shows "base64_decode_quad [conv_bin2ascii (ucast (drop_bit 18 l)), conv_bin2ascii (ucast (drop_bit 12 l)),
    conv_bin2ascii (ucast (drop_bit 6 l)), conv_bin2ascii (ucast l)] = Some [b0, b1, b2]"
proof -
  have v: "push_bit 18 (ucast (sextet 3 l)) OR push_bit 12 (ucast (sextet 2 l)) OR
    push_bit 6 (ucast (sextet (Suc 0) l)) OR ucast (sextet 0 l) = l"
    by (rule sextets_word) (simp add: l_def group_bits(1))
  show ?thesis
    unfolding base64_decode_quad_def Let_def
    by (simp add: decode_char [of 0 l, simplified] decode_char [of 1 l, simplified]
        decode_char [of 2 l, simplified] decode_char [of 3 l, simplified] sextet_valid v ascii_to_bin(2))
      (use group_bits [of b0 b1 b2] in \<open>simp add: l_def\<close>)
qed

lemma quad_two:
  fixes b0 b1 :: byte
  defines "l \<equiv> push_bit 16 (ucast b0) OR push_bit 8 (ucast b1) :: u32"
  shows "base64_decode_quad [conv_bin2ascii (ucast (drop_bit 18 l)), conv_bin2ascii (ucast (drop_bit 12 l)),
    conv_bin2ascii (ucast (drop_bit 6 l)), 61] = Some [b0, b1]"
proof -
  have l: "l = push_bit 16 (ucast b0) OR push_bit 8 (ucast b1) OR ucast (0 :: byte)" by (simp add: l_def)
  have "sextet 0 l = 0"
    by (rule bit_word_eqI) (auto simp: l_def bit_simps bit_sextet dest: bit_imp_le_length)
  moreover have "push_bit 18 (ucast (sextet 3 l)) OR push_bit 12 (ucast (sextet 2 l)) OR
    push_bit 6 (ucast (sextet (Suc 0) l)) OR ucast (sextet 0 l) = l"
    using group_bits(1) [of b0 b1 0] by (intro sextets_word) (simp add: l_def)
  ultimately have v: "push_bit 18 (ucast (sextet 3 l)) OR push_bit 12 (ucast (sextet 2 l)) OR
    push_bit 6 (ucast (sextet (Suc 0) l)) = l" by simp
  show ?thesis
    unfolding base64_decode_quad_def Let_def
    by (simp add: decode_char [of 0 l, simplified] decode_char [of 1 l, simplified]
        decode_char [of 2 l, simplified] decode_char [of 3 l, simplified] sextet_valid v ascii_to_bin(2) base64_pad)
      (use group_bits [of b0 b1 0] in \<open>simp add: l_def\<close>)
qed

lemma quad_one:
  fixes b0 :: byte
  defines "l \<equiv> push_bit 16 (ucast b0) :: u32"
  shows "base64_decode_quad [conv_bin2ascii (ucast (drop_bit 18 l)), conv_bin2ascii (ucast (drop_bit 12 l)),
    61, 61] = Some [b0]"
proof -
  have l: "l = push_bit 16 (ucast b0) OR push_bit 8 (ucast (0 :: byte)) OR ucast (0 :: byte)" by (simp add: l_def)
  have "sextet 0 l = 0" "sextet (Suc 0) l = 0"
    by (rule bit_word_eqI; auto simp: l_def bit_simps bit_sextet dest: bit_imp_le_length)+
  moreover have "push_bit 18 (ucast (sextet 3 l)) OR push_bit 12 (ucast (sextet 2 l)) OR
    push_bit 6 (ucast (sextet (Suc 0) l)) OR ucast (sextet 0 l) = l"
    using group_bits(1) [of b0 0 0] by (intro sextets_word) (simp add: l_def)
  ultimately have v: "push_bit 18 (ucast (sextet 3 l)) OR push_bit 12 (ucast (sextet 2 l)) = l" by simp
  show ?thesis
    unfolding base64_decode_quad_def Let_def
    by (simp add: decode_char [of 0 l, simplified] decode_char [of 1 l, simplified]
        decode_char [of 2 l, simplified] decode_char [of 3 l, simplified] sextet_valid v ascii_to_bin(2) base64_pad)
      (use group_bits [of b0 0 0] in \<open>simp add: l_def\<close>)
qed

section \<open>Blocks\<close>

definition b64 :: "byte list \<Rightarrow> byte list" where
  "b64 src = fst (encode_block_loop src)"

lemma encode_block_loop_ret: "snd (encode_block_loop src) = length (fst (encode_block_loop src))"
  by (induction src rule: encode_block_loop.induct) (auto simp: Let_def case_prod_unfold)

lemma EVP_EncodeBlock_eq: "EVP_EncodeBlock src = (b64 src @ [0], length (b64 src))"
  using encode_block_loop_ret [of src] by (simp add: EVP_EncodeBlock_def b64_def case_prod_unfold)

lemma length_b64: "length (b64 src) = (length src + 2) div 3 * 4"
proof -
  have d: "(5 + n) div 3 = Suc (Suc (Suc n) div 3)" for n :: nat by presburger
  show ?thesis
    unfolding b64_def
    by (induction src rule: encode_block_loop.induct) (auto simp: Let_def case_prod_unfold d)
qed

lemma b64_Nil [simp]: "b64 [] = []"
  by (simp add: b64_def)

lemma quad_chars:
  "b64 (b0 # b1 # b2 # src) = b64 [b0, b1, b2] @ b64 src"
  by (simp add: b64_def Let_def split: prod.splits)

lemma b64_append: "length xs mod 3 = 0 \<Longrightarrow> b64 (xs @ ys) = b64 xs @ b64 ys"
proof (induction xs rule: encode_block_loop.induct)
  case (1 b0 b1 b2 src)
  then have "length src mod 3 = 0" by (simp add: mod_Suc split: if_splits)
  then show ?case
    using 1 quad_chars [of b0 b1 b2 "src @ ys"] quad_chars [of b0 b1 b2 src] by simp
qed simp_all

lemma decode_block_loop:
  "decode_base64_loop (b64 src) out = (Some (), out @ src)"
proof (induction src arbitrary: out rule: encode_block_loop.induct)
  case (1 b0 b1 b2 src)
  obtain c0 c1 c2 c3 where c: "b64 [b0, b1, b2] = [c0, c1, c2, c3]" and q: "base64_decode_quad [c0, c1, c2, c3] = Some [b0, b1, b2]"
    using quad_full [of b0 b1 b2] by (simp add: b64_def Let_def)
  show ?case
    using 1 q unfolding quad_chars [of b0 b1 b2 src] c
    by (subst decode_base64_loop.simps) simp
next
  case 2
  then show ?case by (subst decode_base64_loop.simps) simp
next
  case (3 b0)
  obtain cs where c: "b64 [b0] = cs" "length cs = 4" and q: "base64_decode_quad cs = Some [b0]"
    using quad_one [of b0] by (simp add: b64_def Let_def)
  then have "cs \<noteq> []" by auto
  then show ?case
    using c q by (subst decode_base64_loop.simps) (simp add: decode_base64_loop.simps [of "[]"])
next
  case (4 b0 b1)
  obtain cs where c: "b64 [b0, b1] = cs" "length cs = 4" and q: "base64_decode_quad cs = Some [b0, b1]"
    using quad_two [of b0 b1] by (simp add: b64_def Let_def)
  then have "cs \<noteq> []" by auto
  then show ?case
    using c q by (subst decode_base64_loop.simps) (simp add: decode_base64_loop.simps [of "[]"])
qed

lemma EVP_EncodedLength_eq:
  assumes "n < size_modulus"
  shows "EVP_EncodedLength n =
    (if (n + 2) div 3 * 4 + 1 < size_modulus then Some ((n + 2) div 3 * 4 + 1) else None)"
proof (cases "n + 2 < size_modulus")
  case True
  define k where "k = (n + 2) div 3"
  have k: "k * 3 \<le> n + 2" "n + 2 < (k + 1) * 3" by (simp_all add: k_def)
  have c1: "((n + 2) mod size_modulus < n) = False" and c2: "(n + 2) mod size_modulus div 3 = k"
    using True by (simp_all add: k_def)
  show ?thesis
  proof (cases "k * 4 < size_modulus")
    case True
    then have "k * 4 mod size_modulus = k * 4" by simp
    moreover have "k * 4 + 1 < size_modulus" using True by presburger
    ultimately show ?thesis
      unfolding EVP_EncodedLength_def Let_def c1 c2 k_def [symmetric] by simp
  next
    case False
    then have "k * 4 mod size_modulus = k * 4 - size_modulus"
      using k True by (simp add: le_mod_geq)
    then have "k * 4 mod size_modulus div 4 \<noteq> k" using False by simp
    then show ?thesis
      unfolding EVP_EncodedLength_def Let_def c1 c2 k_def [symmetric] using False by simp
  qed
next
  case False
  then have "(n + 2) mod size_modulus < n" using assms by (simp add: le_mod_geq)
  moreover have "size_modulus div 3 \<le> (n + 2) div 3" using False by (intro div_le_mono) simp
  then have "\<not> (n + 2) div 3 * 4 + 1 < size_modulus" by simp
  ultimately show ?thesis by (simp add: EVP_EncodedLength_def)
qed

section \<open>Streaming encoder\<close>

function full_lines :: "byte list \<Rightarrow> byte list" where
  "full_lines xs = (if 48 \<le> length xs then b64 (take 48 xs) @ [10] @ full_lines (drop 48 xs) else [])"
  by auto
termination by (relation "measure length") auto

function last_line :: "byte list \<Rightarrow> byte list" where
  "last_line xs = (if 48 \<le> length xs then last_line (drop 48 xs) else xs)"
  by auto
termination by (relation "measure length") auto

declare full_lines.simps [simp del] last_line.simps [simp del]

lemma length_last_line: "length (last_line xs) < 48"
  by (induction xs rule: last_line.induct) (subst last_line.simps, simp)

lemma lines_append: "full_lines (full @ rest) = full_lines full @ full_lines rest \<and>
    last_line (full @ rest) = last_line rest" if "length full mod 48 = 0"
  using that
proof (induction full rule: full_lines.induct)
  case (1 xs)
  show ?case
  proof (cases "48 \<le> length xs")
    case True
    then have "length (drop 48 xs) mod 48 = 0" using 1 by (simp add: le_mod_geq)
    then show ?thesis using 1 True
      by (simp add: full_lines.simps [of "xs @ rest"] full_lines.simps [of xs] last_line.simps [of "xs @ rest"])
  next
    case False
    then have "xs = []" using 1 by simp
    then show ?thesis by (simp add: full_lines.simps [of "[]"])
  qed
qed

lemma length_full_lines: "length (full_lines xs) = length xs div 48 * 65"
proof (induction xs rule: full_lines.induct)
  case (1 xs)
  then show ?case by (subst full_lines.simps) (simp add: length_b64 le_div_geq)
qed

lemma encode_lines_eq:
  "w + length xs div 48 * 65 < size_modulus \<Longrightarrow>
    encode_lines out w xs = (out @ full_lines xs, Some (w + length (full_lines xs)), last_line xs)"
proof (induction out w xs rule: encode_lines.induct)
  case (1 out w xs)
  show ?case
  proof (cases "48 \<le> length xs")
    case False
    then show ?thesis
      by (simp add: encode_lines.simps [of out] full_lines.simps [of xs] last_line.simps [of xs] sizeof_ctx_data_def)
  next
    case True
    have l: "length (b64 (take 48 xs)) = 64" using True by (simp add: length_b64)
    have d: "length xs div 48 = Suc (length (drop 48 xs) div 48)" using True by (simp add: le_div_geq)
    then have w: "w + 65 < size_modulus" "w + 65 + length (drop 48 xs) div 48 * 65 < size_modulus"
      using "1.prems" by simp_all
    have IH: "encode_lines (out @ b64 (take 48 xs) @ [10]) (w + 65) (drop 48 xs) =
      ((out @ b64 (take 48 xs) @ [10]) @ full_lines (drop 48 xs),
       Some (w + 65 + length (full_lines (drop 48 xs))), last_line (drop 48 xs))"
      using 1(1) [of "b64 (take 48 xs) @ [0]" 64 "drop 48 xs" "out @ b64 (take 48 xs) @ [10]"] True l w
      by (simp add: sizeof_ctx_data_def EVP_EncodeBlock_eq add.commute [of 65 w] del: length_drop)
    show ?thesis
      using True l w
      by (subst encode_lines.simps)
        (simp add: sizeof_ctx_data_def EVP_EncodeBlock_eq Let_def full_lines.simps [of xs] last_line.simps [of xs] IH [unfolded add.commute [of w 65]])
  qed
qed


text \<open>A context of the encoder that holds the bytes \<open>p\<close> of an unfinished line.\<close>

definition enc_state :: "byte list \<Rightarrow> EVP_ENCODE_CTX \<Rightarrow> bool" where
  "enc_state p ctx \<longleftrightarrow> length (ctx_data ctx) = 48 \<and> data_used ctx = length p \<and> length p < 48 \<and>
     take (length p) (ctx_data ctx) = p"

lemma encode_update:
  assumes s: "enc_state p ctx" and n: "length inp < object_max"
  shows "\<exists>ctx'. EVP_EncodeUpdate ctx inp = (ctx', full_lines (p @ inp),
      if length (full_lines (p @ inp)) > int_max then 0 else length (full_lines (p @ inp))) \<and>
    enc_state (last_line (p @ inp)) ctx'"
proof -
  have l: "length (ctx_data ctx) = 48" "data_used ctx = length p" "length p < 48" "take (length p) (ctx_data ctx) = p"
    using s by (simp_all add: enc_state_def)
  have load: "enc_state q (ctx'\<lparr>ctx_data := blit 0 q (ctx_data ctx'), data_used := length q\<rparr>)"
    if "length (ctx_data ctx') = 48" "length q < 48" for q ctx'
    using that by (simp add: enc_state_def blit_def)
  show ?thesis
  proof (cases "length p + length inp < 48")
    case True
    then have f: "full_lines (p @ inp) = []" "last_line (p @ inp) = p @ inp"
      by (simp_all add: full_lines.simps [of "p @ inp"] last_line.simps [of "p @ inp"])
    have "take (length p + length inp) (blit (length p) inp (ctx_data ctx)) = p @ inp"
      using l True by (simp add: take_blit_append)
    then have "enc_state (p @ inp) (ctx\<lparr>ctx_data := blit (length p) inp (ctx_data ctx), data_used := length p + length inp\<rparr>)"
      using l True by (simp add: enc_state_def)
    moreover have "sizeof_ctx_data - data_used ctx > length inp" using True l by (simp add: sizeof_ctx_data_def)
    moreover have "enc_state (p @ inp) ctx" if "inp = []" using s that by simp
    ultimately show ?thesis
      unfolding f by (cases "length inp = 0") (simp_all add: EVP_EncodeUpdate_def l(2))
  next
    case ge: False
    then have ne: "inp \<noteq> []" and nlt: "\<not> sizeof_ctx_data - data_used ctx > length inp"
      using l by (auto simp: sizeof_ctx_data_def)
    show ?thesis
    proof (cases "p = []")
      case True
      have "length inp div 48 * 65 < size_modulus" using n by simp
      then have e: "encode_lines [] 0 inp = (full_lines inp, Some (length (full_lines inp)), last_line inp)"
        using encode_lines_eq [of 0 inp "[]"] by simp
      show ?thesis
        using e ne nlt True l load [of ctx "last_line inp"] length_last_line [of inp]
        by (auto simp: EVP_EncodeUpdate_def)
    next
      case False
      define todo where "todo = 48 - length p"
      have t: "todo \<le> length inp" "length p + todo = 48" using ge l by (simp_all add: todo_def)
      let ?d = "blit (length p) (take todo inp) (ctx_data ctx)"
      have d: "?d = p @ take todo inp"
        using l t by (simp add: blit_def)
      have first: "full_lines (p @ inp) = b64 (p @ take todo inp) @ [10] @ full_lines (drop todo inp)"
        "last_line (p @ inp) = last_line (drop todo inp)"
        using l t ge by (simp_all add: full_lines.simps [of "p @ inp"] last_line.simps [of "p @ inp"] todo_def)
      have l64: "length (b64 (p @ take todo inp)) = 64" using t by (simp add: length_b64)
      have "65 + length (drop todo inp) div 48 * 65 < size_modulus" using n by simp
      from encode_lines_eq [OF this, of "b64 (p @ take todo inp) @ [10]"]
      have e: "encode_lines (b64 (p @ take todo inp) @ [10]) 65 (drop todo inp) =
          (full_lines (p @ inp), Some (length (full_lines (p @ inp))), last_line (p @ inp))"
        using l64 by (simp add: first)
      define ctx' where "ctx' = ctx\<lparr>ctx_data := p @ take todo inp, data_used := 0\<rparr>"
      have "length (ctx_data ctx') = 48" using l t by (simp add: ctx'_def)
      then show ?thesis
        using e ne nlt False l load [of ctx' "last_line (p @ inp)"] length_last_line [of "p @ inp"] d l64 t
        by (auto simp: EVP_EncodeUpdate_def EVP_EncodeBlock_eq sizeof_ctx_data_def todo_def [symmetric] Let_def ctx'_def)
    qed
  qed
qed

lemma encode_final:
  assumes "enc_state p ctx"
  shows "\<exists>ctx'. EVP_EncodeFinal ctx = (ctx', (if p = [] then [] else b64 p @ [10]),
    if p = [] then 0 else length (b64 p) + 1)"
  using assms by (auto simp: EVP_EncodeFinal_def EVP_EncodeBlock_eq enc_state_def)

text \<open>
  A whole encoding: the pieces one after the other, then the end. The caller takes what the calls report in \<^verbatim>\<open>*out_len\<close>; the result is \<open>None\<close>
  if that is more than they wrote.
\<close>

definition taken :: "byte list \<Rightarrow> nat \<Rightarrow> byte list option" where
  "taken out out_len = (if out_len \<le> length out then Some (take out_len out) else None)"

fun encode_stream :: "EVP_ENCODE_CTX \<Rightarrow> byte list list \<Rightarrow> byte list option" where
  "encode_stream ctx [] = (case EVP_EncodeFinal ctx of (_, out, out_len) \<Rightarrow> taken out out_len)"
| "encode_stream ctx (inp # inps) =
     (case EVP_EncodeUpdate ctx inp of (ctx, out, out_len) \<Rightarrow>
        (case (taken out out_len, encode_stream ctx inps) of (Some xs, Some ys) \<Rightarrow> Some (xs @ ys) | _ \<Rightarrow> None))"

lemma taken_all [simp]: "taken out (length out) = Some out"
  by (simp add: taken_def)

definition pem_lines :: "byte list \<Rightarrow> byte list" where
  "pem_lines src = full_lines src @ (if last_line src = [] then [] else b64 (last_line src) @ [10])"

lemma full_last_append:
  "full_lines (xs @ ys) = full_lines xs @ full_lines (last_line xs @ ys) \<and>
    last_line (xs @ ys) = last_line (last_line xs @ ys)"
proof (induction xs rule: full_lines.induct)
  case (1 xs)
  then show ?case
    by (cases "48 \<le> length xs")
      (simp_all add: full_lines.simps [of "xs @ ys"] full_lines.simps [of xs] last_line.simps [of "xs @ ys"] last_line.simps [of xs])
qed

lemma last_line_last_line: "last_line (last_line xs) = last_line xs" "full_lines (last_line xs) = []"
  using length_last_line [of xs] by (simp_all add: last_line.simps [of "last_line xs"] full_lines.simps [of "last_line xs"])

lemma length_pem_lines:
  "length (full_lines (xs @ ys)) \<le> length (pem_lines (xs @ ys))" "length (full_lines xs) \<le> length (pem_lines (xs @ ys))"
  "length ys \<le> length (pem_lines (xs @ ys))"
proof -
  show more: "length (full_lines (xs @ ys)) \<le> length (pem_lines (xs @ ys))" by (simp add: pem_lines_def)
  have "length (full_lines xs) \<le> length (full_lines (xs @ ys))" using full_last_append [of xs ys] by simp
  with more show "length (full_lines xs) \<le> length (pem_lines (xs @ ys))" by simp
  have last: "length (last_line zs) = length zs mod 48" for zs
    by (induction zs rule: last_line.induct) (subst last_line.simps, simp add: le_mod_geq)
  have "length zs \<le> length (pem_lines zs)" for zs
  proof -
    have "n \<le> Suc (Suc (Suc n) div 3 * 4)" for n :: nat by presburger
    then have "length zs mod 48 \<le> (if last_line zs = [] then 0 else Suc (Suc (Suc (length zs mod 48)) div 3 * 4))"
      using last [of zs] by (cases "last_line zs = []") simp_all
    moreover have "length (pem_lines zs) =
        length zs div 48 * 65 + (if last_line zs = [] then 0 else Suc (Suc (Suc (length zs mod 48)) div 3 * 4))"
      by (simp add: pem_lines_def length_full_lines length_b64 last)
    ultimately show ?thesis using div_mod_decomp [of "length zs" 48] by linarith
  qed
  from this [of "xs @ ys"] show "length ys \<le> length (pem_lines (xs @ ys))" by simp
qed

lemma encode_stream_eq:
  "enc_state p ctx \<Longrightarrow> length (pem_lines (p @ concat inps)) \<le> int_max \<Longrightarrow>
    encode_stream ctx inps = Some (pem_lines (p @ concat inps))"
proof (induction inps arbitrary: p ctx)
  case Nil
  have "length p < 48" using Nil by (simp add: enc_state_def)
  then have "full_lines p = []" "last_line p = p"
    by (simp_all add: full_lines.simps [of p] last_line.simps [of p])
  then show ?case using encode_final [OF Nil(1)] by (auto simp: pem_lines_def taken_def)
next
  case (Cons inp inps)
  have few: "length (full_lines (p @ inp)) \<le> int_max" "length inp \<le> int_max"
    using length_pem_lines(2) [of "p @ inp" "concat inps"] length_pem_lines(3) [of "inp @ concat inps" p] Cons.prems(2) by simp_all
  then have "length inp < object_max" by simp
  from encode_update [OF Cons.prems(1) this] few(1) obtain ctx' where
    u: "EVP_EncodeUpdate ctx inp = (ctx', full_lines (p @ inp), length (full_lines (p @ inp)))"
    and s: "enc_state (last_line (p @ inp)) ctx'" by auto
  have split: "pem_lines (p @ inp @ concat inps) = full_lines (p @ inp) @ pem_lines (last_line (p @ inp) @ concat inps)"
    using full_last_append [of "p @ inp" "concat inps"] by (simp add: pem_lines_def)
  then have "encode_stream ctx' inps = Some (pem_lines (last_line (p @ inp) @ concat inps))"
    using Cons.IH [OF s] Cons.prems(2) by simp
  then show ?case using u split by simp
qed


section \<open>Streaming decoder\<close>

lemma decode_loop_append:
  "decode_update_loop ctx out (xs @ ys) =
    (case decode_update_loop ctx out xs of
       (False, ctx, out) \<Rightarrow> (False, ctx, out)
     | (True, ctx, out) \<Rightarrow> decode_update_loop ctx out ys)"
  by (induction ctx out xs rule: decode_update_loop.induct)
    (auto simp: Let_def split: option.splits prod.splits bool.splits)

lemma decode_loop_out:
  "decode_update_loop ctx out xs =
    (case decode_update_loop ctx [] xs of (ok, ctx, new) \<Rightarrow> (ok, ctx, out @ new))"
proof (induction xs arbitrary: ctx out)
  case Nil
  then show ?case by simp
next
  case (Cons c xs)
  show ?case
    using Cons [of _ out] Cons [of _ "[]"] Cons [of _ "out @ _"]
    by (simp add: Let_def split: option.splits) (subst (1 2) Cons, simp split: prod.splits)
qed

lemma decode_loop_filter:
  "decode_update_loop ctx out xs = decode_update_loop ctx out (filter (\<lambda>c. \<not> is_base64_space c) xs)"
  by (induction ctx out xs rule: decode_update_loop.induct) (auto simp: Let_def split: option.splits)

lemma decode_loop_error:
  "decode_update_loop ctx out xs = (True, ctx', out') \<Longrightarrow> error_encountered ctx' = error_encountered ctx"
  by (induction ctx out xs rule: decode_update_loop.induct)
    (auto simp: Let_def split: option.splits if_splits)

lemma decode_four:
  assumes l: "length (ctx_data ctx) = 48" "data_used ctx = 0" "\<not> eof_seen ctx"
    and ns: "\<forall>c \<in> {c0, c1, c2, c3}. \<not> is_base64_space c"
    and q: "base64_decode_quad [c0, c1, c2, c3] = Some bs"
  shows "\<exists>ctx'. decode_update_loop ctx out (c0 # c1 # c2 # c3 # cs) = decode_update_loop ctx' (out @ bs) cs \<and>
    length (ctx_data ctx') = 48 \<and> data_used ctx' = 0 \<and> eof_seen ctx' = (length bs < 3)"
proof -
  define d where "d = (ctx_data ctx)[0 := c0, Suc 0 := c1, Suc (Suc 0) := c2, Suc (Suc (Suc 0)) := c3]"
  have "d ! 0 = c0" "d ! 1 = c1" "d ! 2 = c2" "d ! 3 = c3" "length d = 48"
    using l(1) by (simp_all add: d_def numeral_2_eq_2 numeral_3_eq_3)
  moreover from this have "base64_decode_quad d = base64_decode_quad [c0, c1, c2, c3]"
    by (simp add: base64_decode_quad_def)
  ultimately have "base64_decode_quad d = Some bs" "length d = 48"
    using q by simp_all
  then show ?thesis
    using l ns by (auto simp: Let_def d_def [symmetric])
qed

lemma b64_chars: "c \<in> set (b64 src) \<Longrightarrow> \<not> is_base64_space c"
  unfolding b64_def
  by (induction src rule: encode_block_loop.induct)
    (auto simp: Let_def case_prod_unfold ascii_to_bin(3), simp_all add: is_base64_space_def)

lemma decode_loop_b64:
  "length (ctx_data ctx) = 48 \<Longrightarrow> data_used ctx = 0 \<Longrightarrow> \<not> eof_seen ctx \<Longrightarrow>
    \<exists>ctx'. decode_update_loop ctx out (b64 src) = (True, ctx', out @ src) \<and> data_used ctx' = 0"
proof (induction src arbitrary: ctx out rule: encode_block_loop.induct)
  case (1 b0 b1 b2 src)
  obtain c0 c1 c2 c3 where c: "b64 [b0, b1, b2] = [c0, c1, c2, c3]" and q: "base64_decode_quad [c0, c1, c2, c3] = Some [b0, b1, b2]"
    using quad_full [of b0 b1 b2] by (simp add: b64_def Let_def)
  have "\<forall>x \<in> {c0, c1, c2, c3}. \<not> is_base64_space x" using b64_chars [of _ "[b0, b1, b2]"] c by auto
  from decode_four [OF "1.prems" this q, of out "b64 src"] obtain ctx' where
    "decode_update_loop ctx out (b64 (b0 # b1 # b2 # src)) = decode_update_loop ctx' (out @ [b0, b1, b2]) (b64 src)"
    "length (ctx_data ctx') = 48" "data_used ctx' = 0" "\<not> eof_seen ctx'"
    unfolding quad_chars [of b0 b1 b2 src] c by auto
  then show ?case using "1.IH" [OF refl, of ctx' "out @ [b0, b1, b2]"] by simp
next
  case 2
  then show ?case by simp
next
  case (3 b0)
  obtain c0 c1 c2 c3 where c: "b64 [b0] = [c0, c1, c2, c3]" and q: "base64_decode_quad [c0, c1, c2, c3] = Some [b0]"
    using quad_one [of b0] by (simp add: b64_def Let_def)
  have "\<forall>x \<in> {c0, c1, c2, c3}. \<not> is_base64_space x" using b64_chars [of _ "[b0]"] c by auto
  from decode_four [OF "3.prems" this q, of out "[]"] show ?case
    unfolding c by (auto simp del: decode_update_loop.simps(2))
next
  case (4 b0 b1)
  obtain c0 c1 c2 c3 where c: "b64 [b0, b1] = [c0, c1, c2, c3]" and q: "base64_decode_quad [c0, c1, c2, c3] = Some [b0, b1]"
    using quad_two [of b0 b1] by (simp add: b64_def Let_def)
  have "\<forall>x \<in> {c0, c1, c2, c3}. \<not> is_base64_space x" using b64_chars [of _ "[b0, b1]"] c by auto
  from decode_four [OF "4.prems" this q, of out "[]"] show ?case
    unfolding c by (auto simp del: decode_update_loop.simps(2))
qed

fun decode_stream :: "EVP_ENCODE_CTX \<Rightarrow> byte list list \<Rightarrow> byte list option" where
  "decode_stream ctx [] = (if EVP_DecodeFinal ctx = 1 then Some [] else None)"
| "decode_stream ctx (inp # inps) =
     (case EVP_DecodeUpdate ctx inp of (r, ctx, out, out_len) \<Rightarrow>
        if r = -1 then None
        else (case (taken out out_len, decode_stream ctx inps) of (Some xs, Some ys) \<Rightarrow> Some (xs @ ys) | _ \<Rightarrow> None))"

lemma decode_stream_eq:
  "decode_update_loop ctx [] (concat inps) = (True, ctx', src) \<Longrightarrow> data_used ctx' = 0 \<Longrightarrow>
    \<not> error_encountered ctx \<Longrightarrow> length src \<le> int_max \<Longrightarrow> decode_stream ctx inps = Some src"
proof (induction inps arbitrary: ctx src)
  case Nil
  then show ?case by (simp add: EVP_DecodeFinal_def)
next
  case (Cons inp inps)
  obtain ok ctx1 out where e: "decode_update_loop ctx [] inp = (ok, ctx1, out)"
    by (cases "decode_update_loop ctx [] inp") auto
  then have ok: ok using Cons.prems(1) by (cases ok) (auto simp: decode_loop_append)
  obtain ok2 ctx2 out2 where e2: "decode_update_loop ctx1 [] (concat inps) = (ok2, ctx2, out2)"
    by (cases "decode_update_loop ctx1 [] (concat inps)") auto
  have 2: "ok2" "ctx2 = ctx'" "src = out @ out2"
    using Cons.prems(1) e ok decode_loop_out [of ctx1 out "concat inps"] e2
    by (auto simp: decode_loop_append)
  have err: "\<not> error_encountered ctx1" using decode_loop_error [of ctx "[]" inp ctx1 out] e ok Cons.prems(3) by simp
  have "decode_stream ctx1 inps = Some out2"
    using Cons.IH [of ctx1 out2] e2 2 Cons.prems err by simp
  then show ?case
    using e ok 2 Cons.prems err by (simp add: EVP_DecodeUpdate_def)
qed

lemma filter_pem: "filter (\<lambda>c. \<not> is_base64_space c) (pem_lines src) = b64 src"
proof -
  have nl: "is_base64_space 10" by (simp add: is_base64_space_def)
  have f: "filter (\<lambda>c. \<not> is_base64_space c) (b64 xs) = b64 xs" for xs
    using b64_chars by (simp add: filter_id_conv)
  have "filter (\<lambda>c. \<not> is_base64_space c) (full_lines src) @ b64 (last_line src) = b64 src"
  proof (induction src rule: full_lines.induct)
    case (1 src)
    show ?case
    proof (cases "48 \<le> length src")
      case True
      have "b64 (take 48 src) @ b64 (drop 48 src) = b64 (take 48 src @ drop 48 src)"
        using True by (intro b64_append [symmetric]) simp
      then show ?thesis
        using 1 True by (simp add: full_lines.simps [of src] last_line.simps [of src] f nl)
    next
      case False
      then show ?thesis by (simp add: full_lines.simps [of src] last_line.simps [of src])
    qed
  qed
  then show ?thesis by (auto simp: pem_lines_def f nl)
qed

lemma decode_stream_pem:
  assumes "filter (\<lambda>c. \<not> is_base64_space c) (concat inps) = b64 src" "length src \<le> int_max"
  shows "decode_stream EVP_DecodeInit inps = Some src"
proof -
  obtain ctx' where "decode_update_loop EVP_DecodeInit [] (concat inps) = (True, ctx', src)" "data_used ctx' = 0"
    using decode_loop_b64 [of EVP_DecodeInit "[]" src] assms(1)
      decode_loop_filter [of EVP_DecodeInit "[]" "concat inps"]
    by (auto simp: EVP_DecodeInit_def sizeof_ctx_data_def)
  then show ?thesis
    using assms(2) by (intro decode_stream_eq) (simp_all add: EVP_DecodeInit_def)
qed

section \<open>Properties\<close>

text \<open>Decoding inverts encoding: for every input, \<^verbatim>\<open>EVP_EncodeBlock\<close> writes the number of characters
  that it returns, and \<^verbatim>\<open>EVP_DecodeBase64\<close>, given room for three bytes in place of four characters,
  accepts them and returns exactly the input.\<close>

theorem base64_block_round_trip:
  assumes "EVP_EncodeBlock src = (txt, n)" and "n div 4 * 3 \<le> max_out"
  shows "EVP_DecodeBase64 max_out (take n txt) [] = (Some (length src), src)"
proof -
  have n: "n = length (b64 src)" "take n txt = b64 src" using assms(1) by (auto simp: EVP_EncodeBlock_eq)
  then show ?thesis
    using assms(2) decode_block_loop [of src "[]"]
    by (simp add: EVP_DecodeBase64_def EVP_DecodedLength_def length_b64)
qed

lemma base64_block_round_trip_witness:
  "EVP_DecodeBase64 6 (take (snd (EVP_EncodeBlock [1, 2, 3, 4])) (fst (EVP_EncodeBlock [1, 2, 3, 4]))) [] =
    (Some 4, [1, 2, 3, 4])"
  using base64_block_round_trip [of "[1, 2, 3, 4]" "fst (EVP_EncodeBlock [1, 2, 3, 4])" "snd (EVP_EncodeBlock [1, 2, 3, 4])" 6]
  by (simp add: EVP_EncodeBlock_eq length_b64)

text \<open>\<^verbatim>\<open>EVP_EncodedLength\<close> is exact: it returns the size of what \<^verbatim>\<open>EVP_EncodeBlock\<close> writes, with its
  terminating zero, and fails exactly when that size does not fit in a \<^verbatim>\<open>size_t\<close>.\<close>

theorem encoded_length_exact:
  assumes "length src < size_modulus"
  shows "EVP_EncodedLength (length src) =
    (if length (fst (EVP_EncodeBlock src)) < size_modulus then Some (length (fst (EVP_EncodeBlock src))) else None)"
  using assms by (simp add: EVP_EncodedLength_eq EVP_EncodeBlock_eq length_b64)

lemma encoded_length_exact_witness: "EVP_EncodedLength (length [1, 2, 3, 4 :: byte]) = Some 9"
  using encoded_length_exact [of "[1, 2, 3, 4]"] by (simp add: EVP_EncodeBlock_eq length_b64)

text \<open>C23: The streaming interface does not depend on how the data is cut into pieces: a caller of
  \<^verbatim>\<open>EVP_EncodeUpdate\<close> and \<^verbatim>\<open>EVP_EncodeFinal\<close> who takes from every call the characters that \<^verbatim>\<open>*out_len\<close> reports gets the text of the whole
  data in lines of 64 characters, and feeding that text in any pieces to \<^verbatim>\<open>EVP_DecodeUpdate\<close> and \<^verbatim>\<open>EVP_DecodeFinal\<close>, and taking what they
  report, yields the data again. The text has at most \<^verbatim>\<open>INT_MAX\<close> characters: \<^verbatim>\<open>*out_len\<close> is an \<^verbatim>\<open>int\<close>, and a call that writes more reports 0.\<close>

theorem base64_stream_round_trip:
  assumes "length (pem_lines (concat inps)) \<le> int_max"
  shows "encode_stream EVP_EncodeInit inps = Some (pem_lines (concat inps)) \<and>
    (concat pieces = pem_lines (concat inps) \<longrightarrow> decode_stream EVP_DecodeInit pieces = Some (concat inps))"
proof -
  have "enc_state [] EVP_EncodeInit" by (simp add: enc_state_def EVP_EncodeInit_def sizeof_ctx_data_def)
  from encode_stream_eq [OF this] have e: "encode_stream EVP_EncodeInit inps = Some (pem_lines (concat inps))" using assms by simp
  have "length (concat inps) \<le> int_max" using length_pem_lines(3) [of "concat inps" "[]"] assms by simp
  then show ?thesis
    using e decode_stream_pem [of pieces "concat inps"] by (simp add: filter_pem)
qed

lemma base64_stream_round_trip_witness:
  "\<exists>txt. encode_stream EVP_EncodeInit [[1, 2], [3, 4, 5]] = Some txt \<and>
    decode_stream EVP_DecodeInit (map (\<lambda>c. [c]) txt) = Some [1, 2, 3, 4, 5] \<and> length txt = 9"
proof -
  have c: "concat (map (\<lambda>c. [c]) xs) = xs" for xs :: "byte list" by (induction xs) simp_all
  have l: "length (pem_lines [1, 2, 3, 4, 5]) = 9"
    by (simp add: pem_lines_def full_lines.simps [of "[1, 2, 3, 4, 5]"] last_line.simps [of "[1, 2, 3, 4, 5]"] length_b64)
  then have "length (pem_lines (concat [[1, 2], [3, 4, 5]])) \<le> int_max" by simp
  from base64_stream_round_trip [OF this, of "map (\<lambda>c. [c]) (pem_lines [1, 2, 3, 4, 5])"] l c show ?thesis by simp
qed

text \<open>The constant-time conversions compute the alphabet: \<^verbatim>\<open>conv_bin2ascii\<close> looks up its six low bits in the
  base64 alphabet, without a table, and \<^verbatim>\<open>base64_ascii_to_bin\<close> inverts it.\<close>

theorem constant_time_alphabet:
  "conv_bin2ascii a = base64_alphabet ! (unat a mod 64) \<and>
    base64_ascii_to_bin (base64_alphabet ! (unat a mod 64)) = a AND 0x3f"
  using conv_bin2ascii_eq [of a] ascii_to_bin(1) [of a] by simp

end
