(* ===== verification/Mem.thy ===== *)
theory Mem
  imports Prelude
begin

text \<open>
  The allocator wrappers and the string and memory helpers of \<^verbatim>\<open>crypto/mem.c\<close>.

  \<^item> libc's \<^verbatim>\<open>malloc\<close> is not part of the repository: it is the parameter \<open>m\<close>, a function
    from the requested size to \<open>None\<close> (the NULL pointer) or the bytes of the new block, whose
    contents are indeterminate. What is relied on is \<open>malloc_ok\<close>: a block that is returned
    has the requested size, which is at most \<^verbatim>\<open>PTRDIFF_MAX\<close>. The function stands for the answers during
    one call; an operation that has to undo one allocation when another of the same size fails
    takes one such parameter for each of them.
  \<^item> A block of \<^verbatim>\<open>OPENSSL_malloc\<close> carries the size that was asked for in a hidden prefix:
    it is the pair of that size and of the usable bytes.
  \<^item> A C string is the list of the bytes of the object it points into; reading stops at the
    first zero byte.
\<close>

type_synonym libc_malloc = "nat \<Rightarrow> byte list option"
type_synonym block = "nat \<times> byte list"

definition malloc_ok :: "libc_malloc \<Rightarrow> bool" where
  "malloc_ok m \<longleftrightarrow> (\<forall>n bs. m n = Some bs \<longrightarrow> length bs = n \<and> n < object_max)"

definition OPENSSL_MALLOC_PREFIX :: nat where
  "OPENSSL_MALLOC_PREFIX = 8"

definition OPENSSL_malloc :: "libc_malloc \<Rightarrow> nat \<Rightarrow> block option" where
  "OPENSSL_malloc m n =
     (case m ((n + OPENSSL_MALLOC_PREFIX) mod size_modulus) of
        None \<Rightarrow> None
      | Some ptr \<Rightarrow> Some (n, drop OPENSSL_MALLOC_PREFIX ptr))"

definition OPENSSL_realloc :: "libc_malloc \<Rightarrow> block option \<Rightarrow> nat \<Rightarrow> block option" where
  "OPENSSL_realloc m orig_ptr new_sz =
     (case orig_ptr of
        None \<Rightarrow> OPENSSL_malloc m new_sz
      | Some (old_sz, old) \<Rightarrow>
          (case OPENSSL_malloc m new_sz of
             None \<Rightarrow> None
           | Some (sz, ret) \<Rightarrow>
               (let to_copy = (if old_sz < new_sz then old_sz else new_sz)
                in Some (sz, blit 0 (take to_copy old) ret))))"

definition OPENSSL_memdup :: "libc_malloc \<Rightarrow> byte list \<Rightarrow> byte list option" where
  "OPENSSL_memdup m data =
     (if length data = 0 then None
      else case OPENSSL_malloc m (length data) of
        None \<Rightarrow> None
      | Some (_, ret) \<Rightarrow> Some (blit 0 data ret))"

text \<open>The accumulator of \<^verbatim>\<open>CRYPTO_memcmp\<close>; the second list must be at least as long as the
  first \<open>len\<close> bytes the loop reads.\<close>

definition CRYPTO_memcmp :: "byte list \<Rightarrow> byte list \<Rightarrow> nat \<Rightarrow> byte" where
  "CRYPTO_memcmp a b len = foldl (\<lambda>x i. x OR (a ! i XOR b ! i)) 0 [0..<len]"

definition OPENSSL_hash32 :: "byte list \<Rightarrow> u32" where
  "OPENSSL_hash32 ptr = foldl (\<lambda>h b. (h XOR ucast b) * 16777619) 2166136261 ptr"

fun OPENSSL_strnlen :: "byte list \<Rightarrow> nat \<Rightarrow> nat" where
  "OPENSSL_strnlen s 0 = 0"
| "OPENSSL_strnlen [] (Suc len) = 0"
| "OPENSSL_strnlen (c # s) (Suc len) = (if c = 0 then 0 else Suc (OPENSSL_strnlen s len))"

definition strlen :: "byte list \<Rightarrow> nat" where
  "strlen s = length (takeWhile (\<lambda>c. c \<noteq> 0) s)"

definition OPENSSL_strdup :: "libc_malloc \<Rightarrow> byte list option \<Rightarrow> byte list option" where
  "OPENSSL_strdup m s =
     (case s of
        None \<Rightarrow> None
      | Some s \<Rightarrow>
          (let len = (strlen s + 1) mod size_modulus
           in case OPENSSL_malloc m len of
                None \<Rightarrow> None
              | Some (_, ret) \<Rightarrow> Some (blit 0 (take len s) ret)))"

definition OPENSSL_strndup :: "libc_malloc \<Rightarrow> byte list option \<Rightarrow> nat \<Rightarrow> byte list option" where
  "OPENSSL_strndup m str n =
     (case str of
        None \<Rightarrow> None
      | Some str \<Rightarrow>
          (let n = OPENSSL_strnlen str n;
               alloc_sz = (n + 1) mod size_modulus
           in if alloc_sz < n then None
              else case OPENSSL_malloc m alloc_sz of
                None \<Rightarrow> None
              | Some (_, ret) \<Rightarrow> Some (blit 0 (take n str @ [0]) ret)))"

text \<open>Characters are signed on the target, so bytes from 128 up compare as negative numbers.\<close>

definition OPENSSL_tolower :: "int \<Rightarrow> int" where
  "OPENSSL_tolower c = (if 65 \<le> c \<and> c \<le> 90 then c + (97 - 65) else c)"

fun OPENSSL_strcasecmp :: "byte list \<Rightarrow> byte list \<Rightarrow> int" where
  "OPENSSL_strcasecmp (a # as) (b # bs) =
     (let aa = OPENSSL_tolower (sint a); bb = OPENSSL_tolower (sint b)
      in if aa < bb then -1
         else if aa > bb then 1
         else if aa = 0 then 0
         else OPENSSL_strcasecmp as bs)"
| "OPENSSL_strcasecmp as bs = 0"

fun OPENSSL_strncasecmp :: "byte list \<Rightarrow> byte list \<Rightarrow> nat \<Rightarrow> int" where
  "OPENSSL_strncasecmp as bs 0 = 0"
| "OPENSSL_strncasecmp (a # as) (b # bs) (Suc n) =
     (let aa = OPENSSL_tolower (sint a); bb = OPENSSL_tolower (sint b)
      in if aa < bb then -1
         else if aa > bb then 1
         else if aa = 0 then 0
         else OPENSSL_strncasecmp as bs n)"
| "OPENSSL_strncasecmp as bs (Suc n) = 0"

text \<open>
  \<^verbatim>\<open>OPENSSL_strlcpy\<close> and \<^verbatim>\<open>OPENSSL_strlcat\<close> return the new contents of the array \<open>dst\<close> and
  the returned length. The loop state is what is left of \<open>dst\<close> and \<open>src\<close> behind the
  moving pointers, and the counter \<open>l\<close>.
\<close>

fun strlcpy_loop :: "byte list \<Rightarrow> byte list \<Rightarrow> nat \<Rightarrow> nat \<Rightarrow> byte list \<times> nat" where
  "strlcpy_loop dst src dst_sz l =
     (if dst_sz > 1 \<and> src \<noteq> [] \<and> hd src \<noteq> 0 \<and> dst \<noteq> [] then
        (case strlcpy_loop (tl dst) (tl src) (dst_sz - 1) (l + 1) of
           (rest, n) \<Rightarrow> (hd src # rest, n))
      else (if dst_sz > 0 then blit 0 [0] dst else dst, l + strlen src))"

definition OPENSSL_strlcpy :: "byte list \<Rightarrow> byte list \<Rightarrow> nat \<Rightarrow> byte list \<times> nat" where
  "OPENSSL_strlcpy dst src dst_sz = strlcpy_loop dst src dst_sz 0"

fun OPENSSL_strlcat :: "byte list \<Rightarrow> byte list \<Rightarrow> nat \<Rightarrow> byte list \<times> nat" where
  "OPENSSL_strlcat dst src dst_sz =
     (if dst_sz > 0 \<and> dst \<noteq> [] \<and> hd dst \<noteq> 0 then
        (case OPENSSL_strlcat (tl dst) src (dst_sz - 1) of
           (rest, n) \<Rightarrow> (hd dst # rest, 1 + n))
      else OPENSSL_strlcpy dst src dst_sz)"

declare strlcpy_loop.simps [simp del] OPENSSL_strlcat.simps [simp del]

section \<open>Lemmas\<close>

lemma OPENSSL_malloc_length:
  assumes "malloc_ok m" and "OPENSSL_malloc m n = Some (sz, bs)"
    and "n + OPENSSL_MALLOC_PREFIX < size_modulus"
  shows "sz = n \<and> length bs = n"
  using assms by (auto simp: OPENSSL_malloc_def malloc_ok_def OPENSSL_MALLOC_PREFIX_def
      split: option.splits)

lemma CRYPTO_memcmp_snoc:
  "CRYPTO_memcmp a b (Suc n) = CRYPTO_memcmp a b n OR (a ! n XOR b ! n)"
  by (simp add: CRYPTO_memcmp_def)

lemma CRYPTO_memcmp_0_iff: "CRYPTO_memcmp a b n = 0 \<longleftrightarrow> (\<forall>i<n. a ! i = b ! i)"
proof (induction n)
  case 0
  then show ?case by (simp add: CRYPTO_memcmp_def)
next
  case (Suc n)
  have "CRYPTO_memcmp a b (Suc n) = 0 \<longleftrightarrow> CRYPTO_memcmp a b n = 0 \<and> a ! n XOR b ! n = 0"
    by (simp add: CRYPTO_memcmp_snoc or_eq_0_iff)
  also have "\<dots> \<longleftrightarrow> CRYPTO_memcmp a b n = 0 \<and> a ! n = b ! n"
    by simp
  finally show ?case using Suc by (auto simp: less_Suc_eq)
qed

lemma OPENSSL_strnlen_eq: "OPENSSL_strnlen s n = length (takeWhile (\<lambda>c. c \<noteq> 0) (take n s))"
  by (induction s n rule: OPENSSL_strnlen.induct) auto

section \<open>Properties\<close>

text \<open>The constant-time comparison returns 0 exactly when the two memory areas agree on the
  first \<open>n\<close> bytes.\<close>

theorem memcmp_is_equality:
  assumes "n \<le> length a" and "n \<le> length b"
  shows "CRYPTO_memcmp a b n = 0 \<longleftrightarrow> take n a = take n b"
  using assms by (simp add: CRYPTO_memcmp_0_iff list_eq_iff_nth_eq)

theorem memcmp_is_equality_witness:
  "CRYPTO_memcmp [1, 2, 3] [1, 2, 4] 2 = 0 \<and> CRYPTO_memcmp [1, 2, 3] [1, 2, 4] 3 \<noteq> 0"
  using memcmp_is_equality [of 2 "[1, 2, 3]" "[1, 2, 4]"] memcmp_is_equality [of 3 "[1, 2, 3]" "[1, 2, 4]"]
  by simp

text \<open>\<^verbatim>\<open>OPENSSL_malloc\<close> adds the size of its prefix without a test for wrap-around, so a request for
  the largest size succeeds whenever libc can allocate seven bytes, and the caller gets no usable
  byte at all.\<close>

theorem malloc_prefix_wraps:
  assumes "malloc_ok m" and "m 7 = Some ptr"
  shows "OPENSSL_malloc m (size_modulus - 1) = Some (size_modulus - 1, [])"
  using assms by (simp add: OPENSSL_malloc_def OPENSSL_MALLOC_PREFIX_def malloc_ok_def)

theorem malloc_prefix_wraps_witness:
  "malloc_ok (\<lambda>n. if n < 100 then Some (replicate n 0) else None) \<and>
    OPENSSL_malloc (\<lambda>n. if n < 100 then Some (replicate n 0) else None) (size_modulus - 1) =
      Some (size_modulus - 1, [])"
proof -
  have ok: "malloc_ok (\<lambda>n. if n < 100 then Some (replicate n 0) else None)"
    by (auto simp: malloc_ok_def split: if_splits)
  then show ?thesis
    using malloc_prefix_wraps [OF ok, of "replicate 7 0"] by simp
qed

end
