(* ===== verification/Codec.thy ===== *)
theory Codec
  imports Prelude
begin

text \<open>
  The contract of a wire format: a reader and an encoding. A prefix codec reads back what the
  encoding produced and leaves the rest of the input; an exact codec moreover accepts nothing
  else. The laws a client needs (unique readability, reading a sequence, no other input accepted)
  are proved once here, for every format of the development.
\<close>

text \<open>Reading \<open>n\<close> values one after the other.\<close>

primrec times_act :: "nat \<Rightarrow> ('s, 'a) act \<Rightarrow> ('s, 'a list) act" where
  "times_act 0 f = ret_act []"
| "times_act (Suc n) f = bind_act f (\<lambda>x. bind_act (times_act n f) (\<lambda>xs. ret_act (x # xs)))"

locale prefix_codec =
  fixes dec :: "(byte list, 'a) act" and enc :: "'a \<Rightarrow> byte list" and ok :: "'a \<Rightarrow> bool"
  assumes dec_enc: "ok x \<Longrightarrow> dec (enc x @ rest) = (Some x, rest)"
begin

lemma unique: "ok x \<Longrightarrow> ok y \<Longrightarrow> enc x @ r = enc y @ r' \<Longrightarrow> x = y \<and> r = r'"
  by (metis dec_enc option.inject prod.inject)

lemma enc_inj: "ok x \<Longrightarrow> ok y \<Longrightarrow> enc x = enc y \<longleftrightarrow> x = y"
  by (metis append_Nil2 unique)

lemma dec_whole: "ok x \<Longrightarrow> dec (enc x) = (Some x, [])"
  by (metis append_Nil2 dec_enc)

lemma dec_many: "\<forall>x \<in> set xs. ok x \<Longrightarrow>
    times_act (length xs) dec (concat (map enc xs) @ rest) = (Some xs, rest)"
proof (induction xs)
  case (Cons x xs)
  then have "dec (concat (map enc (x # xs)) @ rest) = (Some x, concat (map enc xs) @ rest)"
    using dec_enc [of x] by simp
  then show ?case using Cons by simp
qed simp

lemma unique_many:
  assumes "\<forall>x \<in> set xs. ok x" "\<forall>y \<in> set ys. ok y" "length xs = length ys"
    "concat (map enc xs) @ r = concat (map enc ys) @ r'"
  shows "xs = ys \<and> r = r'"
  by (metis assms dec_many option.inject prod.inject)

end

locale exact_codec = prefix_codec +
  assumes dec_sound: "dec s = (Some x, rest) \<Longrightarrow> ok x \<and> s = enc x @ rest"
begin

lemma dec_iff: "dec s = (Some x, rest) \<longleftrightarrow> ok x \<and> s = enc x @ rest"
  using dec_enc dec_sound by blast

lemma dec_many_sound:
  "times_act n dec s = (Some xs, rest) \<Longrightarrow>
    length xs = n \<and> (\<forall>x \<in> set xs. ok x) \<and> s = concat (map enc xs) @ rest"
proof (induction n arbitrary: s xs)
  case 0
  then show ?case by simp
next
  case (Suc n)
  then obtain x s' ys where d: "dec s = (Some x, s')" and t: "times_act n dec s' = (Some ys, rest)"
    and xs: "xs = x # ys"
    by (auto simp: bind_act_eq_Some)
  from dec_sound [OF d] Suc.IH [OF t] show ?case by (simp add: xs)
qed

lemma dec_many_iff:
  "times_act n dec s = (Some xs, rest) \<longleftrightarrow>
    length xs = n \<and> (\<forall>x \<in> set xs. ok x) \<and> s = concat (map enc xs) @ rest"
  using dec_many dec_many_sound by blast

lemma dec_none: "fst (dec s) = None \<longleftrightarrow> (\<nexists>x rest. ok x \<and> s = enc x @ rest)"
proof (cases "dec s")
  case (Pair r s')
  show ?thesis
  proof (cases r)
    case None
    then show ?thesis using Pair dec_iff [of s] by auto
  next
    case (Some x)
    then show ?thesis using Pair dec_iff [of s x s'] by auto
  qed
qed

end

end
