(* ===== verification/Cbs.thy ===== *)
theory Cbs
  imports Mem Codec
begin

text \<open>
  \<^verbatim>\<open>CBS\<close>, the byte-string reader of \<^verbatim>\<open>crypto/bytestring/cbs.c\<close>.

  A \<^verbatim>\<open>CBS\<close> is a pointer \<^verbatim>\<open>data\<close> and a length \<^verbatim>\<open>len\<close>; it is modelled by the list of the
  \<^verbatim>\<open>len\<close> bytes that \<^verbatim>\<open>data\<close> points to, so advancing the pointer drops bytes from the front.
  A function that takes \<^verbatim>\<open>CBS *cbs\<close> and returns 1 or 0 is an action on that list: its
  out-parameters are the result, and the list that is left is kept on failure too, since some
  functions advance \<^verbatim>\<open>cbs\<close> before they fail. An ASN.1 tag is the 32-bit \<^verbatim>\<open>unsigned\<close> of the
  code, with class and constructed bit shifted to the top byte.
\<close>

type_synonym CBS = "byte list"

section \<open>Reading bytes and integers\<close>

definition CBS_init :: "byte list \<Rightarrow> nat \<Rightarrow> CBS" where
  "CBS_init data len = take len data"

definition cbs_get :: "nat \<Rightarrow> (CBS, byte list) act" where
  "cbs_get n cbs = (if length cbs < n then (None, cbs) else (Some (take n cbs), drop n cbs))"

definition CBS_skip :: "nat \<Rightarrow> (CBS, unit) act" where
  "CBS_skip len = bind_act (cbs_get len) (\<lambda>dummy. ret_act ())"

definition CBS_data :: "CBS \<Rightarrow> byte list" where
  "CBS_data cbs = cbs"

definition CBS_len :: "CBS \<Rightarrow> nat" where
  "CBS_len cbs = length cbs"

definition CBS_stow :: "libc_malloc \<Rightarrow> CBS \<Rightarrow> (byte list option \<times> nat) option" where
  "CBS_stow m cbs =
     (if CBS_len cbs = 0 then Some (None, 0)
      else case OPENSSL_memdup m (CBS_data cbs) of
        None \<Rightarrow> None
      | Some out_ptr \<Rightarrow> Some (Some out_ptr, CBS_len cbs))"

definition CBS_strdup :: "libc_malloc \<Rightarrow> CBS \<Rightarrow> byte list option" where
  "CBS_strdup m cbs = OPENSSL_strndup m (Some (CBS_data cbs)) (CBS_len cbs)"

definition CBS_contains_zero_byte :: "CBS \<Rightarrow> bool" where
  "CBS_contains_zero_byte cbs = (0 \<in> set cbs)"

definition CBS_mem_equal :: "CBS \<Rightarrow> byte list \<Rightarrow> nat \<Rightarrow> bool" where
  "CBS_mem_equal cbs data len =
     (if len \<noteq> CBS_len cbs then False else CRYPTO_memcmp (CBS_data cbs) data len = 0)"

definition cbs_get_u :: "nat \<Rightarrow> (CBS, u64) act" where
  "cbs_get_u len = bind_act (cbs_get len)
     (\<lambda>data. ret_act (foldl (\<lambda>result b. push_bit 8 result OR ucast b) 0 data))"

definition CBS_get_u8 :: "(CBS, byte) act" where
  "CBS_get_u8 = bind_act (cbs_get 1) (\<lambda>v. ret_act (hd v))"

definition CBS_get_u16 :: "(CBS, u16) act" where
  "CBS_get_u16 = bind_act (cbs_get_u 2) (\<lambda>v. ret_act (ucast v))"

definition CRYPTO_bswap2 :: "u16 \<Rightarrow> u16" where
  "CRYPTO_bswap2 x = (drop_bit 8 x OR push_bit 8 x)"

definition CRYPTO_bswap4 :: "u32 \<Rightarrow> u32" where
  "CRYPTO_bswap4 x =
     (let x = drop_bit 16 x OR push_bit 16 x
      in drop_bit 8 (x AND 0xff00ff00) OR push_bit 8 (x AND 0x00ff00ff))"

definition CRYPTO_bswap8 :: "u64 \<Rightarrow> u64" where
  "CRYPTO_bswap8 x =
     (ucast (CRYPTO_bswap4 (ucast (drop_bit 32 x))) OR
      push_bit 32 (ucast (CRYPTO_bswap4 (ucast x))))"

definition CBS_get_u16le :: "(CBS, u16) act" where
  "CBS_get_u16le = bind_act CBS_get_u16 (\<lambda>out. ret_act (CRYPTO_bswap2 out))"

definition CBS_get_u24 :: "(CBS, u32) act" where
  "CBS_get_u24 = bind_act (cbs_get_u 3) (\<lambda>v. ret_act (ucast v))"

definition CBS_get_u32 :: "(CBS, u32) act" where
  "CBS_get_u32 = bind_act (cbs_get_u 4) (\<lambda>v. ret_act (ucast v))"

definition CBS_get_u32le :: "(CBS, u32) act" where
  "CBS_get_u32le = bind_act CBS_get_u32 (\<lambda>out. ret_act (CRYPTO_bswap4 out))"

definition CBS_get_u64 :: "(CBS, u64) act" where
  "CBS_get_u64 = cbs_get_u 8"

definition CBS_get_u64le :: "(CBS, u64) act" where
  "CBS_get_u64le = bind_act (cbs_get_u 8) (\<lambda>out. ret_act (CRYPTO_bswap8 out))"

definition CBS_get_last_u8 :: "(CBS, byte) act" where
  "CBS_get_last_u8 cbs =
     (if CBS_len cbs = 0 then (None, cbs) else (Some (cbs ! (length cbs - 1)), butlast cbs))"

definition CBS_get_bytes :: "nat \<Rightarrow> (CBS, CBS) act" where
  "CBS_get_bytes len = bind_act (cbs_get len) (\<lambda>v. ret_act (CBS_init v len))"

definition CBS_copy_bytes :: "byte list \<Rightarrow> nat \<Rightarrow> (CBS, byte list) act" where
  "CBS_copy_bytes out len = bind_act (cbs_get len) (\<lambda>v. ret_act (blit 0 v out))"

definition cbs_get_length_prefixed :: "nat \<Rightarrow> (CBS, CBS) act" where
  "cbs_get_length_prefixed len_len =
     bind_act (cbs_get_u len_len) (\<lambda>len. CBS_get_bytes (unat len))"

definition CBS_get_u8_length_prefixed :: "(CBS, CBS) act" where
  "CBS_get_u8_length_prefixed = cbs_get_length_prefixed 1"

definition CBS_get_u16_length_prefixed :: "(CBS, CBS) act" where
  "CBS_get_u16_length_prefixed = cbs_get_length_prefixed 2"

definition CBS_get_u24_length_prefixed :: "(CBS, CBS) act" where
  "CBS_get_u24_length_prefixed = cbs_get_length_prefixed 3"

section \<open>ASN.1 elements\<close>

definition CBS_ASN1_TAG_SHIFT :: nat where "CBS_ASN1_TAG_SHIFT = 24"
definition CBS_ASN1_CONSTRUCTED :: u32 where "CBS_ASN1_CONSTRUCTED = 0x20000000"
definition CBS_ASN1_TAG_NUMBER_MASK :: u32 where "CBS_ASN1_TAG_NUMBER_MASK = 0x1fffffff"
definition CBS_ASN1_BOOLEAN :: u32 where "CBS_ASN1_BOOLEAN = 0x1"
definition CBS_ASN1_INTEGER :: u32 where "CBS_ASN1_INTEGER = 0x2"
definition CBS_ASN1_BITSTRING :: u32 where "CBS_ASN1_BITSTRING = 0x3"
definition CBS_ASN1_OCTETSTRING :: u32 where "CBS_ASN1_OCTETSTRING = 0x4"

lemmas asn1_tag_defs = CBS_ASN1_TAG_SHIFT_def CBS_ASN1_CONSTRUCTED_def
  CBS_ASN1_TAG_NUMBER_MASK_def CBS_ASN1_BOOLEAN_def CBS_ASN1_INTEGER_def
  CBS_ASN1_BITSTRING_def CBS_ASN1_OCTETSTRING_def

text \<open>The \<^verbatim>\<open>do .. while\<close> loop of \<^verbatim>\<open>parse_base128_integer\<close>, with its accumulator \<open>v\<close>.\<close>

fun parse_base128_loop :: "u64 \<Rightarrow> (CBS, u64) act" where
  "parse_base128_loop v [] = (None, [])"
| "parse_base128_loop v (b # cbs) =
     (if drop_bit (64 - 7) v \<noteq> 0 then (None, cbs)
      else if v = 0 \<and> b = 0x80 then (None, cbs)
      else
        (let v = push_bit 7 v OR ucast (b AND 0x7f)
         in if b AND 0x80 \<noteq> 0 then parse_base128_loop v cbs else (Some v, cbs)))"

definition parse_base128_integer :: "(CBS, u64) act" where
  "parse_base128_integer = parse_base128_loop 0"

definition parse_asn1_tag :: "(CBS, u32) act" where
  "parse_asn1_tag =
     bind_act CBS_get_u8 (\<lambda>tag_byte.
       let tag = push_bit CBS_ASN1_TAG_SHIFT (ucast tag_byte AND 0xe0 :: u32);
           tag_number = ucast (tag_byte AND 0x1f) :: u32
       in if tag_number = 0x1f then
            bind_act parse_base128_integer (\<lambda>v.
              if v > ucast CBS_ASN1_TAG_NUMBER_MASK \<or> v < 0x1f then fail_act
              else ret_act (tag OR ucast v))
          else ret_act (tag OR tag_number))"

text \<open>
  The header is read from a copy of \<open>cbs\<close>; \<open>cbs\<close> itself advances only in the final
  \<^verbatim>\<open>CBS_get_bytes\<close>. The result is the element with its header, its tag and the length of the
  header. A caller that passes NULL for an out-parameter ignores that component.
\<close>

definition cbs_get_any_asn1_element :: "bool \<Rightarrow> (CBS, CBS \<times> u32 \<times> nat) act" where
  "cbs_get_any_asn1_element ber_ok cbs =
     (case bind_act parse_asn1_tag (\<lambda>tag. bind_act CBS_get_u8 (\<lambda>length_byte. ret_act (tag, length_byte))) cbs of
        (None, _) \<Rightarrow> (None, cbs)
      | (Some (tag, length_byte), header) \<Rightarrow>
          (let header_len = CBS_len cbs - CBS_len header
           in if length_byte AND 0x80 = 0 then
                (let len = unat length_byte + header_len
                 in bind_act (CBS_get_bytes len) (\<lambda>out. ret_act (out, tag, header_len)) cbs)
              else
                (let num_bytes = unat (length_byte AND 0x7f)
                 in if ber_ok \<and> tag AND CBS_ASN1_CONSTRUCTED \<noteq> 0 \<and> num_bytes = 0 then
                      bind_act (CBS_get_bytes header_len) (\<lambda>out. ret_act (out, tag, header_len)) cbs
                    else if num_bytes = 0 \<or> num_bytes > 4 then (None, cbs)
                    else
                      (case cbs_get_u num_bytes header of
                         (None, _) \<Rightarrow> (None, cbs)
                       | (Some len64, _) \<Rightarrow>
                           if len64 < 128 then (None, cbs)
                           else if drop_bit ((num_bytes - 1) * 8) len64 = 0 then (None, cbs)
                           else
                             (let len = unat len64
                              in if (len + header_len + num_bytes) mod size_modulus < len then (None, cbs)
                                 else bind_act (CBS_get_bytes (len + header_len + num_bytes))
                                        (\<lambda>out. ret_act (out, tag, header_len + num_bytes)) cbs)))))"

definition CBS_get_any_asn1_element :: "(CBS, CBS \<times> u32 \<times> nat) act" where
  "CBS_get_any_asn1_element = cbs_get_any_asn1_element False"

definition CBS_get_any_ber_asn1_element :: "(CBS, CBS \<times> u32 \<times> nat) act" where
  "CBS_get_any_ber_asn1_element = cbs_get_any_asn1_element True"

definition CBS_get_any_asn1 :: "(CBS, CBS \<times> u32) act" where
  "CBS_get_any_asn1 =
     bind_act CBS_get_any_asn1_element (\<lambda>(out, tag, header_len).
       case CBS_skip header_len out of
         (None, _) \<Rightarrow> fail_act
       | (Some _, out) \<Rightarrow> ret_act (out, tag))"

definition cbs_get_asn1 :: "u32 \<Rightarrow> bool \<Rightarrow> (CBS, CBS) act" where
  "cbs_get_asn1 tag_value skip_header =
     bind_act CBS_get_any_asn1_element (\<lambda>(out, tag, header_len).
       if tag \<noteq> tag_value then fail_act
       else if skip_header then
         (case CBS_skip header_len out of
            (None, _) \<Rightarrow> fail_act
          | (Some _, out) \<Rightarrow> ret_act out)
       else ret_act out)"

definition CBS_get_asn1 :: "u32 \<Rightarrow> (CBS, CBS) act" where
  "CBS_get_asn1 tag_value = cbs_get_asn1 tag_value True"

definition CBS_get_asn1_element :: "u32 \<Rightarrow> (CBS, CBS) act" where
  "CBS_get_asn1_element tag_value = cbs_get_asn1 tag_value False"

definition CBS_peek_asn1_tag :: "u32 \<Rightarrow> CBS \<Rightarrow> bool" where
  "CBS_peek_asn1_tag tag_value cbs =
     (if CBS_len cbs < 1 then False else fst (parse_asn1_tag cbs) = Some tag_value)"

section \<open>ASN.1 integers, booleans, optional elements and bit strings\<close>

text \<open>The accumulating loop of \<^verbatim>\<open>CBS_get_asn1_uint64\<close>.\<close>

fun asn1_uint64_loop :: "u64 \<Rightarrow> byte list \<Rightarrow> u64 option" where
  "asn1_uint64_loop out [] = Some out"
| "asn1_uint64_loop out (b # data) =
     (if drop_bit 56 out \<noteq> 0 then None
      else asn1_uint64_loop (push_bit 8 out OR ucast b) data)"

definition asn1_uint64_contents :: "CBS \<Rightarrow> u64 option" where
  "asn1_uint64_contents data =
     (let len = CBS_len data
      in if len = 0 then None
         else if data ! 0 AND 0x80 \<noteq> 0 then None
         else if data ! 0 = 0 \<and> len > 1 \<and> data ! 1 AND 0x80 = 0 then None
         else asn1_uint64_loop 0 data)"

definition CBS_get_asn1_uint64 :: "(CBS, u64) act" where
  "CBS_get_asn1_uint64 =
     bind_act (CBS_get_asn1 CBS_ASN1_INTEGER) (\<lambda>bytes.
       case asn1_uint64_contents bytes of None \<Rightarrow> fail_act | Some out \<Rightarrow> ret_act out)"

text \<open>An \<^verbatim>\<open>int64_t\<close> is kept as its 64 bits; \<open>sint\<close> reads it as a signed number. The union of
  the code is little-endian on the target.\<close>

definition le_u64 :: "byte list \<Rightarrow> u64" where
  "le_u64 bs = foldr (\<lambda>b r. push_bit 8 r OR ucast b) bs 0"

definition asn1_int64_contents :: "CBS \<Rightarrow> u64 option" where
  "asn1_int64_contents data =
     (let len = CBS_len data
      in if len = 0 \<or> len > 8 then None
         else if len > 1 \<and> data ! 0 = 0 \<and> data ! 1 AND 0x80 = 0 then None
         else if len > 1 \<and> data ! 0 = 0xff \<and> data ! 1 AND 0x80 \<noteq> 0 then None
         else
           (let is_negative = (data ! 0 AND 0x80 \<noteq> 0);
                u_bytes = replicate 8 (if is_negative then 0xff else 0)
            in Some (le_u64 (blit 0 (rev data) u_bytes))))"

definition CBS_get_asn1_int64 :: "(CBS, u64) act" where
  "CBS_get_asn1_int64 =
     bind_act (CBS_get_asn1 CBS_ASN1_INTEGER) (\<lambda>bytes.
       case asn1_int64_contents bytes of None \<Rightarrow> fail_act | Some out \<Rightarrow> ret_act out)"

definition CBS_get_asn1_bool :: "(CBS, bool) act" where
  "CBS_get_asn1_bool =
     bind_act (CBS_get_asn1 CBS_ASN1_BOOLEAN) (\<lambda>bytes.
       if CBS_len bytes \<noteq> 1 then fail_act
       else
         (let val = bytes ! 0
          in if val \<noteq> 0 \<and> val \<noteq> 0xff then fail_act else ret_act (val \<noteq> 0)))"

text \<open>The optional element is \<open>None\<close> when \<^verbatim>\<open>*out_present\<close> is set to 0 and \<^verbatim>\<open>*out\<close> is left
  alone.\<close>

definition CBS_get_optional_asn1 :: "u32 \<Rightarrow> (CBS, CBS option) act" where
  "CBS_get_optional_asn1 tag cbs =
     (if CBS_peek_asn1_tag tag cbs then
        bind_act (CBS_get_asn1 tag) (\<lambda>out. ret_act (Some out)) cbs
      else (Some None, cbs))"

text \<open>The results are \<^verbatim>\<open>*out\<close> and \<^verbatim>\<open>*out_present\<close>.\<close>

definition CBS_get_optional_asn1_octet_string :: "u32 \<Rightarrow> (CBS, CBS \<times> bool) act" where
  "CBS_get_optional_asn1_octet_string tag =
     bind_act (CBS_get_optional_asn1 tag) (\<lambda>child.
       case child of
         Some child \<Rightarrow>
           (case CBS_get_asn1 CBS_ASN1_OCTETSTRING child of
              (None, _) \<Rightarrow> fail_act
            | (Some out, child) \<Rightarrow>
                if CBS_len child \<noteq> 0 then fail_act else ret_act (out, True))
       | None \<Rightarrow> ret_act (CBS_init [] 0, False))"

definition CBS_get_optional_asn1_uint64 :: "u32 \<Rightarrow> u64 \<Rightarrow> (CBS, u64) act" where
  "CBS_get_optional_asn1_uint64 tag default_value =
     bind_act (CBS_get_optional_asn1 tag) (\<lambda>child.
       case child of
         Some child \<Rightarrow>
           (case CBS_get_asn1_uint64 child of
              (None, _) \<Rightarrow> fail_act
            | (Some out, child) \<Rightarrow>
                if CBS_len child \<noteq> 0 then fail_act else ret_act out)
       | None \<Rightarrow> ret_act default_value)"

text \<open>\<^verbatim>\<open>int\<close> out-parameter and default: the default may be any integer.\<close>

definition CBS_get_optional_asn1_bool :: "u32 \<Rightarrow> int \<Rightarrow> (CBS, int) act" where
  "CBS_get_optional_asn1_bool tag default_value =
     bind_act (CBS_get_optional_asn1 tag) (\<lambda>child.
       case child of
         Some child \<Rightarrow>
           (case CBS_get_asn1 CBS_ASN1_BOOLEAN child of
              (None, _) \<Rightarrow> fail_act
            | (Some child2, child) \<Rightarrow>
                if CBS_len child2 \<noteq> 1 \<or> CBS_len child \<noteq> 0 then fail_act
                else
                  (let boolean = child2 ! 0
                   in if boolean = 0 then ret_act 0
                      else if boolean = 0xff then ret_act 1
                      else fail_act))
       | None \<Rightarrow> ret_act default_value)"

definition CBS_is_valid_asn1_bitstring :: "CBS \<Rightarrow> bool" where
  "CBS_is_valid_asn1_bitstring cbs =
     (case CBS_get_u8 cbs of
        (None, _) \<Rightarrow> False
      | (Some num_unused_bits, inp) \<Rightarrow>
          if num_unused_bits > 7 then False
          else if num_unused_bits = 0 then True
          else
            (case CBS_get_last_u8 inp of
               (None, _) \<Rightarrow> False
             | (Some last_byte, _) \<Rightarrow>
                 (ucast last_byte :: u32) AND (push_bit (unat num_unused_bits) 1 - 1) = 0))"

definition CBS_asn1_bitstring_has_bit :: "CBS \<Rightarrow> u32 \<Rightarrow> bool" where
  "CBS_asn1_bitstring_has_bit cbs k =
     (if \<not> CBS_is_valid_asn1_bitstring cbs then False
      else
        (let byte_num = unat (drop_bit 3 k + 1);
             bit_num = 7 - unat (k AND 7)
         in byte_num < CBS_len cbs \<and>
            (ucast (CBS_data cbs ! byte_num) :: u32) AND push_bit bit_num 1 \<noteq> 0))"

section \<open>Lemmas: fixed-width integers\<close>

lemma foldl_be_word:
  "foldl (\<lambda>r (b :: byte). push_bit 8 r OR ucast b) 0 bs = (word_of_nat (be_nat bs) :: u64)"
  by (induction bs rule: rev_induct) (simp_all add: push_bit_or_byte)

lemma cbs_get_eq:
  "cbs_get n cbs = (if length cbs < n then (None, cbs) else (Some (take n cbs), drop n cbs))"
  by (simp add: cbs_get_def)

lemma cbs_get_u_eq:
  "cbs_get_u n cbs =
     (if length cbs < n then (None, cbs)
      else (Some (word_of_nat (be_nat (take n cbs))), drop n cbs))"
  by (simp add: cbs_get_u_def cbs_get_def foldl_be_word [simplified] bind_act_def)

lemma CBS_get_u8_Cons [simp]: "CBS_get_u8 (b # cbs) = (Some b, cbs)"
  by (simp add: CBS_get_u8_def cbs_get_def bind_act_def)

lemma CBS_get_u8_Nil [simp]: "CBS_get_u8 [] = (None, [])"
  by (simp add: CBS_get_u8_def cbs_get_def bind_act_def)

lemma CBS_get_u8_eq_Some: "CBS_get_u8 cbs = (Some b, rest) \<longleftrightarrow> cbs = b # rest"
  by (cases cbs) auto

lemma CBS_get_bytes_eq:
  "CBS_get_bytes n cbs = (if length cbs < n then (None, cbs) else (Some (take n cbs), drop n cbs))"
  by (simp add: CBS_get_bytes_def cbs_get_def bind_act_def CBS_init_def)

lemma bind_CBS_get_bytes:
  "bind_act (CBS_get_bytes n) g cbs =
     (if length cbs < n then (None, cbs) else g (take n cbs) (drop n cbs))"
  by (simp add: bind_act_def CBS_get_bytes_eq)

lemma CBS_skip_eq:
  "CBS_skip n cbs = (if length cbs < n then (None, cbs) else (Some (), drop n cbs))"
  by (simp add: CBS_skip_def cbs_get_def bind_act_def)

lemma unat_be_nat:
  assumes "length bs \<le> 8"
  shows "unat (word_of_nat (be_nat bs) :: u64) = be_nat bs"
proof -
  have "be_nat bs < 256 ^ length bs" by (rule be_nat_less)
  also have "\<dots> \<le> 256 ^ 8" using assms by (intro power_increasing) auto
  finally show ?thesis by (simp add: unat_of_nat)
qed

lemma cbs_get_length_prefixed_eq:
  assumes "n \<le> 8"
  shows "cbs_get_length_prefixed n cbs =
     (if length cbs < n then (None, cbs)
      else let len = be_nat (take n cbs); rest = drop n cbs
           in if length rest < len then (None, rest)
              else (Some (take len rest), drop len rest))"
  using assms
  by (simp add: cbs_get_length_prefixed_def cbs_get_u_eq bind_act_def CBS_get_bytes_eq Let_def
      unat_be_nat)

section \<open>Codecs\<close>

lemma nat_be_take:
  assumes "n \<le> length s"
  shows "s = nat_be n (be_nat (take n s)) @ drop n s"
  using nat_be_be_nat [of "take n s"] assms by simp

lemma length_prefixed_codec:
  assumes "n \<le> 8"
  shows "exact_codec (cbs_get_length_prefixed n) (\<lambda>xs. nat_be n (length xs) @ xs) (\<lambda>xs. length xs < 256 ^ n)"
proof
  fix xs rest :: "byte list"
  assume l: "length xs < 256 ^ n"
  then show "cbs_get_length_prefixed n ((nat_be n (length xs) @ xs) @ rest) = (Some xs, rest)"
    using assms by (simp add: cbs_get_length_prefixed_eq be_nat_nat_be)
next
  fix s xs rest
  assume h: "cbs_get_length_prefixed n s = (Some xs, rest)"
  then have l: "n \<le> length s" "be_nat (take n s) \<le> length (drop n s)" "xs = take (be_nat (take n s)) (drop n s)"
    "rest = drop (be_nat (take n s)) (drop n s)"
    using assms by (auto simp: cbs_get_length_prefixed_eq Let_def split: if_splits)
  have n: "length xs = be_nat (take n s)" using l by simp
  have "be_nat (take n s) < 256 ^ n" using be_nat_less [of "take n s"] l(1) by simp
  then show "length xs < 256 ^ n \<and> s = (nat_be n (length xs) @ xs) @ rest"
    using nat_be_take [OF l(1)] n l(3,4) by (metis append.assoc append_take_drop_id)
qed

interpretation u8_prefixed: exact_codec CBS_get_u8_length_prefixed
    "\<lambda>xs. nat_be 1 (length xs) @ xs" "\<lambda>xs. length xs < 256 ^ 1"
  unfolding CBS_get_u8_length_prefixed_def by (rule length_prefixed_codec) simp

interpretation u16_prefixed: exact_codec CBS_get_u16_length_prefixed
    "\<lambda>xs. nat_be 2 (length xs) @ xs" "\<lambda>xs. length xs < 256 ^ 2"
  unfolding CBS_get_u16_length_prefixed_def by (rule length_prefixed_codec) simp

interpretation u24_prefixed: exact_codec CBS_get_u24_length_prefixed
    "\<lambda>xs. nat_be 3 (length xs) @ xs" "\<lambda>xs. length xs < 256 ^ 3"
  unfolding CBS_get_u24_length_prefixed_def by (rule length_prefixed_codec) simp

interpretation u64_codec: exact_codec CBS_get_u64 "\<lambda>v. nat_be 8 (unat v)" "\<lambda>_. True"
proof
  fix v :: u64 and rest
  have "unat v < 256 ^ 8" using unsigned_less [of v, where ?'a = nat] by simp
  then show "CBS_get_u64 (nat_be 8 (unat v) @ rest) = (Some v, rest)"
    by (simp add: CBS_get_u64_def cbs_get_u_eq be_nat_nat_be)
next
  fix s rest and v :: u64
  assume h: "CBS_get_u64 s = (Some v, rest)"
  then have l: "8 \<le> length s" "v = word_of_nat (be_nat (take 8 s))" "rest = drop 8 s"
    by (auto simp: CBS_get_u64_def cbs_get_u_eq split: if_splits)
  then have "unat v = be_nat (take 8 s)" using unat_be_nat [of "take 8 s"] by simp
  then show "True \<and> s = nat_be 8 (unat v) @ rest" using nat_be_take [OF l(1)] l(3) by simp
qed

end
