(* ===== verification/Der.thy ===== *)
theory Der
  imports Cbs
begin

text \<open>
  The encoding rules that the reader and the builder both have to follow, stated as pure
  functions on numbers and byte lists (X.690: base-128 integers, identifier octets, length
  octets, elements), and the proof that the reader of \<^verbatim>\<open>cbs.c\<close> accepts exactly the minimal
  (DER) encodings: it parses every one of them, and whatever it parses is one of them.
\<close>

section \<open>Base-128 integers\<close>

fun b128_hi :: "nat \<Rightarrow> byte list" where
  "b128_hi n = (if n = 0 then [] else b128_hi (n div 128) @ [word_of_nat (128 + n mod 128)])"

declare b128_hi.simps [simp del]

definition base128 :: "nat \<Rightarrow> byte list" where
  "base128 n = b128_hi (n div 128) @ [word_of_nat (n mod 128)]"

lemma b128_hi_0 [simp]: "b128_hi 0 = []"
  by (simp add: b128_hi.simps)

lemma b128_hi_step: "n \<noteq> 0 \<Longrightarrow> b128_hi n = b128_hi (n div 128) @ [word_of_nat (128 + n mod 128)]"
  by (subst b128_hi.simps) simp

lemma base128_not_Nil [simp]: "base128 n \<noteq> []"
  by (simp add: base128_def)

text \<open>One round of the loop of \<^verbatim>\<open>parse_base128_integer\<close>, as arithmetic.\<close>

lemma base128_acc:
  assumes "drop_bit (64 - 7) v = 0"
  shows "unat (push_bit 7 v OR ucast (b AND 0x7f :: byte) :: u64) = unat v * 128 + unat b mod 128"
proof -
  have v: "unat v < 2 ^ 57"
    using assms drop_bit_eq_0_iff_unat [of 57 v] by simp
  have b: "unat (ucast (b AND 0x7f) :: u64) = unat b mod 128"
    by (simp add: unat_ucast_le byte_and_7f)
  show ?thesis
    using unat_push_bit_or [of "ucast (b AND 0x7f) :: u64" 7 v] v by (simp add: b)
qed

lemma parse_base128_step:
  assumes "unat v < 2 ^ 57" and "v \<noteq> 0 \<or> b \<noteq> 0x80"
  shows "parse_base128_loop v (b # cbs) =
    (if 128 \<le> unat b then parse_base128_loop (word_of_nat (unat v * 128 + unat b mod 128)) cbs
     else (Some (word_of_nat (unat v * 128 + unat b)), cbs))"
proof -
  have d: "drop_bit (64 - 7) v = 0"
    using assms(1) by (simp add: drop_bit_eq_0_iff_unat)
  have w: "push_bit 7 v OR ucast (b AND 0x7f) = (word_of_nat (unat v * 128 + unat b mod 128) :: u64)"
    using base128_acc [OF d, of b] by (metis of_nat_unat ucast_id)
  show ?thesis
    using assms(2) d by (auto simp: w byte_and_80_eq_0 byte_and_80 Let_def)
qed

declare parse_base128_loop.simps(2) [simp del]

lemma parse_b128_hi:
  assumes "n < 2 ^ 57"
  shows "parse_base128_loop 0 (b128_hi n @ cbs) = parse_base128_loop (word_of_nat n) cbs"
  using assms
proof (induction n arbitrary: cbs rule: b128_hi.induct)
  case (1 n)
  show ?case
  proof (cases "n = 0")
    case True
    then show ?thesis by simp
  next
    case False
    define b where "b = (word_of_nat (128 + n mod 128) :: byte)"
    have ub: "unat b = 128 + n mod 128"
      unfolding b_def by (rule trans [OF unat_of_nat_byte]) (simp add: mod_less add.commute less_diff_conv)
    have un: "unat (word_of_nat (n div 128) :: u64) = n div 128"
      using 1 by (simp add: unat_of_nat)
    have nz: "(word_of_nat (n div 128) :: u64) \<noteq> 0 \<or> b \<noteq> 0x80"
    proof (cases "n div 128 = 0")
      case True
      then have "n mod 128 \<noteq> 0" using False by (metis div_mult_mod_eq mult_0 add_0)
      then have "unat b \<noteq> unat (0x80 :: byte)" unfolding ub by simp
      then show ?thesis by metis
    next
      case f: False
      then show ?thesis using un by (metis unsigned_0)
    qed
    have "parse_base128_loop 0 (b128_hi n @ cbs) =
        parse_base128_loop (word_of_nat (n div 128)) (b # cbs)"
      using 1 False by (simp add: b128_hi_step b_def [symmetric] del: of_nat_add)
    also have "\<dots> = parse_base128_loop (word_of_nat n) cbs"
      using 1 by (subst parse_base128_step [OF _ nz]) (simp_all add: un ub del: of_nat_add of_nat_mult)
    finally show ?thesis .
  qed
qed

lemma parse_base128:
  assumes "n < 2 ^ 64"
  shows "parse_base128_integer (base128 n @ cbs) = (Some (word_of_nat n), cbs)"
proof -
  let ?b = "word_of_nat (n mod 128) :: byte"
  have ub: "unat ?b = n mod 128" by (simp add: unat_of_nat)
  have lt: "\<not> 128 \<le> unat ?b"
    by (simp add: ub not_le)
  have nb: "?b \<noteq> 0x80"
  proof
    assume "?b = 0x80"
    then have "unat ?b = 128" by simp
    then show False unfolding ub by simp
  qed
  have un: "unat (word_of_nat (n div 128) :: u64) = n div 128"
    using assms by (simp add: unat_of_nat)
  have "parse_base128_integer (base128 n @ cbs) =
      parse_base128_loop (word_of_nat (n div 128)) (?b # cbs)"
    using assms parse_b128_hi [of "n div 128" "?b # cbs"]
    by (simp add: parse_base128_integer_def base128_def)
  also have "\<dots> = (Some (word_of_nat n), cbs)"
    using assms nb lt by (subst parse_base128_step) (simp_all only: un ub if_False, simp_all)
  finally show ?thesis .
qed

lemma parse_base128_loop_sound:
  assumes "parse_base128_loop v cbs = (Some r, rest)"
  shows "b128_hi (unat v) @ cbs = base128 (unat r) @ rest"
  using assms
proof (induction v cbs rule: parse_base128_loop.induct)
  case (1 v)
  then show ?case by simp
next
  case (2 v b cbs)
  let ?w = "push_bit 7 v OR ucast (b AND 0x7f) :: u64"
  from "2.prems" have d: "drop_bit (64 - 7) v = 0" and nz: "\<not> (v = 0 \<and> b = 0x80)"
    by (auto simp: parse_base128_loop.simps split: if_splits)
  have uw: "unat ?w = unat v * 128 + unat b mod 128"
    by (rule base128_acc [OF d])
  show ?case
  proof (cases "b AND 0x80 = 0")
    case True
    then have "unat b < 128" by (simp add: byte_and_80_eq_0)
    moreover have "r = ?w" and "rest = cbs"
      using "2.prems" d nz True by (auto simp: parse_base128_loop.simps Let_def)
    ultimately show ?thesis using uw by (simp add: base128_def)
  next
    case False
    then have b: "128 \<le> unat b" by (simp add: byte_and_80_eq_0)
    have bm: "unat b mod 128 = unat b - 128"
      using b unat_byte_less [of b] by (simp add: le_mod_geq less_diff_conv2)
    have "unat v * 128 + unat b mod 128 \<noteq> 0"
    proof
      assume h: "unat v * 128 + unat b mod 128 = 0"
      then have "v = 0" by (simp add: unat_eq_zero)
      moreover have "unat b = unat (0x80 :: byte)" using h b bm by simp
      ultimately show False using nz by (simp add: word_unat_eq_iff)
    qed
    then have "b128_hi (unat ?w) =
        b128_hi ((unat v * 128 + unat b mod 128) div 128) @
          [word_of_nat (128 + (unat v * 128 + unat b mod 128) mod 128)]"
      unfolding uw by (rule b128_hi_step)
    also have "(unat v * 128 + unat b mod 128) div 128 = unat v"
      by simp
    also have "128 + (unat v * 128 + unat b mod 128) mod 128 = 128 + unat b mod 128"
      by simp
    also have "\<dots> = unat b"
      using b bm by simp
    finally have hi: "b128_hi (unat ?w) = b128_hi (unat v) @ [b]"
      by simp
    have "parse_base128_loop ?w cbs = (Some r, rest)"
      using "2.prems" d nz False by (auto simp: parse_base128_loop.simps Let_def)
    with "2.IH" d nz False have "b128_hi (unat ?w) @ cbs = base128 (unat r) @ rest"
      by simp
    with hi show ?thesis by simp
  qed
qed

lemma parse_base128_sound:
  "parse_base128_integer cbs = (Some r, rest) \<Longrightarrow> cbs = base128 (unat r) @ rest"
  using parse_base128_loop_sound [of 0 cbs r rest] by (simp add: parse_base128_integer_def)

section \<open>Identifier octets\<close>

definition tag_octets :: "u32 \<Rightarrow> byte list" where
  "tag_octets tag =
     (let cls = unat tag div 2 ^ 29 * 32; num = unat tag mod 2 ^ 29
      in if 31 \<le> num then word_of_nat (cls + 31) # base128 num else [word_of_nat (cls + num)])"

lemma byte_and_e0: "unat (ucast (b :: byte) AND 0xe0 :: u32) = unat b div 32 * 32"
proof -
  have "(ucast b AND 0xe0 :: u32) = ucast (b AND 0xe0)"
    by (simp add: unsigned_and_eq)
  moreover have "b AND 0xe0 = b AND NOT (mask 5)"
    by (rule arg_cong [of _ _ "\<lambda>w. b AND w"]) code_simp
  ultimately show ?thesis
    using unat_and_not_mask [of b 5] by (simp add: unat_ucast_le)
qed

lemma byte_and_1f: "unat (ucast ((b :: byte) AND 0x1f) :: u32) = unat b mod 32"
  using unat_and_mask [of b 5] by (simp add: mask_numeral unat_ucast_le)

lemma tag_word:
  assumes "unat num < 2 ^ 29"
  shows "unat (push_bit 24 (ucast (b :: byte) AND 0xe0) OR num :: u32) = unat b div 32 * 2 ^ 29 + unat num"
proof -
  have q: "unat b div 32 < 8" using unat_byte_less [of b] by (simp add: less_mult_imp_div_less)
  have u: "unat (word_of_nat (unat b div 32) :: u32) = unat b div 32"
    using q by (simp add: unat_of_nat)
  have "push_bit 24 (ucast b AND 0xe0 :: u32) = push_bit 29 (word_of_nat (unat b div 32))"
    by (rule word_unat_eq_iff [THEN iffD2], simp only: unat_push_bit byte_and_e0 u, simp add: mult.commute)
  then show ?thesis
    using unat_push_bit_or [of num 29 "word_of_nat (unat b div 32)"] q assms by (simp add: u)
qed

lemma tag_octets_not_Nil [simp]: "tag_octets tag \<noteq> []"
  by (simp add: tag_octets_def Let_def)

lemma tag_split: "unat (tag :: u32) div 2 ^ 29 < 8" "unat tag mod 2 ^ 29 < 2 ^ 29"
  using unsigned_less [of tag, where ?'a = nat] by (simp_all add: less_mult_imp_div_less)

lemma cls_byte:
  assumes "c < 8" and "k < 32"
  shows "unat (word_of_nat (c * 32 + k) :: byte) = c * 32 + k"
  using assms by (subst unat_of_nat_byte) simp

lemma parse_tag_octets: "parse_asn1_tag (tag_octets tag @ cbs) = (Some tag, cbs)"
proof -
  define c n where "c = unat tag div 2 ^ 29" and "n = unat tag mod 2 ^ 29"
  have split: "c < 8" "n < 2 ^ 29" and tag: "unat tag = c * 2 ^ 29 + n"
    using tag_split [of tag] by (simp_all add: c_def n_def)
  have octets: "tag_octets tag =
      (if 31 \<le> n then word_of_nat (c * 32 + 31) # base128 n else [word_of_nat (c * 32 + n)])"
    by (simp add: tag_octets_def Let_def c_def n_def)
  have whole: "tag = push_bit 24 (ucast (b :: byte) AND 0xe0) OR num"
    if "unat b div 32 = c" and "unat num = n" for b num
    using that tag split
    by (intro word_unat_eq_iff [THEN iffD2], subst tag_word) simp_all
  show ?thesis
  proof (cases "31 \<le> n")
    case True
    define b where "b = (word_of_nat (c * 32 + 31) :: byte)"
    have ub: "unat b = c * 32 + 31"
      unfolding b_def using split by (intro cls_byte) simp_all
    have num: "ucast (b AND 0x1f) = (0x1f :: u32)"
      by (rule word_unat_eq_iff [THEN iffD2]) (simp only: byte_and_1f ub, simp)
    have v: "parse_base128_integer (base128 n @ cbs) = (Some (word_of_nat n :: u64), cbs)"
      using split by (intro parse_base128) simp
    have uv: "unat (word_of_nat n :: u64) = n"
      using split by (simp add: unat_of_nat)
    have range: "\<not> (ucast CBS_ASN1_TAG_NUMBER_MASK < (word_of_nat n :: u64) \<or> word_of_nat n < (0x1f :: u64))"
      using True split
      by (simp add: word_less_nat_alt uv CBS_ASN1_TAG_NUMBER_MASK_def)
    have "unat (ucast (word_of_nat n :: u64) :: u32) = n"
      using split by (simp add: unsigned_ucast_eq uv take_bit_nat_eq_self)
    with whole [of b] have "push_bit 24 (ucast b AND 0xe0) OR ucast (word_of_nat n :: u64) = tag"
      using ub by simp
    then show ?thesis
      using True range
      by (simp add: parse_asn1_tag_def octets Let_def b_def [symmetric] num v
          CBS_ASN1_TAG_SHIFT_def del: of_nat_add of_nat_mult)
  next
    case False
    define b where "b = (word_of_nat (c * 32 + n) :: byte)"
    have ub: "unat b = c * 32 + n"
      unfolding b_def using split False by (intro cls_byte) simp_all
    have un: "unat (ucast (b AND 0x1f) :: u32) = n"
      using False by (simp only: byte_and_1f ub) simp
    then have num: "ucast (b AND 0x1f) \<noteq> (0x1f :: u32)"
      using False by auto
    have "push_bit 24 (ucast b AND 0xe0) OR ucast (b AND 0x1f) = tag"
      using whole [of b "ucast (b AND 0x1f)"] un ub False by simp
    then show ?thesis
      using False num
      by (simp add: parse_asn1_tag_def octets Let_def b_def [symmetric]
          CBS_ASN1_TAG_SHIFT_def del: of_nat_add of_nat_mult)
  qed
qed

lemma parse_asn1_tag_sound:
  assumes "parse_asn1_tag cbs = (Some tag, rest)"
  shows "cbs = tag_octets tag @ rest"
proof -
  from assms obtain b cbs' where cbs: "cbs = b # cbs'"
    by (cases cbs) (auto simp: parse_asn1_tag_def bind_act_def)
  have q: "unat b div 32 < 8" using unat_byte_less [of b] by (simp add: less_mult_imp_div_less)
  let ?num = "ucast (b AND 0x1f) :: u32"
  have octets: "tag_octets t = (if 31 \<le> n then word_of_nat (unat b div 32 * 32 + 31) # base128 n else [word_of_nat (unat b div 32 * 32 + n)])"
    if "unat t = unat b div 32 * 2 ^ 29 + n" and "n < 2 ^ 29" for t n
    using that by (simp add: tag_octets_def Let_def)
  show ?thesis
  proof (cases "?num = 0x1f")
    case True
    then have m: "unat b mod 32 = 31"
      using byte_and_1f [of b] by simp
    then have b: "word_of_nat (unat b div 32 * 32 + 31) = b"
      by (metis div_mult_mod_eq of_nat_unat ucast_id)
    from assms True cbs obtain v where v: "parse_base128_integer cbs' = (Some v, rest)"
      and range: "v \<le> ucast CBS_ASN1_TAG_NUMBER_MASK" "0x1f \<le> v"
      and tag: "tag = push_bit 24 (ucast b AND 0xe0) OR ucast v"
      by (auto simp: parse_asn1_tag_def bind_act_def CBS_ASN1_TAG_SHIFT_def Let_def
          split: prod.splits option.splits if_splits)
    from range have vn: "31 \<le> unat v" "unat v < 2 ^ 29"
      by (simp_all add: word_le_nat_alt CBS_ASN1_TAG_NUMBER_MASK_def)
    then have uv: "unat (ucast v :: u32) = unat v"
      by (simp add: unsigned_ucast_eq take_bit_nat_eq_self)
    have "unat tag = unat b div 32 * 2 ^ 29 + unat v"
      unfolding tag using vn by (subst tag_word) (simp_all add: uv)
    from octets [OF this vn(2)] vn show ?thesis
      using parse_base128_sound [OF v] by (simp add: cbs b del: of_nat_add of_nat_mult)
  next
    case False
    have tag: "tag = push_bit 24 (ucast b AND 0xe0) OR ?num" and rest: "rest = cbs'"
      using False assms cbs by (auto simp: parse_asn1_tag_def bind_act_def CBS_ASN1_TAG_SHIFT_def Let_def)
    have ut: "unat tag = unat b div 32 * 2 ^ 29 + unat b mod 32"
      unfolding tag by (subst tag_word) (simp_all add: byte_and_1f less_trans [of _ 32])
    have "unat b mod 32 \<noteq> 31"
    proof
      assume "unat b mod 32 = 31"
      then have "unat ?num = unat (0x1f :: u32)" by (simp add: byte_and_1f)
      then show False using False by (simp add: word_unat_eq_iff)
    qed
    then have small: "unat b mod 32 < 31"
      using mod_less_divisor [of 32 "unat b"] by linarith
    have b: "word_of_nat (unat b div 32 * 32 + unat b mod 32) = b"
      by (metis div_mult_mod_eq of_nat_unat ucast_id)
    from octets [OF ut] small show ?thesis
      by (simp add: cbs rest b del: of_nat_add of_nat_mult)
  qed
qed

section \<open>Length octets and elements\<close>

definition num_len_bytes :: "nat \<Rightarrow> nat" where
  "num_len_bytes n = (if n < 2 ^ 8 then 1 else if n < 2 ^ 16 then 2 else if n < 2 ^ 24 then 3 else 4)"

definition length_octets :: "nat \<Rightarrow> byte list" where
  "length_octets n =
     (if n < 128 then [word_of_nat n]
      else word_of_nat (128 + num_len_bytes n) # nat_be (num_len_bytes n) n)"

definition der_header :: "u32 \<Rightarrow> nat \<Rightarrow> byte list" where
  "der_header tag n = tag_octets tag @ length_octets n"

definition der_element :: "u32 \<Rightarrow> byte list \<Rightarrow> byte list" where
  "der_element tag contents = der_header tag (length contents) @ contents"

lemma num_len_bytes_range: "1 \<le> num_len_bytes n" "num_len_bytes n \<le> 4"
  by (simp_all add: num_len_bytes_def)

lemma num_len_bytes_bounds:
  assumes "n < 2 ^ 32"
  shows "n < 256 ^ num_len_bytes n" and "128 \<le> n \<Longrightarrow> 256 ^ (num_len_bytes n - 1) \<le> n"
  using assms by (auto simp: num_len_bytes_def)

text \<open>The first length octet of the long form.\<close>

lemma long_form_byte:
  assumes "k < 128"
  shows "unat ((word_of_nat (128 + k) :: byte) AND 0x7f) = k"
    and "(word_of_nat (128 + k) :: byte) AND 0x80 \<noteq> 0"
proof -
  have u: "unat (word_of_nat (128 + k) :: byte) = 128 + k"
    using assms by (subst unat_of_nat_byte) simp
  show "unat ((word_of_nat (128 + k) :: byte) AND 0x7f) = k"
    using assms by (simp only: byte_and_7f u) simp
  show "(word_of_nat (128 + k) :: byte) AND 0x80 \<noteq> 0"
    using assms by (simp only: byte_and_80 u)
qed

lemma num_len_bytes_unique:
  assumes "256 ^ (k - 1) \<le> n" and "n < 256 ^ k" and "1 \<le> k" and "k \<le> 4"
  shows "num_len_bytes n = k"
proof -
  from assms(3,4) consider "k = 1" | "k = 2" | "k = 3" | "k = 4" by linarith
  then show ?thesis using assms(1,2) by cases (simp_all add: num_len_bytes_def)
qed

lemma length_b128_hi: "n < 128 ^ k \<Longrightarrow> length (b128_hi n) \<le> k"
proof (induction k arbitrary: n)
  case 0
  then show ?case by simp
next
  case (Suc k)
  show ?case
  proof (cases "n = 0")
    case True
    then show ?thesis by simp
  next
    case False
    have "n div 128 < 128 ^ k" using Suc.prems by (simp add: less_mult_imp_div_less mult.commute)
    then have "length (b128_hi (n div 128)) \<le> k" by (rule Suc.IH)
    then show ?thesis using False by (simp add: b128_hi_step)
  qed
qed

lemma length_tag_octets: "length (tag_octets tag) \<le> 6"
proof -
  have "unat tag mod 2 ^ 29 div 128 < 128 ^ 4"
    using tag_split(2) [of tag] by (simp add: less_mult_imp_div_less)
  then have "length (b128_hi (unat tag mod 2 ^ 29 div 128)) \<le> 4"
    by (rule length_b128_hi)
  then show ?thesis by (simp add: tag_octets_def Let_def base128_def)
qed

lemma length_length_octets: "length (length_octets n) \<le> 5"
  using num_len_bytes_range [of n] by (simp add: length_octets_def)

text \<open>The reader behind the identifier octets and the first length octet \<open>lb\<close>.\<close>

lemma any_asn1_element_unfold:
  fixes tag :: u32 and lb :: byte and tail :: "byte list"
  defines "s \<equiv> tag_octets tag @ lb # tail" and "hl \<equiv> length (tag_octets tag) + 1"
  shows "cbs_get_any_asn1_element ber_ok s =
    (if lb AND 0x80 = 0 then
       (if length s < unat lb + hl then (None, s)
        else (Some (take (unat lb + hl) s, tag, hl), drop (unat lb + hl) s))
     else
       (let k = unat (lb AND 0x7f) in
        if ber_ok \<and> tag AND CBS_ASN1_CONSTRUCTED \<noteq> 0 \<and> k = 0 then
          (Some (take hl s, tag, hl), drop hl s)
        else if k = 0 \<or> 4 < k \<or> length tail < k then (None, s)
        else
          (let len = be_nat (take k tail) in
           if len < 128 \<or> len < 256 ^ (k - 1) then (None, s)
           else if length s < len + hl + k then (None, s)
           else (Some (take (len + hl + k) s, tag, hl + k), drop (len + hl + k) s))))"
proof -
  have hdr: "bind_act parse_asn1_tag (\<lambda>tag. bind_act CBS_get_u8 (\<lambda>length_byte. ret_act (tag, length_byte))) s
      = (Some (tag, lb), tail)"
    by (simp add: s_def parse_tag_octets)
  have hl: "CBS_len s - CBS_len tail = hl"
    by (simp add: s_def hl_def CBS_len_def)
  have hl_le: "hl \<le> length s" "hl \<le> 7"
    using length_tag_octets [of tag] by (simp_all add: s_def hl_def)
  have len64: "unat (word_of_nat (be_nat (take k tail)) :: u64) = be_nat (take k tail)"
    "be_nat (take k tail) < 2 ^ 32" if "k \<le> 4" for k
  proof -
    show "unat (word_of_nat (be_nat (take k tail)) :: u64) = be_nat (take k tail)"
      using that by (intro unat_be_nat) simp
    have "be_nat (take k tail) < 256 ^ length (take k tail)" by (rule be_nat_less)
    also have "\<dots> \<le> 256 ^ 4" using that by (intro power_increasing) simp_all
    finally show "be_nat (take k tail) < 2 ^ 32" by simp
  qed
  have small: "((word_of_nat (be_nat (take k tail)) :: u64) < 128) = (be_nat (take k tail) < 128)"
    and top: "(drop_bit ((k - 1) * 8) (word_of_nat (be_nat (take k tail)) :: u64) = 0) =
      (be_nat (take k tail) < 256 ^ (k - 1))"
    and wrap: "\<not> (be_nat (take k tail) + hl + k) mod size_modulus < be_nat (take k tail)"
    if "k \<le> 4" for k
  proof -
    show "((word_of_nat (be_nat (take k tail)) :: u64) < 128) = (be_nat (take k tail) < 128)"
      using len64 [OF that] by (simp add: word_less_nat_alt)
    have "(2 :: nat) ^ ((k - 1) * 8) = 256 ^ (k - 1)"
      by (subst mult.commute, subst power_mult) simp
    then show "(drop_bit ((k - 1) * 8) (word_of_nat (be_nat (take k tail)) :: u64) = 0) =
        (be_nat (take k tail) < 256 ^ (k - 1))"
      using len64 [OF that] by (simp add: drop_bit_eq_0_iff_unat)
    show "\<not> (be_nat (take k tail) + hl + k) mod size_modulus < be_nat (take k tail)"
      using len64 [OF that] hl_le that by simp
  qed
  let ?k = "unat (lb AND 0x7f)"
  note unfold = cbs_get_any_asn1_element_def hdr hl Let_def bind_CBS_get_bytes
  consider (short) "lb AND 0x80 = 0"
    | (indef) "lb AND 0x80 \<noteq> 0" "ber_ok \<and> tag AND CBS_ASN1_CONSTRUCTED \<noteq> 0 \<and> ?k = 0"
    | (bad) "lb AND 0x80 \<noteq> 0" "\<not> (ber_ok \<and> tag AND CBS_ASN1_CONSTRUCTED \<noteq> 0 \<and> ?k = 0)"
        "?k = 0 \<or> 4 < ?k"
    | (long) "lb AND 0x80 \<noteq> 0" "0 < ?k" "?k \<le> 4"
    by linarith
  then show ?thesis
  proof cases
    case short
    then show ?thesis by (simp add: unfold)
  next
    case indef
    then show ?thesis using hl_le by (simp add: unfold)
  next
    case bad
    then show ?thesis by (auto simp: unfold)
  next
    case long
    show ?thesis
    proof (cases "length tail < ?k")
      case True
      then show ?thesis using long by (simp add: unfold cbs_get_u_eq)
    next
      case False
      then show ?thesis
        using long small [OF long(3)] top [OF long(3)] wrap [OF long(3)] len64 [OF long(3)]
        by (simp add: unfold cbs_get_u_eq)
    qed
  qed
qed

text \<open>Every DER element whose contents have a 32-bit length is parsed as such.\<close>

lemma parse_der_element:
  assumes "length contents < 2 ^ 32"
  shows "cbs_get_any_asn1_element ber_ok (der_element tag contents @ rest) =
    (Some (der_element tag contents, tag, length (der_header tag (length contents))), rest)"
proof (cases "length contents < 128")
  case True
  define lb where "lb = (word_of_nat (length contents) :: byte)"
  have u: "unat lb = length contents"
    using True unfolding lb_def by (subst unat_of_nat_byte) simp
  have e: "der_element tag contents @ rest = tag_octets tag @ lb # contents @ rest"
    using True by (simp add: der_element_def der_header_def length_octets_def lb_def)
  show ?thesis
    unfolding e any_asn1_element_unfold
    using True by (simp add: byte_and_80_eq_0 u der_element_def der_header_def length_octets_def lb_def [symmetric])
next
  case False
  let ?n = "length contents" and ?k = "num_len_bytes (length contents)"
  define lb where "lb = (word_of_nat (128 + ?k) :: byte)"
  have k: "1 \<le> ?k" "?k \<le> 4" by (rule num_len_bytes_range)+
  have lb: "unat (lb AND 0x7f) = ?k" "lb AND 0x80 \<noteq> 0"
    using k unfolding lb_def by (intro long_form_byte; simp)+
  have be: "be_nat (nat_be ?k ?n) = ?n"
    using num_len_bytes_bounds(1) [OF assms] by (simp add: be_nat_nat_be)
  have lo: "256 ^ (?k - 1) \<le> ?n"
    using num_len_bytes_bounds(2) [OF assms] False by simp
  have e: "der_element tag contents @ rest = tag_octets tag @ lb # nat_be ?k ?n @ contents @ rest"
    using False by (simp add: der_element_def der_header_def length_octets_def lb_def)
  show ?thesis
    unfolding e any_asn1_element_unfold
    using False k lb lo
    by (simp add: Let_def be der_element_def der_header_def length_octets_def lb_def [symmetric]
        del: of_nat_add)
qed

text \<open>Conversely, an element that the DER reader accepts is the DER encoding of its contents.\<close>

lemma any_asn1_element_sound:
  assumes "cbs_get_any_asn1_element False s = (Some (out, tag, h), rest)"
  shows "s = out @ rest \<and> h \<le> length out \<and> out = der_element tag (drop h out) \<and>
    length (drop h out) < 2 ^ 32 \<and> h = length (der_header tag (length (drop h out)))"
proof -
  obtain t s1 where p: "parse_asn1_tag s = (Some t, s1)" and "s1 \<noteq> []"
    using assms
    by (cases "snd (parse_asn1_tag s)")
      (auto simp: cbs_get_any_asn1_element_def bind_act_def split: prod.splits option.splits)
  then obtain lb tail where s: "s = tag_octets t @ lb # tail"
    using parse_asn1_tag_sound [OF p] by (cases s1) auto
  let ?hl = "length (tag_octets t) + 1"
  note u = assms [unfolded s any_asn1_element_unfold, folded s]
  show ?thesis
  proof (cases "lb AND 0x80 = 0")
    case True
    then have lb: "unat lb < 128" by (simp add: byte_and_80_eq_0)
    have out: "out = take (unat lb + ?hl) s" "rest = drop (unat lb + ?hl) s" "tag = t" "h = ?hl"
      and le: "unat lb + ?hl \<le> length s"
      using u True by (auto split: if_splits)
    have d: "drop h out = take (unat lb) tail" and l: "length (drop h out) = unat lb"
      using le unfolding out by (simp_all add: s)
    have hd: "der_header tag (length (drop h out)) = tag_octets t @ [lb]"
      using lb out(3) by (simp only: l) (simp add: der_header_def length_octets_def)
    have "out = tag_octets t @ lb # take (unat lb) tail"
      unfolding out by (simp add: s)
    moreover have "der_element tag (drop h out) = tag_octets t @ lb # take (unat lb) tail"
      by (simp only: der_element_def hd, simp only: d append_Cons append_Nil append_assoc)
    ultimately have el: "out = der_element tag (drop h out)" by simp
    have split: "s = out @ rest" unfolding out by simp
    have "h \<le> length out" using le out(1,4) by simp
    with split el lb l hd out(4) show ?thesis by simp
  next
    case False
    let ?k = "unat (lb AND 0x7f)" and ?len = "be_nat (take (unat (lb AND 0x7f)) tail)"
    have k: "1 \<le> ?k" "?k \<le> 4" "?k \<le> length tail"
      and len: "128 \<le> ?len" "256 ^ (?k - 1) \<le> ?len"
      and le: "?len + ?hl + ?k \<le> length s"
      and out: "out = take (?len + ?hl + ?k) s" "rest = drop (?len + ?hl + ?k) s" "tag = t" "h = ?hl + ?k"
      using u False by (auto simp: Let_def split: if_splits)
    have bound: "?len < 256 ^ ?k"
      using be_nat_less [of "take ?k tail"] k by simp
    have nl: "num_len_bytes ?len = ?k"
      using len bound k by (intro num_len_bytes_unique)
    have nb: "nat_be ?k ?len = take ?k tail"
      using nat_be_be_nat [of "take ?k tail"] k by simp
    have lb: "word_of_nat (128 + ?k) = lb"
    proof -
      have "128 \<le> unat lb" using False by (simp add: byte_and_80_eq_0)
      then have "128 + ?k = unat lb"
        using unat_byte_less [of lb] by (simp add: byte_and_7f le_mod_geq less_diff_conv2)
      then show ?thesis by (metis of_nat_unat ucast_id)
    qed
    have d: "drop h out = take ?len (drop ?k tail)" and l: "length (drop h out) = ?len"
      using le k unfolding out by (simp_all add: s drop_take)
    have hd: "der_header tag (length (drop h out)) = tag_octets t @ lb # take ?k tail"
      using len out(3) by (simp only: l) (simp add: der_header_def length_octets_def nl nb lb del: of_nat_add)
    have "out = tag_octets t @ lb # take ?k tail @ take ?len (drop ?k tail)"
      unfolding out using k by (simp add: s take_add add.commute)
    moreover have "der_element tag (drop h out) = tag_octets t @ lb # take ?k tail @ take ?len (drop ?k tail)"
      by (simp only: der_element_def hd, simp only: d append_Cons append_Nil append_assoc)
    ultimately have el: "out = der_element tag (drop h out)" by simp
    have split: "s = out @ rest" unfolding out by simp
    have "?len < 2 ^ 32"
      using bound power_increasing [OF k(2), of "256 :: nat"] by simp
    moreover have "h \<le> length out" using le out(1,4) by simp
    ultimately show ?thesis using split el l hd out(4) k by simp
  qed
qed

section \<open>Codecs\<close>

interpretation base128_codec: exact_codec parse_base128_integer "\<lambda>v. base128 (unat v)" "\<lambda>_. True"
proof
  fix v :: u64 and rest
  show "parse_base128_integer (base128 (unat v) @ rest) = (Some v, rest)"
    using parse_base128 [of "unat v" rest] unsigned_less [of v, where ?'a = nat] by simp
qed (simp add: parse_base128_sound)

interpretation tag_codec: exact_codec parse_asn1_tag tag_octets "\<lambda>_. True"
  by unfold_locales (use parse_tag_octets parse_asn1_tag_sound in auto)

interpretation der_codec: exact_codec "CBS_get_asn1 tag" "der_element tag" "\<lambda>xs. length xs < 2 ^ 32" for tag
proof
  fix xs rest :: "byte list"
  assume "length xs < 2 ^ 32"
  from parse_der_element [OF this, of False tag rest]
  show "CBS_get_asn1 tag (der_element tag xs @ rest) = (Some xs, rest)"
    by (simp add: CBS_get_asn1_def cbs_get_asn1_def bind_act_def CBS_get_any_asn1_element_def
        der_element_def CBS_skip_eq CBS_len_def)
next
  fix s xs rest
  assume h: "CBS_get_asn1 tag s = (Some xs, rest)"
  then obtain out n where e: "cbs_get_any_asn1_element False s = (Some (out, tag, n), rest)"
    and xs: "xs = drop n out"
    by (auto simp: CBS_get_asn1_def cbs_get_asn1_def bind_act_eq_Some CBS_get_any_asn1_element_def
        CBS_skip_eq split: if_splits)
  from any_asn1_element_sound [OF e] show "length xs < 2 ^ 32 \<and> s = der_element tag xs @ rest"
    using xs by auto
qed

section \<open>Properties\<close>

text \<open>C9: the DER reader accepts exactly the DER encodings: \<^verbatim>\<open>CBS_get_any_asn1_element\<close> succeeds on a
  byte string if and only if it starts with the identifier octets, the minimal length octets and the
  contents of an element; it then returns that element and leaves what follows it.\<close>

theorem der_reader_exact:
  "CBS_get_any_asn1_element s = (Some (out, tag, h), rest) \<longleftrightarrow>
    (\<exists>xs. length xs < 2 ^ 32 \<and> out = der_element tag xs \<and>
      h = length (der_header tag (length xs)) \<and> s = out @ rest)"
  unfolding CBS_get_any_asn1_element_def
proof
  assume "cbs_get_any_asn1_element False s = (Some (out, tag, h), rest)"
  from any_asn1_element_sound [OF this]
  show "\<exists>xs. length xs < 2 ^ 32 \<and> out = der_element tag xs \<and>
      h = length (der_header tag (length xs)) \<and> s = out @ rest"
    by (intro exI [of _ "drop h out"]) simp
next
  assume "\<exists>xs. length xs < 2 ^ 32 \<and> out = der_element tag xs \<and>
      h = length (der_header tag (length xs)) \<and> s = out @ rest"
  then show "cbs_get_any_asn1_element False s = (Some (out, tag, h), rest)"
    using parse_der_element by auto
qed

end
