(* ===== verification/Cbb.thy ===== *)
theory Cbb
  imports Der
begin

text \<open>
  The byte builder of \<^verbatim>\<open>crypto/bytestring/cbb.c\<close>: the shared growing buffer, the tree of
  pending length prefixes, and the operations that append to it.

  \<^item> \<open>cbb_buffer\<close> is \<^verbatim>\<open>struct cbb_buffer_st\<close>; \<open>b_buf\<close> is the whole array, its first \<open>b_len\<close>
    bytes are valid.
  \<^item> A \<^verbatim>\<open>CBB\<close> object is named by a number, its handle. The objects of one builder that have
    not been flushed or discarded form a chain: the top-level object, its \<^verbatim>\<open>child\<close>, the
    child of that one, and so on. The state of a builder is the buffer and this chain. An
    object that is not on the chain has \<^verbatim>\<open>base == NULL\<close>.
  \<^item> A pointer into the buffer that an operation hands out is an index of \<open>b_buf\<close>.
\<close>

section \<open>The buffer\<close>

record cbb_buffer =
  b_buf :: "byte list"
  b_len :: nat
  b_cap :: nat
  b_can_resize :: bool
  b_error :: bool

record cbb =
  c_handle :: nat
  c_offset :: nat
  c_pending_len_len :: nat
  c_pending_is_asn1 :: bool

type_synonym cbb_state = "cbb_buffer \<times> cbb list"

definition cbb_buffer_reserve :: "libc_malloc \<Rightarrow> nat \<Rightarrow> (cbb_buffer, nat) act" where
  "cbb_buffer_reserve m n base =
     (let newlen = (b_len base + n) mod size_modulus
      in if newlen < b_len base then (None, base\<lparr>b_error := True\<rparr>)
         else if b_cap base < newlen then
           (let cap2 = b_cap base * 2 mod size_modulus;
                newcap = (if cap2 < b_cap base \<or> cap2 < newlen then newlen else cap2)
            in if \<not> b_can_resize base then (None, base\<lparr>b_error := True\<rparr>)
               else case OPENSSL_realloc m (Some (b_cap base, b_buf base)) newcap of
                   None \<Rightarrow> (None, base\<lparr>b_error := True\<rparr>)
                 | Some (_, newbuf) \<Rightarrow>
                     (Some (b_len base), base\<lparr>b_buf := newbuf, b_cap := newcap\<rparr>))
         else (Some (b_len base), base))"

definition cbb_buffer_add :: "libc_malloc \<Rightarrow> nat \<Rightarrow> (cbb_buffer, nat) act" where
  "cbb_buffer_add m n =
     bind_act (cbb_buffer_reserve m n) (\<lambda>out base. (Some out, base\<lparr>b_len := b_len base + n\<rparr>))"

text \<open>The loop that writes the \<open>n\<close> low bytes of \<open>v\<close> from the last one backwards, and what is
  left of \<open>v\<close>.\<close>

fun put_be :: "nat \<Rightarrow> nat \<Rightarrow> nat \<Rightarrow> byte list \<Rightarrow> byte list \<times> nat" where
  "put_be 0 pos v buf = (buf, v)"
| "put_be (Suc i) pos v buf = put_be i pos (v div 256) (buf[pos + i := word_of_nat v])"

definition cbb_buffer_add_u :: "libc_malloc \<Rightarrow> u64 \<Rightarrow> nat \<Rightarrow> (cbb_buffer, unit) act" where
  "cbb_buffer_add_u m v len_len =
     (if len_len = 0 then ret_act ()
      else bind_act (cbb_buffer_add m len_len) (\<lambda>pos base.
        case put_be len_len pos (unat v) (b_buf base) of
          (buf, rest) \<Rightarrow>
            if rest \<noteq> 0 then (None, base\<lparr>b_buf := buf, b_error := True\<rparr>)
            else (Some (), base\<lparr>b_buf := buf\<rparr>)))"

section \<open>Flushing\<close>

text \<open>
  How many bytes an ASN.1 length takes, its first byte, and what is left to write after it.
\<close>

definition asn1_len_form :: "nat \<Rightarrow> nat \<times> byte \<times> nat" where
  "asn1_len_form n =
     (if 0xffffff < n then (5, 0x80 OR 4, n)
      else if 0xffff < n then (4, 0x80 OR 3, n)
      else if 0xff < n then (3, 0x80 OR 2, n)
      else if 0x7f < n then (2, 0x80 OR 1, n)
      else (1, word_of_nat n, 0))"

definition cbb_write_prefix :: "nat \<Rightarrow> (cbb_buffer \<times> cbb, unit) act" where
  "cbb_write_prefix n s =
     (case s of (base, child) \<Rightarrow>
        case put_be (c_pending_len_len child) (c_offset child) n (b_buf base) of
          (buf, rest) \<Rightarrow> (if rest \<noteq> 0 then None else Some (), base\<lparr>b_buf := buf\<rparr>, child))"

text \<open>The part of \<^verbatim>\<open>CBB_flush\<close> after the recursive call: the child, which has no child of its own
  any more, gets its length prefix.\<close>

definition cbb_close_child :: "libc_malloc \<Rightarrow> nat \<Rightarrow> (cbb_buffer \<times> cbb, unit) act" where
  "cbb_close_child m child_start s =
     (case s of (base, child) \<Rightarrow>
        let n = b_len base - child_start
        in if c_pending_is_asn1 child then
             if 0xfffffffe < n then (None, base, child)
             else (case asn1_len_form n of (len_len, initial_length_byte, n') \<Rightarrow>
               (case (if len_len \<noteq> 1 then
                        bind_act (cbb_buffer_add m (len_len - 1)) (\<lambda>_ base.
                          (Some (), base\<lparr>b_buf := blit (child_start + (len_len - 1))
                             (take n (drop child_start (b_buf base))) (b_buf base)\<rparr>)) base
                      else (Some (), base)) of
                  (None, base) \<Rightarrow> (None, base, child)
                | (Some _, base) \<Rightarrow>
                    cbb_write_prefix n'
                      (base\<lparr>b_buf := (b_buf base)[c_offset child := initial_length_byte]\<rparr>,
                       child\<lparr>c_offset := c_offset child + 1, c_pending_len_len := len_len - 1\<rparr>)))
           else cbb_write_prefix n (base, child))"

text \<open>
  \<^verbatim>\<open>CBB_flush\<close> of an object whose child is the head of the list, that one's child the next
  element, and so on. On success the child is detached.
\<close>

fun cbb_flush_chain :: "libc_malloc \<Rightarrow> (cbb_state, unit) act" where
  "cbb_flush_chain m (base, []) = (if b_error base then None else Some (), base, [])"
| "cbb_flush_chain m (base, child # below) =
     (if b_error base then (None, base, child # below)
      else if c_pending_len_len child = 0 then (Some (), base, child # below)
      else let child_start = (c_offset child + c_pending_len_len child) mod size_modulus
        in case cbb_flush_chain m (base, below) of
             (None, base, below) \<Rightarrow> (None, base\<lparr>b_error := True\<rparr>, child # below)
           | (Some _, base, below) \<Rightarrow>
               if child_start < c_offset child \<or> b_len base < child_start
               then (None, base\<lparr>b_error := True\<rparr>, child # below)
               else (case cbb_close_child m child_start (base, child) of
                   (None, base, child) \<Rightarrow> (None, base\<lparr>b_error := True\<rparr>, child # below)
                 | (Some _, base, _) \<Rightarrow> (Some (), base, [])))"

text \<open>The chain down to the object \<open>h\<close> and the chain below it.\<close>

fun cbb_find :: "nat \<Rightarrow> cbb list \<Rightarrow> (cbb list \<times> cbb list) option" where
  "cbb_find h [] = None"
| "cbb_find h (c # cs) =
     (if c_handle c = h then Some ([c], cs)
      else case cbb_find h cs of None \<Rightarrow> None | Some (down_to, below) \<Rightarrow> Some (c # down_to, below))"

definition CBB_flush :: "libc_malloc \<Rightarrow> nat \<Rightarrow> (cbb_state, unit) act" where
  "CBB_flush m h s =
     (case s of (base, chain) \<Rightarrow>
        case cbb_find h chain of
          None \<Rightarrow> (None, base, chain)
        | Some (down_to, below) \<Rightarrow>
            (case cbb_flush_chain m (base, below) of
               (r, base, below) \<Rightarrow> (r, base, down_to @ below)))"

section \<open>Creating and finishing a builder\<close>

definition sizeof_cbb_buffer :: nat where
  "sizeof_cbb_buffer = 32"

definition cbb_init :: "libc_malloc \<Rightarrow> nat \<Rightarrow> byte list \<Rightarrow> nat \<Rightarrow> cbb_state option" where
  "cbb_init m h buf cap =
     (case OPENSSL_malloc m sizeof_cbb_buffer of
        None \<Rightarrow> None
      | Some _ \<Rightarrow> Some (\<lparr>b_buf = buf, b_len = 0, b_cap = cap, b_can_resize = True, b_error = False\<rparr>,
          [\<lparr>c_handle = h, c_offset = 0, c_pending_len_len = 0, c_pending_is_asn1 = False\<rparr>]))"

definition CBB_init :: "libc_malloc \<Rightarrow> nat \<Rightarrow> nat \<Rightarrow> cbb_state option" where
  "CBB_init m h initial_capacity =
     (case OPENSSL_malloc m initial_capacity of
        None \<Rightarrow> if 0 < initial_capacity then None else cbb_init m h [] initial_capacity
      | Some (_, buf) \<Rightarrow> cbb_init m h buf initial_capacity)"

definition CBB_init_fixed :: "libc_malloc \<Rightarrow> nat \<Rightarrow> byte list \<Rightarrow> cbb_state option" where
  "CBB_init_fixed m h buf =
     (case cbb_init m h buf (length buf) of
        None \<Rightarrow> None
      | Some (base, chain) \<Rightarrow> Some (base\<lparr>b_can_resize := False\<rparr>, chain))"

text \<open>After the cleanup of the top-level object no object has a base.\<close>

definition CBB_cleanup :: "nat \<Rightarrow> cbb_state \<Rightarrow> cbb_state" where
  "CBB_cleanup h s =
     (case s of (base, chain) \<Rightarrow>
        case chain of [] \<Rightarrow> s
        | root # _ \<Rightarrow> if c_handle root \<noteq> h then s else (base\<lparr>b_buf := []\<rparr>, []))"

text \<open>The two flags say whether \<^verbatim>\<open>out_data\<close> and \<^verbatim>\<open>out_len\<close> are non-NULL; the result is the
  array and the number of its valid bytes.\<close>

definition CBB_finish :: "libc_malloc \<Rightarrow> nat \<Rightarrow> bool \<Rightarrow> bool \<Rightarrow> (cbb_state, byte list \<times> nat) act" where
  "CBB_finish m h out_data out_len s =
     (if \<exists>c \<in> set (drop 1 (snd s)). c_handle c = h then (None, s)
      else case CBB_flush m h s of
        (None, s) \<Rightarrow> (None, s)
      | (Some _, base, chain) \<Rightarrow>
          if b_can_resize base \<and> (\<not> out_data \<or> \<not> out_len) then (None, base, chain)
          else (Some (b_buf base, b_len base), CBB_cleanup h (base\<lparr>b_buf := []\<rparr>, chain)))"

section \<open>Appending\<close>

definition on_buffer :: "(cbb_buffer, 'a) act \<Rightarrow> (cbb_state, 'a) act" where
  "on_buffer f s = (case s of (base, chain) \<Rightarrow> case f base of (r, base) \<Rightarrow> (r, base, chain))"

text \<open>\<open>cbb->child = out_contents\<close> after \<open>out_contents\<close> has been initialised.\<close>

definition cbb_attach :: "nat \<Rightarrow> nat \<Rightarrow> nat \<Rightarrow> nat \<Rightarrow> bool \<Rightarrow> (cbb_state, unit) act" where
  "cbb_attach h out_contents off len_len is_asn1 s =
     (case s of (base, chain) \<Rightarrow>
        case cbb_find h chain of
          None \<Rightarrow> (None, s)
        | Some (down_to, _) \<Rightarrow> (Some (), base, down_to @
            [\<lparr>c_handle = out_contents, c_offset = off, c_pending_len_len = len_len,
              c_pending_is_asn1 = is_asn1\<rparr>]))"

definition cbb_add_length_prefixed :: "libc_malloc \<Rightarrow> nat \<Rightarrow> nat \<Rightarrow> nat \<Rightarrow> (cbb_state, unit) act" where
  "cbb_add_length_prefixed m h out_contents len_len =
     then_act (CBB_flush m h) (bind_act (on_buffer (cbb_buffer_add m len_len)) (\<lambda>offset.
       then_act (on_buffer (\<lambda>base. (Some (), base\<lparr>b_buf := blit offset (replicate len_len 0) (b_buf base)\<rparr>)))
         (cbb_attach h out_contents offset len_len False)))"

definition CBB_add_u8_length_prefixed :: "libc_malloc \<Rightarrow> nat \<Rightarrow> nat \<Rightarrow> (cbb_state, unit) act" where
  "CBB_add_u8_length_prefixed m h out_contents = cbb_add_length_prefixed m h out_contents 1"

definition CBB_add_u16_length_prefixed :: "libc_malloc \<Rightarrow> nat \<Rightarrow> nat \<Rightarrow> (cbb_state, unit) act" where
  "CBB_add_u16_length_prefixed m h out_contents = cbb_add_length_prefixed m h out_contents 2"

definition CBB_add_u24_length_prefixed :: "libc_malloc \<Rightarrow> nat \<Rightarrow> nat \<Rightarrow> (cbb_state, unit) act" where
  "CBB_add_u24_length_prefixed m h out_contents = cbb_add_length_prefixed m h out_contents 3"

definition CBB_add_bytes :: "libc_malloc \<Rightarrow> nat \<Rightarrow> byte list \<Rightarrow> (cbb_state, unit) act" where
  "CBB_add_bytes m h data =
     then_act (CBB_flush m h) (bind_act (on_buffer (cbb_buffer_add m (length data))) (\<lambda>dest.
       on_buffer (\<lambda>base. (Some (), base\<lparr>b_buf := blit dest data (b_buf base)\<rparr>))))"

definition CBB_add_space :: "libc_malloc \<Rightarrow> nat \<Rightarrow> nat \<Rightarrow> (cbb_state, nat) act" where
  "CBB_add_space m h n = then_act (CBB_flush m h) (on_buffer (cbb_buffer_add m n))"

definition CBB_reserve :: "libc_malloc \<Rightarrow> nat \<Rightarrow> nat \<Rightarrow> (cbb_state, nat) act" where
  "CBB_reserve m h n = then_act (CBB_flush m h) (on_buffer (cbb_buffer_reserve m n))"

text \<open>\<^verbatim>\<open>CBB_did_write\<close> reads \<^verbatim>\<open>cbb->base\<close> without a test; an object without a base is undefined
  behaviour there and a failure here.\<close>

definition CBB_did_write :: "nat \<Rightarrow> nat \<Rightarrow> (cbb_state, unit) act" where
  "CBB_did_write h n s =
     (case s of (base, chain) \<Rightarrow>
        case cbb_find h chain of
          None \<Rightarrow> (None, s)
        | Some (_, below) \<Rightarrow>
            (let newlen = (b_len base + n) mod size_modulus
             in if below \<noteq> [] \<or> newlen < b_len base \<or> b_cap base < newlen then (None, s)
                else (Some (), base\<lparr>b_len := newlen\<rparr>, chain)))"

definition cbb_add_u :: "libc_malloc \<Rightarrow> nat \<Rightarrow> u64 \<Rightarrow> nat \<Rightarrow> (cbb_state, unit) act" where
  "cbb_add_u m h v len_len = then_act (CBB_flush m h) (on_buffer (cbb_buffer_add_u m v len_len))"

definition CBB_add_u8 :: "libc_malloc \<Rightarrow> nat \<Rightarrow> byte \<Rightarrow> (cbb_state, unit) act" where
  "CBB_add_u8 m h v = cbb_add_u m h (ucast v) 1"

definition CBB_add_u16 :: "libc_malloc \<Rightarrow> nat \<Rightarrow> u16 \<Rightarrow> (cbb_state, unit) act" where
  "CBB_add_u16 m h v = cbb_add_u m h (ucast v) 2"

definition CBB_add_u16le :: "libc_malloc \<Rightarrow> nat \<Rightarrow> u16 \<Rightarrow> (cbb_state, unit) act" where
  "CBB_add_u16le m h v = CBB_add_u16 m h (CRYPTO_bswap2 v)"

definition CBB_add_u24 :: "libc_malloc \<Rightarrow> nat \<Rightarrow> u32 \<Rightarrow> (cbb_state, unit) act" where
  "CBB_add_u24 m h v = cbb_add_u m h (ucast v) 3"

definition CBB_add_u32 :: "libc_malloc \<Rightarrow> nat \<Rightarrow> u32 \<Rightarrow> (cbb_state, unit) act" where
  "CBB_add_u32 m h v = cbb_add_u m h (ucast v) 4"

definition CBB_add_u32le :: "libc_malloc \<Rightarrow> nat \<Rightarrow> u32 \<Rightarrow> (cbb_state, unit) act" where
  "CBB_add_u32le m h v = CBB_add_u32 m h (CRYPTO_bswap4 v)"

definition CBB_add_u64 :: "libc_malloc \<Rightarrow> nat \<Rightarrow> u64 \<Rightarrow> (cbb_state, unit) act" where
  "CBB_add_u64 m h v = cbb_add_u m h v 8"

definition CBB_add_u64le :: "libc_malloc \<Rightarrow> nat \<Rightarrow> u64 \<Rightarrow> (cbb_state, unit) act" where
  "CBB_add_u64le m h v = CBB_add_u64 m h (CRYPTO_bswap8 v)"

definition CBB_discard_child :: "nat \<Rightarrow> cbb_state \<Rightarrow> cbb_state" where
  "CBB_discard_child h s =
     (case s of (base, chain) \<Rightarrow>
        case cbb_find h chain of
          None \<Rightarrow> s
        | Some (down_to, below) \<Rightarrow>
            (case below of [] \<Rightarrow> s
             | child # _ \<Rightarrow> (base\<lparr>b_len := c_offset child\<rparr>, down_to)))"

text \<open>\<^verbatim>\<open>CBB_data\<close> and \<^verbatim>\<open>CBB_len\<close> of an object without children: the start of its contents in the
  buffer, and how many there are.\<close>

definition cbb_self :: "nat \<Rightarrow> cbb list \<Rightarrow> cbb option" where
  "cbb_self h chain = (case cbb_find h chain of None \<Rightarrow> None | Some (down_to, _) \<Rightarrow> Some (last down_to))"

definition CBB_data :: "nat \<Rightarrow> cbb_state \<Rightarrow> nat option" where
  "CBB_data h s =
     (case cbb_self h (snd s) of None \<Rightarrow> None | Some c \<Rightarrow> Some (c_offset c + c_pending_len_len c))"

definition CBB_len :: "nat \<Rightarrow> cbb_state \<Rightarrow> nat option" where
  "CBB_len h s =
     (case cbb_self h (snd s) of
        None \<Rightarrow> None
      | Some c \<Rightarrow> Some (b_len (fst s) - c_offset c - c_pending_len_len c))"

section \<open>Identifier octets\<close>

fun b128_count :: "nat \<Rightarrow> nat" where
  "b128_count copy = (if 0 < copy then Suc (b128_count (copy div 128)) else 0)"

declare b128_count.simps [simp del]

fun add_base128_bytes :: "libc_malloc \<Rightarrow> nat \<Rightarrow> u64 \<Rightarrow> nat \<Rightarrow> (cbb_state, unit) act" where
  "add_base128_bytes m h v 0 = ret_act ()"
| "add_base128_bytes m h v (Suc i) =
     (let b = ucast (drop_bit (7 * i) v) AND 0x7f;
          b = (if i \<noteq> 0 then b OR 0x80 else b)
      in then_act (CBB_add_u8 m h b) (add_base128_bytes m h v i))"

definition add_base128_integer :: "libc_malloc \<Rightarrow> nat \<Rightarrow> u64 \<Rightarrow> (cbb_state, unit) act" where
  "add_base128_integer m h v =
     (let len_len = b128_count (unat v);
          len_len = (if len_len = 0 then 1 else len_len)
      in add_base128_bytes m h v len_len)"

definition CBB_add_asn1 :: "libc_malloc \<Rightarrow> nat \<Rightarrow> nat \<Rightarrow> u32 \<Rightarrow> (cbb_state, unit) act" where
  "CBB_add_asn1 m h out_contents tag =
     (let tag_bits = ucast (drop_bit CBS_ASN1_TAG_SHIFT tag) AND 0xe0 :: byte;
          tag_number = tag AND CBS_ASN1_TAG_NUMBER_MASK
      in then_act (CBB_flush m h)
        (then_act
          (if 0x1f \<le> tag_number then
             then_act (CBB_add_u8 m h (tag_bits OR 0x1f)) (add_base128_integer m h (ucast tag_number))
           else CBB_add_u8 m h (tag_bits OR ucast tag_number))
          (bind_act (on_buffer (\<lambda>base. (Some (b_len base), base))) (\<lambda>offset.
             then_act (CBB_add_u8 m h 0) (cbb_attach h out_contents offset 1 True)))))"

end
