(* ===== verification/Cbb_Frames.thy ===== *)
theory Cbb_Frames
  imports Cbb
begin

text \<open>
  What the byte builder promises: a stack of open frames, one for each object on the chain, each
  with the kind of its pending length prefix and the bytes written to it so far. An operation on
  an object first closes the frames above it (prefix, then contents, appended to the frame
  below) and then appends to its own frame. The lemmas relate the buffer of \<^verbatim>\<open>cbb.c\<close>, with its
  reserved prefix bytes, shifts and reallocations, to that stack.
\<close>

section \<open>The buffer\<close>

definition buf_ok :: "cbb_buffer \<Rightarrow> bool" where
  "buf_ok b \<longleftrightarrow> length (b_buf b) = b_cap b \<and> b_len b \<le> b_cap b \<and> b_cap b < object_max \<and>
     (b_can_resize b \<longrightarrow> b_cap b + 8 < object_max)"

definition contents :: "cbb_buffer \<Rightarrow> byte list" where
  "contents b = take (b_len b) (b_buf b)"

lemma length_contents: "buf_ok b \<Longrightarrow> length (contents b) = b_len b"
  by (simp add: buf_ok_def contents_def)

text \<open>How the buffer after a successful operation relates to the one before.\<close>

definition grows :: "cbb_buffer \<Rightarrow> cbb_buffer \<Rightarrow> bool" where
  "grows b b' \<longleftrightarrow> buf_ok b' \<and> b_error b' = b_error b \<and> b_can_resize b' = b_can_resize b \<and>
     b_cap b \<le> b_cap b'"

lemma realloc_eq_Some:
  assumes "malloc_ok m" and "OPENSSL_realloc m (Some (length old, old)) n = Some (sz, new)"
    and "length old \<le> n" and "n + 8 < size_modulus"
  shows "length new = n \<and> take (length old) new = old \<and> n + 8 < object_max"
proof -
  from assms(2,4) obtain ptr where ptr: "m (n + 8) = Some ptr"
    and new: "new = blit 0 (take (length old) old) (drop 8 ptr)"
    using assms(3)
    by (auto simp: OPENSSL_realloc_def OPENSSL_malloc_def OPENSSL_MALLOC_PREFIX_def Let_def
        split: option.splits if_splits)
  moreover have "length ptr = n + 8" "n + 8 < object_max"
    using assms(1) ptr by (auto simp: malloc_ok_def)
  ultimately show ?thesis using assms(3) by (simp add: blit_def)
qed

lemma reserve_Some:
  assumes m: "malloc_ok m" and ok: "buf_ok b" and n: "n < object_max"
    and r: "cbb_buffer_reserve m n b = (Some p, b')"
  shows "grows b b' \<and> p = b_len b \<and> b_len b' = b_len b \<and> contents b' = contents b \<and>
    b_len b + n \<le> b_cap b'"
proof (cases "b_len b + n \<le> b_cap b")
  case True
  then have "b_len b + n < size_modulus" using ok by (simp add: buf_ok_def)
  then show ?thesis
    using True r ok by (auto simp: cbb_buffer_reserve_def grows_def Let_def)
next
  case False
  define cap2 where "cap2 = b_cap b * 2 mod size_modulus"
  define newcap where "newcap = (if cap2 < b_cap b \<or> cap2 < b_len b + n then b_len b + n else cap2)"
  have nw: "b_len b + n < size_modulus" using ok n by (simp add: buf_ok_def)
  with r False have resize: "b_can_resize b"
    by (auto simp: cbb_buffer_reserve_def Let_def split: if_splits)
  then have le: "b_cap b + 8 < object_max" "b_len b \<le> b_cap b" "length (b_buf b) = b_cap b"
    using ok by (auto simp: buf_ok_def)
  then have w: "b_len b + n < size_modulus" "cap2 = b_cap b * 2" using n by (simp_all add: cap2_def)
  then have newcap: "newcap + 8 < size_modulus" "b_cap b \<le> newcap" "b_len b + n \<le> newcap"
    using le n False by (auto simp: newcap_def)
  from r False w resize obtain sz new
    where new: "OPENSSL_realloc m (Some (b_cap b, b_buf b)) newcap = Some (sz, new)"
    and b': "b' = b\<lparr>b_buf := new, b_cap := newcap\<rparr>" "p = b_len b"
    by (auto simp: cbb_buffer_reserve_def Let_def newcap_def cap2_def split: if_splits option.splits)
  from realloc_eq_Some [OF m, of "b_buf b" newcap sz new] new newcap le
  have new: "length new = newcap" "take (b_cap b) new = b_buf b" "newcap + 8 < object_max"
    by simp_all
  have "take (b_len b) new = take (b_len b) (take (b_cap b) new)"
    using le by (simp add: min_def)
  then have "contents b' = contents b" using new b' by (simp add: contents_def)
  then show ?thesis
    using new newcap b' ok resize le by (simp add: grows_def buf_ok_def)
qed

lemma reserve_None: "cbb_buffer_reserve m n b = (None, b') \<Longrightarrow> b' = b\<lparr>b_error := True\<rparr>"
  by (auto simp: cbb_buffer_reserve_def Let_def split: if_splits option.splits)

lemma add_Some:
  assumes "malloc_ok m" and "buf_ok b" and "n < object_max"
    and "cbb_buffer_add m n b = (Some p, b')"
  shows "grows b b' \<and> p = b_len b \<and> b_len b' = b_len b + n \<and> take (b_len b) (b_buf b') = contents b"
proof -
  obtain b1 where r: "cbb_buffer_reserve m n b = (Some p, b1)" and b': "b' = b1\<lparr>b_len := b_len b1 + n\<rparr>"
    using assms(4) by (auto simp: cbb_buffer_add_def bind_act_eq_Some)
  from reserve_Some [OF assms(1-3) r] show ?thesis
    unfolding b' by (auto simp: grows_def buf_ok_def contents_def)
qed

lemma add_None: "cbb_buffer_add m n b = (None, b') \<Longrightarrow> b' = b\<lparr>b_error := True\<rparr>"
  by (auto simp: cbb_buffer_add_def bind_act_def split: prod.splits option.splits dest: reserve_None)

lemma put_be_eq:
  "pos + n \<le> length buf \<Longrightarrow> put_be n pos v buf = (blit pos (nat_be n v) buf, v div 256 ^ n)"
proof (induction n arbitrary: v buf)
  case 0
  then show ?case by simp
next
  case (Suc n)
  have "blit pos (nat_be n (v div 256)) (buf[pos + n := word_of_nat v]) =
      blit pos (nat_be n (v div 256) @ [word_of_nat v]) buf"
    using Suc.prems by (simp add: blit_def drop_update_cancel drop_update_swap Cons_nth_drop_Suc [symmetric] del: Cons_nth_drop_Suc)
  with Suc show ?case by (simp add: div_mult2_eq)
qed

text \<open>Writing into the buffer.\<close>

lemma take_blit_after:
  "i + length xs \<le> n \<Longrightarrow> i \<le> length ys \<Longrightarrow> take n (blit i xs ys) = blit i xs (take n ys)"
  by (simp add: blit_def take_drop [symmetric] drop_take)

lemma overwrite:
  assumes "buf_ok b" and "i + length xs \<le> b_len b"
  shows "buf_ok (b\<lparr>b_buf := blit i xs (b_buf b)\<rparr>)"
    and "contents (b\<lparr>b_buf := blit i xs (b_buf b)\<rparr>) = blit i xs (contents b)"
  using assms by (simp_all add: buf_ok_def contents_def take_blit_after)

lemma blit_last: "i + length xs = length ys \<Longrightarrow> blit i xs ys = take i ys @ xs"
  by (simp add: blit_def)


section \<open>Frames\<close>

datatype frame_kind = Fixed_len nat | Asn1_len

fun len_prefix :: "frame_kind \<Rightarrow> nat \<Rightarrow> byte list option" where
  "len_prefix (Fixed_len k) n = (if n < 256 ^ k then Some (nat_be k n) else None)"
| "len_prefix Asn1_len n = (if n \<le> 0xfffffffe then Some (length_octets n) else None)"

definition kind_of :: "cbb \<Rightarrow> frame_kind" where
  "kind_of c = (if c_pending_is_asn1 c then Asn1_len else Fixed_len (c_pending_len_len c))"

definition c_start :: "cbb \<Rightarrow> nat" where
  "c_start c = c_offset c + c_pending_len_len c"

definition cbb_ok :: "cbb \<Rightarrow> bool" where
  "cbb_ok c \<longleftrightarrow> 0 < c_pending_len_len c \<and> (c_pending_is_asn1 c \<longrightarrow> c_pending_len_len c = 1)"

lemma asn1_len_form_eq:
  "n \<le> 0xfffffffe \<Longrightarrow> asn1_len_form n =
     (if n < 128 then (1, word_of_nat n, 0)
      else (1 + num_len_bytes n, word_of_nat (128 + num_len_bytes n), n))"
  by (simp add: asn1_len_form_def num_len_bytes_def)

lemma num_len_bytes_div: "n \<le> 0xfffffffe \<Longrightarrow> n div 256 ^ num_len_bytes n = 0"
  by (simp add: num_len_bytes_def)

lemma write_prefix_eq:
  assumes "buf_ok b" and "c_start c \<le> b_len b"
  shows "cbb_write_prefix n (b, c) =
    (if n div 256 ^ c_pending_len_len c = 0 then Some () else None,
     b\<lparr>b_buf := blit (c_offset c) (nat_be (c_pending_len_len c) n) (b_buf b)\<rparr>, c)"
  using assms by (simp add: cbb_write_prefix_def buf_ok_def c_start_def put_be_eq)

lemma close_fixed:
  assumes ok: "buf_ok b" and c: "\<not> c_pending_is_asn1 c" and le: "c_start c \<le> b_len b"
  shows "cbb_close_child m (c_start c) (b, c) = (Some (), b', c') \<Longrightarrow>
      \<exists>pre. len_prefix (kind_of c) (b_len b - c_start c) = Some pre \<and>
        contents b' = take (c_offset c) (contents b) @ pre @ drop (c_start c) (contents b) \<and> grows b b'"
    and "cbb_close_child m (c_start c) (b, c) = (None, b', c') \<Longrightarrow>
      len_prefix (kind_of c) (b_len b - c_start c) = None"
  using assms overwrite [OF ok, of "c_offset c" "nat_be (c_pending_len_len c) (b_len b - c_start c)"]
  by (auto simp: cbb_close_child_def Let_def write_prefix_eq kind_of_def div_eq_0_iff grows_def
      blit_def c_start_def split: if_splits)

lemma close_asn1_Some:
  assumes m: "malloc_ok m" and ok: "buf_ok b" and c: "c_pending_is_asn1 c" "cbb_ok c"
    and le: "c_start c \<le> b_len b"
    and r: "cbb_close_child m (c_start c) (b, c) = (Some (), b', c')"
  shows "\<exists>pre. len_prefix (kind_of c) (b_len b - c_start c) = Some pre \<and>
        contents b' = take (c_offset c) (contents b) @ pre @ drop (c_start c) (contents b) \<and> grows b b'"
proof -
  let ?n = "b_len b - c_start c" and ?o = "c_offset c" and ?D = "contents b"
  have p: "c_pending_len_len c = 1" and s: "c_start c = ?o + 1"
    using c by (auto simp: cbb_ok_def c_start_def)
  from r c have n: "?n \<le> 0xfffffffe"
    by (auto simp: cbb_close_child_def Let_def split: if_splits)
  have lD: "length ?D = b_len b" by (rule length_contents [OF ok])
  show ?thesis
  proof (cases "?n < 128")
    case True
    have "b' = b\<lparr>b_buf := (b_buf b)[?o := word_of_nat ?n]\<rparr>"
      using r c n True by (simp add: cbb_close_child_def Let_def asn1_len_form_eq cbb_write_prefix_def)
    then have b': "b' = b\<lparr>b_buf := blit ?o [word_of_nat ?n] (b_buf b)\<rparr>"
      using ok le s by (simp add: blit_single buf_ok_def)
    show ?thesis
      using n True overwrite [OF ok, of ?o "[word_of_nat ?n]"] le s
      by (simp add: b' kind_of_def c length_octets_def grows_def blit_def)
  next
    case False
    let ?k = "num_len_bytes ?n"
    have k: "1 \<le> ?k" "?k \<le> 4" by (rule num_len_bytes_range)+
    let ?i = "word_of_nat (128 + ?k) :: byte"
    from r c n False k obtain b1 q where a: "cbb_buffer_add m ?k b = (Some q, b1)"
      and w: "cbb_write_prefix ?n
        (b1\<lparr>b_buf := (blit (c_start c + ?k) (take ?n (drop (c_start c) (b_buf b1))) (b_buf b1))[?o := ?i]\<rparr>,
         c\<lparr>c_offset := ?o + 1, c_pending_len_len := ?k\<rparr>) = (Some (), b', c')"
      by (auto simp: cbb_close_child_def Let_def asn1_len_form_eq bind_act_def
          split: prod.splits option.splits simp del: of_nat_add)
    have g: "grows b b1" "b_len b1 = b_len b + ?k" "take (b_len b) (b_buf b1) = ?D"
      using add_Some [OF m ok _ a] k by auto
    have ok1: "buf_ok b1" using g(1) by (simp add: grows_def)
    have src: "take ?n (drop (c_start c) (b_buf b1)) = drop (c_start c) ?D"
      unfolding g(3) [symmetric] by (simp add: drop_take)
    obtain x where D: "?D = take ?o ?D @ x # drop (c_start c) ?D"
      using id_take_nth_drop [of ?o ?D] le s lD by auto
    define b2 where "b2 = b1\<lparr>b_buf := blit (c_start c + ?k) (drop (c_start c) ?D) (b_buf b1)\<rparr>"
    define b3 where "b3 = b2\<lparr>b_buf := blit ?o [?i] (b_buf b2)\<rparr>"
    have ok2: "buf_ok b2" and c2: "contents b2 = blit (c_start c + ?k) (drop (c_start c) ?D) (contents b1)"
      unfolding b2_def using le g(2) lD by (intro overwrite [OF ok1]; simp)+
    have l2: "b_len b2 = b_len b + ?k" by (simp add: b2_def g(2))
    have ok3: "buf_ok b3" and c3: "contents b3 = blit ?o [?i] (contents b2)"
      unfolding b3_def using le l2 s by (intro overwrite [OF ok2]; simp)+
    have l3: "b_len b3 = b_len b + ?k" by (simp add: b3_def l2)
    let ?c = "c\<lparr>c_offset := ?o + 1, c_pending_len_len := ?k\<rparr>"
    have st: "c_start ?c \<le> b_len b3" using le s by (simp add: c_start_def l3)
    have b3: "b1\<lparr>b_buf := (blit (c_start c + ?k) (take ?n (drop (c_start c) (b_buf b1))) (b_buf b1))[?o := ?i]\<rparr> = b3"
    proof -
      have "?o < length (b_buf b2)" using le s ok2 l2 by (simp add: buf_ok_def)
      then have "b3 = b2\<lparr>b_buf := (b_buf b2)[?o := ?i]\<rparr>" by (simp only: b3_def blit_single)
      then show ?thesis by (simp only: b2_def src) simp
    qed
    from w [unfolded b3 write_prefix_eq [OF ok3 st]]
    have b': "b' = b3\<lparr>b_buf := blit (?o + 1) (nat_be ?k ?n) (b_buf b3)\<rparr>"
      by simp
    have ok': "buf_ok b'" and c': "contents b' = blit (?o + 1) (nat_be ?k ?n) (contents b3)"
      unfolding b' using st by (intro overwrite [OF ok3]; simp add: c_start_def)+
    have "contents b' = take ?o ?D @ length_octets ?n @ drop (c_start c) ?D"
    proof -
      have l1: "length (contents b1) = b_len b + ?k" using length_contents [OF ok1] g(2) by simp
      have "take ?o (contents b1) = take ?o ?D"
        using le s g by (simp add: contents_def [of b1] min_def flip: g(3))
      then show ?thesis
        using False le s l1 lD
        by (simp add: c' c3 c2 blit_def length_octets_def min_def del: of_nat_add)
    qed
    moreover have "grows b b'"
      using ok' g(1) by (simp add: grows_def b' b3_def b2_def)
    ultimately show ?thesis using n by (auto simp: kind_of_def c)
  qed
qed


section \<open>Flushing\<close>

text \<open>The objects below one whose contents start at \<open>pos\<close> lie inside those contents.\<close>

fun chain_ok :: "nat \<Rightarrow> nat \<Rightarrow> cbb list \<Rightarrow> bool" where
  "chain_ok pos n [] = (pos \<le> n)"
| "chain_ok pos n (c # cs) = (pos \<le> c_offset c \<and> cbb_ok c \<and> chain_ok (c_start c) n cs)"

fun open_bytes :: "byte list \<Rightarrow> nat \<Rightarrow> cbb list \<Rightarrow> byte list" where
  "open_bytes bs pos [] = drop pos bs"
| "open_bytes bs pos (c # cs) = drop pos (take (c_offset c) bs)"

type_synonym frame = "nat \<times> frame_kind \<times> byte list"

fun sub_frames :: "byte list \<Rightarrow> cbb list \<Rightarrow> frame list" where
  "sub_frames bs [] = []"
| "sub_frames bs (c # cs) = (c_handle c, kind_of c, open_bytes bs (c_start c) cs) # sub_frames bs cs"

fun close_frames :: "frame list \<Rightarrow> byte list option" where
  "close_frames [] = Some []"
| "close_frames ((h, k, bs) # fs) =
     (case close_frames fs of
        None \<Rightarrow> None
      | Some xs \<Rightarrow> (case len_prefix k (length (bs @ xs)) of
          None \<Rightarrow> None
        | Some pre \<Rightarrow> Some (pre @ bs @ xs)))"

fun below_pos :: "nat \<Rightarrow> cbb list \<Rightarrow> nat" where
  "below_pos n [] = n"
| "below_pos n (c # cs) = c_offset c"

lemma chain_ok_below: "chain_ok pos n cs \<Longrightarrow> pos \<le> below_pos n cs \<and> below_pos n cs \<le> n"
proof (induction cs arbitrary: pos)
  case Nil
  then show ?case by simp
next
  case (Cons c cs)
  then have "c_start c \<le> below_pos n cs" "below_pos n cs \<le> n" by fastforce+
  with Cons.prems show ?case by (simp add: c_start_def)
qed

lemma open_bytes_eq: "length bs = n \<Longrightarrow> open_bytes bs pos cs = drop pos (take (below_pos n cs) bs)"
  by (cases cs) simp_all

lemma grows_trans: "grows a b \<Longrightarrow> grows b c \<Longrightarrow> grows a c"
  by (simp add: grows_def)

lemma close_child_Some:
  assumes "malloc_ok m" "buf_ok b" "cbb_ok c" "c_start c \<le> b_len b"
    and "cbb_close_child m (c_start c) (b, c) = (Some (), b', c')"
  shows "\<exists>pre. len_prefix (kind_of c) (b_len b - c_start c) = Some pre \<and>
        contents b' = take (c_offset c) (contents b) @ pre @ drop (c_start c) (contents b) \<and> grows b b'"
  using close_fixed(1) [of b c m b' c'] close_asn1_Some [of m b c b' c'] assms
  by (cases "c_pending_is_asn1 c") auto

lemma flush_chain_Some:
  assumes m: "malloc_ok m"
  shows "buf_ok b \<Longrightarrow> chain_ok pos (b_len b) cs \<Longrightarrow>
    cbb_flush_chain m (b, cs) = (Some (), b', cs') \<Longrightarrow>
    cs' = [] \<and> grows b b' \<and> \<not> b_error b \<and>
    (\<exists>xs. close_frames (sub_frames (contents b) cs) = Some xs \<and>
      contents b' = take (below_pos (b_len b) cs) (contents b) @ xs)"
proof (induction cs arbitrary: pos b' cs')
  case Nil
  then show ?case by (auto simp: grows_def contents_def split: if_splits)
next
  case (Cons c cs)
  have c: "cbb_ok c" "chain_ok (c_start c) (b_len b) cs" using Cons.prems(2) by auto
  note q = chain_ok_below [OF c(2)]
  have l: "length (contents b) = b_len b" by (rule length_contents [OF Cons.prems(1)])
  have start: "(c_offset c + c_pending_len_len c) mod size_modulus = c_start c"
    using q Cons.prems(1) by (simp add: c_start_def buf_ok_def)
  from Cons.prems(3) c(1) obtain b1 cs1 c1 where e: "\<not> b_error b"
    and f: "cbb_flush_chain m (b, cs) = (Some (), b1, cs1)"
    and le: "c_start c \<le> b_len b1"
    and cl: "cbb_close_child m (c_start c) (b1, c) = (Some (), b', c1)" and cs': "cs' = []"
    by (auto simp: Let_def start cbb_ok_def split: if_splits prod.splits option.splits)
  from Cons.IH [OF Cons.prems(1) c(2) f] obtain xs where g: "grows b b1"
    and xs: "close_frames (sub_frames (contents b) cs) = Some xs"
    and c1: "contents b1 = take (below_pos (b_len b) cs) (contents b) @ xs"
    by auto
  have ok1: "buf_ok b1" using g by (simp add: grows_def)
  obtain pre where pre: "len_prefix (kind_of c) (b_len b1 - c_start c) = Some pre"
    and b': "contents b' = take (c_offset c) (contents b1) @ pre @ drop (c_start c) (contents b1)"
    and g': "grows b1 b'"
    using close_child_Some [OF m ok1 c(1) le cl] by auto
  have d: "drop (c_start c) (contents b1) = open_bytes (contents b) (c_start c) cs @ xs"
    using q l by (simp add: c1 open_bytes_eq)
  have t: "take (c_offset c) (contents b1) = take (c_offset c) (contents b)"
    using q l by (simp add: c1 min_def c_start_def)
  have "b_len b1 - c_start c = length (drop (c_start c) (contents b1))"
    using length_contents [OF ok1] by simp
  then have n: "b_len b1 - c_start c = length (open_bytes (contents b) (c_start c) cs @ xs)"
    by (simp only: d)
  show ?case
    using cs' e grows_trans [OF g g'] pre xs b' unfolding n t d by simp
qed

lemma flush_chain_None:
  "cbb_flush_chain m (b, cs) = (None, b', cs') \<Longrightarrow> b_error b'"
  by (cases cs) (auto simp: Let_def split: if_splits prod.splits option.splits)


section \<open>Objects of a chain\<close>

lemma cbb_find_split: "cbb_find h chain = Some (d, w) \<Longrightarrow> chain = d @ w \<and> cbb_find h (d @ v) = Some (d, v)"
  by (induction chain arbitrary: d w) (auto split: if_splits option.splits)

lemma cbb_find_eq_Some:
  "cbb_find h chain = Some (d, w) \<longleftrightarrow> chain = d @ w \<and> cbb_find h d = Some (d, [])"
  using cbb_find_split [of h chain d w "[]"] cbb_find_split [of h d d "[]" w] by auto

lemma cbb_find_self_not_Nil [simp]: "cbb_find h d = Some (d, []) \<Longrightarrow> d \<noteq> []"
  by auto

lemma cbb_find_snoc:
  "(\<forall>c \<in> set d. c_handle c \<noteq> h) \<Longrightarrow> c_handle c = h \<Longrightarrow> cbb_find h (d @ [c]) = Some (d @ [c], [])"
  by (induction d) auto

lemma chain_ok_append:
  "chain_ok (c_start r) n (ds @ w) \<longleftrightarrow>
    chain_ok (c_start r) (below_pos n w) ds \<and> chain_ok (c_start (last (r # ds))) n w"
proof (induction ds arbitrary: r)
  case Nil
  then show ?case by (auto dest: chain_ok_below)
next
  case (Cons d ds)
  have l: "last (r # d # ds) = last (d # ds)" by simp
  show ?case
    unfolding append_Cons chain_ok.simps Cons [of d] l by (simp only: conj_assoc)
qed

lemma chain_ok_mono: "chain_ok pos n cs \<Longrightarrow> n \<le> n' \<Longrightarrow> chain_ok pos n' cs"
  by (induction cs arbitrary: pos) auto

text \<open>A builder that has not failed.\<close>

definition cbb_inv :: "cbb_state \<Rightarrow> bool" where
  "cbb_inv s \<longleftrightarrow> (case s of (b, chain) \<Rightarrow> \<not> b_error b \<and> buf_ok b \<and>
     (case chain of [] \<Rightarrow> False
      | r # cs \<Rightarrow> c_offset r = 0 \<and> c_pending_len_len r = 0 \<and> \<not> c_pending_is_asn1 r \<and>
          chain_ok 0 (b_len b) cs))"

text \<open>One whose object \<open>h\<close> has no child.\<close>

definition tip :: "nat \<Rightarrow> cbb_state \<Rightarrow> bool" where
  "tip h s \<longleftrightarrow> cbb_inv s \<and> cbb_find h (snd s) = Some (snd s, [])"

definition frames :: "cbb_state \<Rightarrow> frame list" where
  "frames s = sub_frames (contents (fst s)) (snd s)"

fun flush_frames :: "nat \<Rightarrow> frame list \<Rightarrow> frame list option" where
  "flush_frames h [] = None"
| "flush_frames h ((h', k, bs) # fs) =
     (if h' = h then map_option (\<lambda>xs. [(h', k, bs @ xs)]) (close_frames fs)
      else map_option ((#) (h', k, bs)) (flush_frames h fs))"

fun append_last :: "byte list \<Rightarrow> frame list \<Rightarrow> frame list" where
  "append_last xs [] = []"
| "append_last xs [(h, k, bs)] = [(h, k, bs @ xs)]"
| "append_last xs (f # g # fs) = f # append_last xs (g # fs)"

lemma sub_frames_prefix:
  assumes "chain_ok (c_start r) n (ds @ w)" and "length bs = n"
  shows "sub_frames bs ((r # ds) @ w) =
    sub_frames (take (below_pos n w) bs) (r # ds) @ sub_frames bs w"
  using assms(1)
proof (induction ds arbitrary: r)
  case Nil
  then show ?case using assms(2) by (simp add: open_bytes_eq)
next
  case (Cons d ds)
  from Cons.prems have "chain_ok (c_start d) n (ds @ w)" by simp
  then have "chain_ok (c_start d) (below_pos n w) ds" by (simp only: chain_ok_append)
  note q = chain_ok_below [OF this]
  have e: "open_bytes bs (c_start r) ((d # ds) @ w) =
      open_bytes (take (below_pos n w) bs) (c_start r) (d # ds)"
    using q by (simp add: c_start_def min_def)
  show ?case
    using Cons.IH [OF \<open>chain_ok (c_start d) n (ds @ w)\<close>] e by simp
qed

lemma sub_frames_append_last:
  assumes "chain_ok (c_start r) (length bs) ds"
  shows "sub_frames (bs @ xs) (r # ds) = append_last xs (sub_frames bs (r # ds))"
  using assms
proof (induction ds arbitrary: r)
  case Nil
  then show ?case by simp
next
  case (Cons d ds)
  from Cons.prems have c: "chain_ok (c_start d) (length bs) ds" by simp
  from chain_ok_below [OF this] Cons.prems Cons.IH [OF c] show ?case
    by (auto simp: c_start_def)
qed


section \<open>Flushing an object\<close>

lemma cbb_inv_split:
  assumes "cbb_inv (b, d @ w)" and "d \<noteq> []"
  shows "chain_ok (c_start (last d)) (b_len b) w"
    and "\<And>b'. buf_ok b' \<Longrightarrow> \<not> b_error b' \<Longrightarrow> below_pos (b_len b) w \<le> b_len b' \<Longrightarrow> cbb_inv (b', d)"
    and "frames (b, d @ w) =
      sub_frames (take (below_pos (b_len b) w) (contents b)) d @ sub_frames (contents b) w"
proof -
  obtain r ds where d: "d = r # ds" using assms(2) by (cases d) auto
  have r: "c_start r = 0" and ok: "chain_ok (c_start r) (b_len b) (ds @ w)" and b: "buf_ok b"
    using assms(1) by (simp_all add: cbb_inv_def d c_start_def)
  show "chain_ok (c_start (last d)) (b_len b) w"
    using ok by (simp only: d chain_ok_append)
  show "cbb_inv (b', d)" if "buf_ok b'" "\<not> b_error b'" "below_pos (b_len b) w \<le> b_len b'" for b'
  proof -
    have "chain_ok (c_start r) (below_pos (b_len b) w) ds" using ok by (simp only: chain_ok_append)
    then have "chain_ok 0 (b_len b') ds" using that(3) r by (auto intro: chain_ok_mono)
    then show ?thesis using that assms(1) by (simp add: cbb_inv_def d)
  qed
  show "frames (b, d @ w) =
      sub_frames (take (below_pos (b_len b) w) (contents b)) d @ sub_frames (contents b) w"
    using sub_frames_prefix [OF ok length_contents [OF b]] by (simp add: frames_def d)
qed

lemma sub_frames_eq_append_last:
  assumes "cbb_inv (b, d)"
  shows "frames (b, d) \<noteq> []"
    and "contents b' = contents b @ xs \<Longrightarrow> frames (b', d) = append_last xs (frames (b, d))"
proof -
  obtain r ds where d: "d = r # ds" using assms by (cases d) (auto simp: cbb_inv_def)
  then have "chain_ok (c_start r) (length (contents b)) ds"
    using assms by (simp add: cbb_inv_def c_start_def length_contents)
  then show "frames (b, d) \<noteq> []"
    and "contents b' = contents b @ xs \<Longrightarrow> frames (b', d) = append_last xs (frames (b, d))"
    using sub_frames_append_last by (simp_all add: frames_def d)
qed

lemma flush_frames_find:
  assumes "cbb_find h d = Some (d, [])"
  shows "flush_frames h (sub_frames bs d @ fs) =
    map_option (\<lambda>xs. append_last xs (sub_frames bs d)) (close_frames fs)"
  using assms
proof (induction d)
  case Nil
  then show ?case by simp
next
  case (Cons c d)
  show ?case
  proof (cases "c_handle c = h")
    case True
    then show ?thesis using Cons.prems by auto
  next
    case False
    with Cons.prems have f: "cbb_find h d = Some (d, [])" by (auto split: option.splits)
    then obtain e es where "sub_frames bs d = e # es" by (cases d) auto
    then show ?thesis using Cons.IH [OF f] False by (simp add: option.map_comp o_def)
  qed
qed

lemma flush_to_tip:
  assumes m: "malloc_ok m" and inv: "cbb_inv (b, chain)"
    and r: "CBB_flush m h (b, chain) = (Some (), b', chain')"
  shows "tip h (b', chain') \<and> grows b b' \<and>
    (\<exists>w. chain = chain' @ w) \<and> flush_frames h (frames (b, chain)) = Some (frames (b', chain'))"
proof -
  from r obtain d w cs where f: "cbb_find h chain = Some (d, w)"
    and fl: "cbb_flush_chain m (b, w) = (Some (), b', cs)" and chain': "chain' = d @ cs"
    by (auto simp: CBB_flush_def split: option.splits prod.splits)
  from f have chain: "chain = d @ w" and d: "cbb_find h d = Some (d, [])"
    using cbb_find_eq_Some [THEN iffD1] by blast+
  then have d0: "d \<noteq> []" by auto
  note sp = cbb_inv_split [OF inv [unfolded chain] d0]
  have ok: "buf_ok b" using inv by (simp add: cbb_inv_def)
  obtain xs where cs: "cs = []" and g: "grows b b'" and e: "\<not> b_error b"
    and xs: "close_frames (sub_frames (contents b) w) = Some xs"
    and c': "contents b' = take (below_pos (b_len b) w) (contents b) @ xs"
    using flush_chain_Some [OF m ok sp(1) fl] by auto
  have ok': "buf_ok b'" "\<not> b_error b'" using g e by (auto simp: grows_def)
  have q: "below_pos (b_len b) w \<le> b_len b" using chain_ok_below [OF sp(1)] by simp
  then have l: "b_len b' = below_pos (b_len b) w + length xs"
    using length_contents [OF ok'(1)] length_contents [OF ok] by (simp add: c')
  have inv': "cbb_inv (b', d)" using sp(2) [OF ok'] l by simp
  define b0 where "b0 = b\<lparr>b_len := below_pos (b_len b) w\<rparr>"
  have b0: "contents b0 = take (below_pos (b_len b) w) (contents b)"
    using q by (simp add: b0_def contents_def min_def)
  have "buf_ok b0" using ok q by (auto simp: b0_def buf_ok_def)
  then have "cbb_inv (b0, d)" using e sp(2) [of b0] by (simp add: b0_def)
  from sub_frames_eq_append_last(2) [OF this, of b' xs]
  have "frames (b', d) = append_last xs (sub_frames (contents b0) d)"
    using c' b0 by (simp add: frames_def)
  moreover have "flush_frames h (frames (b, chain)) = Some (append_last xs (sub_frames (contents b0) d))"
    using flush_frames_find [OF d] xs by (simp add: chain sp(3) b0)
  ultimately show ?thesis
    using inv' d g cs chain by (simp add: tip_def chain')
qed

lemma tip_flush: "tip h (b, chain) \<Longrightarrow> CBB_flush m h (b, chain) = (Some (), b, chain)"
  by (simp add: tip_def cbb_inv_def CBB_flush_def)

lemma flush_None: "CBB_flush m h (b, chain) = (None, s') \<Longrightarrow> cbb_find h chain \<noteq> None \<Longrightarrow> b_error (fst s')"
  by (auto simp: CBB_flush_def split: option.splits prod.splits dest: flush_chain_None)

lemma flush_idem:
  assumes "malloc_ok m" "cbb_inv s" "CBB_flush m h s = (Some (), s')"
  shows "CBB_flush m h s' = (Some (), s')"
  using flush_to_tip [of m "fst s" "snd s" h "fst s'" "snd s'"] tip_flush [of h "fst s'" "snd s'" m] assms
  by simp


section \<open>Room\<close>

definition malloc_total :: "libc_malloc \<Rightarrow> bool" where
  "malloc_total m \<longleftrightarrow> (\<forall>n < object_max. m n \<noteq> None)"

text \<open>The buffer can hold \<open>n\<close> bytes: it already has them, or it may grow and the allocator
  always answers.\<close>

definition fits :: "libc_malloc \<Rightarrow> cbb_buffer \<Rightarrow> nat \<Rightarrow> bool" where
  "fits m b n \<longleftrightarrow> n \<le> b_cap b \<or> malloc_total m \<and> b_can_resize b \<and> n < 2305843009213693952"

lemma fits_grows: "fits m b n \<Longrightarrow> grows b b' \<Longrightarrow> fits m b' n"
  by (auto simp: fits_def grows_def)

lemma fits_le: "fits m b n \<Longrightarrow> k \<le> n \<Longrightarrow> fits m b k"
  by (auto simp: fits_def)

lemma malloc_total_realloc:
  assumes "malloc_total m" "n + 8 < object_max"
  shows "OPENSSL_realloc m (Some x) n \<noteq> None"
  using assms
  by (auto simp: malloc_total_def OPENSSL_realloc_def OPENSSL_malloc_def OPENSSL_MALLOC_PREFIX_def
      Let_def split: option.splits prod.splits)

lemma reserve_total:
  assumes ok: "buf_ok b" and n: "n < object_max" and f: "fits m b (b_len b + n)"
  shows "fst (cbb_buffer_reserve m n b) \<noteq> None"
proof (cases "b_len b + n \<le> b_cap b")
  case True
  then show ?thesis using ok by (simp add: cbb_buffer_reserve_def Let_def buf_ok_def)
next
  case False
  with f have m: "malloc_total m" "b_can_resize b" "b_len b + n < 2305843009213693952"
    by (simp_all add: fits_def)
  define newcap where
    "newcap = (if b_cap b * 2 mod size_modulus < b_cap b \<or> b_cap b * 2 mod size_modulus < b_len b + n
      then b_len b + n else b_cap b * 2 mod size_modulus)"
  have "newcap + 8 < object_max" using False m(3) by (simp add: newcap_def)
  then obtain x where "OPENSSL_realloc m (Some (b_cap b, b_buf b)) newcap = Some x"
    using malloc_total_realloc [OF m(1)] by blast
  then show ?thesis
    using m False by (cases x) (auto simp: cbb_buffer_reserve_def Let_def newcap_def)
qed

lemma add_total:
  "buf_ok b \<Longrightarrow> n < object_max \<Longrightarrow> fits m b (b_len b + n) \<Longrightarrow> fst (cbb_buffer_add m n b) \<noteq> None"
  using reserve_total [of b n m]
  by (auto simp: cbb_buffer_add_def bind_act_def split: prod.splits option.splits)

lemma close_child_None:
  assumes m: "malloc_ok m" and ok: "buf_ok b" and c: "cbb_ok c" "c_start c \<le> b_len b"
    and pre: "len_prefix (kind_of c) (b_len b - c_start c) = Some pre"
    and f: "fits m b (c_offset c + length pre + (b_len b - c_start c))"
  shows "fst (cbb_close_child m (c_start c) (b, c)) \<noteq> None"
proof (cases "c_pending_is_asn1 c")
  case False
  then show ?thesis
    using close_fixed(2) [OF ok False c(2), of m] pre
    by (cases "fst (cbb_close_child m (c_start c) (b, c))";
        cases "cbb_close_child m (c_start c) (b, c)") auto
next
  case True
  let ?n = "b_len b - c_start c" and ?k = "num_len_bytes (b_len b - c_start c)"
  have p: "c_pending_len_len c = 1" using c True by (simp add: cbb_ok_def)
  from pre True have n: "?n \<le> 0xfffffffe" and pre': "pre = length_octets ?n"
    by (auto simp: kind_of_def split: if_splits)
  show ?thesis
  proof (cases "?n < 128")
    case lt: True
    then show ?thesis
      using n True by (simp add: cbb_close_child_def Let_def asn1_len_form_eq cbb_write_prefix_def)
  next
    case ge: False
    have k: "1 \<le> ?k" "?k \<le> 4" by (rule num_len_bytes_range)+
    have "fits m b (b_len b + ?k)"
      using f ge c(2) p by (simp add: pre' length_octets_def c_start_def add.commute)
    then have "fst (cbb_buffer_add m ?k b) \<noteq> None"
      using ok k by (intro add_total) simp_all
    then obtain q b1 where a: "cbb_buffer_add m ?k b = (Some q, b1)"
      by (cases "cbb_buffer_add m ?k b") auto
    have g: "buf_ok b1" "b_len b1 = b_len b + ?k"
      using add_Some [OF m ok _ a] k by (auto simp: grows_def)
    have l: "length (b_buf b1) = b_cap b1" "b_len b1 \<le> b_cap b1" using g by (auto simp: buf_ok_def)
    let ?buf = "(blit (c_start c + ?k) (take ?n (drop (c_start c) (b_buf b1))) (b_buf b1))[c_offset c := word_of_nat (128 + ?k)]"
    have ls: "length (take ?n (drop (c_start c) (b_buf b1))) = ?n" using l g c(2) by simp
    have "c_start c + ?k + length (take ?n (drop (c_start c) (b_buf b1))) \<le> length (b_buf b1)"
      unfolding ls using l g c(2) by linarith
    then have lb: "length ?buf = b_cap b1"
      using l by (simp only: length_list_update length_blit)
    have "snd (put_be ?k (c_offset c + 1) ?n ?buf) = 0"
      using l lb g c(2) p num_len_bytes_div [OF n] by (subst put_be_eq) (simp_all add: c_start_def)
    then show ?thesis
      using True n ge k a
      by (auto simp: cbb_close_child_def Let_def asn1_len_form_eq cbb_write_prefix_def
          split: prod.splits simp del: of_nat_add)
  qed
qed

lemma flush_chain_total:
  assumes m: "malloc_ok m"
  shows "buf_ok b \<Longrightarrow> \<not> b_error b \<Longrightarrow> chain_ok pos (b_len b) cs \<Longrightarrow>
    close_frames (sub_frames (contents b) cs) = Some xs \<Longrightarrow>
    fits m b (below_pos (b_len b) cs + length xs) \<Longrightarrow>
    fst (cbb_flush_chain m (b, cs)) \<noteq> None"
proof (induction cs arbitrary: pos xs)
  case Nil
  then show ?case by simp
next
  case (Cons c cs)
  have c: "cbb_ok c" "chain_ok (c_start c) (b_len b) cs" using Cons.prems(3) by auto
  note q = chain_ok_below [OF c(2)]
  have l: "length (contents b) = b_len b" by (rule length_contents [OF Cons.prems(1)])
  have start: "(c_offset c + c_pending_len_len c) mod size_modulus = c_start c"
    using q Cons.prems(1) by (simp add: c_start_def buf_ok_def)
  let ?o = "open_bytes (contents b) (c_start c) cs"
  from Cons.prems(4) obtain ys pre where ys: "close_frames (sub_frames (contents b) cs) = Some ys"
    and pre: "len_prefix (kind_of c) (length (?o @ ys)) = Some pre" and xs: "xs = pre @ ?o @ ys"
    by (auto split: option.splits)
  have lo: "length ?o = below_pos (b_len b) cs - c_start c"
    using q l by (simp add: open_bytes_eq)
  have "fits m b (below_pos (b_len b) cs + length ys)" if "c_pending_len_len c \<le> length pre"
    using Cons.prems(5) q lo that by (auto simp: xs c_start_def elim: fits_le)
  moreover have "c_pending_len_len c \<le> length pre"
    using pre c(1) by (cases "kind_of c")
      (auto simp: kind_of_def cbb_ok_def length_octets_def split: if_splits)
  ultimately have "fst (cbb_flush_chain m (b, cs)) \<noteq> None"
    using Cons.IH [OF Cons.prems(1,2) c(2) ys] by simp
  then obtain b1 cs1 where f: "cbb_flush_chain m (b, cs) = (Some (), b1, cs1)"
    by (cases "cbb_flush_chain m (b, cs)") auto
  from flush_chain_Some [OF m Cons.prems(1) c(2) f] ys have g: "grows b b1"
    and c1: "contents b1 = take (below_pos (b_len b) cs) (contents b) @ ys"
    by auto
  have ok1: "buf_ok b1" using g by (simp add: grows_def)
  have "b_len b1 = below_pos (b_len b) cs + length ys"
    using length_contents [OF ok1] q l by (simp add: c1)
  then have l1: "c_start c \<le> b_len b1" "b_len b1 - c_start c = length (?o @ ys)"
    using q lo by simp_all
  have "fst (cbb_close_child m (c_start c) (b1, c)) \<noteq> None"
  proof (rule close_child_None [OF m ok1 c(1) l1(1)])
    show "len_prefix (kind_of c) (b_len b1 - c_start c) = Some pre" using pre l1(2) by simp
    have "fits m b1 (c_offset c + length xs)" using Cons.prems(5) g by (simp add: fits_grows)
    then show "fits m b1 (c_offset c + length pre + (b_len b1 - c_start c))"
      by (simp add: xs l1(2) add.assoc)
  qed
  then obtain b2 c2 where "cbb_close_child m (c_start c) (b1, c) = (Some (), b2, c2)"
    by (cases "cbb_close_child m (c_start c) (b1, c)") auto
  then show ?case
    using Cons.prems(2) c(1) f l1(1) by (simp add: Let_def start) (simp add: c_start_def)
qed


section \<open>Actions that append\<close>

text \<open>
  \<open>f\<close>, run on a builder whose object \<open>h\<close> has no child, appends \<open>xs\<close> to the contents of that
  object and nothing else; if it fails, the builder is marked as failed and \<open>xs\<close> did not fit.
\<close>

definition emits :: "libc_malloc \<Rightarrow> nat \<Rightarrow> (cbb_state, 'a) act \<Rightarrow> byte list \<Rightarrow> bool" where
  "emits m h f xs \<longleftrightarrow> (\<forall>b chain. tip h (b, chain) \<longrightarrow>
     (case f (b, chain) of
        (Some _, b', chain') \<Rightarrow> chain' = chain \<and> grows b b' \<and> contents b' = contents b @ xs
      | (None, b', chain') \<Rightarrow> b_error b' \<and> \<not> fits m b (b_len b + length xs)))"

lemma tip_ok: "tip h (b, chain) \<Longrightarrow> buf_ok b \<and> \<not> b_error b"
  by (simp add: tip_def cbb_inv_def)

lemma tip_grows:
  assumes "tip h (b, chain)" "grows b b'" "contents b' = contents b @ xs"
  shows "tip h (b', chain) \<and> b_len b' = b_len b + length xs"
proof -
  have l: "b_len b' = b_len b + length xs"
    using assms tip_ok [OF assms(1)] length_contents [of b] length_contents [of b']
    by (simp add: grows_def)
  then show ?thesis
    using assms by (auto simp: tip_def cbb_inv_def grows_def split: list.splits intro: chain_ok_mono)
qed

lemma emits_SomeD:
  assumes "emits m h f xs" "tip h (b, chain)" "f (b, chain) = (Some r, b', chain')"
  shows "chain' = chain \<and> grows b b' \<and> contents b' = contents b @ xs \<and>
    tip h (b', chain) \<and> b_len b' = b_len b + length xs"
  using assms tip_grows [OF assms(2), of b' xs] by (fastforce simp: emits_def)

lemma emits_NoneD:
  assumes "emits m h f xs" "tip h (b, chain)" "f (b, chain) = (None, b', chain')"
  shows "b_error b' \<and> \<not> fits m b (b_len b + length xs)"
  using assms by (fastforce simp: emits_def)

lemma emits_ret [intro]: "emits m h (ret_act x) []"
  by (simp add: emits_def grows_def tip_def cbb_inv_def)

lemma emits_bind:
  assumes f: "emits m h f xs"
    and g: "\<And>x b chain b'. tip h (b, chain) \<Longrightarrow> f (b, chain) = (Some x, b', chain) \<Longrightarrow> emits m h (g x) ys"
  shows "emits m h (bind_act f g) (xs @ ys)"
  unfolding emits_def
proof (intro allI impI)
  fix b chain assume t: "tip h (b, chain)"
  obtain r b1 chain1 where e: "f (b, chain) = (r, b1, chain1)" by (cases "f (b, chain)") auto
  show "case bind_act f g (b, chain) of
      (Some _, b', chain') \<Rightarrow> chain' = chain \<and> grows b b' \<and> contents b' = contents b @ xs @ ys
    | (None, b', chain') \<Rightarrow> b_error b' \<and> \<not> fits m b (b_len b + length (xs @ ys))"
  proof (cases r)
    case None
    then show ?thesis
      using emits_NoneD [OF f t, of b1 chain1] e fits_le [of m b "b_len b + length (xs @ ys)"]
      by auto
  next
    case (Some x)
    note s = emits_SomeD [OF f t e [unfolded Some]]
    then have g': "emits m h (g x) ys" using g [OF t, of x b1] e Some by simp
    obtain r2 b2 chain2 where e2: "g x (b1, chain) = (r2, b2, chain2)" by (cases "g x (b1, chain)") auto
    show ?thesis
    proof (cases r2)
      case None
      then show ?thesis
        using emits_NoneD [OF g' _ e2 [unfolded None]] s e Some e2
        by (auto simp: add.assoc dest: fits_grows)
    next
      case (Some y)
      then show ?thesis
        using emits_SomeD [OF g' _ e2 [unfolded Some]] s e \<open>r = Some x\<close> e2
        by (auto intro: grows_trans)
    qed
  qed
qed

lemma emits_then: "emits m h f xs \<Longrightarrow> emits m h g ys \<Longrightarrow> emits m h (then_act f g) (xs @ ys)"
  unfolding then_act_def by (rule emits_bind)

lemma emits_flush:
  assumes "emits m h f xs"
  shows "emits m h (then_act (CBB_flush m h) f) xs"
  using assms by (auto simp: emits_def tip_flush)

lemma emits_write:
  assumes m: "malloc_ok m" and n: "length xs < object_max"
    and w: "\<And>pos b. buf_ok b \<Longrightarrow> pos + length xs \<le> b_len b \<Longrightarrow>
      w pos b = (Some r, b\<lparr>b_buf := blit pos xs (b_buf b)\<rparr>)"
  shows "emits m h (on_buffer (bind_act (cbb_buffer_add m (length xs)) w)) xs"
  unfolding emits_def
proof (intro allI impI)
  fix b chain assume t: "tip h (b, chain)"
  then have ok: "buf_ok b" by (simp add: tip_ok)
  obtain q b1 where e: "cbb_buffer_add m (length xs) b = (q, b1)" by (cases "cbb_buffer_add m (length xs) b")
  show "case on_buffer (bind_act (cbb_buffer_add m (length xs)) w) (b, chain) of
      (Some _, b', chain') \<Rightarrow> chain' = chain \<and> grows b b' \<and> contents b' = contents b @ xs
    | (None, b', chain') \<Rightarrow> b_error b' \<and> \<not> fits m b (b_len b + length xs)"
  proof (cases q)
    case None
    then show ?thesis
      using e add_None [of m "length xs" b b1] add_total [OF ok n, of m]
      by (auto simp: on_buffer_def)
  next
    case (Some p)
    note a = add_Some [OF m ok n e [unfolded Some]]
    have ok1: "buf_ok b1" using a by (simp add: grows_def)
    have le: "p + length xs \<le> b_len b1" using a by simp
    note ow = overwrite [OF ok1 le]
    have "contents (b1\<lparr>b_buf := blit p xs (b_buf b1)\<rparr>) = contents b @ xs"
    proof -
      have "take p (contents b1) = contents b"
        using a by (simp add: contents_def [of b1] min_def)
      moreover have "length (contents b1) = p + length xs"
        using a length_contents [OF ok1] by simp
      ultimately show ?thesis unfolding ow(2) by (simp add: blit_last)
    qed
    moreover have "grows b (b1\<lparr>b_buf := blit p xs (b_buf b1)\<rparr>)"
      using a ow(1) by (simp add: grows_def)
    ultimately show ?thesis
      using e Some w [OF ok1 le] by (simp add: on_buffer_def)
  qed
qed

lemma on_buffer_bind:
  "on_buffer (bind_act f g) = bind_act (on_buffer f) (\<lambda>x. on_buffer (g x))"
  by (rule ext) (simp add: on_buffer_def bind_act_def split: prod.splits option.splits)

lemma emits_add_bytes:
  "malloc_ok m \<Longrightarrow> length xs < object_max \<Longrightarrow> emits m h (CBB_add_bytes m h xs) xs"
  unfolding CBB_add_bytes_def on_buffer_bind [symmetric]
  by (intro emits_flush emits_write [where r = "()"]) simp_all

lemma emits_add_u:
  assumes m: "malloc_ok m" and k: "0 < k" "k < object_max" and v: "unat v < 256 ^ k"
  shows "emits m h (cbb_add_u m h v k) (nat_be k (unat v))"
proof -
  have u: "cbb_buffer_add_u m v k = bind_act (cbb_buffer_add m (length (nat_be k (unat v))))
      (\<lambda>pos base. case put_be k pos (unat v) (b_buf base) of
          (buf, rest) \<Rightarrow>
            if rest \<noteq> 0 then (None, base\<lparr>b_buf := buf, b_error := True\<rparr>)
            else (Some (), base\<lparr>b_buf := buf\<rparr>))"
    using k by (simp add: cbb_buffer_add_u_def)
  show ?thesis
    unfolding cbb_add_u_def u using m k v
    by (intro emits_flush emits_write [where r = "()"]) (simp_all add: buf_ok_def put_be_eq)
qed

lemma emits_u8: "malloc_ok m \<Longrightarrow> emits m h (CBB_add_u8 m h v) [v]"
  using emits_add_u [of m 1 "ucast v" h] unat_byte_less [of v]
  by (simp add: CBB_add_u8_def unat_ucast_le)

lemma emits_u16: "malloc_ok m \<Longrightarrow> emits m h (CBB_add_u16 m h v) (nat_be 2 (unat v))"
  using emits_add_u [of m 2 "ucast v" h] unsigned_less [of v, where ?'a = nat]
  by (simp add: CBB_add_u16_def unat_ucast_le)

lemma emits_u24: "malloc_ok m \<Longrightarrow> unat v < 2 ^ 24 \<Longrightarrow> emits m h (CBB_add_u24 m h v) (nat_be 3 (unat v))"
  using emits_add_u [of m 3 "ucast v" h]
  by (simp add: CBB_add_u24_def unat_ucast_le)

lemma emits_u32: "malloc_ok m \<Longrightarrow> emits m h (CBB_add_u32 m h v) (nat_be 4 (unat v))"
  using emits_add_u [of m 4 "ucast v" h] unsigned_less [of v, where ?'a = nat]
  by (simp add: CBB_add_u32_def unat_ucast_le)

lemma emits_u64: "malloc_ok m \<Longrightarrow> emits m h (CBB_add_u64 m h v) (nat_be 8 (unat v))"
  using emits_add_u [of m 8 v h] unsigned_less [of v, where ?'a = nat]
  by (simp add: CBB_add_u64_def)

section \<open>Properties\<close>

text \<open>C8: Flushing refines the abstract operation on frames. The state of a builder stands for a stack
  of frames, one for each open object, with the bytes it has collected so far; a successful
  \<^verbatim>\<open>CBB_flush\<close> of an object closes the frames above it, innermost first, appending the length prefix and
  the contents of each to the frame below, and keeps the invariant of the builder.\<close>

theorem flush_refines_frames:
  assumes "malloc_ok m" and "cbb_inv (b, chain)" and "CBB_flush m h (b, chain) = (Some (), b', chain')"
  shows "cbb_inv (b', chain') \<and> flush_frames h (frames (b, chain)) = Some (frames (b', chain'))"
  using flush_to_tip [OF assms] by (simp add: tip_def)

lemma flush_refines_frames_witness:
  "flush_frames 0 [(0, Fixed_len 0, [9]), (1, Fixed_len 1, [7, 8])] = Some [(0, Fixed_len 0, [9, 2, 7, 8])]"
proof -
  let ?root = "\<lparr>c_handle = 0, c_offset = 0, c_pending_len_len = 0, c_pending_is_asn1 = False\<rparr>"
  let ?child = "\<lparr>c_handle = 1, c_offset = 1, c_pending_len_len = 1, c_pending_is_asn1 = False\<rparr>"
  let ?b = "\<lambda>buf. \<lparr>b_buf = buf, b_len = 4, b_cap = 5, b_can_resize = True, b_error = False\<rparr>"
  have "CBB_flush (\<lambda>n. None) 0 (?b [9, 0, 7, 8, 0], [?root, ?child]) = (Some (), ?b [9, 2, 7, 8, 0], [?root])"
    by (simp add: CBB_flush_def cbb_close_child_def cbb_write_prefix_def Let_def)
  from flush_refines_frames [OF _ _ this] show ?thesis
    by (simp add: malloc_ok_def cbb_inv_def buf_ok_def frames_def contents_def kind_of_def cbb_ok_def c_start_def)
qed

text \<open>A child object is dead once its parent has been written to or flushed: an operation on it
  fails and changes nothing.\<close>

theorem stale_child_fails:
  assumes "cbb_find h chain = Some (d, w)" and "c \<in> set w" and "distinct (map c_handle chain)"
    and "CBB_flush m h (b, chain) = (Some (), b', d)"
  shows "CBB_add_bytes m (c_handle c) xs (b', d) = (None, b', d) \<and>
    CBB_flush m (c_handle c) (b', d) = (None, b', d)"
proof -
  have "chain = d @ w" using cbb_find_split [OF assms(1)] by simp
  then have "\<forall>x \<in> set d. c_handle x \<noteq> c_handle c" using assms(2,3) by force
  then have "cbb_find (c_handle c) d = None" by (induction d) auto
  then show ?thesis by (simp add: CBB_flush_def CBB_add_bytes_def)
qed

theorem stale_child_fails_witness:
  "\<exists>b' d. CBB_flush (\<lambda>_. None) 1 (b', d) = (None, b', d) \<and> length d = 1 \<and> b_buf b' = [9, 2, 7, 8]"
proof -
  let ?root = "\<lparr>c_handle = 0, c_offset = 0, c_pending_len_len = 0, c_pending_is_asn1 = False\<rparr>"
  let ?child = "\<lparr>c_handle = 1, c_offset = 1, c_pending_len_len = 1, c_pending_is_asn1 = False\<rparr>"
  let ?b = "\<lambda>buf. \<lparr>b_buf = buf, b_len = 4, b_cap = 4, b_can_resize = True, b_error = False\<rparr>"
  have "CBB_flush (\<lambda>_. None) 0 (?b [9, 0, 7, 8], [?root, ?child]) = (Some (), ?b [9, 2, 7, 8], [?root])"
    by (simp add: CBB_flush_def cbb_close_child_def cbb_write_prefix_def Let_def)
  from stale_child_fails [OF _ _ _ this, of "[?child]" ?child] show ?thesis
    by (intro exI [of _ "?b [9, 2, 7, 8]"] exI [of _ "[?root]"]) simp
qed

end
