(* ===== verification/Cbb_Append.thy ===== *)
theory Cbb_Append
  imports Cbb_Frames
begin

text \<open>
  What the operations that write base-128 integers, identifier octets and length prefixes append,
  and the frames they open.
\<close>

section \<open>Base-128 integers and tags\<close>

lemma b128_count_0 [simp]: "b128_count 0 = 0"
  by (simp add: b128_count.simps)

lemma b128_count_step: "n \<noteq> 0 \<Longrightarrow> b128_count n = Suc (b128_count (n div 128))"
  by (subst b128_count.simps) simp

definition b128_byte :: "nat \<Rightarrow> nat \<Rightarrow> byte" where
  "b128_byte n i = word_of_nat (n div 128 ^ i mod 128 + (if i = 0 then 0 else 128))"

lemma b128_hi_count:
  "b128_hi n = map (\<lambda>i. word_of_nat (128 + n div 128 ^ i mod 128)) (rev [0..<b128_count n])"
proof (induction n rule: b128_hi.induct)
  case (1 n)
  show ?case
  proof (cases "n = 0")
    case False
    have "rev [0..<Suc (b128_count (n div 128))] = map Suc (rev [0..<b128_count (n div 128)]) @ [0]"
      by (simp add: rev_map [symmetric] map_Suc_upt upt_conv_Cons del: upt_Suc)
    then show ?thesis
      using 1 [OF False] False
      by (simp add: b128_hi_step b128_count_step o_def div_mult2_eq del: of_nat_add)
  qed simp
qed

lemma base128_count:
  "base128 n = map (b128_byte n) (rev [0..<max 1 (b128_count n)])"
proof (cases "n = 0")
  case True
  then show ?thesis by (simp add: base128_def b128_byte_def)
next
  case False
  have "rev [0..<Suc (b128_count (n div 128))] = map Suc (rev [0..<b128_count (n div 128)]) @ [0]"
    by (simp add: rev_map [symmetric] map_Suc_upt upt_conv_Cons del: upt_Suc)
  then show ?thesis
    using False
    by (simp add: base128_def b128_hi_count b128_count_step b128_byte_def o_def div_mult2_eq add.commute
        del: of_nat_add)
qed

lemma b128_byte_word:
  "(let b = ucast (drop_bit (7 * i) v) AND 0x7f in if i \<noteq> 0 then b OR 0x80 else b) = b128_byte (unat (v :: u64)) i"
proof -
  let ?b = "ucast (drop_bit (7 * i) v) AND 0x7f :: byte"
  have "unat (ucast (drop_bit (7 * i) v) :: byte) = unat v div 128 ^ i mod 256"
    by (simp add: unsigned_ucast_eq unat_drop_bit take_bit_eq_mod power_mult)
  then have u: "unat ?b = unat v div 128 ^ i mod 128"
    by (simp only: byte_and_7f) (simp add: mod_mod_cancel)
  have b: "?b = word_of_nat (unat v div 128 ^ i mod 128)"
    unfolding u [symmetric] by simp
  have "unat ?b < 2 ^ 7" unfolding u by simp
  from push_bit_or_eq_plus [OF this, of 1] have "?b OR 0x80 = word_of_nat (unat v div 128 ^ i mod 128 + 128)"
    by (simp add: or.commute b add.commute)
  with b show ?thesis by (simp add: b128_byte_def Let_def)
qed

lemma emits_base128_bytes:
  "malloc_ok m \<Longrightarrow> emits m h (add_base128_bytes m h v k) (map (b128_byte (unat v)) (rev [0..<k]))"
proof (induction k)
  case 0
  then show ?case by (simp only: add_base128_bytes.simps) (simp add: emits_ret del: ret_act_simp)
next
  case (Suc k)
  have "add_base128_bytes m h v (Suc k) =
      then_act (CBB_add_u8 m h (b128_byte (unat v) k)) (add_base128_bytes m h v k)"
    by (simp add: b128_byte_word [of k v, symmetric] Let_def)
  then show ?case
    using emits_then [OF emits_u8 Suc.IH] Suc.prems by simp
qed

lemma emits_base128: "malloc_ok m \<Longrightarrow> emits m h (add_base128_integer m h v) (base128 (unat v))"
  using emits_base128_bytes [of m h v "max 1 (b128_count (unat v))"]
  by (simp add: add_base128_integer_def base128_count Let_def max_def Suc_le_eq split: if_splits)

text \<open>The part of \<^verbatim>\<open>CBB_add_asn1\<close> that writes the identifier octets.\<close>

definition add_tag :: "libc_malloc \<Rightarrow> nat \<Rightarrow> u32 \<Rightarrow> (cbb_state, unit) act" where
  "add_tag m h tag =
     (let tag_bits = ucast (drop_bit CBS_ASN1_TAG_SHIFT tag) AND 0xe0 :: byte;
          tag_number = tag AND CBS_ASN1_TAG_NUMBER_MASK
      in if 0x1f \<le> tag_number then
           then_act (CBB_add_u8 m h (tag_bits OR 0x1f)) (add_base128_integer m h (ucast tag_number))
         else CBB_add_u8 m h (tag_bits OR ucast tag_number))"

lemma tag_bits_or:
  assumes "unat (k :: byte) < 32"
  shows "ucast (drop_bit 24 (tag :: u32)) AND 0xe0 OR k = (word_of_nat (unat tag div 2 ^ 29 * 32 + unat k) :: byte)"
proof -
  let ?c = "ucast (drop_bit 24 tag) :: byte"
  have u: "unat ?c = unat tag div 2 ^ 24"
    using unsigned_less [of tag, where ?'a = nat]
    by (simp add: unsigned_ucast_eq unat_drop_bit take_bit_nat_eq_self less_mult_imp_div_less)
  have "?c AND 0xe0 = ?c AND NOT (mask 5)"
    by (rule arg_cong [of _ _ "\<lambda>w. ?c AND w"]) code_simp
  also have "\<dots> = push_bit 5 (drop_bit 5 ?c)" by (simp add: push_drop_bit_eq_mask)
  finally have "?c AND 0xe0 OR k = push_bit 5 (drop_bit 5 ?c) OR k" by simp
  moreover have d: "unat (drop_bit 5 ?c) = unat tag div 2 ^ 29"
    by (simp add: unat_drop_bit u div_mult2_eq [symmetric])
  ultimately have "unat (?c AND 0xe0 OR k) = unat tag div 2 ^ 29 * 32 + unat k"
    using unat_push_bit_or [of k 5 "drop_bit 5 ?c"] assms tag_split(1) [of tag] by simp
  then show ?thesis by (metis of_nat_unat ucast_id)
qed

lemma emits_tag: "malloc_ok m \<Longrightarrow> emits m h (add_tag m h tag) (tag_octets tag)"
proof -
  assume m: "malloc_ok m"
  have u: "unat (tag AND CBS_ASN1_TAG_NUMBER_MASK) = unat tag mod 2 ^ 29"
    using unat_and_mask [of tag 29] by (simp add: CBS_ASN1_TAG_NUMBER_MASK_def mask_numeral)
  have le: "0x1f \<le> tag AND CBS_ASN1_TAG_NUMBER_MASK \<longleftrightarrow> 31 \<le> unat tag mod 2 ^ 29"
    by (simp add: word_le_nat_alt u)
  show ?thesis
  proof (cases "31 \<le> unat tag mod 2 ^ 29")
    case True
    have "emits m h (then_act (CBB_add_u8 m h (word_of_nat (unat tag div 2 ^ 29 * 32 + 31)))
          (add_base128_integer m h (ucast (tag AND CBS_ASN1_TAG_NUMBER_MASK))))
        ([word_of_nat (unat tag div 2 ^ 29 * 32 + 31)] @ base128 (unat (ucast (tag AND CBS_ASN1_TAG_NUMBER_MASK) :: u64)))"
      using m by (intro emits_then emits_u8 emits_base128)
    then show ?thesis
      using True tag_bits_or [where k = "0x1f" and tag = tag]
      by (simp add: add_tag_def tag_octets_def Let_def le CBS_ASN1_TAG_SHIFT_def unat_ucast_le u del: of_nat_add of_nat_mult)
  next
    case False
    have un: "unat (ucast (tag AND CBS_ASN1_TAG_NUMBER_MASK) :: byte) = unat tag mod 2 ^ 29"
      using False by (simp add: unsigned_ucast_eq u take_bit_nat_eq_self)
    show ?thesis
      using False m tag_bits_or [where k = "ucast (tag AND CBS_ASN1_TAG_NUMBER_MASK)" and tag = tag]
      by (simp add: add_tag_def tag_octets_def Let_def le CBS_ASN1_TAG_SHIFT_def un emits_u8 del: of_nat_add of_nat_mult)
  qed
qed


section \<open>Opening a child\<close>

fun pending_of :: "frame_kind \<Rightarrow> nat" where
  "pending_of (Fixed_len k) = k"
| "pending_of Asn1_len = 1"

text \<open>
  \<open>f\<close> appends \<open>pre\<close> to the object \<open>h\<close> and makes \<open>out\<close> a child of it, of kind \<open>k\<close> and with no
  contents; if it fails, the builder is marked as failed and these bytes did not fit.
\<close>

definition opens :: "libc_malloc \<Rightarrow> nat \<Rightarrow> nat \<Rightarrow> (cbb_state, 'a) act \<Rightarrow> byte list \<Rightarrow> frame_kind \<Rightarrow> bool" where
  "opens m h out f pre k \<longleftrightarrow> (\<forall>b chain. tip h (b, chain) \<longrightarrow>
     (case f (b, chain) of
        (Some _, b', chain') \<Rightarrow> grows b b' \<and> (\<exists>c zs. chain' = chain @ [c] \<and> c_handle c = out \<and> cbb_ok c \<and>
          kind_of c = k \<and> c_offset c = b_len b + length pre \<and> c_pending_len_len c = length zs \<and>
          contents b' = contents b @ pre @ zs)
      | (None, b', chain') \<Rightarrow> b_error b' \<and> \<not> fits m b (b_len b + length pre + pending_of k)))"

lemma opens_NoneD:
  assumes "opens m h out f pre k" "tip h (b, chain)" "f (b, chain) = (None, b', chain')"
  shows "b_error b' \<and> \<not> fits m b (b_len b + length pre + pending_of k)"
  using assms by (fastforce simp: opens_def)

lemma opens_SomeD:
  assumes o: "opens m h out f pre k" and t: "tip h (b, chain)"
    and f: "f (b, chain) = (Some r, b', chain')"
    and fresh: "\<forall>c \<in> set chain. c_handle c \<noteq> out"
  shows "grows b b' \<and> tip out (b', chain') \<and>
    frames (b', chain') = append_last pre (frames (b, chain)) @ [(out, k, [])] \<and>
    (\<exists>c zs. chain' = chain @ [c] \<and> c_handle c = out \<and> cbb_ok c \<and>
          kind_of c = k \<and> c_offset c = b_len b + length pre \<and> c_pending_len_len c = length zs \<and>
          contents b' = contents b @ pre @ zs)"
proof -
  from assms obtain c zs where g: "grows b b'" and c: "chain' = chain @ [c]" "c_handle c = out" "cbb_ok c"
      "kind_of c = k" "c_offset c = b_len b + length pre" "c_pending_len_len c = length zs"
      and b': "contents b' = contents b @ pre @ zs"
    by (fastforce simp: opens_def)
  have ok: "buf_ok b" "\<not> b_error b" "buf_ok b'" "\<not> b_error b'"
    using tip_ok [OF t] g by (auto simp: grows_def)
  have l: "b_len b' = b_len b + length pre + length zs"
    using length_contents [OF ok(3)] length_contents [OF ok(1)] by (simp add: b')
  have inv: "cbb_inv (b, chain)" and find: "cbb_find h chain = Some (chain, [])"
    using t by (simp_all add: tip_def)
  obtain r ds where chain: "chain = r # ds" using inv by (cases chain) (auto simp: cbb_inv_def)
  have r: "c_start r = 0" "c_offset r = 0" "c_pending_len_len r = 0" "\<not> c_pending_is_asn1 r"
    and ds: "chain_ok (c_start r) (b_len b) ds"
    using inv by (simp_all add: cbb_inv_def chain c_start_def)
  have "chain_ok (c_start r) (b_len b) (ds @ [])" using ds by simp
  then have last: "c_start (last (r # ds)) \<le> b_len b" by (simp only: chain_ok_append chain_ok.simps)
  have ds': "chain_ok (c_start r) (b_len b') (ds @ [c])"
    unfolding chain_ok_append
    using ds last c l by (auto intro: chain_ok_mono simp: c_start_def)
  have inv': "cbb_inv (b', chain')"
    using ok r ds' by (simp add: cbb_inv_def c(1) chain c_start_def)
  have tip': "tip out (b', chain')"
    using inv' cbb_find_snoc [of chain out c] fresh c by (simp add: tip_def)
  have "frames (b', chain') =
      sub_frames (take (c_offset c) (contents b')) chain @ [(out, k, drop (c_start c) (contents b'))]"
    using sub_frames_prefix [OF ds' length_contents [OF ok(3)]] c by (simp add: frames_def chain)
  also have "take (c_offset c) (contents b') = contents b @ pre"
    using length_contents [OF ok(1)] by (simp add: b' c(5))
  also have "drop (c_start c) (contents b') = []"
    using length_contents [OF ok(3)] l c by (simp add: c_start_def)
  also have "sub_frames (contents b @ pre) chain = append_last pre (frames (b, chain))"
    using sub_frames_append_last [of r "contents b" ds pre] ds length_contents [OF ok(1)]
    by (simp add: chain frames_def)
  finally show ?thesis using g tip' c b' by auto
qed

lemma attach_eq:
  "cbb_find h chain = Some (chain, []) \<Longrightarrow> cbb_attach h out n k a (b, chain) =
    (Some (), b, chain @ [\<lparr>c_handle = out, c_offset = n, c_pending_len_len = k, c_pending_is_asn1 = a\<rparr>])"
  by (simp add: cbb_attach_def)

lemma opens_length_prefixed:
  assumes m: "malloc_ok m" and k: "0 < k" "k < object_max"
  shows "opens m h out (cbb_add_length_prefixed m h out k) [] (Fixed_len k)"
  unfolding opens_def
proof (intro allI impI)
  fix b chain assume t: "tip h (b, chain)"
  have f: "cbb_find h chain = Some (chain, [])" using t by (simp add: tip_def)
  show "case cbb_add_length_prefixed m h out k (b, chain) of
      (Some _, b', chain') \<Rightarrow> grows b b' \<and> (\<exists>c zs. chain' = chain @ [c] \<and> c_handle c = out \<and> cbb_ok c \<and>
          kind_of c = Fixed_len k \<and> c_offset c = b_len b + length [] \<and> c_pending_len_len c = length zs \<and>
          contents b' = contents b @ [] @ zs)
    | (None, b', chain') \<Rightarrow> b_error b' \<and> \<not> fits m b (b_len b + length [] + pending_of (Fixed_len k))"
  proof (cases "fst (cbb_buffer_add m k b)")
    case None
    then show ?thesis
      using add_total [of b k m] tip_ok [OF t] k add_None [of m k b]
      by (cases "cbb_buffer_add m k b")
        (auto simp: cbb_add_length_prefixed_def tip_flush [OF t] on_buffer_def)
  next
    case (Some p)
    then obtain b1 where a: "cbb_buffer_add m k b = (Some p, b1)" by (cases "cbb_buffer_add m k b") auto
    have ok: "buf_ok b" using tip_ok [OF t] by simp
    note s = add_Some [OF m ok k(2) a]
    have ok1: "buf_ok b1" using s by (simp add: grows_def)
    have le: "p + length (replicate k (0 :: byte)) \<le> b_len b1" using s by simp
    note ow = overwrite [OF ok1 le]
    have "take p (contents b1) = contents b"
      using s by (simp add: contents_def [of b1] min_def)
    then have "contents (b1\<lparr>b_buf := blit p (replicate k 0) (b_buf b1)\<rparr>) = contents b @ replicate k 0"
      unfolding ow(2) using s length_contents [OF ok1] by (simp add: blit_last)
    then show ?thesis
      using a s k ow(1)
      by (auto simp: cbb_add_length_prefixed_def tip_flush [OF t] on_buffer_def attach_eq [OF f]
          cbb_ok_def kind_of_def grows_def)
  qed
qed

lemma opens_asn1:
  assumes m: "malloc_ok m"
  shows "opens m h out (CBB_add_asn1 m h out tag) (tag_octets tag) Asn1_len"
  unfolding opens_def
proof (intro allI impI)
  fix b chain assume t: "tip h (b, chain)"
  have f: "cbb_find h chain = Some (chain, [])" using t by (simp add: tip_def)
  have e: "CBB_add_asn1 m h out tag (b, chain) = bind_act (then_act (add_tag m h tag)
      (bind_act (on_buffer (\<lambda>base. (Some (b_len base), base))) (\<lambda>offset. then_act (CBB_add_u8 m h 0) (ret_act offset))))
      (\<lambda>offset. cbb_attach h out offset 1 True) (b, chain)"
    by (simp only: CBB_add_asn1_def Let_def bind_act_Some [where f = "CBB_flush m h" and s = "(b, chain)", OF tip_flush [OF t]] add_tag_def then_act_def
        bind_act_assoc bind_act_ret)
  have em: "emits m h (add_tag m h tag) (tag_octets tag)" by (rule emits_tag [OF m])
  obtain r1 b1 ch1 where r1: "add_tag m h tag (b, chain) = (r1, b1, ch1)"
    by (cases "add_tag m h tag (b, chain)") auto
  show "case CBB_add_asn1 m h out tag (b, chain) of
      (Some _, b', chain') \<Rightarrow> grows b b' \<and> (\<exists>c zs. chain' = chain @ [c] \<and> c_handle c = out \<and> cbb_ok c \<and>
          kind_of c = Asn1_len \<and> c_offset c = b_len b + length (tag_octets tag) \<and> c_pending_len_len c = length zs \<and>
          contents b' = contents b @ tag_octets tag @ zs)
    | (None, b', chain') \<Rightarrow> b_error b' \<and> \<not> fits m b (b_len b + length (tag_octets tag) + pending_of Asn1_len)"
  proof (cases r1)
    case None
    then show ?thesis
      using emits_NoneD [OF em t r1 [unfolded None]] r1
        fits_le [of m b "b_len b + length (tag_octets tag) + 1" "b_len b + length (tag_octets tag)"]
      unfolding e by auto
  next
    case (Some u)
    note s1 = emits_SomeD [OF em t r1 [unfolded Some]]
    obtain r2 b2 ch2 where r2: "CBB_add_u8 m h 0 (b1, chain) = (r2, b2, ch2)"
      by (cases "CBB_add_u8 m h 0 (b1, chain)") auto
    have t1: "tip h (b1, chain)" using s1 by simp
    show ?thesis
    proof (cases r2)
      case None
      then show ?thesis
        using emits_NoneD [OF emits_u8 [OF m] t1 r2 [unfolded None]] r1 r2 Some s1 unfolding e
        by (auto simp: on_buffer_def dest: fits_grows)
    next
      case (Some u')
      note s2 = emits_SomeD [OF emits_u8 [OF m] t1 r2 [unfolded Some]]
      show ?thesis
        using s1 s2 r1 r2 Some \<open>r1 = Some u\<close> f unfolding e
        by (auto simp: on_buffer_def attach_eq cbb_ok_def kind_of_def intro: grows_trans)
    qed
  qed
qed

end
