(* ===== verification/Cbb_Tree.thy ===== *)
theory Cbb_Tree
  imports Cbb_Append
begin

text \<open>
  Whole builder programs. A tree of items (raw bytes, contents under a length prefix, ASN.1
  elements) has a serialisation, defined without any buffer; the program that walks the tree
  and calls the builder for each node, leaving every child open until the builder closes it,
  produces exactly that serialisation, or fails because it does not exist or does not fit.
\<close>

section \<open>Trees of items\<close>

datatype item = Octets "byte list" | Prefixed nat "item list" | Asn1 u32 "item list"

definition framed :: "byte list \<Rightarrow> frame_kind \<Rightarrow> byte list option \<Rightarrow> byte list option" where
  "framed header k xo =
     (case xo of None \<Rightarrow> None
      | Some xs \<Rightarrow> map_option (\<lambda>pre. header @ pre @ xs) (len_prefix k (length xs)))"

definition cat :: "byte list option \<Rightarrow> byte list option \<Rightarrow> byte list option" where
  "cat xo yo = (case xo of None \<Rightarrow> None | Some xs \<Rightarrow> map_option ((@) xs) yo)"

fun ser :: "item list \<Rightarrow> byte list option" where
  "ser [] = Some []"
| "ser (Octets bs # is) = cat (Some bs) (ser is)"
| "ser (Prefixed k js # is) = cat (framed [] (Fixed_len k) (ser js)) (ser is)"
| "ser (Asn1 tag js # is) = cat (framed (tag_octets tag) Asn1_len (ser js)) (ser is)"

text \<open>The prefixes the interface offers, and data that is a C object.\<close>

fun items_ok :: "item list \<Rightarrow> bool" where
  "items_ok [] = True"
| "items_ok (Octets bs # is) = (length bs < object_max \<and> items_ok is)"
| "items_ok (Prefixed k js # is) = (k \<in> {1, 2, 3} \<and> items_ok js \<and> items_ok is)"
| "items_ok (Asn1 tag js # is) = (items_ok js \<and> items_ok is)"

text \<open>The program: the child of the object \<open>h\<close> is the object \<open>Suc h\<close>.\<close>

fun build :: "libc_malloc \<Rightarrow> nat \<Rightarrow> item list \<Rightarrow> (cbb_state, unit) act" where
  "build m h [] = ret_act ()"
| "build m h (Octets bs # is) = then_act (CBB_add_bytes m h bs) (build m h is)"
| "build m h (Prefixed k js # is) =
     then_act (cbb_add_length_prefixed m h (Suc h) k) (then_act (build m (Suc h) js) (build m h is))"
| "build m h (Asn1 tag js # is) =
     then_act (CBB_add_asn1 m h (Suc h) tag) (then_act (build m (Suc h) js) (build m h is))"

text \<open>The part of the chain above an object that is written to stays as it is.\<close>

definition above :: "nat \<Rightarrow> cbb list \<Rightarrow> bool" where
  "above h d \<longleftrightarrow> cbb_find h d = Some (d, []) \<or> (\<forall>c \<in> set d. c_handle c \<noteq> h)"

lemma find_above:
  assumes "above h d" "cbb_find h (d @ w) = Some (e, v)"
  shows "\<exists>x. e = d @ x"
proof (cases "cbb_find h d = Some (d, [])")
  case True
  then show ?thesis using assms(2) cbb_find_split [OF True, of w] by simp
next
  case False
  with assms(1) have "\<forall>c \<in> set d. c_handle c \<noteq> h" by (simp add: above_def)
  then show ?thesis
    using assms(2) by (induction d arbitrary: e) (auto split: option.splits)
qed

definition keeps :: "cbb list \<Rightarrow> (cbb_state, 'a) act \<Rightarrow> bool" where
  "keeps d f \<longleftrightarrow> (\<forall>b w r b' chain'. f (b, d @ w) = (r, b', chain') \<longrightarrow> (\<exists>w'. chain' = d @ w'))"

lemma keeps_bind: "keeps d f \<Longrightarrow> (\<And>x. keeps d (g x)) \<Longrightarrow> keeps d (bind_act f g)"
  by (fastforce simp: keeps_def bind_act_def split: prod.splits option.splits)

lemma keeps_then: "keeps d f \<Longrightarrow> keeps d g \<Longrightarrow> keeps d (then_act f g)"
  unfolding then_act_def by (rule keeps_bind)

lemma keeps_on_buffer: "keeps d (on_buffer f)"
  by (simp add: keeps_def on_buffer_def split: prod.splits)

lemma keeps_ret: "keeps d (ret_act x)"
  by (simp add: keeps_def)

lemma keeps_flush: "above h d \<Longrightarrow> keeps d (CBB_flush m h)"
  unfolding keeps_def CBB_flush_def
  by (fastforce dest: find_above split: option.splits prod.splits)

lemma keeps_attach: "above h d \<Longrightarrow> keeps d (cbb_attach h out n k a)"
  unfolding keeps_def cbb_attach_def
  by (fastforce dest: find_above split: option.splits prod.splits)

lemmas keeps_intros = keeps_bind keeps_then keeps_on_buffer keeps_ret keeps_flush keeps_attach

lemma keeps_u8: "above h d \<Longrightarrow> keeps d (CBB_add_u8 m h v)"
  unfolding CBB_add_u8_def cbb_add_u_def by (intro keeps_intros)

lemma keeps_base128: "above h d \<Longrightarrow> keeps d (add_base128_integer m h v)"
proof -
  assume f: "above h d"
  have "keeps d (add_base128_bytes m h v k)" for k
    using f by (induction k) (auto simp: Let_def simp del: ret_act_simp intro!: keeps_intros keeps_u8)
  then show ?thesis by (simp add: add_base128_integer_def Let_def)
qed

lemma keeps_ops:
  assumes "above h d"
  shows "keeps d (CBB_add_bytes m h xs)" "keeps d (cbb_add_length_prefixed m h out k)"
    "keeps d (CBB_add_asn1 m h out tag)"
  using assms unfolding CBB_add_bytes_def cbb_add_length_prefixed_def CBB_add_asn1_def Let_def
  by (auto intro!: keeps_intros keeps_u8 keeps_base128)

lemma build_keeps:
  "above h d \<Longrightarrow> \<forall>c \<in> set d. c_handle c \<le> h \<Longrightarrow> keeps d (build m h is)"
proof (induction m h "is" rule: build.induct)
  case (1 m h)
  then show ?case by (simp only: build.simps keeps_ret)
next
  case (2 m h bs "is")
  then show ?case by (auto intro!: keeps_then keeps_ops)
next
  case (3 m h k js "is")
  then have "above (Suc h) d" "\<forall>c \<in> set d. c_handle c \<le> Suc h" by (fastforce simp: above_def)+
  with 3 show ?case by (auto intro!: keeps_then keeps_ops)
next
  case (4 m h tag js "is")
  then have "above (Suc h) d" "\<forall>c \<in> set d. c_handle c \<le> Suc h" by (fastforce simp: above_def)+
  with 4 show ?case by (auto intro!: keeps_then keeps_ops)
qed

section \<open>Closing a child\<close>

lemma reserve_error: "cbb_buffer_reserve m n b = (Some p, b') \<Longrightarrow> b_error b' = b_error b"
proof -
  have g: "(if x < y then (None, b\<lparr>b_error := True\<rparr>)
         else if c < x then 
             if \<not> r then (None, b\<lparr>b_error := True\<rparr>)
               else case q of
                   None \<Rightarrow> (None, b\<lparr>b_error := True\<rparr>)
                 | Some (_, newbuf) \<Rightarrow>
                     (Some (b_len b), b\<lparr>b_buf := newbuf, b_cap := cc\<rparr>)
         else (Some (b_len b), b)) = (Some p, b') \<Longrightarrow> b_error b' = b_error b" for x y c r q cc
    by (auto split: if_splits option.splits)
  show "cbb_buffer_reserve m n b = (Some p, b') \<Longrightarrow> b_error b' = b_error b"
    unfolding cbb_buffer_reserve_def Let_def by (rule g)
qed
lemma add_error: "cbb_buffer_add m n b = (Some p, b') \<Longrightarrow> b_error b' = b_error b"
  by (auto simp: cbb_buffer_add_def bind_act_eq_Some dest: reserve_error)

lemma close_child_error:
  "cbb_close_child m n (b, c) = (Some u, b', c') \<Longrightarrow> b_error b' = b_error b"
  by (auto simp: cbb_close_child_def cbb_write_prefix_def Let_def bind_act_def
      split: if_splits prod.splits option.splits dest: add_error)

lemma flush_chain_error:
  "cbb_flush_chain m (b, cs) = (Some u, b', cs') \<Longrightarrow> \<not> b_error b' \<and> (cs' = [] \<or> b' = b \<and> cs' = cs)"
proof (induction cs arbitrary: u b' cs')
  case Nil
  then show ?case by (auto split: if_splits)
next
  case (Cons c cs)
  then show ?case
    by (auto simp: Let_def split: if_splits prod.splits option.splits dest!: close_child_error)
qed

text \<open>To flush an object is to flush its child first.\<close>

lemma flush_child_first:
  assumes d: "cbb_find h d = Some (d, [])" and c: "\<forall>x \<in> set d. c_handle x \<noteq> c_handle c" "c_pending_len_len c \<noteq> 0"
  shows "CBB_flush m h (b, d @ c # w) = then_act (CBB_flush m (c_handle c)) (CBB_flush m h) (b, d @ c # w)"
proof -
  have "cbb_find (c_handle c) (d @ [c]) = Some (d @ [c], [])" using c by (intro cbb_find_snoc) auto
  from cbb_find_split [OF this, of w] have f1: "cbb_find (c_handle c) (d @ c # w) = Some (d @ [c], w)" by simp
  have f: "cbb_find h (d @ v) = Some (d, v)" for v using cbb_find_split [OF d] by simp
  obtain r b1 w1 where e: "cbb_flush_chain m (b, w) = (r, b1, w1)" by (cases "cbb_flush_chain m (b, w)") auto
  have fl: "CBB_flush m (c_handle c) (b, d @ c # w) = (r, b1, d @ c # w1)"
    by (simp add: CBB_flush_def f1 e)
  show ?thesis
  proof (cases r)
    case None
    then have err: "b_error b1" using flush_chain_None e by simp
    then have "b1\<lparr>b_error := True\<rparr> = b1" by simp
    moreover have "b_error b \<Longrightarrow> b1 = b \<and> w1 = w" using e by (cases w) auto
    ultimately show ?thesis
      using None c fl e by (auto simp: then_act_def bind_act_def CBB_flush_def f Let_def)
  next
    case (Some u)
    then have b: "\<not> b_error b" using e by (cases w) auto
    have b1: "\<not> b_error b1" and e1: "cbb_flush_chain m (b1, w1) = (Some (), b1, w1)"
      using flush_chain_error [OF e [unfolded Some]] e Some by auto
    have "cbb_flush_chain m (b, c # w) = cbb_flush_chain m (b1, c # w1)"
      using e Some b b1 e1 c(2) by (simp add: Let_def)
    then have "CBB_flush m h (b, d @ c # w) = CBB_flush m h (b1, d @ c # w1)"
      by (simp add: CBB_flush_def f del: cbb_flush_chain.simps)
    then show ?thesis using fl Some by simp
  qed
qed


text \<open>Flushing an object whose only child has no child.\<close>

lemma flush_last:
  assumes m: "malloc_ok m" and t: "tip h (b0, chain)"
    and t': "tip (c_handle c) (b, chain @ [c])"
    and c: "cbb_ok c" "\<forall>x \<in> set chain. c_handle x \<noteq> c_handle c"
    and b: "take (c_offset c) (contents b) = contents b0 @ pre" "drop (c_start c) (contents b) = xs"
    and g: "grows b0 b"
  shows "case CBB_flush m h (b, chain @ [c]) of
      (Some _, b', chain') \<Rightarrow> chain' = chain \<and> grows b0 b' \<and> tip h (b', chain) \<and>
        (\<exists>p. len_prefix (kind_of c) (length xs) = Some p \<and> contents b' = contents b0 @ pre @ p @ xs)
    | (None, b', chain') \<Rightarrow> b_error b' \<and>
        (\<forall>p. len_prefix (kind_of c) (length xs) = Some p \<longrightarrow> \<not> fits m b (b_len b0 + length (pre @ p @ xs)))"
proof -
  have f: "cbb_find h (chain @ [c]) = Some (chain, [c])"
    using t cbb_find_split [of h chain chain "[]" "[c]"] by (simp add: tip_def)
  have ok: "buf_ok b" "\<not> b_error b" "buf_ok b0" using tip_ok [OF t'] tip_ok [OF t] by auto
  have chain0: "chain \<noteq> []" using t by (auto simp: tip_def)
  note l = length_contents [OF ok(1)] and l0 = length_contents [OF ok(3)]
  have inv: "cbb_inv (b, chain @ [c])" using t' by (simp add: tip_def)
  have "chain_ok (c_start (last chain)) (b_len b) [c]"
    by (rule cbb_inv_split(1) [OF inv chain0])
  then have st: "c_start c \<le> b_len b" "c_offset c \<le> b_len b" by (auto simp: c_start_def)
  have co: "chain_ok (c_offset c) (b_len b) [c]" using st c by simp
  have o: "c_offset c = b_len b0 + length pre"
    using arg_cong [OF b(1), of length] l l0 st by simp
  have cf: "close_frames (sub_frames (contents b) [c]) =
      map_option (\<lambda>p. p @ xs) (len_prefix (kind_of c) (length xs))"
    using b(2) by (simp split: option.splits)
  obtain r b' w' where e: "cbb_flush_chain m (b, [c]) = (r, b', w')" by (cases "cbb_flush_chain m (b, [c])") auto
  have fl: "CBB_flush m h (b, chain @ [c]) = (r, b', chain @ w')"
    by (simp add: CBB_flush_def f e del: cbb_flush_chain.simps)
  show ?thesis
  proof (cases r)
    case None
    have "\<not> fits m b (b_len b0 + length (pre @ p @ xs))"
      if "len_prefix (kind_of c) (length xs) = Some p" for p
      using flush_chain_total [OF m ok(1,2) co, of "p @ xs"] cf that e None o
      by (auto simp: add.assoc simp del: cbb_flush_chain.simps)
    moreover have "b_error b'" using flush_chain_None [OF e [unfolded None]] .
    ultimately show ?thesis using None fl by (simp del: cbb_flush_chain.simps)
  next
    case (Some u)
    from flush_chain_Some [OF m ok(1) co, of b' w'] e Some obtain ys where w': "w' = []" and g': "grows b b'"
      and ys: "close_frames (sub_frames (contents b) [c]) = Some ys"
      and b': "contents b' = take (c_offset c) (contents b) @ ys"
      by (auto simp del: cbb_flush_chain.simps sub_frames.simps)
    have "tip h (b', chain)"
      using flush_to_tip [OF m inv, of h b' chain] fl Some w' by simp
    moreover have "\<exists>p. len_prefix (kind_of c) (length xs) = Some p \<and> ys = p @ xs"
      using ys unfolding cf by auto
    ultimately show ?thesis
      using fl Some w' b' b(1) grows_trans [OF g g'] by auto
  qed
qed


section \<open>Building a tree\<close>

text \<open>\<open>f\<close> at this state appends exactly the bytes \<open>xo\<close> to the object \<open>h\<close>, or fails because there
  are no such bytes or they do not fit.\<close>

definition appends :: "libc_malloc \<Rightarrow> nat \<Rightarrow> (cbb_state, 'a) act \<Rightarrow> byte list option \<Rightarrow> cbb_state \<Rightarrow> bool" where
  "appends m h f xo s \<longleftrightarrow>
     (case f s of
        (Some _, b', chain') \<Rightarrow> chain' = snd s \<and> grows (fst s) b' \<and> tip h (b', chain') \<and>
          (\<exists>xs. xo = Some xs \<and> contents b' = contents (fst s) @ xs)
      | (None, b', chain') \<Rightarrow> b_error b' \<and>
          (\<forall>xs. xo = Some xs \<longrightarrow> \<not> fits m (fst s) (b_len (fst s) + length xs)))"

lemma emits_appends:
  assumes "emits m h f xs" "tip h (b, chain)"
  shows "appends m h f (Some xs) (b, chain)"
  using emits_SomeD [OF assms] emits_NoneD [OF assms]
  by (auto simp: appends_def split: prod.splits option.splits)

lemma appends_then:
  assumes t: "tip h s" and f: "appends m h f xo s"
    and g: "\<And>b' xs. xo = Some xs \<Longrightarrow> tip h (b', snd s) \<Longrightarrow> appends m h g yo (b', snd s)"
  shows "appends m h (then_act f g) (cat xo yo) s"
proof -
  obtain b chain where s: "s = (b, chain)" by (cases s)
  obtain r b1 ch1 where e: "f (b, chain) = (r, b1, ch1)" by (cases "f (b, chain)") auto
  have ok: "buf_ok b" using t tip_ok s by simp
  show ?thesis
  proof (cases r)
    case None
    then show ?thesis
      using f e fits_le by (fastforce simp: appends_def s cat_def split: option.splits)
  next
    case (Some u)
    with f e s obtain xs where 1: "ch1 = chain" "grows b b1" "tip h (b1, chain)" "xo = Some xs"
        "contents b1 = contents b @ xs"
      by (auto simp: appends_def)
    then have l: "b_len b1 = b_len b + length xs"
      using length_contents [of b1] length_contents [OF ok] tip_ok [OF 1(3)] by simp
    obtain r2 b2 ch2 where e2: "g (b1, chain) = (r2, b2, ch2)" by (cases "g (b1, chain)") auto
    have "appends m h g yo (b1, chain)" using g [OF 1(4), of b1] 1(3) s by simp
    then show ?thesis
      using 1 e e2 Some l s
      by (cases r2) (auto simp: appends_def cat_def add.assoc intro: grows_trans dest: fits_grows)
  qed
qed

lemma flush_again:
  assumes "CBB_flush m h s = (Some u, s')"
  shows "CBB_flush m h s' = (Some u, s')"
proof -
  obtain b chain where s: "s = (b, chain)" by (cases s)
  from assms obtain d w b' w' where f: "cbb_find h chain = Some (d, w)"
    and fl: "cbb_flush_chain m (b, w) = (Some u, b', w')" and s': "s' = (b', d @ w')"
    by (auto simp: CBB_flush_def s split: option.splits prod.splits)
  have "cbb_flush_chain m (b', w') = (Some u, b', w')"
    using flush_chain_error [OF fl] fl by auto
  moreover have "cbb_find h (d @ w') = Some (d, w')"
    using cbb_find_split [OF f] by simp
  ultimately show ?thesis by (simp add: CBB_flush_def s')
qed

lemma build_flush_first:
  "then_act (build m h is) (CBB_flush m h) s =
    then_act (CBB_flush m h) (then_act (build m h is) (CBB_flush m h)) s"
proof -
  have idem: "then_act (CBB_flush m h) (then_act (CBB_flush m h) f) s = then_act (CBB_flush m h) f s" for f :: "(cbb_state, unit) act"
  proof -
    obtain r s' where "CBB_flush m h s = (r, s')" by (metis surj_pair)
    then show ?thesis
      using flush_again [of m h s "()" s'] by (cases r) (simp_all add: then_act_def bind_act_def)
  qed
  show ?thesis
  proof (cases "is")
    case Nil
    have ret: "bind_act f ret_act = f" for f :: "(cbb_state, unit) act"
      by (rule ext) (simp add: bind_act_def split: prod.splits option.splits)
    show ?thesis
      using idem [of "ret_act ()"] Nil by (simp add: then_act_def ret)
  next
    case (Cons i "is'")
    then show ?thesis
      using idem
      by (cases i) (simp_all add: CBB_add_bytes_def cbb_add_length_prefixed_def CBB_add_asn1_def Let_def
          then_act_def bind_act_assoc)
  qed
qed


lemma build_again:
  "then_act (then_act A (then_act B (CBB_flush m h))) (then_act (build m h is) (CBB_flush m h)) =
    then_act (then_act A (then_act B (build m h is))) (CBB_flush m h)"
proof -
  have "then_act (CBB_flush m h) (then_act (build m h is) (CBB_flush m h)) =
      then_act (build m h is) (CBB_flush m h)"
    by (rule ext) (rule build_flush_first [symmetric])
  then show ?thesis by (simp add: then_act_def bind_act_assoc)
qed

lemma opened_core:
  assumes m: "malloc_ok m" and t: "tip h (b, chain)" and fresh: "\<forall>c \<in> set chain. c_handle c \<noteq> out"
    and o: "opens m h out f pre k"
    and g: "\<And>b1 c. tip out (b1, chain @ [c]) \<Longrightarrow> c_handle c = out \<Longrightarrow> cbb_ok c \<Longrightarrow>
      appends m out g xo (b1, chain @ [c])"
  shows "appends m h (then_act f (then_act g (CBB_flush m h))) (framed pre k xo) (b, chain)"
    (is "appends m h ?f ?yo _")
proof -
  have ok: "buf_ok b" using tip_ok [OF t] by simp
  have pend: "pending_of k \<le> length p" if "len_prefix k n = Some p" for n p
    using that by (cases k) (auto simp: length_octets_def split: if_splits)
  obtain r b1 ch1 where e: "f (b, chain) = (r, b1, ch1)" by (cases "f (b, chain)") auto
  show ?thesis
  proof (cases r)
    case None
    have "\<not> fits m b (b_len b + length ys)" if "?yo = Some ys" for ys
      using opens_NoneD [OF o t e [unfolded None]] that pend
        fits_le [of m b "b_len b + length ys" "b_len b + length pre + pending_of k"]
      by (fastforce simp: framed_def split: option.splits)
    then show ?thesis
      using opens_NoneD [OF o t e [unfolded None]] e None by (simp add: appends_def)
  next
    case (Some u)
    from opens_SomeD [OF o t e [unfolded Some] fresh] obtain c zs where gr: "grows b b1"
      and t1: "tip out (b1, ch1)" and c: "ch1 = chain @ [c]" "c_handle c = out" "cbb_ok c"
        "kind_of c = k" "c_offset c = b_len b + length pre" "c_pending_len_len c = length zs"
      and b1: "contents b1 = contents b @ pre @ zs"
      by auto
    have ok1: "buf_ok b1" using gr by (simp add: grows_def)
    have l1: "b_len b1 = c_start c"
      using length_contents [OF ok1] length_contents [OF ok] c by (simp add: b1 c_start_def)
    have A: "appends m out g xo (b1, chain @ [c])"
      using g t1 c by simp
    obtain r3 b3 ch3 where e3: "g (b1, chain @ [c]) = (r3, b3, ch3)"
      by (cases "g (b1, chain @ [c])") auto
    show ?thesis
    proof (cases r3)
      case None
      have "\<not> fits m b (b_len b + length ys)" if ys: "?yo = Some ys" for ys
      proof -
        from ys obtain xs p where xs: "xo = Some xs" "len_prefix k (length xs) = Some p" "ys = pre @ p @ xs"
          by (auto simp: framed_def split: option.splits)
        have "\<not> fits m b1 (b_len b1 + length xs)" using A e3 None xs by (simp add: appends_def)
        moreover have "b_len b1 + length xs \<le> b_len b + length ys"
          using pend [OF xs(2)] c xs l1 by (cases k) (auto simp: c_start_def kind_of_def cbb_ok_def split: if_splits)
        ultimately show ?thesis using fits_le fits_grows [OF _ gr] by blast
      qed
      then show ?thesis
        using A e3 None e Some c by (simp add: appends_def then_act_def bind_act_def)
    next
      case s3: (Some u3)
      with A e3 obtain xs where g3: "grows b1 b3" and t3: "tip out (b3, chain @ [c])"
        and ch3: "ch3 = chain @ [c]" and xs: "xo = Some xs" "contents b3 = contents b1 @ xs"
        by (auto simp: appends_def)
      have p1: "take (c_offset c) (contents b3) = contents b @ pre"
        using length_contents [OF ok] c by (simp add: xs b1)
      have p2: "drop (c_start c) (contents b3) = xs"
        using length_contents [OF ok1] l1 by (simp add: xs)
      have g0: "grows b b3" by (rule grows_trans [OF gr g3])
      have fl: "case CBB_flush m h (b3, chain @ [c]) of
          (Some _, b', chain') \<Rightarrow> chain' = chain \<and> grows b b' \<and> tip h (b', chain) \<and>
            (\<exists>p. len_prefix (kind_of c) (length xs) = Some p \<and> contents b' = contents b @ pre @ p @ xs)
        | (None, b', chain') \<Rightarrow> b_error b' \<and>
            (\<forall>p. len_prefix (kind_of c) (length xs) = Some p \<longrightarrow> \<not> fits m b3 (b_len b + length (pre @ p @ xs)))"
        using t3 c fresh by (intro flush_last [OF m t _ _ _ p1 p2 g0]) simp_all
      obtain r4 b4 ch4 where e4: "CBB_flush m h (b3, chain @ [c]) = (r4, b4, ch4)"
        by (cases "CBB_flush m h (b3, chain @ [c])") auto
      have "?f (b, chain) = (r4, b4, ch4)"
        using e Some c e3 s3 ch3 e4 by (simp add: then_act_def bind_act_def)
      then show ?thesis
        using fl e4 xs(1) c(4) by (cases r4) (auto simp: appends_def framed_def dest: fits_grows [OF _ g0])
    qed
  qed
qed

text \<open>The builder fills the child and flushes the parent, which flushes the child first.\<close>

lemma build_flush_parent:
  assumes t: "tip (Suc h) (b, chain @ [c])" and h: "tip h (b0, chain)"
    and c: "c_handle c = Suc h" "cbb_ok c" and le: "\<forall>x \<in> set chain. c_handle x \<le> h"
  shows "then_act (build m (Suc h) js) (CBB_flush m h) (b, chain @ [c]) =
    then_act (then_act (build m (Suc h) js) (CBB_flush m (Suc h))) (CBB_flush m h) (b, chain @ [c])"
proof -
  let ?J = "build m (Suc h) js"
  obtain r2 b2 ch2 where e2: "?J (b, chain @ [c]) = (r2, b2, ch2)" by (cases "?J (b, chain @ [c])") auto
  show ?thesis
  proof (cases r2)
    case None
    then show ?thesis using e2 by (simp add: then_act_def bind_act_def)
  next
    case (Some u2)
    have "above (Suc h) (chain @ [c])" using t by (simp add: above_def tip_def)
    then have "keeps (chain @ [c]) ?J" using le c(1) by (intro build_keeps) auto
    then obtain w where w: "ch2 = (chain @ [c]) @ w"
      using e2 unfolding keeps_def by (metis append_Nil2)
    have "CBB_flush m h (b2, chain @ c # w) =
        then_act (CBB_flush m (c_handle c)) (CBB_flush m h) (b2, chain @ c # w)"
      using h c le by (intro flush_child_first) (auto simp: tip_def cbb_ok_def)
    then show ?thesis using e2 Some w c(1) by (simp add: then_act_def bind_act_def)
  qed
qed

lemma opened_appends:
  assumes m: "malloc_ok m" and t: "tip h (b, chain)" and le: "\<forall>c \<in> set chain. c_handle c \<le> h"
    and o: "opens m h (Suc h) f pre k"
    and js: "\<And>b1 c. tip (Suc h) (b1, chain @ [c]) \<Longrightarrow> \<forall>x \<in> set (chain @ [c]). c_handle x \<le> Suc h \<Longrightarrow>
      appends m (Suc h) (then_act (build m (Suc h) js) (CBB_flush m (Suc h))) xo (b1, chain @ [c])"
  shows "appends m h (then_act f (then_act (build m (Suc h) js) (CBB_flush m h)))
    (framed pre k xo) (b, chain)"
proof -
  let ?J = "build m (Suc h) js"
  have fresh: "\<forall>c \<in> set chain. c_handle c \<noteq> Suc h" using le by auto
  have "appends m (Suc h) (then_act ?J (CBB_flush m (Suc h))) xo (b1, chain @ [c])"
    if "tip (Suc h) (b1, chain @ [c])" "c_handle c = Suc h" for b1 c
    using that le by (intro js) auto
  from opened_core [OF m t fresh o this]
  have A: "appends m h (then_act f (then_act (then_act ?J (CBB_flush m (Suc h))) (CBB_flush m h)))
      (framed pre k xo) (b, chain)" .
  have "then_act f (then_act ?J (CBB_flush m h)) (b, chain) =
      then_act f (then_act (then_act ?J (CBB_flush m (Suc h))) (CBB_flush m h)) (b, chain)"
    unfolding then_act_def [of f]
  proof (rule bind_act_cong)
    fix u s1 assume e: "f (b, chain) = (Some u, s1)"
    obtain b1 ch1 where s1: "s1 = (b1, ch1)" by (cases s1)
    from opens_SomeD [OF o t e [unfolded s1] fresh] obtain c where "ch1 = chain @ [c]"
        "c_handle c = Suc h" "cbb_ok c" "tip (Suc h) (b1, ch1)"
      by auto
    then show "then_act ?J (CBB_flush m h) s1 =
        then_act (then_act ?J (CBB_flush m (Suc h))) (CBB_flush m h) s1"
      unfolding s1 using build_flush_parent [OF _ t _ _ le] by simp
  qed
  then show ?thesis using A by (simp add: appends_def)
qed

lemma build_appends:
  assumes m: "malloc_ok m"
  shows "items_ok is \<Longrightarrow> tip h s \<Longrightarrow> \<forall>c \<in> set (snd s). c_handle c \<le> h \<Longrightarrow>
    appends m h (then_act (build m h is) (CBB_flush m h)) (ser is) s"
proof (induction "is" arbitrary: h s rule: ser.induct)
  case 1
  obtain b chain where "s = (b, chain)" by (cases s)
  with 1 show ?case
    using tip_flush [of h b chain m] tip_ok [of h b chain] by (simp add: appends_def grows_def)
next
  case (2 bs "is")
  have "appends m h (CBB_add_bytes m h bs) (Some bs) s"
    using 2 emits_appends [OF emits_add_bytes [OF m]] by (cases s) simp
  from appends_then [OF 2(3) this, of "then_act (build m h is) (CBB_flush m h)" "ser is"] 2
  show ?case by (simp add: then_act_def bind_act_assoc)
next
  case (3 k js "is")
  obtain b chain where s: "s = (b, chain)" by (cases s)
  let ?A = "cbb_add_length_prefixed m h (Suc h) k"
  have "opens m h (Suc h) ?A [] (Fixed_len k)"
    using 3 by (intro opens_length_prefixed [OF m]) auto
  from opened_appends [OF m _ _ this, of b chain js "ser js"] 3 s
  have "appends m h (then_act ?A (then_act (build m (Suc h) js) (CBB_flush m h)))
      (framed [] (Fixed_len k) (ser js)) s"
    by simp
  from appends_then [OF 3(4) this, of "then_act (build m h is) (CBB_flush m h)" "ser is"] 3
  have "appends m h (then_act (then_act ?A (then_act (build m (Suc h) js) (CBB_flush m h)))
      (then_act (build m h is) (CBB_flush m h))) (ser (Prefixed k js # is)) s"
    by simp
  then show ?case by (simp only: build_again build.simps)
next
  case (4 tag js "is")
  obtain b chain where s: "s = (b, chain)" by (cases s)
  let ?A = "CBB_add_asn1 m h (Suc h) tag"
  from opened_appends [OF m _ _ opens_asn1 [OF m, where h = h and tag = tag], of b chain js "ser js"] 4 s
  have "appends m h (then_act ?A (then_act (build m (Suc h) js) (CBB_flush m h)))
      (framed (tag_octets tag) Asn1_len (ser js)) s"
    by simp
  from appends_then [OF 4(4) this, of "then_act (build m h is) (CBB_flush m h)" "ser is"] 4
  have "appends m h (then_act (then_act ?A (then_act (build m (Suc h) js) (CBB_flush m h)))
      (then_act (build m h is) (CBB_flush m h))) (ser (Asn1 tag js # is)) s"
    by simp
  then show ?case by (simp only: build_again build.simps)
qed

section \<open>After a failure\<close>

lemma flush_error: "b_error b \<Longrightarrow> CBB_flush m h (b, chain) = (None, b, chain)"
proof -
  assume e: "b_error b"
  have "cbb_flush_chain m (b, w) = (None, b, w)" for w using e by (cases w) simp_all
  then show ?thesis by (auto simp: CBB_flush_def split: option.splits dest: cbb_find_split)
qed

lemma build_error: "b_error b \<Longrightarrow> is \<noteq> [] \<Longrightarrow> build m h is (b, chain) = (None, b, chain)"
  using flush_error [of b m h chain]
  by (cases "(m, h, is)" rule: build.cases)
    (simp_all add: CBB_add_bytes_def cbb_add_length_prefixed_def CBB_add_asn1_def Let_def)

text \<open>Errors stick: after a write has failed, whatever is written next fails too and the builder
  cannot be finished, so that a caller may check the result of \<^verbatim>\<open>CBB_finish\<close> alone.\<close>

theorem failed_write_is_final:
  assumes "malloc_ok m" and "tip h (b, chain)" and "length xs < object_max"
    and "CBB_add_bytes m h xs (b, chain) = (None, b', chain')"
  shows "(is \<noteq> [] \<longrightarrow> build m h' is (b', chain') = (None, b', chain')) \<and>
    CBB_finish m h' od ol (b', chain') = (None, b', chain')"
proof -
  have "b_error b'" using emits_NoneD [OF emits_add_bytes [OF assms(1,3)] assms(2,4)] by simp
  then show ?thesis by (auto simp: build_error CBB_finish_def flush_error)
qed

lemma failed_write_is_final_witness:
  "\<exists>b. CBB_finish (\<lambda>n. None) 0 True True b = (None, b) \<and> b_buf (fst b) = [1]"
proof -
  let ?root = "\<lparr>c_handle = 0, c_offset = 0, c_pending_len_len = 0, c_pending_is_asn1 = False\<rparr>"
  let ?b = "\<lambda>e. \<lparr>b_buf = [1], b_len = 1, b_cap = 1, b_can_resize = False, b_error = e\<rparr>"
  have w: "CBB_add_bytes (\<lambda>n. None) 0 [2] (?b False, [?root]) = (None, ?b True, [?root])"
    by (simp add: CBB_add_bytes_def CBB_flush_def on_buffer_def cbb_buffer_add_def cbb_buffer_reserve_def
        then_act_def bind_act_def)
  have "CBB_finish (\<lambda>n. None) 0 True True (?b True, [?root]) = (None, ?b True, [?root])"
    using failed_write_is_final [OF _ _ _ w] by (simp add: malloc_ok_def tip_def cbb_inv_def buf_ok_def)
  then show ?thesis by (intro exI [of _ "(?b True, [?root])"]) simp
qed

end
