(* ===== verification/Cbb_Asn1.thy ===== *)
theory Cbb_Asn1
  imports Cbb_Tree "HOL-Library.List_Lexorder"
begin

text \<open>
  The operations of \<^verbatim>\<open>cbb.c\<close> that write whole ASN.1 values, the textual form of object
  identifiers (\<^verbatim>\<open>cbb.c\<close> and \<^verbatim>\<open>cbs.c\<close>), the sorting of \<^verbatim>\<open>SET OF\<close> and \<^verbatim>\<open>CBB_finish_i2d\<close>. The local
  variable \<^verbatim>\<open>child\<close> of a function is an object whose handle the caller chooses.
\<close>

section \<open>Integers, octet strings and booleans\<close>

fun add_uint64_bytes :: "libc_malloc \<Rightarrow> nat \<Rightarrow> bool \<Rightarrow> byte list \<Rightarrow> (cbb_state, unit) act" where
  "add_uint64_bytes m child started [] = (if \<not> started then CBB_add_u8 m child 0 else ret_act ())"
| "add_uint64_bytes m child started (b # bs) =
     (if \<not> started then
        if b = 0 then add_uint64_bytes m child started bs
        else then_act (if b AND 0x80 \<noteq> 0 then CBB_add_u8 m child 0 else ret_act ())
               (then_act (CBB_add_u8 m child b) (add_uint64_bytes m child True bs))
      else then_act (CBB_add_u8 m child b) (add_uint64_bytes m child started bs))"

definition CBB_add_asn1_uint64 :: "libc_malloc \<Rightarrow> nat \<Rightarrow> nat \<Rightarrow> u64 \<Rightarrow> (cbb_state, unit) act" where
  "CBB_add_asn1_uint64 m h child v =
     then_act (CBB_add_asn1 m h child CBS_ASN1_INTEGER)
       (then_act
         (add_uint64_bytes m child False
           (map (\<lambda>i. ucast (drop_bit (8 * (7 - i)) v AND 0xff)) [0..<8]))
         (CBB_flush m h))"

text \<open>The bytes of an \<^verbatim>\<open>int64_t\<close> in the memory of the target, least significant first.\<close>

definition le_bytes64 :: "u64 \<Rightarrow> byte list" where
  "le_bytes64 v = map (\<lambda>i. ucast (drop_bit (8 * i) v)) [0..<8]"

fun int64_start :: "byte list \<Rightarrow> nat \<Rightarrow> nat" where
  "int64_start u_bytes 0 = 0"
| "int64_start u_bytes (Suc start) =
     (if u_bytes ! Suc start = 0xff \<and> u_bytes ! start AND 0x80 \<noteq> 0
      then int64_start u_bytes start else Suc start)"

fun add_int64_bytes :: "libc_malloc \<Rightarrow> nat \<Rightarrow> byte list \<Rightarrow> nat \<Rightarrow> (cbb_state, unit) act" where
  "add_int64_bytes m child u_bytes 0 = CBB_add_u8 m child (u_bytes ! 0)"
| "add_int64_bytes m child u_bytes (Suc i) =
     then_act (CBB_add_u8 m child (u_bytes ! Suc i)) (add_int64_bytes m child u_bytes i)"

definition CBB_add_asn1_int64 :: "libc_malloc \<Rightarrow> nat \<Rightarrow> nat \<Rightarrow> u64 \<Rightarrow> (cbb_state, unit) act" where
  "CBB_add_asn1_int64 m h child v =
     (if 0 \<le> sint v then CBB_add_asn1_uint64 m h child v
      else
        (let u_bytes = le_bytes64 v; start = int64_start u_bytes 7
         in then_act (CBB_add_asn1 m h child CBS_ASN1_INTEGER)
              (then_act (add_int64_bytes m child u_bytes start) (CBB_flush m h))))"

definition CBB_add_asn1_octet_string :: "libc_malloc \<Rightarrow> nat \<Rightarrow> nat \<Rightarrow> byte list \<Rightarrow> (cbb_state, unit) act" where
  "CBB_add_asn1_octet_string m h child data =
     then_act (CBB_add_asn1 m h child CBS_ASN1_OCTETSTRING)
       (then_act (CBB_add_bytes m child data) (CBB_flush m h))"

definition CBB_add_asn1_bool :: "libc_malloc \<Rightarrow> nat \<Rightarrow> nat \<Rightarrow> int \<Rightarrow> (cbb_state, unit) act" where
  "CBB_add_asn1_bool m h child v =
     then_act (CBB_add_asn1 m h child CBS_ASN1_BOOLEAN)
       (then_act (CBB_add_u8 m child (if v \<noteq> 0 then 0xff else 0)) (CBB_flush m h))"

section \<open>Object identifiers as text\<close>

fun parse_dotted_loop :: "u64 \<Rightarrow> bool \<Rightarrow> (CBS, u64) act" where
  "parse_dotted_loop out seen_digit [] = (if seen_digit then Some out else None, [])"
| "parse_dotted_loop out seen_digit (u # cbs) =
     (if u = 46 \<and> CBS_len cbs > 0 then (if seen_digit then Some out else None, cbs)
      else if u < 48 \<or> u > 57 \<or> (seen_digit \<and> out = 0) \<or> out > 0xffffffffffffffff div 10
        \<or> out * 10 > 0xffffffffffffffff - ucast (u - 48) then (None, cbs)
      else parse_dotted_loop (out * 10 + ucast (u - 48)) True cbs)"

definition parse_dotted_decimal :: "(CBS, u64) act" where
  "parse_dotted_decimal = parse_dotted_loop 0 False"

lemma parse_dotted_loop_shorter:
  "parse_dotted_loop out seen cbs = (Some v, rest) \<Longrightarrow>
    length rest \<le> length cbs \<and> (\<not> seen \<longrightarrow> length rest < length cbs)"
  by (induction out seen cbs rule: parse_dotted_loop.induct) (auto split: if_splits)

lemma parse_dotted_shorter:
  "parse_dotted_decimal cbs = (Some v, rest) \<Longrightarrow> length rest < length cbs"
  unfolding parse_dotted_decimal_def by (auto dest: parse_dotted_loop_shorter)

function add_oid_components :: "libc_malloc \<Rightarrow> nat \<Rightarrow> CBS \<Rightarrow> (cbb_state, unit) act" where
  "add_oid_components m h cbs =
     (if CBS_len cbs > 0 then
        (case parse_dotted_decimal cbs of
           (None, _) \<Rightarrow> fail_act
         | (Some a, cbs') \<Rightarrow> then_act (add_base128_integer m h a) (add_oid_components m h cbs'))
      else ret_act ())"
  by auto
termination
  by (relation "measure (\<lambda>(m, h, cbs). length cbs)") (auto dest: parse_dotted_shorter [OF sym])

declare add_oid_components.simps [simp del]

definition CBB_add_asn1_oid_from_text :: "libc_malloc \<Rightarrow> nat \<Rightarrow> byte list \<Rightarrow> (cbb_state, unit) act" where
  "CBB_add_asn1_oid_from_text m h txt =
     then_act (CBB_flush m h)
       (case parse_dotted_decimal txt of
          (None, _) \<Rightarrow> fail_act
        | (Some a, cbs) \<Rightarrow>
            (case parse_dotted_decimal cbs of
               (None, _) \<Rightarrow> fail_act
             | (Some b, cbs) \<Rightarrow>
                 if a > 2 \<or> (a < 2 \<and> b > 39) \<or> b > 0xffffffffffffffff - 80 then fail_act
                 else then_act (add_base128_integer m h (40 * a + b)) (add_oid_components m h cbs)))"

text \<open>The decimal digits that the format \<^verbatim>\<open>%llu\<close> prints.\<close>

fun decimal :: "nat \<Rightarrow> byte list" where
  "decimal n = (if n < 10 then [word_of_nat (48 + n)]
     else decimal (n div 10) @ [word_of_nat (48 + n mod 10)])"

declare decimal.simps [simp del]

definition add_decimal :: "libc_malloc \<Rightarrow> nat \<Rightarrow> u64 \<Rightarrow> (cbb_state, unit) act" where
  "add_decimal m out v = CBB_add_bytes m out (decimal (unat v))"

lemma parse_base128_shorter:
  "parse_base128_integer cbs = (Some v, rest) \<Longrightarrow> length rest < length cbs"
  by (drule parse_base128_sound) simp

function oid_text_loop :: "libc_malloc \<Rightarrow> nat \<Rightarrow> CBS \<Rightarrow> (cbb_state, unit) act" where
  "oid_text_loop m cbb copy =
     (if CBS_len copy \<noteq> 0 then
        (case parse_base128_integer copy of
           (None, _) \<Rightarrow> fail_act
         | (Some v, copy') \<Rightarrow>
             then_act (CBB_add_u8 m cbb 46) (then_act (add_decimal m cbb v) (oid_text_loop m cbb copy')))
      else ret_act ())"
  by auto
termination
  by (relation "measure (\<lambda>(m, cbb, copy). length copy)") (auto dest: parse_base128_shorter [OF sym])

declare oid_text_loop.simps [simp del]

text \<open>The result is the string with its terminating zero.\<close>

definition CBS_asn1_oid_to_text :: "libc_malloc \<Rightarrow> CBS \<Rightarrow> byte list option" where
  "CBS_asn1_oid_to_text m cbs =
     (case CBB_init m 0 32 of
        None \<Rightarrow> None
      | Some cbb \<Rightarrow>
          (case parse_base128_integer cbs of
             (None, _) \<Rightarrow> None
           | (Some v, copy) \<Rightarrow>
               (case then_act
                   (if v \<ge> 80 then then_act (CBB_add_bytes m 0 [50, 46]) (add_decimal m 0 (v - 80))
                    else then_act (add_decimal m 0 (v div 40))
                      (then_act (CBB_add_u8 m 0 46) (add_decimal m 0 (v mod 40))))
                   (then_act (oid_text_loop m 0 copy)
                     (then_act (CBB_add_u8 m 0 0) (CBB_finish m 0 True True))) cbb of
                  (None, _) \<Rightarrow> None
                | (Some (txt, txt_len), _) \<Rightarrow> Some (take txt_len txt))))"

section \<open>Sorting the elements of a SET OF\<close>

fun OPENSSL_memcmp :: "byte list \<Rightarrow> byte list \<Rightarrow> int" where
  "OPENSSL_memcmp (a # as) (b # bs) = (if a < b then -1 else if b < a then 1 else OPENSSL_memcmp as bs)"
| "OPENSSL_memcmp _ _ = 0"

definition compare_set_of_element :: "CBS \<Rightarrow> CBS \<Rightarrow> int" where
  "compare_set_of_element a b =
     (let a_len = CBS_len a; b_len = CBS_len b;
          min_len = (if a_len < b_len then a_len else b_len);
          ret = OPENSSL_memcmp (take min_len (CBS_data a)) (take min_len (CBS_data b))
      in if ret \<noteq> 0 then ret
         else if a_len = b_len then 0
         else if a_len < b_len then -1 else 1)"

text \<open>\<^verbatim>\<open>qsort\<close> with this comparison: elements that compare equal are the same bytes, so which
  sorting algorithm the library uses cannot be seen.\<close>

fun insert_set_of :: "CBS \<Rightarrow> CBS list \<Rightarrow> CBS list" where
  "insert_set_of x [] = [x]"
| "insert_set_of x (y # ys) =
     (if compare_set_of_element x y \<le> 0 then x # y # ys else y # insert_set_of x ys)"

definition qsort_set_of :: "CBS list \<Rightarrow> CBS list" where
  "qsort_set_of children = foldr insert_set_of children []"

lemma any_asn1_element_shorter:
  "CBS_get_any_asn1_element cbs = (Some (out, tag, h), rest) \<Longrightarrow> length rest < length cbs"
  using any_asn1_element_sound [of cbs out tag h rest]
  by (auto simp: CBS_get_any_asn1_element_def der_header_def)

function set_of_children :: "CBS \<Rightarrow> CBS list option" where
  "set_of_children cbs =
     (if CBS_len cbs \<noteq> 0 then
        (case CBS_get_any_asn1_element cbs of
           (None, _) \<Rightarrow> None
         | (Some (out, _), cbs') \<Rightarrow>
             (case set_of_children cbs' of None \<Rightarrow> None | Some children \<Rightarrow> Some (out # children)))
      else Some [])"
  by auto
termination
  by (relation "measure length") (auto dest: any_asn1_element_shorter [OF sym])

declare set_of_children.simps [simp del]

definition sizeof_CBS :: nat where
  "sizeof_CBS = 16"

fun add_all_bytes :: "libc_malloc \<Rightarrow> nat \<Rightarrow> CBS list \<Rightarrow> (cbb_state, unit) act" where
  "add_all_bytes m h [] = ret_act ()"
| "add_all_bytes m h (child # children) =
     then_act (CBB_add_bytes m h child) (add_all_bytes m h children)"

definition CBB_flush_asn1_set_of :: "libc_malloc \<Rightarrow> nat \<Rightarrow> (cbb_state, unit) act" where
  "CBB_flush_asn1_set_of m h =
     then_act (CBB_flush m h) (\<lambda>(base, chain).
       case (CBB_data h (base, chain), CBB_len h (base, chain)) of
         (Some start, Some n) \<Rightarrow>
           (let cbs = take n (drop start (b_buf base))
            in case set_of_children cbs of
                 None \<Rightarrow> (None, base, chain)
               | Some children \<Rightarrow>
                   (let num_children = length children
                    in if num_children < 2 then (Some (), base, chain)
                       else if (size_modulus - 1) div sizeof_CBS < num_children then (None, base, chain)
                       else if OPENSSL_memdup m cbs = None
                         \<or> OPENSSL_malloc m (num_children * sizeof_CBS) = None then (None, base, chain)
                       else add_all_bytes m h (qsort_set_of children)
                              (base\<lparr>b_len := start\<rparr>, chain)))
       | _ \<Rightarrow> (None, base, chain))"

section \<open>Finishing for the i2d functions\<close>

text \<open>
  \<open>outp\<close> is \<open>None\<close> for a NULL argument, \<open>Some None\<close> for a pointer to NULL, and \<open>Some (Some p)\<close>
  for a pointer to the object \<open>p\<close>, which is overwritten from its start. The result is the return
  value, the contents of what \<^verbatim>\<open>*outp\<close> pointed or now points to, and how far \<^verbatim>\<open>*outp\<close> was advanced.
\<close>

definition CBB_finish_i2d :: "libc_malloc \<Rightarrow> nat \<Rightarrow> byte list option option \<Rightarrow> cbb_state \<Rightarrow>
    int \<times> byte list option option \<times> nat" where
  "CBB_finish_i2d m h outp cbb =
     (case CBB_finish m h True True cbb of
        (None, _) \<Rightarrow> (-1, outp, 0)
      | (Some (der, der_len), _) \<Rightarrow>
          if der_len > int_max then (-1, outp, 0)
          else case outp of
              None \<Rightarrow> (int der_len, None, 0)
            | Some None \<Rightarrow> (int der_len, Some (Some (take der_len der)), 0)
            | Some (Some p) \<Rightarrow> (int der_len, Some (Some (blit 0 (take der_len der) p)), der_len))"

end
