(* ===== verification/Cbb_Program.thy ===== *)
theory Cbb_Program
  imports Cbb_Tree
begin

text \<open>
  A builder from \<^verbatim>\<open>CBB_init\<close> to \<^verbatim>\<open>CBB_finish\<close>: what a client that initialises a builder, runs a
  program on it and finishes it gets back.
\<close>

section \<open>Initialising and finishing\<close>

lemma malloc_ok_init:
  assumes m: "malloc_ok m" and n: "n < object_max" and i: "CBB_init m h n = Some s"
  shows "tip h s \<and> contents (fst s) = [] \<and> b_can_resize (fst s) \<and> b_len (fst s) = 0 \<and>
    (\<exists>c. snd s = [c] \<and> c_handle c = h)"
proof -
  obtain buf where s: "s = (\<lparr>b_buf = buf, b_len = 0, b_cap = n, b_can_resize = True, b_error = False\<rparr>,
          [\<lparr>c_handle = h, c_offset = 0, c_pending_len_len = 0, c_pending_is_asn1 = False\<rparr>])"
    and l: "buf = [] \<and> n = 0 \<or> OPENSSL_malloc m n = Some (n, buf)"
  proof (cases "OPENSSL_malloc m n")
    case None
    then show thesis
      using i that [of "[]"] by (auto simp: CBB_init_def cbb_init_def split: option.splits if_splits)
  next
    case (Some x)
    then obtain buf where "OPENSSL_malloc m n = Some (n, buf)"
      by (auto simp: OPENSSL_malloc_def split: option.splits)
    then show thesis
      using i that [of buf] by (auto simp: CBB_init_def cbb_init_def split: option.splits)
  qed
  from l have "length buf = n \<and> n + 8 < object_max"
  proof
    assume "OPENSSL_malloc m n = Some (n, buf)"
    then obtain p where "m ((n + 8) mod size_modulus) = Some p" "buf = drop 8 p"
      by (auto simp: OPENSSL_malloc_def OPENSSL_MALLOC_PREFIX_def split: option.splits)
    then show ?thesis using m n by (auto simp: malloc_ok_def)
  qed simp
  then show ?thesis
    by (simp add: s tip_def cbb_inv_def buf_ok_def contents_def)
qed

lemma malloc_total_OPENSSL:
  "malloc_total m \<Longrightarrow> n + 8 < object_max \<Longrightarrow> OPENSSL_malloc m n \<noteq> None"
  by (auto simp: OPENSSL_malloc_def malloc_total_def OPENSSL_MALLOC_PREFIX_def split: option.splits)

lemma malloc_total_init:
  assumes "malloc_total m" "n + 8 < object_max"
  shows "CBB_init m h n \<noteq> None"
  using malloc_total_OPENSSL [OF assms] malloc_total_OPENSSL [OF assms(1), of sizeof_cbb_buffer]
  by (auto simp: CBB_init_def cbb_init_def sizeof_cbb_buffer_def)

text \<open>Finishing a top-level object that has no child.\<close>

lemma finish_tip:
  assumes "tip h (b, [c])" "c_handle c = h"
  shows "CBB_finish m h True True (b, [c]) = (Some (b_buf b, b_len b), b\<lparr>b_buf := []\<rparr>, [])"
  using tip_flush [OF assms(1)] assms(2) by (simp add: CBB_finish_def CBB_cleanup_def)

section \<open>The root of the chain\<close>

text \<open>No object that is added below the root has the root's handle.\<close>

definition one_root :: "(cbb_state, 'a) act \<Rightarrow> bool" where
  "one_root f \<longleftrightarrow> (\<forall>b r w res b' chain'. c_handle r = 0 \<longrightarrow> (\<forall>c \<in> set w. c_handle c \<noteq> 0) \<longrightarrow>
     f (b, r # w) = (res, b', chain') \<longrightarrow> (\<exists>w'. chain' = r # w' \<and> (\<forall>c \<in> set w'. c_handle c \<noteq> 0)))"

lemma one_root_bind:
  assumes f: "one_root f" and g: "\<And>x. one_root (g x)"
  shows "one_root (bind_act f g)"
  unfolding one_root_def
proof (intro allI impI)
  fix b r w res b' chain'
  assume h: "c_handle r = 0" "\<forall>c \<in> set w. c_handle c \<noteq> 0" "bind_act f g (b, r # w) = (res, b', chain')"
  obtain x b1 ch1 where e: "f (b, r # w) = (x, b1, ch1)" by (metis surj_pair)
  from f [unfolded one_root_def, rule_format, OF h(1) _ e] h(2)
  obtain w1 where w1: "ch1 = r # w1" "\<forall>c \<in> set w1. c_handle c \<noteq> 0" by blast
  show "\<exists>w'. chain' = r # w' \<and> (\<forall>c \<in> set w'. c_handle c \<noteq> 0)"
  proof (cases x)
    case None
    then show ?thesis using h(3) e w1 by auto
  next
    case (Some y)
    then have "g y (b1, r # w1) = (res, b', chain')" using h(3) e w1 by simp
    then show ?thesis using g [of y, unfolded one_root_def] h(1) w1(2) by blast
  qed
qed

lemma one_root_then: "one_root f \<Longrightarrow> one_root g \<Longrightarrow> one_root (then_act f g)"
  unfolding then_act_def by (rule one_root_bind)

lemma one_root_on_buffer: "one_root (on_buffer f)"
  by (simp add: one_root_def on_buffer_def split: prod.splits)

lemma one_root_ret: "one_root (ret_act x)"
  by (simp add: one_root_def)

lemma close_child_handle: "cbb_close_child m n (b, c) = (r, b', c') \<Longrightarrow> c_handle c' = c_handle c"
  by (auto simp: cbb_close_child_def cbb_write_prefix_def Let_def bind_act_def
      split: if_splits prod.splits option.splits)

lemma flush_chain_handles:
  "cbb_flush_chain m (b, cs) = (r, b', cs') \<Longrightarrow> c_handle ` set cs' \<subseteq> c_handle ` set cs"
proof (induction cs arbitrary: r b' cs')
  case Nil
  then show ?case by (auto split: if_splits)
next
  case (Cons c cs)
  obtain r1 b1 cs1 where e: "cbb_flush_chain m (b, cs) = (r1, b1, cs1)" by (metis surj_pair)
  from Cons.IH [OF e] have IH: "\<And>x. x \<in> set cs1 \<Longrightarrow> c_handle x \<in> c_handle ` set cs" by auto
  let ?n = "(c_offset c + c_pending_len_len c) mod size_modulus"
  obtain r2 b2 c2 where e2: "cbb_close_child m ?n (b1, c) = (r2, b2, c2)" by (metis surj_pair)
  from close_child_handle [OF e2] IH show ?case
    using Cons.prems e e2 by (cases r1; cases r2) (auto simp: Let_def split: if_splits)
qed

lemma find_root: "c_handle r = 0 \<Longrightarrow> cbb_find h (r # w) = Some (d, v) \<Longrightarrow> \<exists>d'. d = r # d' \<and> w = d' @ v"
  using cbb_find_split [of h "r # w" d v] by (cases d) (auto split: if_splits option.splits)

lemma one_root_flush: "one_root (CBB_flush m h)"
  unfolding one_root_def
proof (intro allI impI)
  fix b r w res b' chain'
  assume h: "c_handle r = 0" "\<forall>c \<in> set w. c_handle c \<noteq> 0" "CBB_flush m h (b, r # w) = (res, b', chain')"
  show "\<exists>w'. chain' = r # w' \<and> (\<forall>c \<in> set w'. c_handle c \<noteq> 0)"
  proof (cases "cbb_find h (r # w)")
    case None
    then show ?thesis using h by (auto simp: CBB_flush_def simp del: cbb_find.simps)
  next
    case (Some p)
    then obtain d v where p: "cbb_find h (r # w) = Some (d, v)" by (cases p) auto
    then obtain d' where d: "d = r # d'" "w = d' @ v" using find_root h(1) by blast
    obtain r1 b1 v1 where e: "cbb_flush_chain m (b, v) = (r1, b1, v1)" by (metis surj_pair)
    have "chain' = r # (d' @ v1)" using h(3) p e d by (simp add: CBB_flush_def del: cbb_find.simps)
    moreover have "0 \<notin> c_handle ` set v" using h(2) d(2) by (metis UnI2 imageE set_append)
    then have "0 \<notin> c_handle ` set v1" using flush_chain_handles [OF e] by blast
    ultimately show ?thesis using h(2) d(2) by (intro exI [of _ "d' @ v1"]) force
  qed
qed

lemma one_root_attach: "out \<noteq> 0 \<Longrightarrow> one_root (cbb_attach h out n k a)"
  unfolding one_root_def cbb_attach_def
  by (auto simp del: cbb_find.simps split: option.splits prod.splits dest!: find_root)

lemmas one_root_intros =
  one_root_bind one_root_then one_root_on_buffer one_root_ret one_root_flush one_root_attach

lemma one_root_u8: "one_root (CBB_add_u8 m h v)"
  unfolding CBB_add_u8_def cbb_add_u_def by (intro one_root_intros)

lemma one_root_base128: "one_root (add_base128_integer m h v)"
proof -
  have "one_root (add_base128_bytes m h v k)" for k
    by (induction k) (auto simp: Let_def simp del: ret_act_simp intro!: one_root_intros one_root_u8)
  then show ?thesis by (simp add: add_base128_integer_def Let_def)
qed

lemma one_root_ops: "one_root (CBB_add_bytes m h xs)" "out \<noteq> 0 \<Longrightarrow> one_root (cbb_add_length_prefixed m h out k)"
    "out \<noteq> 0 \<Longrightarrow> one_root (CBB_add_asn1 m h out tag)"
  unfolding CBB_add_bytes_def cbb_add_length_prefixed_def CBB_add_asn1_def Let_def
  by (auto intro!: one_root_intros one_root_u8 one_root_base128)

lemma one_root_build: "one_root (build m h is)"
  by (induction m h "is" rule: build.induct)
    (auto simp del: ret_act_simp intro!: one_root_then one_root_ret one_root_ops)

section \<open>Running a program\<close>

lemma appends_flush:
  assumes f: "appends m h f xo (b, chain)"
  shows "appends m h (then_act f (CBB_flush m h)) xo (b, chain)"
proof -
  obtain r b1 ch1 where e: "f (b, chain) = (r, b1, ch1)" by (metis surj_pair)
  show ?thesis
    using f e tip_flush [of h b1 ch1 m]
    by (cases r) (auto simp: appends_def then_act_def bind_act_def)
qed

definition run_cbb :: "libc_malloc \<Rightarrow> nat \<Rightarrow> (cbb_state, unit) act \<Rightarrow> byte list option" where
  "run_cbb m cap prog =
     (case CBB_init m 0 cap of
        None \<Rightarrow> None
      | Some s \<Rightarrow>
          (case then_act prog (CBB_finish m 0 True True) s of
             (None, _) \<Rightarrow> None
           | (Some (out_data, out_len), _) \<Rightarrow> Some (take out_len out_data)))"

lemma run_cbb_eq:
  assumes m: "malloc_ok m" "cap < object_max" and r: "one_root prog"
    and p: "\<And>s c. tip 0 s \<Longrightarrow> snd s = [c] \<Longrightarrow> c_handle c = 0 \<Longrightarrow>
      appends m 0 (then_act prog (CBB_flush m 0)) xo s"
  shows "run_cbb m cap prog = Some bs \<Longrightarrow> xo = Some bs"
    and "malloc_total m \<Longrightarrow> cap + 8 < object_max \<Longrightarrow> xo = Some bs \<Longrightarrow> length bs < 2305843009213693952 \<Longrightarrow>
      run_cbb m cap prog = Some bs"
proof -
  have main: "(case then_act prog (CBB_finish m 0 True True) s of (None, _) \<Rightarrow> None
      | (Some (out_data, out_len), _) \<Rightarrow> Some (take out_len out_data)) =
      (case then_act prog (CBB_flush m 0) s of (None, _) \<Rightarrow> None
      | (Some _, b, chain) \<Rightarrow> Some (contents b))"
    and app: "appends m 0 (then_act prog (CBB_flush m 0)) xo s"
    and emp: "contents (fst s) = []" "b_can_resize (fst s)" "b_len (fst s) = 0"
    if s: "CBB_init m 0 cap = Some s" for s
  proof -
    from malloc_ok_init [OF m s] obtain b c where s': "s = (b, [c])" and t: "tip 0 (b, [c])" and c: "c_handle c = 0"
      and e: "contents b = []" "b_can_resize b" "b_len b = 0"
      by (cases s) auto
    show app: "appends m 0 (then_act prog (CBB_flush m 0)) xo s" using p [of s c] t c s' by simp
    show "contents (fst s) = []" "b_can_resize (fst s)" "b_len (fst s) = 0" using e s' by simp_all
    obtain x b1 ch1 where x: "prog (b, [c]) = (x, b1, ch1)" by (metis surj_pair)
    from r [unfolded one_root_def, rule_format, OF c _ x]
    obtain w where w: "ch1 = c # w" "\<forall>c \<in> set w. c_handle c \<noteq> 0" by auto
    obtain y b2 ch2 where y: "CBB_flush m 0 (b1, c # w) = (y, b2, ch2)" by (metis surj_pair)
    show "(case then_act prog (CBB_finish m 0 True True) s of (None, _) \<Rightarrow> None
      | (Some (out_data, out_len), _) \<Rightarrow> Some (take out_len out_data)) =
      (case then_act prog (CBB_flush m 0) s of (None, _) \<Rightarrow> None
      | (Some _, b, chain) \<Rightarrow> Some (contents b))"
      using x y w s' by (auto simp: then_act_def bind_act_def CBB_finish_def contents_def split: option.splits)
  qed
  show "xo = Some bs" if "run_cbb m cap prog = Some bs"
  proof -
    from that obtain s where s: "CBB_init m 0 cap = Some s"
      by (auto simp: run_cbb_def split: option.splits)
    then show ?thesis
      using that main [OF s] app [OF s] emp [OF s]
      by (auto simp: run_cbb_def appends_def split: option.splits prod.splits)
  qed
  show "run_cbb m cap prog = Some bs" if t: "malloc_total m" "cap + 8 < object_max" "xo = Some bs" "length bs < 2305843009213693952"
  proof -
    from malloc_total_init [OF t(1,2), of 0] obtain s where s: "CBB_init m 0 cap = Some s" by auto
    have "fits m (fst s) (b_len (fst s) + length bs)" using emp [OF s] t by (simp add: fits_def)
    then show ?thesis
      using t(3) main [OF s] app [OF s] emp [OF s] s
      by (auto simp: run_cbb_def appends_def split: option.splits prod.splits)
  qed
qed

section \<open>Properties\<close>

text \<open>C1: A builder program computes the serialisation of its tree. For every allocator, if running the
  program of a tree of items from \<^verbatim>\<open>CBB_init\<close> to \<^verbatim>\<open>CBB_finish\<close> succeeds, the bytes returned are the
  serialisation of the tree, with every length prefix and ASN.1 length that was pending filled in; a
  tree that has no serialisation (contents too long for a prefix) makes the run fail.\<close>

theorem builder_programs_sound:
  assumes "malloc_ok m" and "cap < object_max" and "items_ok is" and "run_cbb m cap (build m 0 is) = Some bs"
  shows "ser is = Some bs"
  using assms(3) by (intro run_cbb_eq(1) [OF assms(1,2) one_root_build _ assms(4)] build_appends [OF assms(1)]) auto

definition zero_malloc :: libc_malloc where
  "zero_malloc n = (if n < object_max then Some (replicate n 0) else None)"

lemma zero_malloc: "malloc_ok zero_malloc" "malloc_total zero_malloc"
  by (auto simp: malloc_ok_def malloc_total_def zero_malloc_def split: if_splits)

lemmas ser_eval = framed_def cat_def tag_octets_def length_octets_def num_len_bytes_def

lemma nat_be_2: "nat_be 2 v = [word_of_nat (v div 256), word_of_nat v]"
  by (simp add: numeral_2_eq_2)

lemma builder_programs_sound_witness:
  "run_cbb zero_malloc 5 (build zero_malloc 0 [Prefixed 1 [Octets (replicate 256 0)]]) = None"
proof (rule ccontr)
  assume "run_cbb zero_malloc 5 (build zero_malloc 0 [Prefixed 1 [Octets (replicate 256 0)]]) \<noteq> None"
  then obtain bs where "run_cbb zero_malloc 5 (build zero_malloc 0 [Prefixed 1 [Octets (replicate 256 0)]]) = Some bs"
    by auto
  from builder_programs_sound [OF zero_malloc(1) _ _ this]
  have "ser [Prefixed 1 [Octets (replicate 256 0)]] = Some bs" by simp
  then show False by (simp add: ser_eval)
qed

text \<open>C2: A builder program is complete: when the allocator always answers, every tree that has a
  serialisation of less than \<open>2 ^ 61\<close> bytes is built, from any initial capacity.\<close>

theorem builder_programs_complete:
  assumes "malloc_ok m" and "malloc_total m" and "cap + 8 < object_max" and "items_ok is"
    and "ser is = Some bs" and "length bs < 2305843009213693952"
  shows "run_cbb m cap (build m 0 is) = Some bs"
  using assms
  by (intro run_cbb_eq(2) [OF assms(1) _ one_root_build _ assms(2,3,5,6)] build_appends [OF assms(1)]) auto

lemma builder_programs_complete_witness:
  "run_cbb zero_malloc 0 (build zero_malloc 0 [Asn1 0x20000010 [Asn1 2 [Octets [5]], Prefixed 2 [Octets [7, 8]]]]) =
    Some [0x30, 7, 2, 1, 5, 0, 2, 7, 8]"
proof (rule builder_programs_complete [OF zero_malloc])
  show "ser [Asn1 0x20000010 [Asn1 2 [Octets [5]], Prefixed 2 [Octets [7, 8]]]] =
    Some [0x30, 7, 2, 1, 5, 0, 2, 7, 8]"
    by (simp add: ser_eval nat_be_2)
qed simp_all

end
