(* ===== verification/Asn1_Values.thy ===== *)
theory Asn1_Values
  imports Cbb_Asn1 Cbb_Program
begin

text \<open>
  ASN.1 values: which contents octets the builder writes for an integer, an octet string or a
  boolean, and that the reader of \<^verbatim>\<open>cbs.c\<close> reads the value back from them.
\<close>

section \<open>Reading elements back\<close>

section \<open>Unsigned integers\<close>

definition uint_octets :: "byte list \<Rightarrow> byte list" where
  "uint_octets bs =
     (let ds = dropWhile (\<lambda>b. b = 0) bs
      in if ds = [] then [0] else if hd ds AND 0x80 \<noteq> 0 then 0 # ds else ds)"

lemma uint64_loop:
  "unat r * 256 ^ length bs + be_nat bs < 2 ^ 64 \<Longrightarrow>
    asn1_uint64_loop r bs = Some (word_of_nat (unat r * 256 ^ length bs + be_nat bs))"
proof (induction bs arbitrary: r)
  case Nil
  then show ?case by simp
next
  case (Cons b bs)
  define r' where "r' = push_bit 8 r OR (ucast b :: u64)"
  let ?n = "unat r * 256 ^ length (b # bs) + be_nat (b # bs)"
  have n: "?n = (unat r * 256 + unat b) * 256 ^ length bs + be_nat bs"
    by (simp add: be_nat_Cons algebra_simps)
  have "(unat r * 256 + unat b) * 1 \<le> (unat r * 256 + unat b) * 256 ^ length bs"
    by (intro mult_le_mono2) simp
  also have "\<dots> < 2 ^ 64" using Cons.prems unfolding n by linarith
  finally have lt: "unat r * 256 + unat b < 2 ^ 64" by simp
  then have "unat r < 2 ^ 56" by simp
  then have d: "drop_bit 56 r = 0" by (simp add: drop_bit_eq_0_iff_unat)
  have u: "unat r' = unat r * 256 + unat b"
    unfolding r'_def using unat_push_bit_or [of "ucast b :: u64" 8 r] lt by (simp add: unat_ucast_le)
  have "asn1_uint64_loop r' bs = Some (word_of_nat (unat r' * 256 ^ length bs + be_nat bs))"
    using Cons.prems n u by (intro Cons.IH) simp
  then show ?case using d n u by (simp add: r'_def [symmetric])
qed

lemma uint64_loop_sound:
  "asn1_uint64_loop r bs = Some v \<Longrightarrow> unat r * 256 ^ length bs + be_nat bs < 2 ^ 64"
proof (induction bs arbitrary: r)
  case Nil
  show ?case using unsigned_less [of r, where ?'a = nat] by simp
next
  case (Cons b bs)
  define r' where "r' = push_bit 8 r OR (ucast b :: u64)"
  have d: "drop_bit 56 r = 0" and l: "asn1_uint64_loop r' bs = Some v"
    using Cons.prems by (auto simp: r'_def split: if_splits)
  have "unat r < 2 ^ 56" using d by (simp add: drop_bit_eq_0_iff_unat)
  then have u: "unat r' = unat r * 256 + unat b"
    unfolding r'_def using unat_push_bit_or [of "ucast b :: u64" 8 r] unat_byte_less [of b]
    by (simp add: unat_ucast_le)
  from Cons.IH [OF l] show ?case by (simp add: u be_nat_Cons algebra_simps)
qed

lemma be_nat_zeros: "be_nat (replicate k 0 @ bs) = be_nat bs"
  by (induction k) (simp_all add: be_nat_Cons)

lemma nat_be_pad:
  assumes "length bs \<le> k"
  shows "nat_be k (be_nat bs) = replicate (k - length bs) 0 @ bs"
proof -
  have l: "length (replicate (k - length bs) 0 @ bs) = k" using assms by simp
  show ?thesis
    using nat_be_be_nat [of "replicate (k - length bs) 0 @ bs", unfolded l be_nat_zeros] .
qed

lemma dropWhile_zeros: "dropWhile (\<lambda>b. b = 0) (replicate k 0 @ bs) = dropWhile (\<lambda>b. b = (0 :: byte)) bs"
  by (induction k) auto

lemma be_nat_dropWhile: "be_nat (dropWhile (\<lambda>b. b = 0) bs) = be_nat bs"
  by (induction bs) (simp_all add: be_nat_Cons)

lemma read_uint_octets:
  assumes "length bs \<le> 8"
  shows "asn1_uint64_contents (uint_octets bs) = Some (word_of_nat (be_nat bs))"
proof -
  define ds where "ds = dropWhile (\<lambda>b. b = 0) bs"
  have be: "be_nat ds = be_nat bs" by (simp add: ds_def be_nat_dropWhile)
  have "length ds \<le> 8" using assms length_dropWhile_le [of "\<lambda>b. b = 0" bs] by (simp add: ds_def)
  then have "256 ^ length ds \<le> (256 :: nat) ^ 8" by (intro power_increasing) simp_all
  then have lt: "be_nat ds < 2 ^ 64" using be_nat_less [of ds] by simp
  have nz: "ds \<noteq> [] \<Longrightarrow> hd ds \<noteq> 0" unfolding ds_def by (rule hd_dropWhile)
  have loop: "asn1_uint64_loop 0 (0 # ds) = Some (word_of_nat (be_nat ds))"
    "asn1_uint64_loop 0 ds = Some (word_of_nat (be_nat ds))"
    using uint64_loop [of 0 "0 # ds"] uint64_loop [of 0 ds] lt by (simp_all add: be_nat_Cons)
  show ?thesis
  proof (cases ds)
    case Nil
    then have "be_nat bs = 0" using be by simp
    then show ?thesis
      using Nil by (simp add: uint_octets_def ds_def [symmetric] asn1_uint64_contents_def CBS_len_def)
  next
    case (Cons d ds')
    then show ?thesis
      using loop nz be
      by (simp add: uint_octets_def ds_def [symmetric] asn1_uint64_contents_def CBS_len_def Let_def
          del: asn1_uint64_loop.simps)
  qed
qed

text \<open>Each number has one encoding that the reader accepts.\<close>

lemma asn1_uint64_contents_iff:
  "asn1_uint64_contents bs = Some v \<longleftrightarrow> bs = uint_octets (nat_be 8 (unat v))"
proof
  assume "bs = uint_octets (nat_be 8 (unat v))"
  then show "asn1_uint64_contents bs = Some v"
    using read_uint_octets [of "nat_be 8 (unat v)"] unsigned_less [of v, where ?'a = nat]
    by (simp add: be_nat_nat_be)
next
  assume h: "asn1_uint64_contents bs = Some v"
  then obtain b ds where bs: "bs = b # ds" by (cases bs) (auto simp: asn1_uint64_contents_def CBS_len_def)
  from h have b: "b AND 0x80 = 0" "b = 0 \<Longrightarrow> ds \<noteq> [] \<Longrightarrow> ds ! 0 AND 0x80 \<noteq> 0"
    and l: "asn1_uint64_loop 0 bs = Some v"
    by (auto simp: asn1_uint64_contents_def CBS_len_def bs Let_def simp del: asn1_uint64_loop.simps split: if_splits)
  from uint64_loop_sound [OF l] have lt: "be_nat bs < 2 ^ 64" by simp
  then have v: "unat v = be_nat bs" using uint64_loop [of 0 bs] l by (simp add: unat_of_nat)
  have len: "length ds' \<le> 8" if "be_nat ds' = be_nat bs" "ds' = d # es" "d \<noteq> 0" for ds' d es
  proof (rule ccontr)
    assume "\<not> length ds' \<le> 8"
    then have "(256 :: nat) ^ 8 \<le> 256 ^ length es" using that(2) by (intro power_increasing) simp_all
    also have "\<dots> \<le> unat d * 256 ^ length es" using that(3) unat_gt_0 [of d] by (simp only: mult_le_cancel2) simp
    also have "\<dots> \<le> be_nat ds'" by (simp add: that(2) be_nat_Cons)
    finally show False using lt that(1) by simp
  qed
  show "bs = uint_octets (nat_be 8 (unat v))"
  proof (cases "b = 0")
    case False
    then have "length bs \<le> 8" using len bs by blast
    from nat_be_pad [OF this] show ?thesis
      using False b by (simp add: v uint_octets_def dropWhile_zeros bs Let_def)
  next
    case b0: True
    show ?thesis
    proof (cases ds)
      case Nil
      have "nat_be 8 0 = replicate 8 0 @ []" using nat_be_pad [of "[]" 8] by simp
      then show ?thesis
        using b0 Nil by (simp only: v bs be_nat_Cons) (simp add: uint_octets_def dropWhile_zeros)
    next
      case (Cons d es)
      then have d: "d AND 0x80 \<noteq> 0" "d \<noteq> 0" using b b0 by auto
      have be: "be_nat ds = be_nat bs" using b0 by (simp add: bs be_nat_Cons)
      have "length ds \<le> 8" using len [OF be Cons d(2)] .
      from nat_be_pad [OF this] have "nat_be 8 (unat v) = replicate (8 - length ds) 0 @ ds"
        by (simp only: v be)
      then show ?thesis
        using d b0 Cons by (simp add: uint_octets_def dropWhile_zeros bs)
    qed
  qed
qed


section \<open>Signed integers\<close>

lemma nat_be_map: "nat_be n v = rev (map (\<lambda>i. word_of_nat (v div 256 ^ i)) [0..<n])"
proof (induction n arbitrary: v)
  case 0
  then show ?case by simp
next
  case (Suc n)
  have "[0..<Suc n] = 0 # map Suc [0..<n]"
    by (simp add: map_Suc_upt upt_conv_Cons del: upt_Suc)
  then show ?case by (simp add: Suc o_def div_mult2_eq del: upt_Suc)
qed

lemma ucast_drop_bit_byte: "(ucast (drop_bit (8 * i) (v :: u64)) :: byte) = word_of_nat (unat v div 256 ^ i)"
proof -
  have "(ucast (drop_bit (8 * i) v) :: byte) = word_of_nat (unat (drop_bit (8 * i) v))" by simp
  then show ?thesis by (simp only: unat_drop_bit power_mult) simp
qed

lemma le_bytes64_eq: "le_bytes64 v = rev (nat_be 8 (unat v))"
  unfolding le_bytes64_def nat_be_map rev_rev_ident ucast_drop_bit_byte ..

lemma be_bytes64_eq:
  "map (\<lambda>i. ucast (drop_bit (8 * (7 - i)) v AND 0xff)) [0..<8] = nat_be 8 (unat (v :: u64))"
proof -
  have m: "(ucast (w AND 0xff) :: byte) = ucast (w :: u64)" for w
    by (rule bit_word_eqI) (auto simp: bit_simps bit_numeral_rec less_Suc_eq numeral_eq_Suc)
  have "map (\<lambda>i. ucast (drop_bit (8 * (7 - i)) v AND 0xff)) [0..<8] = rev (le_bytes64 v)"
    unfolding m le_bytes64_def by (simp add: upt_rec)
  then show ?thesis by (simp add: le_bytes64_eq)
qed

lemma unat_le_u64: "length bs \<le> 8 \<Longrightarrow> unat (le_u64 bs) = be_nat (rev bs)"
proof (induction bs)
  case Nil
  then show ?case by (simp add: le_u64_def)
next
  case (Cons b bs)
  have "256 ^ length bs \<le> (256 :: nat) ^ 7" using Cons.prems by (intro power_increasing) simp_all
  then have "be_nat (rev bs) < 2 ^ 56" using be_nat_less [of "rev bs"] by simp
  then show ?case
    using Cons unat_push_bit_or [of "ucast b :: u64" 8 "le_u64 bs"] unat_byte_less [of b]
    by (simp add: le_u64_def unat_ucast_le)
qed

lemma le_u64_bytes: "le_u64 (le_bytes64 v) = v"
proof -
  have "unat (le_u64 (le_bytes64 v)) = unat v"
    using unsigned_less [of v, where ?'a = nat]
    by (subst unat_le_u64) (simp_all add: le_bytes64_eq be_nat_nat_be)
  then show ?thesis by (rule word_unat_eq_iff [THEN iffD2])
qed

definition int64_octets :: "u64 \<Rightarrow> byte list" where
  "int64_octets v =
     (if 0 \<le> sint v then uint_octets (nat_be 8 (unat v))
      else rev (take (Suc (int64_start (le_bytes64 v) 7)) (le_bytes64 v)))"

lemma int64_start_props:
  "bs ! k AND 0x80 \<noteq> 0 \<Longrightarrow> int64_start bs k \<le> k \<and> bs ! int64_start bs k AND 0x80 \<noteq> 0 \<and>
    (\<forall>j. int64_start bs k < j \<and> j \<le> k \<longrightarrow> bs ! j = 0xff) \<and>
    (int64_start bs k = 0 \<or> bs ! int64_start bs k \<noteq> 0xff \<or> bs ! (int64_start bs k - 1) AND 0x80 = 0)"
proof (induction k)
  case 0
  then show ?case by simp
next
  case (Suc k)
  show ?case
  proof (cases "bs ! Suc k = 0xff \<and> bs ! k AND 0x80 \<noteq> 0")
    case True
    then have s: "int64_start bs (Suc k) = int64_start bs k" by simp
    have "bs ! j = 0xff" if "int64_start bs k < j" "j \<le> Suc k" for j
      using Suc.IH True that by (cases "j = Suc k") simp_all
    then show ?thesis unfolding s using Suc.IH True by simp
  next
    case False
    then have s: "int64_start bs (Suc k) = Suc k" by (simp only: int64_start.simps False if_False)
    show ?thesis unfolding s using False Suc.prems by auto
  qed
qed

lemma le_bytes64_sign: "le_bytes64 v ! 7 AND 0x80 \<noteq> 0 \<longleftrightarrow> sint v < 0"
proof -
  have "le_bytes64 v ! 7 AND 0x80 \<noteq> 0 \<longleftrightarrow> bit (le_bytes64 v ! 7) 7"
    by (simp only: byte_and_80 byte_bit7)
  also have "\<dots> \<longleftrightarrow> bit v 63" by (simp add: le_bytes64_def bit_simps)
  also have "\<dots> \<longleftrightarrow> sint v < 0" using bit_last_iff [of v] by simp
  finally show ?thesis .
qed

lemma read_int64_octets: "asn1_int64_contents (int64_octets v) = Some v"
proof (cases "0 \<le> sint v")
  case False
  let ?bs = "le_bytes64 v" and ?s = "int64_start (le_bytes64 v) 7"
  have l: "length ?bs = 8" by (simp add: le_bytes64_def)
  have sg: "?bs ! 7 AND 0x80 \<noteq> 0" using False le_bytes64_sign by auto
  note s = int64_start_props [OF sg]
  define data where "data = rev (take (Suc ?s) ?bs)"
  have len: "length data = Suc ?s" using s l by (simp add: data_def)
  have d0: "data ! 0 = ?bs ! ?s" using s l by (simp add: data_def rev_nth)
  have d1: "data ! 1 = ?bs ! (?s - 1)" if "length data > 1"
    using s l that len by (simp add: data_def rev_nth)
  have "blit 0 (rev data) (replicate 8 0xff) = ?bs"
  proof (rule nth_equalityI)
    show "length (blit 0 (rev data) (replicate 8 0xff)) = length ?bs" using len l s by simp
    fix i assume "i < length (blit 0 (rev data) (replicate 8 (0xff :: byte)))"
    then have "i < 8" using len s by simp
    then show "blit 0 (rev data) (replicate 8 0xff) ! i = ?bs ! i"
      using s l by (auto simp: blit_def data_def nth_append)
  qed
  moreover have "data ! 0 AND 0x80 \<noteq> 0" using s d0 by simp
  moreover have "data ! 0 \<noteq> 0" using s d0 by auto
  moreover have "\<not> (length data > 1 \<and> data ! 0 = 0xff \<and> data ! 1 AND 0x80 \<noteq> 0)"
    using s d0 d1 len by (cases "?s = 0") simp_all
  ultimately have "asn1_int64_contents data = Some v"
    using len s by (auto simp: asn1_int64_contents_def CBS_len_def Let_def le_u64_bytes)
  then show ?thesis using False by (simp add: int64_octets_def data_def)
next
  case True
  define data where "data = int64_octets v"
  have c: "asn1_uint64_contents data = Some v"
    unfolding asn1_uint64_contents_iff using True by (simp add: data_def int64_octets_def)
  then obtain b ds where bs: "data = b # ds" by (cases data) (simp_all add: asn1_uint64_contents_def CBS_len_def)
  from c have b: "b AND 0x80 = 0" "b = 0 \<Longrightarrow> ds \<noteq> [] \<Longrightarrow> ds ! 0 AND 0x80 \<noteq> 0"
    and l: "asn1_uint64_loop 0 data = Some v"
    by (auto simp: asn1_uint64_contents_def CBS_len_def bs Let_def simp del: asn1_uint64_loop.simps split: if_splits)
  have v: "unat v = be_nat data"
    using uint64_loop_sound [OF l] uint64_loop [of 0 data] l by (simp add: unat_of_nat)
  have small: "unat v < 2 ^ 63"
  proof -
    have "\<not> bit v 63" using True bit_last_iff [of v] by simp
    moreover have "bit v 63 = bit (unat v) 63" by (simp add: bit_unsigned_iff)
    ultimately have "even (unat v div 2 ^ 63)" by (simp only: bit_iff_odd) simp
    moreover have "unat v div 2 ^ 63 < 2"
      using unsigned_less [of v, where ?'a = nat] by (simp add: less_mult_imp_div_less)
    ultimately have "unat v div 2 ^ 63 = 0" by (metis less_2_cases even_Suc even_zero One_nat_def)
    then show ?thesis by (simp add: div_eq_0_iff)
  qed
  have len: "length data \<le> 8"
  proof (rule ccontr)
    assume long: "\<not> length data \<le> 8"
    then obtain d es where ds: "ds = d # es" by (cases ds) (auto simp: bs)
    have be: "be_nat data = unat b * 256 ^ length ds + (unat d * 256 ^ length es + be_nat es)"
      by (simp add: bs ds be_nat_Cons)
    have ge: "128 * 256 ^ length es \<le> be_nat data"
    proof (cases "b = 0")
      case True
      then have "128 \<le> unat d" using b(2) byte_and_80 [of d] by (simp add: ds)
      then have "128 * 256 ^ length es \<le> unat d * 256 ^ length es" by (rule mult_le_mono1)
      then show ?thesis unfolding be by linarith
    next
      case False
      then have "1 \<le> unat b" using unat_gt_0 [of b] by linarith
      then have "1 * 256 ^ length ds \<le> unat b * 256 ^ length ds" by (rule mult_le_mono1)
      moreover have "128 * 256 ^ length es \<le> 1 * (256 :: nat) ^ length ds" by (simp add: ds)
      ultimately show ?thesis unfolding be by linarith
    qed
    have "(256 :: nat) ^ 7 \<le> 256 ^ length es" using long by (intro power_increasing) (simp_all add: bs ds)
    with ge show False using small v by simp
  qed
  have "rev data @ replicate (8 - length data) 0 = le_bytes64 v"
    using nat_be_pad [OF len] by (simp add: le_bytes64_eq v)
  then have "blit 0 (rev data) (replicate 8 0) = le_bytes64 v"
    using len by (simp add: blit_def)
  moreover have "b \<noteq> 0xff" using b(1) by auto
  ultimately have "asn1_int64_contents data = Some v"
    using len b
    by (cases ds) (auto simp: asn1_int64_contents_def CBS_len_def Let_def le_u64_bytes bs)
  then show ?thesis by (simp only: data_def)
qed


section \<open>What the operations append\<close>

lemma emits_uint64_bytes:
  assumes m: "malloc_ok m"
  shows "emits m c (add_uint64_bytes m c True bs) bs"
    and "emits m c (add_uint64_bytes m c False bs) (uint_octets bs)"
proof -
  show t: "emits m c (add_uint64_bytes m c True bs) bs" for bs
  proof (induction bs)
    case Nil
    then show ?case by (simp add: emits_ret del: ret_act_simp)
  next
    case (Cons b bs)
    then show ?case using emits_then [OF emits_u8 [OF m] Cons] by simp
  qed
  show "emits m c (add_uint64_bytes m c False bs) (uint_octets bs)"
  proof (induction bs)
    case Nil
    then show ?case using emits_u8 [OF m] by (simp add: uint_octets_def)
  next
    case (Cons b bs)
    show ?case
    proof (cases "b = 0")
      case True
      then show ?thesis using Cons by (simp add: uint_octets_def)
    next
      case False
      have p: "emits m c (if b AND 0x80 \<noteq> 0 then CBB_add_u8 m c 0 else ret_act ())
          (if b AND 0x80 \<noteq> 0 then [0] else [])"
        using emits_u8 [OF m] by (auto simp del: ret_act_simp)
      show ?thesis
        using emits_then [OF p emits_then [OF emits_u8 [OF m, where v = b] t [of bs]]] False
        by (cases "b AND 0x80 = 0") (simp_all add: uint_octets_def del: ret_act_simp)
    qed
  qed
qed

lemma emits_int64_bytes:
  assumes "malloc_ok m" "i < length bs"
  shows "emits m c (add_int64_bytes m c bs i) (rev (take (Suc i) bs))"
  using assms(2)
proof (induction i)
  case 0
  then show ?case using emits_u8 [OF assms(1)] by (cases bs) simp_all
next
  case (Suc i)
  have "rev (take (Suc (Suc i)) bs) = [bs ! Suc i] @ rev (take (Suc i) bs)"
    using Suc.prems by (simp add: take_Suc_conv_app_nth)
  then show ?case
    using emits_then [OF emits_u8 [OF assms(1)] Suc.IH] Suc.prems by simp
qed

text \<open>An element whose contents are written into a local child.\<close>

lemma asn1_value_appends:
  assumes m: "malloc_ok m" and t: "tip h (b, chain)" and fresh: "\<forall>c \<in> set chain. c_handle c \<noteq> child"
    and g: "emits m child g xs" and len: "length xs \<le> 0xfffffffe"
  shows "appends m h (then_act (CBB_add_asn1 m h child tag) (then_act g (CBB_flush m h)))
    (Some (der_element tag xs)) (b, chain)"
proof -
  have "appends m h (then_act (CBB_add_asn1 m h child tag) (then_act g (CBB_flush m h)))
      (framed (tag_octets tag) Asn1_len (Some xs)) (b, chain)"
    by (rule opened_core [OF m t fresh opens_asn1 [OF m] emits_appends [OF g]])
  then show ?thesis
    using len by (simp add: framed_def der_element_def der_header_def)
qed

lemma length_uint_octets: "length bs \<le> 8 \<Longrightarrow> length (uint_octets bs) \<le> 9"
  using length_dropWhile_le [of "\<lambda>b. b = 0" bs] by (simp add: uint_octets_def Let_def)

lemma add_uint64_appends:
  assumes "malloc_ok m" "tip h (b, chain)" "\<forall>c \<in> set chain. c_handle c \<noteq> child"
  shows "appends m h (CBB_add_asn1_uint64 m h child v)
    (Some (der_element CBS_ASN1_INTEGER (uint_octets (nat_be 8 (unat v))))) (b, chain)"
  unfolding CBB_add_asn1_uint64_def be_bytes64_eq
  using length_uint_octets [of "nat_be 8 (unat v)"]
  by (intro asn1_value_appends [OF assms] emits_uint64_bytes assms) simp

lemma add_int64_appends:
  assumes "malloc_ok m" "tip h (b, chain)" "\<forall>c \<in> set chain. c_handle c \<noteq> child"
  shows "appends m h (CBB_add_asn1_int64 m h child v)
    (Some (der_element CBS_ASN1_INTEGER (int64_octets v))) (b, chain)"
proof (cases "0 \<le> sint v")
  case True
  then show ?thesis
    using add_uint64_appends [OF assms] by (simp add: CBB_add_asn1_int64_def int64_octets_def)
next
  case False
  have l: "length (le_bytes64 v) = 8" by (simp add: le_bytes64_def)
  have "int64_start (le_bytes64 v) 7 \<le> 7"
    using int64_start_props [of "le_bytes64 v" 7] False le_bytes64_sign by auto
  then show ?thesis
    using False l unfolding CBB_add_asn1_int64_def int64_octets_def
    by (simp add: Let_def) (intro asn1_value_appends [OF assms] emits_int64_bytes assms; simp)
qed

lemma add_octet_string_appends:
  assumes "malloc_ok m" "tip h (b, chain)" "\<forall>c \<in> set chain. c_handle c \<noteq> child" "length xs \<le> 0xfffffffe"
  shows "appends m h (CBB_add_asn1_octet_string m h child xs)
    (Some (der_element CBS_ASN1_OCTETSTRING xs)) (b, chain)"
  unfolding CBB_add_asn1_octet_string_def using assms(4)
  by (intro asn1_value_appends [OF assms(1-3)] emits_add_bytes assms(1)) simp_all

lemma add_bool_appends:
  assumes "malloc_ok m" "tip h (b, chain)" "\<forall>c \<in> set chain. c_handle c \<noteq> child"
  shows "appends m h (CBB_add_asn1_bool m h child v)
    (Some (der_element CBS_ASN1_BOOLEAN [if v \<noteq> 0 then 0xff else 0])) (b, chain)"
  unfolding CBB_add_asn1_bool_def
  by (intro asn1_value_appends [OF assms] emits_u8 assms(1)) simp

section \<open>Whole values\<close>

lemma one_root_uint64: "child \<noteq> 0 \<Longrightarrow> one_root (CBB_add_asn1_uint64 m h child v)"
proof -
  assume c: "child \<noteq> 0"
  have "one_root (add_uint64_bytes m child st bs)" for st bs
    by (induction m child st bs rule: add_uint64_bytes.induct)
      (auto simp: Let_def simp del: ret_act_simp intro!: one_root_intros one_root_u8)
  then show ?thesis
    using c unfolding CBB_add_asn1_uint64_def by (intro one_root_intros one_root_ops)
qed

lemma one_root_int64: "child \<noteq> 0 \<Longrightarrow> one_root (CBB_add_asn1_int64 m h child v)"
proof -
  assume c: "child \<noteq> 0"
  have "one_root (add_int64_bytes m child bs k)" for bs k
    by (induction k) (auto intro!: one_root_intros one_root_u8)
  then show ?thesis
    using c unfolding CBB_add_asn1_int64_def Let_def
    by (auto intro!: one_root_uint64 one_root_intros one_root_ops)
qed

lemma length_int64_octets: "length (int64_octets v) \<le> 9"
proof -
  have "length (le_bytes64 v) = 8" by (simp add: le_bytes64_def)
  then show ?thesis using length_uint_octets [of "nat_be 8 (unat v)"] by (simp add: int64_octets_def min_le_iff_disj)
qed

lemma run_int64:
  assumes "malloc_ok m" "cap < object_max" "run_cbb m cap (CBB_add_asn1_int64 m 0 1 v) = Some bs"
  shows "bs = der_element CBS_ASN1_INTEGER (int64_octets v)"
proof -
  have "Some (der_element CBS_ASN1_INTEGER (int64_octets v)) = Some bs"
  proof (rule run_cbb_eq(1) [OF assms(1,2) one_root_int64 _ assms(3)])
    fix s c
    assume "tip 0 s" "snd s = [c]" "c_handle c = 0"
    then show "appends m 0 (then_act (CBB_add_asn1_int64 m 0 1 v) (CBB_flush m 0))
        (Some (der_element CBS_ASN1_INTEGER (int64_octets v))) s"
      using appends_flush [OF add_int64_appends [OF assms(1), of 0 "fst s" "snd s" 1 v]] by (cases s) simp
  qed simp
  then show ?thesis by simp
qed

section \<open>Properties\<close>

text \<open>C39: The integer reader accepts exactly the canonical encodings: \<^verbatim>\<open>CBS_get_asn1_uint64\<close> returns \<open>v\<close> and
  leaves \<open>rest\<close> if and only if the input is the INTEGER element with the shortest contents octets for
  \<open>v\<close>, followed by \<open>rest\<close>; negative numbers, numbers beyond 64 bits and superfluous leading octets are
  refused.\<close>

theorem uint64_reader_exact:
  "CBS_get_asn1_uint64 s = (Some v, rest) \<longleftrightarrow>
    s = der_element CBS_ASN1_INTEGER (uint_octets (nat_be 8 (unat v))) @ rest"
proof -
  have "CBS_get_asn1_uint64 s = (Some v, rest) \<longleftrightarrow>
      (\<exists>xs. CBS_get_asn1 CBS_ASN1_INTEGER s = (Some xs, rest) \<and> asn1_uint64_contents xs = Some v)"
    by (auto simp: CBS_get_asn1_uint64_def bind_act_eq_Some split: option.splits)
  then show ?thesis
    using length_uint_octets [of "nat_be 8 (unat v)"]
    by (auto simp: der_codec.dec_iff asn1_uint64_contents_iff)
qed

text \<open>Every signed 64-bit integer survives encoding and decoding: the bytes that
  \<^verbatim>\<open>CBB_add_asn1_int64\<close> writes are read back by \<^verbatim>\<open>CBS_get_asn1_int64\<close> as the same number, whatever
  follows them.\<close>

theorem int64_round_trip:
  assumes "malloc_ok m" and "cap < object_max" and "run_cbb m cap (CBB_add_asn1_int64 m 0 1 v) = Some bs"
  shows "CBS_get_asn1_int64 (bs @ rest) = (Some v, rest)"
proof -
  have "length (int64_octets v) < 2 ^ 32" using length_int64_octets [of v] by simp
  from der_codec.dec_enc [OF this, of CBS_ASN1_INTEGER rest] show ?thesis
    using run_int64 [OF assms] read_int64_octets [of v] by (simp add: CBS_get_asn1_int64_def)
qed

lemma run_int64_total:
  assumes "malloc_ok m" "malloc_total m"
  shows "run_cbb m 0 (CBB_add_asn1_int64 m 0 1 v) = Some (der_element CBS_ASN1_INTEGER (int64_octets v))"
proof (rule run_cbb_eq(2) [where xo = "Some (der_element CBS_ASN1_INTEGER (int64_octets v))",
      OF assms(1) _ one_root_int64 _ assms(2)])
  fix s c
  assume "tip 0 s" "snd s = [c]" "c_handle c = 0"
  then show "appends m 0 (then_act (CBB_add_asn1_int64 m 0 1 v) (CBB_flush m 0))
      (Some (der_element CBS_ASN1_INTEGER (int64_octets v))) s"
    using appends_flush [OF add_int64_appends [OF assms(1), of 0 "fst s" "snd s" 1 v]] by (cases s) simp
next
  show "length (der_element CBS_ASN1_INTEGER (int64_octets v)) < 2305843009213693952"
    using length_int64_octets [of v] length_tag_octets [of CBS_ASN1_INTEGER] length_length_octets [of "length (int64_octets v)"]
    by (simp add: der_element_def der_header_def)
qed simp_all

lemma int64_round_trip_witness:
  "\<exists>bs. run_cbb zero_malloc 0 (CBB_add_asn1_int64 zero_malloc 0 1 (-129)) = Some bs \<and>
    CBS_get_asn1_int64 (bs @ [1]) = (Some (-129), [1])"
proof -
  obtain bs where bs: "run_cbb zero_malloc 0 (CBB_add_asn1_int64 zero_malloc 0 1 (-129)) = Some bs"
    using run_int64_total [OF zero_malloc] by blast
  from int64_round_trip [OF zero_malloc(1) _ this, of "[1]"] bs show ?thesis by simp
qed

end
