(* ===== verification/Oid.thy ===== *)
theory Oid
  imports Asn1_Values
begin

text \<open>
  Object identifiers: their textual form and their contents octets as functions on the list of
  components, and that the two conversions of the code map one to the other.
\<close>

section \<open>Decimal numbers\<close>

lemma decimal_digits: "b \<in> set (decimal n) \<Longrightarrow> 48 \<le> b \<and> b \<le> 57"
proof (induction n rule: decimal.induct)
  case (1 n)
  have d: "48 \<le> (word_of_nat (48 + k) :: byte) \<and> (word_of_nat (48 + k) :: byte) \<le> 57" if "k < 10" for k
    using that by (simp add: word_le_nat_alt unat_of_nat del: of_nat_add)
  show ?case
    using 1 d [of n] d [of "n mod 10"] by (auto simp: decimal.simps [of n] simp del: of_nat_add split: if_splits)
qed

lemma decimal_not_Nil [simp]: "decimal n \<noteq> []"
  by (subst decimal.simps) simp

lemma length_decimal: "n < 10 ^ k \<Longrightarrow> 0 < k \<Longrightarrow> length (decimal n) \<le> k"
proof (induction k arbitrary: n)
  case 0
  then show ?case by simp
next
  case (Suc k)
  show ?case
  proof (cases "n < 10")
    case True
    then show ?thesis by (simp add: decimal.simps)
  next
    case False
    then have "0 < k" using Suc.prems by (cases k) auto
    moreover have "n div 10 < 10 ^ k" using Suc.prems by (simp add: less_mult_imp_div_less mult.commute)
    ultimately show ?thesis using Suc.IH False by (subst decimal.simps) simp
  qed
qed

lemma parse_dotted_digit:
  assumes k: "k < 10" and n: "unat v * 10 + k < 2 ^ 64" and z: "seen \<longrightarrow> v \<noteq> 0"
  shows "parse_dotted_loop v seen (word_of_nat (48 + k) # cbs) =
    parse_dotted_loop (word_of_nat (unat v * 10 + k)) True cbs"
proof -
  define u where "u = (word_of_nat (48 + k) :: byte)"
  have uu: "unat u = 48 + k" using k unfolding u_def by (subst unat_of_nat_byte) simp
  have r: "\<not> u < 48" "\<not> 57 < u" "u \<noteq> 46" using k uu by (auto simp: word_less_nat_alt)
  have "unat (u - 48) = k" using uu r by (simp add: unat_sub_if' word_le_nat_alt)
  then have d: "unat (ucast (u - 48) :: u64) = k" by (simp add: unat_ucast_le)
  have w: "unat (v * 10) = unat v * 10" using n by (simp add: unat_word_ariths)
  have "0xffffffffffffffff div 10 = (1844674407370955161 :: u64)" by code_simp
  then have o1: "\<not> v > 0xffffffffffffffff div 10"
    using n k by (simp add: word_less_nat_alt)
  have o2: "\<not> v * 10 > 0xffffffffffffffff - ucast (u - 48)"
    using n k d w by (simp add: word_less_nat_alt unat_sub_if')
  have "v * 10 + ucast (u - 48) = word_of_nat (unat v * 10 + k)"
    using n d w by (intro word_unat_eq_iff [THEN iffD2]) (simp add: unat_word_ariths unat_of_nat del: of_nat_add of_nat_mult)
  then show ?thesis
    using r o1 o2 z by (cases seen) (simp_all add: u_def [symmetric] del: of_nat_add of_nat_mult)
qed

lemma parse_dotted_decimal_digits:
  "n < 2 ^ 64 \<Longrightarrow> parse_dotted_loop 0 False (decimal n @ cbs) = parse_dotted_loop (word_of_nat n) True cbs"
proof (induction n arbitrary: cbs rule: decimal.induct)
  case (1 n)
  show ?case
  proof (cases "n < 10")
    case True
    then show ?thesis
      using parse_dotted_digit [of n 0 False cbs] by (simp add: decimal.simps del: of_nat_add)
  next
    case False
    have un: "unat (word_of_nat (n div 10) :: u64) = n div 10"
      using 1 by (simp add: unat_of_nat)
    have nz: "(word_of_nat (n div 10) :: u64) \<noteq> 0"
    proof
      assume "(word_of_nat (n div 10) :: u64) = 0"
      then have "n div 10 = 0" using un by simp
      then show False using False by simp
    qed
    have "n div 10 * 10 + n mod 10 = n" by simp
    then show ?thesis
      using 1 False parse_dotted_digit [of "n mod 10" "word_of_nat (n div 10)" True cbs] nz
      by (subst decimal.simps) (simp add: un del: of_nat_add of_nat_mult)
  qed
qed

lemma parse_dotted_last:
  "n < 2 ^ 64 \<Longrightarrow> parse_dotted_decimal (decimal n) = (Some (word_of_nat n), [])"
  using parse_dotted_decimal_digits [of n "[]"] by (simp add: parse_dotted_decimal_def)

lemma parse_dotted_dot:
  "n < 2 ^ 64 \<Longrightarrow> cbs \<noteq> [] \<Longrightarrow> parse_dotted_decimal (decimal n @ 46 # cbs) = (Some (word_of_nat n), cbs)"
  using parse_dotted_decimal_digits [of n "46 # cbs"] by (simp add: parse_dotted_decimal_def CBS_len_def)

section \<open>Object identifiers\<close>

fun dotted :: "nat list \<Rightarrow> byte list" where
  "dotted [] = []"
| "dotted (n # ns) = 46 # decimal n @ dotted ns"

fun oid_text :: "nat list \<Rightarrow> byte list" where
  "oid_text [] = []"
| "oid_text (n # ns) = decimal n @ dotted ns"

fun oid_octets :: "nat list \<Rightarrow> byte list" where
  "oid_octets (a # b # ns) = base128 (40 * a + b) @ concat (map base128 ns)"
| "oid_octets _ = []"

fun oid_ok :: "nat list \<Rightarrow> bool" where
  "oid_ok (a # b # ns) \<longleftrightarrow> a \<le> 2 \<and> (a < 2 \<longrightarrow> b \<le> 39) \<and> b + 80 < 2 ^ 64 \<and> (\<forall>n \<in> set ns. n < 2 ^ 64)"
| "oid_ok _ \<longleftrightarrow> False"

text \<open>What remains of the text after a component.\<close>

definition after_dot :: "nat list \<Rightarrow> byte list" where
  "after_dot ns = drop 1 (dotted ns)"

lemma parse_component:
  assumes "n < 2 ^ 64"
  shows "parse_dotted_decimal (decimal n @ dotted ns) = (Some (word_of_nat n), after_dot ns)"
  using parse_dotted_last [OF assms] parse_dotted_dot [OF assms, of "after_dot ns"]
  by (cases ns) (simp_all add: after_dot_def)

lemma after_dot_Cons: "after_dot (n # ns) = decimal n @ dotted ns"
  by (simp add: after_dot_def)

lemma emits_oid_components:
  assumes "malloc_ok m" "\<forall>n \<in> set ns. n < 2 ^ 64"
  shows "emits m h (add_oid_components m h (after_dot ns)) (concat (map base128 ns))"
  using assms(2)
proof (induction ns)
  case Nil
  then show ?case by (subst add_oid_components.simps) (simp add: after_dot_def CBS_len_def emits_ret del: ret_act_simp)
next
  case (Cons n ns)
  have "unat (word_of_nat n :: u64) = n" using Cons.prems by (simp add: unat_of_nat)
  then have "emits m h (then_act (add_base128_integer m h (word_of_nat n)) (add_oid_components m h (after_dot ns)))
      (base128 n @ concat (map base128 ns))"
    using emits_then [OF emits_base128 [OF assms(1), of h "word_of_nat n"] Cons.IH] Cons.prems by simp
  then show ?case
    using Cons.prems parse_component [of n ns]
    by (subst add_oid_components.simps) (simp add: after_dot_Cons CBS_len_def)
qed

lemma oid_words:
  assumes "a \<le> 2" "b + 80 < 2 ^ 64"
  shows "unat (40 * word_of_nat a + word_of_nat b :: u64) = 40 * a + b"
    and "unat (word_of_nat a :: u64) = a" and "unat (word_of_nat b :: u64) = b"
proof -
  show a: "unat (word_of_nat a :: u64) = a" and b: "unat (word_of_nat b :: u64) = b"
    using assms by (simp_all add: unat_of_nat)
  show "unat (40 * word_of_nat a + word_of_nat b :: u64) = 40 * a + b"
    using assms by (simp add: unat_word_ariths a b)
qed

lemma emits_oid_from_text:
  assumes m: "malloc_ok m" and ok: "oid_ok ns"
  shows "emits m h (CBB_add_asn1_oid_from_text m h (oid_text ns)) (oid_octets ns)"
proof -
  from ok obtain a b cs where ns: "ns = a # b # cs" and v: "a \<le> 2" "a < 2 \<longrightarrow> b \<le> 39" "b + 80 < 2 ^ 64"
    and cs: "\<forall>n \<in> set cs. n < 2 ^ 64"
    by (cases ns rule: oid_ok.cases) auto
  note w = oid_words [OF v(1,3)]
  have p1: "parse_dotted_decimal (oid_text ns) = (Some (word_of_nat a), after_dot (b # cs))"
    using v parse_component [of a "b # cs"] by (simp only: ns oid_text.simps)
  have p2: "parse_dotted_decimal (after_dot (b # cs)) = (Some (word_of_nat b), after_dot cs)"
    using v by (simp add: after_dot_Cons parse_component)
  have c: "(2 < (word_of_nat a :: u64) \<or> (word_of_nat a < (2 :: u64) \<and> 39 < (word_of_nat b :: u64)) \<or>
      0xffffffffffffffff - 80 < (word_of_nat b :: u64)) = False"
    using v by (auto simp: word_less_nat_alt w)
  have "emits m h (then_act (add_base128_integer m h (40 * word_of_nat a + word_of_nat b))
      (add_oid_components m h (after_dot cs))) (oid_octets ns)"
    using emits_then [OF emits_base128 [OF m, of h "40 * word_of_nat a + word_of_nat b"] emits_oid_components [OF m cs]]
    by (simp add: ns w)
  then show ?thesis
    unfolding CBB_add_asn1_oid_from_text_def
    by (intro emits_flush) (simp only: p1 p2 prod.case option.case c if_False)
qed


text \<open>The other direction.\<close>

lemma emits_oid_text_loop:
  assumes m: "malloc_ok m" and ns: "\<forall>n \<in> set ns. n < 2 ^ 64"
  shows "emits m h (oid_text_loop m h (concat (map base128 ns))) (dotted ns)"
  using ns
proof (induction ns)
  case Nil
  then show ?case by (subst oid_text_loop.simps) (simp add: CBS_len_def emits_ret del: ret_act_simp)
next
  case (Cons n ns)
  have u: "unat (word_of_nat n :: u64) = n" using Cons.prems by (simp add: unat_of_nat)
  have "length (decimal n) < object_max"
    using length_decimal [of n 20] Cons.prems by simp
  then have d: "emits m h (add_decimal m h (word_of_nat n)) (decimal n)"
    unfolding add_decimal_def u by (intro emits_add_bytes m)
  have "base128 n @ concat (map base128 ns) \<noteq> []" by simp
  then show ?case
    using emits_then [OF emits_u8 [OF m, of h 46] emits_then [OF d Cons.IH]] Cons.prems
      parse_base128 [of n "concat (map base128 ns)"]
    by (subst oid_text_loop.simps) (simp add: CBS_len_def)
qed

lemma oid_to_text:
  assumes m: "malloc_ok m" "malloc_total m" and ok: "oid_ok ns" and len: "length (oid_text ns) < 2 ^ 60"
  shows "CBS_asn1_oid_to_text m (oid_octets ns) = Some (oid_text ns @ [0])"
proof -
  from ok obtain a b cs where ns: "ns = a # b # cs" and v: "a \<le> 2" "a < 2 \<longrightarrow> b \<le> 39" "b + 80 < 2 ^ 64"
    and cs: "\<forall>n \<in> set cs. n < 2 ^ 64"
    by (cases ns rule: oid_ok.cases) auto
  define w where "w = (word_of_nat (40 * a + b) :: u64)"
  have uw: "unat w = 40 * a + b" unfolding w_def using v by (subst unat_of_nat) simp
  have p: "parse_base128_integer (oid_octets ns) = (Some w, concat (map base128 cs))"
    using v parse_base128 [of "40 * a + b" "concat (map base128 cs)"] by (simp add: ns w_def)
  have d: "emits m 0 (add_decimal m 0 x) (decimal (unat x))" for x
    unfolding add_decimal_def
    using length_decimal [of "unat x" 20] unsigned_less [of x, where ?'a = nat]
    by (intro emits_add_bytes m(1)) simp
  let ?H = "if w \<ge> 80 then then_act (CBB_add_bytes m 0 [50, 46]) (add_decimal m 0 (w - 80))
      else then_act (add_decimal m 0 (w div 40)) (then_act (CBB_add_u8 m 0 46) (add_decimal m 0 (w mod 40)))"
  have H: "emits m 0 ?H (decimal a @ 46 # decimal b)"
  proof (cases "w \<ge> 80")
    case True
    then have "80 \<le> 40 * a + b" by (simp add: word_le_nat_alt uw)
    then have a: "a = 2" using v by (cases "a = 2") auto
    have "unat (w - 80) = b" using True by (simp add: unat_sub_if' word_le_nat_alt uw a)
    moreover have "decimal a = [50]" by (simp add: a decimal.simps)
    ultimately show ?thesis
      using True emits_then [OF emits_add_bytes [OF m(1), of "[50, 46]" 0] d [of "w - 80"]] by simp
  next
    case False
    then have lt: "40 * a + b < 80" by (simp add: word_le_nat_alt uw)
    then have "b < 40" using v by (cases "a = 2") auto
    then have "unat (w div 40) = a" "unat (w mod 40) = b"
      by (simp_all add: unat_div_distrib unat_mod_distrib uw)
    then show ?thesis
      using False emits_then [OF d [of "w div 40"] emits_then [OF emits_u8 [OF m(1), of 0 46] d [of "w mod 40"]]]
      by simp
  qed
  have E: "emits m 0 (then_act ?H (then_act (oid_text_loop m 0 (concat (map base128 cs))) (CBB_add_u8 m 0 0)))
      (oid_text ns @ [0])" (is "emits m 0 ?P _")
    using emits_then [OF H emits_then [OF emits_oid_text_loop [OF m(1) cs] emits_u8 [OF m(1), of 0 0]]]
    by (simp add: ns)
  obtain s where s: "CBB_init m 0 32 = Some s" using malloc_total_init [OF m(2), of 32 0] by auto
  from malloc_ok_init [OF m(1) _ s] obtain b0 c where s': "s = (b0, [c])" and t: "tip 0 (b0, [c])"
    and b0: "contents b0 = []" "b_can_resize b0" "b_len b0 = 0" and c: "c_handle c = 0"
    by (cases s) auto
  have fit: "fits m b0 (b_len b0 + length (oid_text ns @ [0]))"
    using len b0 m(2) by (simp add: fits_def)
  obtain r b1 ch1 where e: "?P (b0, [c]) = (r, b1, ch1)" by (cases "?P (b0, [c])") auto
  have "r \<noteq> None" using emits_NoneD [OF E t, of b1 ch1] e fit by (cases r) auto
  then obtain u where r: "r = Some u" by auto
  from emits_SomeD [OF E t e [unfolded r]] have 1: "ch1 = [c]" "contents b1 = oid_text ns @ [0]" "tip 0 (b1, [c])"
    using b0 by auto
  have "then_act ?H (then_act (oid_text_loop m 0 (concat (map base128 cs)))
      (then_act (CBB_add_u8 m 0 0) (CBB_finish m 0 True True))) =
      then_act ?P (CBB_finish m 0 True True)"
    by (simp add: then_act_def bind_act_assoc)
  then have "then_act ?H (then_act (oid_text_loop m 0 (concat (map base128 cs)))
      (then_act (CBB_add_u8 m 0 0) (CBB_finish m 0 True True))) (b0, [c]) =
      (Some (b_buf b1, b_len b1), b1\<lparr>b_buf := []\<rparr>, [])"
    using then_act_Some [where f = ?P and g = "CBB_finish m 0 True True", OF e [unfolded r]] finish_tip [OF 1(3) c] 1(1) by simp
  then show ?thesis
    using 1(2) by (simp add: CBS_asn1_oid_to_text_def s p s' contents_def)
qed

section \<open>Running the conversions\<close>

lemma one_root_oid: "one_root (CBB_add_asn1_oid_from_text m h txt)"
proof -
  have "one_root (add_oid_components m h cbs)" for cbs
  proof (induction m h cbs rule: add_oid_components.induct)
    case (1 m h cbs)
    have f: "one_root (fail_act :: (cbb_state, unit) act)" by (simp add: one_root_def)
    show ?case
      using 1 f by (subst add_oid_components.simps)
        (auto simp del: ret_act_simp intro!: one_root_intros one_root_base128 split: prod.splits option.splits)
  qed
  moreover have "one_root (fail_act :: (cbb_state, unit) act)" by (simp add: one_root_def)
  ultimately show ?thesis
    unfolding CBB_add_asn1_oid_from_text_def
    by (auto intro!: one_root_intros one_root_base128 split: prod.splits option.splits)
qed

lemma run_oid:
  assumes m: "malloc_ok m" and ok: "oid_ok ns"
  shows "cap < object_max \<Longrightarrow> run_cbb m cap (CBB_add_asn1_oid_from_text m 0 (oid_text ns)) = Some bs \<Longrightarrow> bs = oid_octets ns"
    and "malloc_total m \<Longrightarrow> length (oid_octets ns) < 2305843009213693952 \<Longrightarrow>
      run_cbb m 0 (CBB_add_asn1_oid_from_text m 0 (oid_text ns)) = Some (oid_octets ns)"
proof -
  have a: "appends m 0 (then_act (CBB_add_asn1_oid_from_text m 0 (oid_text ns)) (CBB_flush m 0)) (Some (oid_octets ns)) s"
    if "tip 0 s" for s
    using that appends_flush [OF emits_appends [OF emits_oid_from_text [OF m ok]]] by (cases s) simp
  show "cap < object_max \<Longrightarrow> run_cbb m cap (CBB_add_asn1_oid_from_text m 0 (oid_text ns)) = Some bs \<Longrightarrow> bs = oid_octets ns"
    using run_cbb_eq(1) [OF m _ one_root_oid a] by blast
  show "malloc_total m \<Longrightarrow> length (oid_octets ns) < 2305843009213693952 \<Longrightarrow>
      run_cbb m 0 (CBB_add_asn1_oid_from_text m 0 (oid_text ns)) = Some (oid_octets ns)"
    using run_cbb_eq(2) [OF m _ one_root_oid a] by simp
qed

text \<open>C40: From text to octets and back: for every object identifier within the limits of the code,
  \<^verbatim>\<open>CBB_add_asn1_oid_from_text\<close> succeeds on its dotted text and writes exactly the octets of its components, and
  \<^verbatim>\<open>CBS_asn1_oid_to_text\<close> turns these octets back into the same text.\<close>

theorem oid_round_trip:
  assumes "malloc_ok m" and "malloc_total m" and "oid_ok ns" and "length (oid_text ns) < 2 ^ 60"
    and "length (oid_octets ns) < 2305843009213693952"
  shows "run_cbb m 0 (CBB_add_asn1_oid_from_text m 0 (oid_text ns)) = Some (oid_octets ns) \<and>
    CBS_asn1_oid_to_text m (oid_octets ns) = Some (oid_text ns @ [0])"
  using run_oid(2) [OF assms(1,3,2,5)] oid_to_text [OF assms(1-4)] by simp

lemma oid_round_trip_witness:
  "oid_text [1, 2, 840, 113549] = [49, 46, 50, 46, 56, 52, 48, 46, 49, 49, 51, 53, 52, 57] \<and>
    run_cbb zero_malloc 0 (CBB_add_asn1_oid_from_text zero_malloc 0 (oid_text [1, 2, 840, 113549])) = Some (oid_octets [1, 2, 840, 113549]) \<and>
    CBS_asn1_oid_to_text zero_malloc (oid_octets [1, 2, 840, 113549]) = Some (oid_text [1, 2, 840, 113549] @ [0])"
proof -
  have t: "oid_text [1, 2, 840, 113549] = [49, 46, 50, 46, 56, 52, 48, 46, 49, 49, 51, 53, 52, 57]"
    by (simp add: decimal.simps)
  have ok: "oid_ok [1, 2, 840, 113549]" by simp
  have "length (oid_octets [1, 2, 840, 113549]) < 2305843009213693952"
    using length_b128_hi [of 6 1] length_b128_hi [of 887 2] by (simp add: base128_def)
  with oid_round_trip [OF zero_malloc ok] t show ?thesis by (simp del: oid_text.simps oid_octets.simps)
qed

end
