(* ===== verification/Comparator.thy ===== *)
theory Comparator
  imports Main "HOL-Library.Multiset"
begin

text \<open>
  Comparison functions in the style of \<^verbatim>\<open>strcmp\<close>: the sign of the result orders the arguments. What
  searching and sorting rely on is stated once, for every comparison function of the development.
\<close>

definition cmp_ok :: "('a \<Rightarrow> 'a \<Rightarrow> int) \<Rightarrow> bool" where
  "cmp_ok cmp \<longleftrightarrow> (\<forall>x y. cmp x y < 0 \<longleftrightarrow> 0 < cmp y x) \<and>
     (\<forall>x y z. cmp x y \<le> 0 \<longrightarrow> cmp y z \<le> 0 \<longrightarrow> cmp x z \<le> 0)"

definition cmp_sorted :: "('a \<Rightarrow> 'a \<Rightarrow> int) \<Rightarrow> 'a list \<Rightarrow> bool" where
  "cmp_sorted cmp xs = sorted_wrt (\<lambda>x y. cmp x y \<le> 0) xs"

locale comparator =
  fixes cmp :: "'a \<Rightarrow> 'a \<Rightarrow> int"
  assumes ok: "cmp_ok cmp"
begin

lemma flip: "cmp x y < 0 \<longleftrightarrow> 0 < cmp y x"
  using ok by (simp add: cmp_ok_def)

lemma le_trans: "cmp x y \<le> 0 \<Longrightarrow> cmp y z \<le> 0 \<Longrightarrow> cmp x z \<le> 0"
  using ok by (auto simp: cmp_ok_def)

lemma refl [simp]: "cmp x x = 0"
  using flip [of x x] by linarith

lemma eq_sym: "cmp x y = 0 \<longleftrightarrow> cmp y x = 0"
  using flip [of x y] flip [of y x] by linarith

lemma eq_trans: "cmp x y = 0 \<Longrightarrow> cmp y z = 0 \<Longrightarrow> cmp x z = 0"
  using le_trans [of x y z] le_trans [of z y x] eq_sym [of x y] eq_sym [of y z] flip [of x z] flip [of z x] by linarith

lemma less_trans: "cmp x y < 0 \<Longrightarrow> cmp y z \<le> 0 \<Longrightarrow> cmp x z < 0"
proof (rule ccontr)
  assume h: "cmp x y < 0" "cmp y z \<le> 0" "\<not> cmp x z < 0"
  then have "cmp z x \<le> 0" using flip [of x z] flip [of z x] by linarith
  with h(2) have "cmp y x \<le> 0" by (rule le_trans)
  then show False using h(1) flip [of x y] by linarith
qed

lemma greater_trans: "0 < cmp k y \<Longrightarrow> cmp x y \<le> 0 \<Longrightarrow> 0 < cmp k x"
proof (rule ccontr)
  assume h: "0 < cmp k y" "cmp x y \<le> 0" "\<not> 0 < cmp k x"
  then have "cmp k y \<le> 0" using le_trans [of k x y] by linarith
  then show False using h(1) by linarith
qed

text \<open>How elements on either side of \<open>k\<close> compare with a key, given how \<open>k\<close> does.\<close>

lemma sides:
  "0 < cmp k key \<Longrightarrow> cmp k x < 0 \<Longrightarrow> 0 < cmp x key"
  "cmp k key < 0 \<Longrightarrow> cmp x k < 0 \<Longrightarrow> cmp x key < 0"
  "cmp k key = 0 \<Longrightarrow> cmp k x < 0 \<Longrightarrow> 0 < cmp x key"
  "cmp k key = 0 \<Longrightarrow> cmp x k < 0 \<Longrightarrow> cmp x key < 0"
proof -
  show "0 < cmp k key \<Longrightarrow> cmp k x < 0 \<Longrightarrow> 0 < cmp x key"
    using less_trans [of key k x] flip [of key k] flip [of key x] by linarith
  show "cmp k key < 0 \<Longrightarrow> cmp x k < 0 \<Longrightarrow> cmp x key < 0"
    using less_trans [of x k key] by linarith
  show "cmp k key = 0 \<Longrightarrow> cmp k x < 0 \<Longrightarrow> 0 < cmp x key"
    using greater_trans [of x k key] flip [of k x] eq_sym [of k key] by linarith
  show "cmp k key = 0 \<Longrightarrow> cmp x k < 0 \<Longrightarrow> cmp x key < 0"
    using less_trans [of x k key] by linarith
qed

text \<open>In a sorted list a key is at first greater than the elements, then equal, then smaller.\<close>

lemma sorted_less:
  "cmp_sorted cmp xs \<Longrightarrow> i \<le> j \<Longrightarrow> j < length xs \<Longrightarrow> cmp k (xs ! i) < 0 \<Longrightarrow> cmp k (xs ! j) < 0"
  using less_trans [of k "xs ! i" "xs ! j"] by (cases "i = j") (auto simp: cmp_sorted_def sorted_wrt_iff_nth_less)

lemma sorted_greater:
  "cmp_sorted cmp xs \<Longrightarrow> i \<le> j \<Longrightarrow> j < length xs \<Longrightarrow> 0 < cmp k (xs ! j) \<Longrightarrow> 0 < cmp k (xs ! i)"
  using greater_trans [of k "xs ! j" "xs ! i"] by (cases "i = j") (auto simp: cmp_sorted_def sorted_wrt_iff_nth_less)

end


text \<open>
  A reference sorting routine, and what is required of one: a rearrangement that is sorted.
\<close>

definition qsort_ok :: "(('a \<Rightarrow> 'a \<Rightarrow> int) \<Rightarrow> 'a list \<Rightarrow> 'a list) \<Rightarrow> bool" where
  "qsort_ok qsort \<longleftrightarrow>
     (\<forall>cmp xs. cmp_ok cmp \<longrightarrow> mset (qsort cmp xs) = mset xs \<and> cmp_sorted cmp (qsort cmp xs))"

fun cmp_insert :: "('a \<Rightarrow> 'a \<Rightarrow> int) \<Rightarrow> 'a \<Rightarrow> 'a list \<Rightarrow> 'a list" where
  "cmp_insert cmp x [] = [x]"
| "cmp_insert cmp x (y # ys) = (if cmp x y \<le> 0 then x # y # ys else y # cmp_insert cmp x ys)"

fun cmp_isort :: "('a \<Rightarrow> 'a \<Rightarrow> int) \<Rightarrow> 'a list \<Rightarrow> 'a list" where
  "cmp_isort cmp [] = []"
| "cmp_isort cmp (x # xs) = cmp_insert cmp x (cmp_isort cmp xs)"

context comparator
begin

lemma mset_insert: "mset (cmp_insert cmp x ys) = add_mset x (mset ys)"
  by (induction ys) auto

lemma set_insert: "set (cmp_insert cmp x ys) = insert x (set ys)"
  using mset_insert [of x ys] by (metis set_mset_add_mset_insert set_mset_mset)

lemma sorted_insert: "cmp_sorted cmp ys \<Longrightarrow> cmp_sorted cmp (cmp_insert cmp x ys)"
proof (induction ys)
  case Nil
  then show ?case by (simp add: cmp_sorted_def)
next
  case (Cons y ys)
  then show ?case
    using le_trans [of x y] flip [of y x] flip [of x y]
    by (fastforce simp: cmp_sorted_def set_insert)
qed

lemma isort_sorts: "mset (cmp_isort cmp xs) = mset xs \<and> cmp_sorted cmp (cmp_isort cmp xs)"
proof (induction xs)
  case Nil
  then show ?case by (simp add: cmp_sorted_def)
next
  case (Cons x xs)
  then show ?case by (simp add: mset_insert sorted_insert)
qed

end

lemma qsort_ok_isort: "qsort_ok cmp_isort"
  unfolding qsort_ok_def
proof (intro allI impI)
  fix cmp :: "'a \<Rightarrow> 'a \<Rightarrow> int" and xs
  assume "cmp_ok cmp"
  then have "comparator cmp" by (simp add: comparator_def)
  then show "mset (cmp_isort cmp xs) = mset xs \<and> cmp_sorted cmp (cmp_isort cmp xs)"
    by (rule comparator.isort_sorts)
qed

end
