(* ===== verification/Set_Of.thy ===== *)
theory Set_Of
  imports Oid Comparator
begin

text \<open>
  \<^verbatim>\<open>CBB_flush_asn1_set_of\<close>: the comparison is the lexicographic order of byte strings, the split
  into elements is the one of the DER reader, and the contents are replaced by the same elements
  in ascending order.
\<close>

section \<open>The order of the elements\<close>

lemma OPENSSL_memcmp_0: "length as = length bs \<Longrightarrow> OPENSSL_memcmp as bs = 0 \<longleftrightarrow> as = bs"
  by (induction as bs rule: OPENSSL_memcmp.induct) auto

lemma OPENSSL_memcmp_prefix:
  "OPENSSL_memcmp as bs = 0 \<Longrightarrow> length as \<le> length bs \<Longrightarrow> \<exists>cs. bs = as @ cs"
  by (induction as bs rule: OPENSSL_memcmp.induct) (auto split: if_splits)

lemma compare_Nil:
  "compare_set_of_element [] bs = (if bs = [] then 0 else -1)"
  "compare_set_of_element (a # as) [] = 1"
  by (auto simp: compare_set_of_element_def CBS_len_def CBS_data_def Let_def)

lemma compare_Cons:
  "compare_set_of_element (a # as) (b # bs) =
    (if a < b then -1 else if b < a then 1 else compare_set_of_element as bs)"
  by (auto simp: compare_set_of_element_def CBS_len_def CBS_data_def Let_def)

lemma compare_le: "compare_set_of_element as bs \<le> 0 \<longleftrightarrow> as \<le> bs"
proof (induction as arbitrary: bs)
  case Nil
  then show ?case by (simp add: compare_Nil)
next
  case (Cons a as)
  then show ?case by (cases bs) (auto simp: compare_Nil compare_Cons)
qed

lemma compare_ge: "0 \<le> compare_set_of_element as bs \<longleftrightarrow> bs \<le> as"
proof (induction as arbitrary: bs)
  case Nil
  then show ?case by (simp add: compare_Nil)
next
  case (Cons a as)
  then show ?case by (cases bs) (auto simp: compare_Nil compare_Cons)
qed

interpretation set_of_order: comparator compare_set_of_element
proof
  have "compare_set_of_element x y < 0 \<longleftrightarrow> x < y" "0 < compare_set_of_element y x \<longleftrightarrow> x < y" for x y
    using compare_ge [of x y] compare_le [of y x] by (metis not_le)+
  moreover have "compare_set_of_element x z \<le> 0" if "compare_set_of_element x y \<le> 0" "compare_set_of_element y z \<le> 0" for x y z
    using that by (simp add: compare_le)
  ultimately show "cmp_ok compare_set_of_element" by (simp add: cmp_ok_def)
qed
lemma insert_set_of_eq: "insert_set_of x ys = insort x ys"
  by (induction ys) (auto simp: compare_le)

lemma qsort_set_of_eq: "qsort_set_of children = sort children"
  unfolding qsort_set_of_def sort_key_def by (rule arg_cong [of _ _ "\<lambda>f. foldr f children []"]) (simp add: fun_eq_iff insert_set_of_eq)

section \<open>The elements\<close>

lemma set_of_children_sound:
  "set_of_children cbs = Some cs \<Longrightarrow> concat cs = cbs \<and>
    (\<forall>c \<in> set cs. \<exists>tag xs. c = der_element tag xs \<and> length xs < 2 ^ 32)"
proof (induction cbs arbitrary: cs rule: set_of_children.induct)
  case (1 cbs)
  show ?case
  proof (cases "CBS_len cbs = 0")
    case True
    then show ?thesis
      using "1.prems" by (subst (asm) set_of_children.simps) (simp add: CBS_len_def)
  next
    case False
    with "1.prems" obtain out t h rest cs' where
      e: "CBS_get_any_asn1_element cbs = (Some (out, t, h), rest)"
      and cs': "set_of_children rest = Some cs'" and cs: "cs = out # cs'"
      by (subst (asm) set_of_children.simps) (auto split: prod.splits option.splits)
    have "concat cs' = rest \<and> (\<forall>c \<in> set cs'. \<exists>tag xs. c = der_element tag xs \<and> length xs < 2 ^ 32)"
      by (rule "1.IH" [OF False e [symmetric] refl refl cs'])
    moreover have "cbs = out @ rest" "out = der_element t (drop h out)" "length (drop h out) < 2 ^ 32"
      using any_asn1_element_sound [of cbs out t h rest] e by (simp_all add: CBS_get_any_asn1_element_def)
    ultimately show ?thesis unfolding cs by fastforce
  qed
qed

lemma set_of_children_complete:
  "(\<forall>c \<in> set cs. \<exists>tag xs. c = der_element tag xs \<and> length xs < 2 ^ 32) \<Longrightarrow>
    set_of_children (concat cs) = Some cs"
proof (induction cs)
  case Nil
  then show ?case by (subst set_of_children.simps) (simp add: CBS_len_def)
next
  case (Cons c cs)
  then obtain tag xs where c: "c = der_element tag xs" "length xs < 2 ^ 32" by auto
  have "CBS_len (concat (c # cs)) \<noteq> 0" by (simp add: CBS_len_def c der_element_def der_header_def)
  then show ?case
    using Cons parse_der_element [OF c(2), of False tag "concat cs"]
    by (subst set_of_children.simps) (simp add: c CBS_get_any_asn1_element_def)
qed

section \<open>Rewriting the contents\<close>

lemma chain_ok_shrink: "chain_ok (c_start r) n ds \<Longrightarrow> chain_ok (c_start r) (c_start (last (r # ds))) ds"
proof (induction ds arbitrary: r)
  case Nil
  then show ?case by simp
next
  case (Cons d ds)
  then show ?case using Cons.IH [of d] by simp
qed

lemma tip_data:
  assumes t: "tip h (b, chain)"
  obtains c where "cbb_self h chain = Some c" "c_start c \<le> b_len b"
    "tip h (b\<lparr>b_len := c_start c\<rparr>, chain)"
proof -
  from t obtain r ds where chain: "chain = r # ds" and f: "cbb_find h chain = Some (chain, [])"
    by (cases chain) (auto simp: tip_def)
  have r: "c_start r = 0" and ds: "chain_ok (c_start r) (b_len b) ds" and ok: "buf_ok b"
    using t by (simp_all add: tip_def cbb_inv_def chain c_start_def)
  have "chain_ok (c_start r) (b_len b) (ds @ [])" using ds by simp
  then have le: "c_start (last chain) \<le> b_len b" by (simp only: chain_ok_append chain_ok.simps chain)
  have "tip h (b\<lparr>b_len := c_start (last chain)\<rparr>, chain)"
    using t chain_ok_shrink [OF ds] le ok r
    by (auto simp: tip_def cbb_inv_def chain buf_ok_def)
  then show thesis using that [of "last chain"] f le by (simp add: cbb_self_def)
qed

lemma emits_add_all:
  "malloc_ok m \<Longrightarrow> \<forall>c \<in> set cs. length c < object_max \<Longrightarrow> emits m h (add_all_bytes m h cs) (concat cs)"
proof (induction cs)
  case Nil
  then show ?case by (simp add: emits_ret del: ret_act_simp)
next
  case (Cons c cs)
  then show ?case using emits_then [OF emits_add_bytes [of m c h] Cons.IH] by simp
qed

text \<open>
  On an object without children whose contents are \<open>pre @ concat cs\<close>, the elements \<open>cs\<close> being
  those of the object, the operation succeeds unless the allocator fails, and sorts the elements.
\<close>

lemma length_concat_sort: "length (concat (sort cs)) = length (concat cs)"
proof -
  have "mset (map length (sort cs)) = mset (map length cs)" by simp
  then have "sum_list (map length (sort cs)) = sum_list (map length cs)"
    by (metis sum_mset_sum_list)
  then show ?thesis by (simp add: length_concat)
qed

lemma set_of_sorts:
  assumes m: "malloc_ok m" "malloc_total m" and t: "tip h (b, chain)"
    and s: "CBB_data h (b, chain) = Some start" and cs: "drop start (contents b) = concat cs"
    and der: "\<forall>c \<in> set cs. \<exists>tag xs. c = der_element tag xs \<and> length xs < 2 ^ 32"
    and small: "length (concat cs) < 2 ^ 58"
  shows "\<exists>b'. CBB_flush_asn1_set_of m h (b, chain) = (Some (), b', chain) \<and>
    contents b' = take start (contents b) @ concat (sort cs) \<and> tip h (b', chain) \<and> b_len b' = b_len b"
proof -
  obtain c where c: "cbb_self h chain = Some c" "c_start c \<le> b_len b"
    and t0: "tip h (b\<lparr>b_len := c_start c\<rparr>, chain)"
    by (rule tip_data [OF t])
  have ok: "buf_ok b" using tip_ok [OF t] by simp
  have start: "start = c_start c" using s c(1) by (simp add: CBB_data_def c_start_def)
  let ?n = "b_len b - c_start c"
  have len: "CBB_len h (b, chain) = Some ?n" using c(1) by (simp add: CBB_len_def c_start_def)
  have cbs: "take ?n (drop start (b_buf b)) = concat cs"
    using cs by (simp add: contents_def drop_take start)
  have "length (concat cs) = ?n" using cs length_contents [OF ok] start by (metis length_drop)
  have kids: "set_of_children (concat cs) = Some cs" by (rule set_of_children_complete [OF der])
  have nlen: "length cs \<le> length (concat cs)"
  proof -
    have "\<forall>c \<in> set cs. c \<noteq> []" using der by (auto simp: der_element_def der_header_def)
    then show ?thesis by (induction cs) (auto simp: neq_Nil_conv)
  qed
  show ?thesis
  proof (cases "length cs < 2")
    case True
    then have "sort cs = cs" by (cases cs) (auto simp: length_Suc_conv less_2_cases_iff)
    moreover have "CBB_flush_asn1_set_of m h (b, chain) = (Some (), b, chain)"
      using True by (simp add: CBB_flush_asn1_set_of_def tip_flush [OF t] s len cbs kids Let_def)
    ultimately show ?thesis using t cs append_take_drop_id [of start "contents b"] by auto
  next
    case False
    let ?b0 = "b\<lparr>b_len := c_start c\<rparr>"
    have e: "emits m h (add_all_bytes m h (sort cs)) (concat (sort cs))"
    proof (rule emits_add_all [OF m(1)], rule ballI)
      fix x assume "x \<in> set (sort cs)"
      then have "x \<in> set cs" by simp
      then have "length x \<le> length (concat cs)" by (induction cs) auto
      then show "length x < object_max" using small by simp
    qed
    have "b_len ?b0 + length (concat (sort cs)) = b_len b"
      using \<open>length (concat cs) = ?n\<close> c(2) by (simp add: length_concat_sort)
    then have fit: "fits m ?b0 (b_len ?b0 + length (concat (sort cs)))"
      using ok by (simp add: fits_def buf_ok_def)
    obtain r b1 ch1 where r: "add_all_bytes m h (sort cs) (?b0, chain) = (r, b1, ch1)"
      by (cases "add_all_bytes m h (sort cs) (?b0, chain)") auto
    have "r \<noteq> None" using emits_NoneD [OF e t0, of b1 ch1] r fit by (cases r) auto
    then obtain u where u: "r = Some u" by auto
    note d = emits_SomeD [OF e t0 r [unfolded u]]
    have c0: "contents ?b0 = take start (contents b)"
      using c(2) by (simp add: contents_def start min_def)
    have mem: "OPENSSL_memdup m (concat cs) \<noteq> None" "OPENSSL_malloc m (length cs * sizeof_CBS) \<noteq> None"
      using malloc_total_OPENSSL [OF m(2), of "length (concat cs)"]
        malloc_total_OPENSSL [OF m(2), of "length cs * sizeof_CBS"] small nlen False
      by (auto simp: OPENSSL_memdup_def sizeof_CBS_def split: option.splits
          simp del: length_0_conv concat_eq_Nil_conv)
    then obtain x y where "OPENSSL_memdup m (concat cs) = Some x"
        "OPENSSL_malloc m (length cs * sizeof_CBS) = Some y"
      by auto
    then have "CBB_flush_asn1_set_of m h (b, chain) = add_all_bytes m h (sort cs) (?b0, chain)"
      using False small nlen
      by (simp add: CBB_flush_asn1_set_of_def tip_flush [OF t] s len cbs [unfolded start] kids Let_def
          qsort_set_of_eq start sizeof_CBS_def)
    then show ?thesis
      using d r u c0 \<open>b_len ?b0 + length (concat (sort cs)) = b_len b\<close> by auto
  qed
qed

text \<open>C24: \<^verbatim>\<open>CBB_flush_asn1_set_of\<close> brings the elements of a SET OF into DER order: the contents of the
  object become a rearrangement of the same elements in ascending lexicographic order, and what precedes
  the object in the buffer is untouched.\<close>

theorem set_of_becomes_canonical:
  assumes "malloc_ok m" and "malloc_total m" and "tip h (b, chain)" and "CBB_data h (b, chain) = Some start"
    and "drop start (contents b) = concat cs"
    and "\<forall>c \<in> set cs. \<exists>tag xs. c = der_element tag xs \<and> length xs < 2 ^ 32"
    and "length (concat cs) < 2 ^ 58"
  shows "\<exists>b' ds. CBB_flush_asn1_set_of m h (b, chain) = (Some (), b', chain) \<and>
    sorted ds \<and> mset ds = mset cs \<and> contents b' = take start (contents b) @ concat ds"
  using set_of_sorts [OF assms] by (metis mset_sort sorted_sort)

lemma set_of_becomes_canonical_witness:
  "\<exists>b' ds. CBB_flush_asn1_set_of zero_malloc 0
      (\<lparr>b_buf = [4, 1, 9, 2, 1, 5], b_len = 6, b_cap = 6, b_can_resize = True, b_error = False\<rparr>,
        [\<lparr>c_handle = 0, c_offset = 0, c_pending_len_len = 0, c_pending_is_asn1 = False\<rparr>]) =
      (Some (), b', [\<lparr>c_handle = 0, c_offset = 0, c_pending_len_len = 0, c_pending_is_asn1 = False\<rparr>]) \<and>
    sorted ds \<and> mset ds = mset [[4, 1, 9 :: byte], [2, 1, 5]] \<and> contents b' = concat ds"
proof -
  let ?b = "\<lparr>b_buf = [4, 1, 9, 2, 1, 5], b_len = 6, b_cap = 6, b_can_resize = True, b_error = False\<rparr>"
  let ?c = "\<lparr>c_handle = 0, c_offset = 0, c_pending_len_len = 0, c_pending_is_asn1 = False\<rparr>"
  have t: "tip 0 (?b, [?c])" by (simp add: tip_def cbb_inv_def buf_ok_def)
  have d: "CBB_data 0 (?b, [?c]) = Some 0" by (simp add: CBB_data_def cbb_self_def)
  have e: "[4, 1, 9] = der_element 4 [9]" "[2, 1, 5] = der_element 2 [5]"
    by (simp_all add: der_element_def der_header_def tag_octets_def length_octets_def)
  have "\<forall>c \<in> set [[4, 1, 9], [2, 1, 5]]. \<exists>tag xs. c = der_element tag xs \<and> length xs < 2 ^ 32"
    unfolding e by (auto intro!: exI)
  from set_of_becomes_canonical [OF zero_malloc t d _ this] show ?thesis
    by (simp add: contents_def)
qed

end
