(* ===== verification/Unicode.thy ===== *)
theory Unicode
  imports Cbb_Tree
begin

text \<open>
  \<^verbatim>\<open>crypto/bytestring/unicode.c\<close>: reading and writing one code point in UTF-8, Latin-1, UCS-2 and
  UTF-32.
\<close>

definition is_valid_code_point :: "u32 \<Rightarrow> bool" where
  "is_valid_code_point v \<longleftrightarrow>
     \<not> (v > 0x10ffff \<or> v AND 0xfffe = 0xfffe \<or> (v \<ge> 0xfdd0 \<and> v \<le> 0xfdef) \<or> (v \<ge> 0xd800 \<and> v \<le> 0xdfff))"

definition BOTTOM_BITS :: "nat \<Rightarrow> byte" where
  "BOTTOM_BITS n = ucast (push_bit n 1 - 1 :: u32)"

definition TOP_BITS :: "nat \<Rightarrow> byte" where
  "TOP_BITS n = NOT (BOTTOM_BITS (8 - n))"

text \<open>The loop over the continuation bytes; \<open>n\<close> of them are left.\<close>

fun utf8_rest :: "nat \<Rightarrow> u32 \<Rightarrow> (CBS, u32) act" where
  "utf8_rest 0 v = ret_act v"
| "utf8_rest (Suc n) v =
     bind_act CBS_get_u8 (\<lambda>c.
       if c AND TOP_BITS 2 \<noteq> TOP_BITS 1 then fail_act
       else utf8_rest n (push_bit 6 v OR ucast (c AND BOTTOM_BITS 6)))"

definition cbs_get_utf8 :: "(CBS, u32) act" where
  "cbs_get_utf8 =
     bind_act CBS_get_u8 (\<lambda>c.
       if c \<le> 0x7f then ret_act (ucast c)
       else
         (let continue = (\<lambda>v len lower_bound. bind_act (utf8_rest len v) (\<lambda>v.
            if \<not> is_valid_code_point v \<or> v < lower_bound then fail_act else ret_act v))
          in if c AND TOP_BITS 3 = TOP_BITS 2 then continue (ucast (c AND BOTTOM_BITS 5)) 1 0x80
             else if c AND TOP_BITS 4 = TOP_BITS 3 then continue (ucast (c AND BOTTOM_BITS 4)) 2 0x800
             else if c AND TOP_BITS 5 = TOP_BITS 4 then continue (ucast (c AND BOTTOM_BITS 3)) 3 0x10000
             else fail_act))"

definition cbs_get_latin1 :: "(CBS, u32) act" where
  "cbs_get_latin1 = bind_act CBS_get_u8 (\<lambda>c. ret_act (ucast c))"

definition cbs_get_ucs2_be :: "(CBS, u32) act" where
  "cbs_get_ucs2_be =
     bind_act CBS_get_u16 (\<lambda>c. if \<not> is_valid_code_point (ucast c) then fail_act else ret_act (ucast c))"

definition cbs_get_utf32_be :: "(CBS, u32) act" where
  "cbs_get_utf32_be = bind_act CBS_get_u32 (\<lambda>c. if is_valid_code_point c then ret_act c else fail_act)"

definition cbb_get_utf8_len :: "u32 \<Rightarrow> nat" where
  "cbb_get_utf8_len u = (if u \<le> 0x7f then 1 else if u \<le> 0x7ff then 2 else if u \<le> 0xffff then 3 else 4)"

definition cbb_add_utf8 :: "libc_malloc \<Rightarrow> nat \<Rightarrow> u32 \<Rightarrow> (cbb_state, unit) act" where
  "cbb_add_utf8 m cbb u =
     (if \<not> is_valid_code_point u then fail_act
      else if u \<le> 0x7f then CBB_add_u8 m cbb (ucast u)
      else if u \<le> 0x7ff then
        then_act (CBB_add_u8 m cbb (ucast (ucast (TOP_BITS 2) OR drop_bit 6 u)))
          (CBB_add_u8 m cbb (ucast (ucast (TOP_BITS 1) OR (u AND ucast (BOTTOM_BITS 6)))))
      else if u \<le> 0xffff then
        then_act (CBB_add_u8 m cbb (ucast (ucast (TOP_BITS 3) OR drop_bit 12 u)))
          (then_act (CBB_add_u8 m cbb (ucast (ucast (TOP_BITS 1) OR (drop_bit 6 u AND ucast (BOTTOM_BITS 6)))))
            (CBB_add_u8 m cbb (ucast (ucast (TOP_BITS 1) OR (u AND ucast (BOTTOM_BITS 6))))))
      else if u \<le> 0x10ffff then
        then_act (CBB_add_u8 m cbb (ucast (ucast (TOP_BITS 4) OR drop_bit 18 u)))
          (then_act (CBB_add_u8 m cbb (ucast (ucast (TOP_BITS 1) OR (drop_bit 12 u AND ucast (BOTTOM_BITS 6)))))
            (then_act (CBB_add_u8 m cbb (ucast (ucast (TOP_BITS 1) OR (drop_bit 6 u AND ucast (BOTTOM_BITS 6)))))
              (CBB_add_u8 m cbb (ucast (ucast (TOP_BITS 1) OR (u AND ucast (BOTTOM_BITS 6)))))))
      else fail_act)"

definition cbb_add_latin1 :: "libc_malloc \<Rightarrow> nat \<Rightarrow> u32 \<Rightarrow> (cbb_state, unit) act" where
  "cbb_add_latin1 m cbb u = (if u \<le> 0xff then CBB_add_u8 m cbb (ucast u) else fail_act)"

definition cbb_add_ucs2_be :: "libc_malloc \<Rightarrow> nat \<Rightarrow> u32 \<Rightarrow> (cbb_state, unit) act" where
  "cbb_add_ucs2_be m cbb u =
     (if u \<le> 0xffff \<and> is_valid_code_point u then CBB_add_u16 m cbb (ucast u) else fail_act)"

definition cbb_add_utf32_be :: "libc_malloc \<Rightarrow> nat \<Rightarrow> u32 \<Rightarrow> (cbb_state, unit) act" where
  "cbb_add_utf32_be m cbb u = (if is_valid_code_point u then CBB_add_u32 m cbb u else fail_act)"

section \<open>Lemmas\<close>

lemma bits_eval:
  "BOTTOM_BITS 6 = mask 6" "BOTTOM_BITS 5 = mask 5" "BOTTOM_BITS 4 = mask 4" "BOTTOM_BITS 3 = mask 3"
  "TOP_BITS (Suc 0) = 0x80" "TOP_BITS 2 = 0xc0" "TOP_BITS 3 = 0xe0" "TOP_BITS 4 = 0xf0" "TOP_BITS 5 = 0xf8"
  by code_simp+

text \<open>The bytes that \<^verbatim>\<open>cbb_add_utf8\<close> writes.\<close>

definition cont_byte :: "u32 \<Rightarrow> byte" where
  "cont_byte w = ucast (ucast (TOP_BITS 1) OR (w AND ucast (BOTTOM_BITS 6)))"

definition utf8_octets :: "u32 \<Rightarrow> byte list" where
  "utf8_octets u =
     (if u \<le> 0x7f then [ucast u]
      else if u \<le> 0x7ff then [ucast (ucast (TOP_BITS 2) OR drop_bit 6 u), cont_byte u]
      else if u \<le> 0xffff then
        [ucast (ucast (TOP_BITS 3) OR drop_bit 12 u), cont_byte (drop_bit 6 u), cont_byte u]
      else [ucast (ucast (TOP_BITS 4) OR drop_bit 18 u), cont_byte (drop_bit 12 u),
        cont_byte (drop_bit 6 u), cont_byte u])"

lemma length_utf8_octets: "length (utf8_octets u) = cbb_get_utf8_len u"
  by (simp add: utf8_octets_def cbb_get_utf8_len_def)

lemma emits_utf8:
  assumes m: "malloc_ok m" and u: "is_valid_code_point u"
  shows "emits m h (cbb_add_utf8 m h u) (utf8_octets u)"
proof -
  note e = emits_u8 [OF m]
  have le: "u \<le> 0x10ffff" using u by (auto simp: is_valid_code_point_def)
  show ?thesis
    using u le e emits_then [OF e e] emits_then [OF e emits_then [OF e e]]
      emits_then [OF e emits_then [OF e emits_then [OF e e]]]
    by (simp add: cbb_add_utf8_def utf8_octets_def cont_byte_def)
qed


end
