(* ===== verification/Utf8.thy ===== *)
theory Utf8
  imports Unicode
begin

text \<open>
  The UTF-8 code of \<^verbatim>\<open>crypto/bytestring/unicode.c\<close> read as arithmetic: the classes of lead and
  continuation bytes, the digits of a code point, and that the reader \<^verbatim>\<open>cbs_get_utf8\<close> inverts the
  writer \<^verbatim>\<open>cbb_add_utf8\<close> exactly.
\<close>

lemma and_top: "unat (c AND 0xc0 :: byte) = unat c div 64 * 64" "unat (c AND 0xe0) = unat c div 32 * 32"
  "unat (c AND 0xf0) = unat c div 16 * 16" "unat (c AND 0xf8) = unat c div 8 * 8"
proof -
  have "(0xc0 :: byte) = NOT (mask 6)" "(0xe0 :: byte) = NOT (mask 5)" "(0xf0 :: byte) = NOT (mask 4)"
    "(0xf8 :: byte) = NOT (mask 3)"
    by code_simp+
  then show "unat (c AND 0xc0 :: byte) = unat c div 64 * 64" "unat (c AND 0xe0) = unat c div 32 * 32"
    "unat (c AND 0xf0) = unat c div 16 * 16" "unat (c AND 0xf8) = unat c div 8 * 8"
    by (simp_all only: unat_and_not_mask) simp_all
qed

lemma lead_class:
  "c AND TOP_BITS 2 = TOP_BITS (Suc 0) \<longleftrightarrow> unat c div 64 = 2"
  "c AND TOP_BITS 3 = TOP_BITS 2 \<longleftrightarrow> unat c div 32 = 6"
  "c AND TOP_BITS 4 = TOP_BITS 3 \<longleftrightarrow> unat c div 16 = 14"
  "c AND TOP_BITS 5 = TOP_BITS 4 \<longleftrightarrow> unat c div 8 = 30"
  by (auto simp: bits_eval word_unat_eq_iff [of "c AND _"] and_top)

lemma low_bits: "unat (ucast (c AND BOTTOM_BITS 6) :: u32) = unat c mod 64"
  "unat (ucast (c AND BOTTOM_BITS 5) :: u32) = unat c mod 32"
  "unat (ucast (c AND BOTTOM_BITS 4) :: u32) = unat c mod 16"
  "unat (ucast (c AND BOTTOM_BITS 3) :: u32) = unat c mod 8"
  by (simp_all add: bits_eval unat_ucast_le unat_and_mask)

lemma utf8_rest_Cons:
  assumes "unat v < 2 ^ 26"
  shows "utf8_rest (Suc n) v (c # s) =
    (if unat c div 64 = 2 then utf8_rest n (word_of_nat (unat v * 64 + unat c mod 64)) s else (None, s))"
proof -
  have "unat (push_bit 6 v OR ucast (c AND BOTTOM_BITS 6)) = unat v * 64 + unat c mod 64"
    using unat_push_bit_or [of "ucast (c AND BOTTOM_BITS 6) :: u32" 6 v] assms by (simp add: low_bits)
  then have "push_bit 6 v OR ucast (c AND BOTTOM_BITS 6) = (word_of_nat (unat v * 64 + unat c mod 64) :: u32)"
    by (metis of_nat_unat ucast_id)
  then show ?thesis by (simp add: lead_class bind_act_def)
qed

lemma utf8_rest_Nil: "utf8_rest (Suc n) v [] = (None, [])"
  by (simp add: bind_act_def)

declare utf8_rest.simps(2) [simp del]

lemma unat_cont: "unat (cont_byte w) = 128 + unat w mod 64"
proof -
  have m: "unat (w AND ucast (BOTTOM_BITS 6)) = unat w mod 64"
  proof -
    have "(ucast (BOTTOM_BITS 6) :: u32) = mask 6" by (simp add: bits_eval) code_simp
    then show ?thesis by (simp add: unat_and_mask)
  qed
  have "(ucast (TOP_BITS (Suc 0)) :: u32) = push_bit 6 2" by (simp add: bits_eval)
  then have "unat (ucast (TOP_BITS (Suc 0)) OR (w AND ucast (BOTTOM_BITS 6)) :: u32) = 128 + unat w mod 64"
    using unat_push_bit_or [of "w AND ucast (BOTTOM_BITS 6)" 6 2] m by simp
  moreover have "128 + unat w mod 64 < 256" by (simp add: less_trans [of _ 64])
  ultimately show ?thesis
    unfolding cont_byte_def One_nat_def by (simp add: unsigned_ucast_eq take_bit_nat_eq_self)
qed

lemma unat_lead:
  "unat u < 2 ^ 11 \<Longrightarrow> unat (ucast (ucast (TOP_BITS 2) OR drop_bit 6 u :: u32) :: byte) = 192 + unat u div 64"
  "unat u < 2 ^ 16 \<Longrightarrow> unat (ucast (ucast (TOP_BITS 3) OR drop_bit 12 u :: u32) :: byte) = 224 + unat u div 4096"
  "unat u < 2 ^ 21 \<Longrightarrow> unat (ucast (ucast (TOP_BITS 4) OR drop_bit 18 u :: u32) :: byte) = 240 + unat u div 262144"
proof -
  have l: "unat (ucast (push_bit k a OR b :: u32) :: byte) = unat a * 2 ^ k + unat b"
    if "unat b < 2 ^ k" "unat a * 2 ^ k + unat b < 256" for k and a b :: u32
    using unat_push_bit_or [OF that(1), of a] that(2) by (simp add: unsigned_ucast_eq take_bit_nat_eq_self)
  show "unat (ucast (ucast (TOP_BITS 2) OR drop_bit 6 u :: u32) :: byte) = 192 + unat u div 64" if "unat u < 2 ^ 11"
  proof -
    have t: "(ucast (TOP_BITS 2) :: u32) = push_bit 5 6" by (simp add: bits_eval)
    have "unat u div 64 < 32" using that by (simp add: less_mult_imp_div_less)
    then show ?thesis using l [of "drop_bit 6 u" 5 6] unfolding t by (simp add: unat_drop_bit)
  qed
  show "unat (ucast (ucast (TOP_BITS 3) OR drop_bit 12 u :: u32) :: byte) = 224 + unat u div 4096" if "unat u < 2 ^ 16"
  proof -
    have t: "(ucast (TOP_BITS 3) :: u32) = push_bit 4 14" by (simp add: bits_eval)
    have "unat u div 4096 < 16" using that by (simp add: less_mult_imp_div_less)
    then show ?thesis using l [of "drop_bit 12 u" 4 14] unfolding t by (simp add: unat_drop_bit)
  qed
  show "unat (ucast (ucast (TOP_BITS 4) OR drop_bit 18 u :: u32) :: byte) = 240 + unat u div 262144" if "unat u < 2 ^ 21"
  proof -
    have t: "(ucast (TOP_BITS 4) :: u32) = push_bit 3 30" by (simp add: bits_eval)
    have "unat u div 262144 < 8" using that by (simp add: less_mult_imp_div_less)
    then show ?thesis using l [of "drop_bit 18 u" 3 30] unfolding t by (simp add: unat_drop_bit)
  qed
qed


text \<open>The three classes of lead bytes.\<close>

lemma get_utf8_cases:
  "cbs_get_utf8 (c # s) =
    (if unat c \<le> 127 then (Some (ucast c), s)
     else
       (let continue = (\<lambda>v n lower_bound. bind_act (utf8_rest n v) (\<lambda>v.
          if \<not> is_valid_code_point v \<or> v < lower_bound then fail_act else ret_act v) s)
        in if unat c div 32 = 6 then continue (word_of_nat (unat c mod 32)) 1 0x80
           else if unat c div 16 = 14 then continue (word_of_nat (unat c mod 16)) 2 0x800
           else if unat c div 8 = 30 then continue (word_of_nat (unat c mod 8)) 3 0x10000
           else (None, s)))"
proof -
  have w: "ucast (c AND BOTTOM_BITS 5) = (word_of_nat (unat c mod 32) :: u32)"
    "ucast (c AND BOTTOM_BITS 4) = (word_of_nat (unat c mod 16) :: u32)"
    "ucast (c AND BOTTOM_BITS 3) = (word_of_nat (unat c mod 8) :: u32)"
    using low_bits [of c] by (metis of_nat_unat ucast_id)+
  have le: "c \<le> 127 \<longleftrightarrow> unat c \<le> 127" by (simp add: word_le_nat_alt)
  show ?thesis
    by (simp add: cbs_get_utf8_def bind_act_def [of CBS_get_u8] le w lead_class Let_def)
qed

definition cont_nat :: "nat \<Rightarrow> byte list \<Rightarrow> nat" where
  "cont_nat v cs = foldl (\<lambda>a c. a * 64 + unat c mod 64) v cs"

lemma utf8_rest_iff:
  "unat v < 2 ^ (32 - 6 * n) \<Longrightarrow> n \<le> 3 \<Longrightarrow>
    utf8_rest n v s = (Some r, rest) \<longleftrightarrow>
    (\<exists>cs. length cs = n \<and> (\<forall>c \<in> set cs. unat c div 64 = 2) \<and> s = cs @ rest \<and> unat r = cont_nat (unat v) cs)"
proof (induction n arbitrary: v s)
  case 0
  then show ?case by (auto simp: cont_nat_def word_unat_eq_iff)
next
  case (Suc n)
  have p: "(2 :: nat) ^ (32 - 6 * Suc n) * 64 = 2 ^ (32 - 6 * n)"
  proof -
    have "n = 0 \<or> n = 1 \<or> n = 2" using Suc.prems(2) by linarith
    then show ?thesis by (elim disjE) simp_all
  qed
  have "(2 :: nat) ^ (32 - 6 * Suc n) \<le> 2 ^ 26" by (rule power_increasing) simp_all
  with Suc.prems(1) have v: "unat v < 2 ^ 26" by (rule less_le_trans)
  show ?case
  proof (cases s)
    case Nil
    then show ?thesis by (simp add: utf8_rest_Nil)
  next
    case (Cons c s')
    let ?w = "word_of_nat (unat v * 64 + unat c mod 64) :: u32"
    have m: "unat c mod 64 < 64" by simp
    have lt: "unat v * 64 + unat c mod 64 < 2 ^ (32 - 6 * n)"
      using Suc.prems(1) m p by linarith
    also have "\<dots> \<le> 2 ^ 32" by (intro power_increasing) simp_all
    finally have w: "unat ?w = unat v * 64 + unat c mod 64" by (subst unat_of_nat) simp
    have IH: "utf8_rest n ?w s' = (Some r, rest) \<longleftrightarrow>
      (\<exists>cs. length cs = n \<and> (\<forall>c \<in> set cs. unat c div 64 = 2) \<and> s' = cs @ rest \<and> unat r = cont_nat (unat ?w) cs)"
      using Suc.IH [of ?w s'] lt Suc.prems(2) w by simp
    show ?thesis
      unfolding Cons utf8_rest_Cons [OF v]
    proof (cases "unat c div 64 = 2")
      case True
      show "((if unat c div 64 = 2 then utf8_rest n ?w s' else (None, s')) = (Some r, rest)) \<longleftrightarrow>
        (\<exists>cs. length cs = Suc n \<and> (\<forall>c \<in> set cs. unat c div 64 = 2) \<and> c # s' = cs @ rest \<and> unat r = cont_nat (unat v) cs)"
        using True IH w by (auto simp: length_Suc_conv cont_nat_def simp del: of_nat_add of_nat_mult)
    next
      case False
      then show "((if unat c div 64 = 2 then utf8_rest n ?w s' else (None, s')) = (Some r, rest)) \<longleftrightarrow>
        (\<exists>cs. length cs = Suc n \<and> (\<forall>c \<in> set cs. unat c div 64 = 2) \<and> c # s' = cs @ rest \<and> unat r = cont_nat (unat v) cs)"
        by (auto simp: length_Suc_conv)
    qed
  qed
qed

lemma multi_byte_iff:
  assumes "unat v < 2 ^ (32 - 6 * n)" "n \<le> 3"
  shows "bind_act (utf8_rest n v) (\<lambda>v. if \<not> is_valid_code_point v \<or> v < lo then fail_act else ret_act v) s = (Some u, rest) \<longleftrightarrow>
    is_valid_code_point u \<and> lo \<le> u \<and> (\<exists>cs. length cs = n \<and> (\<forall>c \<in> set cs. unat c div 64 = 2) \<and> s = cs @ rest \<and> unat u = cont_nat (unat v) cs)"
  unfolding bind_act_eq_Some utf8_rest_iff [OF assms] by (auto simp: not_less)

lemma valid_bounds: "is_valid_code_point u \<Longrightarrow> unat u < 2 ^ 21"
  by (simp add: is_valid_code_point_def word_less_nat_alt)

lemma map_unat_utf8_octets:
  assumes "is_valid_code_point u"
  shows "map unat (utf8_octets u) =
    (if unat u < 128 then [unat u]
     else if unat u < 2048 then [192 + unat u div 64, 128 + unat u mod 64]
     else if unat u < 65536 then [224 + unat u div 4096, 128 + unat u div 64 mod 64, 128 + unat u mod 64]
     else [240 + unat u div 262144, 128 + unat u div 4096 mod 64, 128 + unat u div 64 mod 64,
       128 + unat u mod 64])"
proof -
  have le: "u \<le> 127 \<longleftrightarrow> unat u < 128" "u \<le> 0x7ff \<longleftrightarrow> unat u < 2048" "u \<le> 0xffff \<longleftrightarrow> unat u < 65536"
    by (auto simp: word_le_nat_alt)
  have one: "unat (ucast u :: byte) = unat u" if "unat u < 128"
    using that by (simp add: unsigned_ucast_eq take_bit_nat_eq_self)
  show ?thesis
    using valid_bounds [OF assms] unat_lead [of u]
    by (auto simp: utf8_octets_def le one unat_cont unat_drop_bit)
qed

lemma map_unat_eq: "map unat xs = map unat ys \<longleftrightarrow> xs = (ys :: byte list)"
  by (rule inj_map_eq_map) (simp add: inj_def word_unat_eq_iff)

text \<open>The digits of a code point, most significant first.\<close>

lemma digits64:
  fixes d :: nat
  shows "d div 64 = 2 \<Longrightarrow> d = 128 + d mod 64" "d div 32 = 6 \<Longrightarrow> d = 192 + d mod 32"
    "d div 16 = 14 \<Longrightarrow> d = 224 + d mod 16" "d div 8 = 30 \<Longrightarrow> d = 240 + d mod 8"
  using div_mult_mod_eq [of d 64] div_mult_mod_eq [of d 32] div_mult_mod_eq [of d 16] div_mult_mod_eq [of d 8]
  by simp_all

lemma undigits:
  fixes a b c d :: nat
  assumes "b < 64"
  shows "(a * 64 + b) div 64 = a" "(a * 64 + b) mod 64 = b"
    "c < 64 \<Longrightarrow> ((a * 64 + b) * 64 + c) div 4096 = a"
    "c < 64 \<Longrightarrow> d < 64 \<Longrightarrow> (((a * 64 + b) * 64 + c) * 64 + d) div 262144 = a"
    "c < 64 \<Longrightarrow> d < 64 \<Longrightarrow> (((a * 64 + b) * 64 + c) * 64 + d) div 4096 mod 64 = b"
proof -
  have s: "(x * 64 + y) div 64 = x" "(x * 64 + y) mod 64 = y" if "y < 64" for x y :: nat
    using that by simp_all
  have d: "x div 4096 = x div 64 div 64" "x div 262144 = x div 64 div 64 div 64" for x :: nat
    by (simp_all add: div_mult2_eq [symmetric])
  show "(a * 64 + b) div 64 = a" "(a * 64 + b) mod 64 = b" by (rule s [OF assms])+
  show "((a * 64 + b) * 64 + c) div 4096 = a" if "c < 64"
    by (simp only: d s [OF that] s [OF assms])
  show "(((a * 64 + b) * 64 + c) * 64 + d) div 262144 = a" if "c < 64" "d < 64"
    by (simp only: d s [OF that(1)] s [OF that(2)] s [OF assms])
  show "(((a * 64 + b) * 64 + c) * 64 + d) div 4096 mod 64 = b" if "c < 64" "d < 64"
    by (simp only: d s [OF that(1)] s [OF that(2)] s [OF assms])
qed

lemma cbs_get_utf8_sound:
  assumes "cbs_get_utf8 s = (Some u, rest)"
  shows "is_valid_code_point u \<and> s = utf8_octets u @ rest"
proof -
  from assms obtain c s' where s: "s = c # s'" by (cases s) (auto simp: cbs_get_utf8_def bind_act_def)
  note g = assms [unfolded s get_utf8_cases Let_def]
  have fin: ?thesis if v: "is_valid_code_point u" and s': "s' = cs @ rest"
    and e: "map unat (c # cs) = map unat (utf8_octets u)" for cs
    using v e s' unfolding s map_unat_eq by (metis append_Cons)
  have m: "unat (word_of_nat (unat c mod k) :: u32) = unat c mod k" if "k < 256" for k
  proof -
    have "unat c mod k < 4294967296"
      using unat_byte_less [of c] mod_less_eq_dividend [of "unat c" k] by linarith
    then show ?thesis by (simp add: unat_of_nat)
  qed
  have tail: "is_valid_code_point u \<and> unat lo \<le> unat u \<and>
      (\<exists>cs. length cs = n \<and> (\<forall>c \<in> set cs. unat c div 64 = 2) \<and> s' = cs @ rest \<and>
        unat u = cont_nat (unat c mod k) cs)"
    if b: "bind_act (utf8_rest n (word_of_nat (unat c mod k)))
      (\<lambda>v. if \<not> is_valid_code_point v \<or> v < lo then fail_act else ret_act v) s' = (Some u, rest)"
      and k: "0 < k" "k \<le> 32" and n: "n \<le> 3" for n k lo
  proof -
    have "unat c mod k < 32" using mod_less_divisor [OF k(1), of "unat c"] k(2) by linarith
    also have "(32 :: nat) = 2 ^ 5" by simp
    also have "\<dots> \<le> (2 :: nat) ^ (32 - 6 * n)" using n by (intro power_increasing) simp_all
    finally have "unat (word_of_nat (unat c mod k) :: u32) < 2 ^ (32 - 6 * n)" using m [of k] k by simp
    from b [unfolded multi_byte_iff [OF this n]] show ?thesis using m [of k] k by (simp add: word_le_nat_alt)
  qed
  consider "unat c \<le> 127" | "\<not> unat c \<le> 127" "unat c div 32 = 6"
    | "\<not> unat c \<le> 127" "unat c div 32 \<noteq> 6" "unat c div 16 = 14"
    | "\<not> unat c \<le> 127" "unat c div 32 \<noteq> 6" "unat c div 16 \<noteq> 14" "unat c div 8 = 30"
    using g by (auto split: if_splits)
  then show ?thesis
  proof cases
    case 1
    then have u: "u = ucast c" "rest = s'" using g by auto
    then have uu: "unat u = unat c" by (simp add: unat_ucast_le)
    have "u \<le> 127" using 1 uu by (simp add: word_le_nat_alt)
    then have v: "is_valid_code_point u"
    proof -
      have "unat u \<le> 127" using 1 uu by simp
      moreover have "unat (u AND 0xfffe) \<le> unat u" by (simp add: word_and_le2 flip: word_le_nat_alt)
      ultimately have "u AND 0xfffe \<noteq> 0xfffe" by auto
      then show ?thesis using \<open>unat u \<le> 127\<close> by (auto simp: is_valid_code_point_def word_le_nat_alt word_less_nat_alt)
    qed
    show ?thesis by (rule fin [OF v, of "[]"]) (use 1 uu u(2) in \<open>simp_all add: map_unat_utf8_octets [OF v]\<close>)
  next
    case 2
    then obtain d where v: "is_valid_code_point u" and lo: "0x80 \<le> u" and d: "unat d div 64 = 2"
      and s': "s' = [d] @ rest" and u: "unat u = unat c mod 32 * 64 + unat d mod 64"
      using tail [of 1 32 "0x80"] g by (auto simp: cont_nat_def length_Suc_conv word_le_nat_alt)
    have b: "unat c mod 32 < 32" "unat d mod 64 < 64" by simp_all
    note e = digits64(2) [OF 2(2)] digits64(1) [OF d]
    have "unat u < 2048" using u b by linarith
    moreover have "128 \<le> unat u" using lo by (simp add: word_le_nat_alt)
    ultimately show ?thesis
      by (intro fin [OF v s']) (simp add: map_unat_utf8_octets [OF v] u undigits e [symmetric] del: distrib_right_numeral)
  next
    case 3
    then obtain d e where v: "is_valid_code_point u" and lo: "0x800 \<le> u" and d: "unat d div 64 = 2" "unat e div 64 = 2"
      and s': "s' = [d, e] @ rest" and u: "unat u = (unat c mod 16 * 64 + unat d mod 64) * 64 + unat e mod 64"
      using tail [of 2 16 "0x800"] g by (auto simp: cont_nat_def length_Suc_conv numeral_2_eq_2 word_le_nat_alt)
    have b: "unat c mod 16 < 16" "unat d mod 64 < 64" "unat e mod 64 < 64" by simp_all
    note e = digits64(3) [OF 3(3)] d [THEN digits64(1)]
    have "(x * 64 + y) * 64 + z < 65536" if "x < 16" "y < 64" "z < 64" for x y z :: nat
      using that by (simp add: add_mult_distrib)
    from this [OF b] have "unat u < 65536" unfolding u .
    moreover have "2048 \<le> unat u" using lo by (simp add: word_le_nat_alt)
    ultimately show ?thesis
      by (intro fin [OF v s']) (simp add: map_unat_utf8_octets [OF v] u undigits e [symmetric] del: distrib_right_numeral)
  next
    case 4
    have "is_valid_code_point u \<and> unat (0x10000 :: u32) \<le> unat u \<and>
      (\<exists>cs. length cs = 3 \<and> (\<forall>c \<in> set cs. unat c div 64 = 2) \<and> s' = cs @ rest \<and>
        unat u = cont_nat (unat c mod 8) cs)"
      by (rule tail) (use g 4 in simp_all)
    then obtain d e f where v: "is_valid_code_point u" and lo: "0x10000 \<le> u"
      and d: "unat d div 64 = 2" "unat e div 64 = 2" "unat f div 64 = 2"
      and s': "s' = [d, e, f] @ rest"
      and u: "unat u = ((unat c mod 8 * 64 + unat d mod 64) * 64 + unat e mod 64) * 64 + unat f mod 64"
      by (auto simp: cont_nat_def length_Suc_conv numeral_3_eq_3 word_le_nat_alt)
    have b: "unat d mod 64 < 64" "unat e mod 64 < 64" "unat f mod 64 < 64" by simp_all
    note e = digits64(4) [OF 4(4)] d [THEN digits64(1)]
    have "65536 \<le> unat u" using lo by (simp add: word_le_nat_alt)
    then show ?thesis
      by (intro fin [OF v s']) (simp add: map_unat_utf8_octets [OF v] u undigits e [symmetric] del: distrib_right_numeral)
  qed
qed

lemma lead:
  fixes c x :: nat
  shows "c = 192 + x \<Longrightarrow> x < 32 \<Longrightarrow> c div 32 = 6 \<and> c mod 32 = x \<and> \<not> c \<le> 127"
    "c = 224 + x \<Longrightarrow> x < 16 \<Longrightarrow> c div 32 \<noteq> 6 \<and> c div 16 = 14 \<and> c mod 16 = x \<and> \<not> c \<le> 127"
    "c = 240 + x \<Longrightarrow> x < 8 \<Longrightarrow>
      c div 32 \<noteq> 6 \<and> c div 16 \<noteq> 14 \<and> c div 8 = 30 \<and> c mod 8 = x \<and> \<not> c \<le> 127"
proof -
  have dm: "c div k = q \<and> c mod k = x" if "c = q * k + x" "x < k" for k q
    using that by simp
  have dv: "c div k = q" if "q * k \<le> c" "c < Suc q * k" for k q
    using that by (intro div_nat_eqI) (simp_all add: mult.commute)
  show "c div 32 = 6 \<and> c mod 32 = x \<and> \<not> c \<le> 127" if "c = 192 + x" "x < 32"
    using dm [of 6 32] that by simp
  show "c div 32 \<noteq> 6 \<and> c div 16 = 14 \<and> c mod 16 = x \<and> \<not> c \<le> 127" if "c = 224 + x" "x < 16"
    using dm [of 14 16] dv [of 7 32] that by simp
  show "c div 32 \<noteq> 6 \<and> c div 16 \<noteq> 14 \<and> c div 8 = 30 \<and> c mod 8 = x \<and> \<not> c \<le> 127"
    if "c = 240 + x" "x < 8"
    using dm [of 30 8] dv [of 7 32] dv [of 15 16] that by simp
qed

lemma utf8_rest_digits:
  assumes "unat v < 2 ^ (32 - 6 * n)" "n \<le> 3" "is_valid_code_point u" "lo \<le> u"
    "length cs = n" "map unat cs = map (\<lambda>d. 128 + d mod 64) ds" "unat u = foldl (\<lambda>a d. a * 64 + d mod 64) (unat v) ds"
  shows "bind_act (utf8_rest n v) (\<lambda>v. if \<not> is_valid_code_point v \<or> v < lo then fail_act else ret_act v) (cs @ rest)
    = (Some u, rest)"
proof -
  have d: "(128 + x mod 64) div 64 = 2" "(128 + x mod 64) mod 64 = x mod 64" for x :: nat
    by (auto intro!: div_nat_eqI simp: mod_add_left_eq [of 128, symmetric])
  have "unat c div 64 = 2" if "c \<in> set cs" for c
  proof -
    have "unat c \<in> set (map unat cs)" using that by simp
    then show ?thesis unfolding assms(6) by (auto simp: d)
  qed
  moreover have "cont_nat (unat v) cs = foldl (\<lambda>a d. a * 64 + d mod 64) (unat v) ds"
  proof -
    have "cont_nat (unat v) cs = foldl (\<lambda>a d. a * 64 + d mod 64) (unat v) (map unat cs)"
      by (simp add: cont_nat_def foldl_map)
    also have "\<dots> = foldl (\<lambda>a d. a * 64 + (128 + d mod 64) mod 64) (unat v) ds"
      unfolding assms(6) by (simp add: foldl_map)
    finally show ?thesis by (simp only: d)
  qed
  ultimately show ?thesis
    unfolding multi_byte_iff [OF assms(1,2)] using assms(3,4,5,7) by auto
qed

lemma cbs_get_utf8_complete:
  assumes v: "is_valid_code_point u"
  shows "cbs_get_utf8 (utf8_octets u @ rest) = (Some u, rest)"
proof -
  have sp: "x = x div 64 * 64 + x mod 64" "x div 262144 = x div 4096 div 64" "x div 4096 = x div 64 div 64" for x :: nat
    by (simp_all add: div_mult2_eq [symmetric])
  have digits: "x div 64 * 64 + x mod 64 = x" "(x div 4096 * 64 + x div 64 mod 64) * 64 + x mod 64 = x"
    "((x div 262144 * 64 + x div 4096 mod 64) * 64 + x div 64 mod 64) * 64 + x mod 64 = x" for x :: nat
    by (simp_all add: sp(2,3))
  note e = map_unat_utf8_octets [OF v]
  consider "unat u < 128" | "128 \<le> unat u" "unat u < 2048" | "2048 \<le> unat u" "unat u < 65536" | "65536 \<le> unat u"
    by linarith
  then show ?thesis
  proof cases
    case 1
    then have "map unat (utf8_octets u) = map unat [ucast u :: byte]"
      using e by (simp add: unsigned_ucast_eq take_bit_nat_eq_self)
    then have o: "utf8_octets u = [ucast u]" unfolding map_unat_eq .
    have "unat (ucast u :: byte) = unat u" using 1 by (simp add: unsigned_ucast_eq take_bit_nat_eq_self)
    moreover from this have "(ucast (ucast u :: byte) :: u32) = u" by (simp add: word_unat_eq_iff unat_ucast_le)
    ultimately show ?thesis using 1 by (simp add: o get_utf8_cases)
  next
    case 2
    then obtain c d where o: "utf8_octets u = [c, d]" and c: "unat c = 192 + unat u div 64" and d: "unat d = 128 + unat u mod 64"
      using e by (auto simp: map_eq_Cons_conv)
    have l: "unat u div 64 < 32" using 2 by (simp add: less_mult_imp_div_less)
    have q: "unat c div 32 = 6" "unat c mod 32 = unat u div 64" "\<not> unat c \<le> 127"
      using lead(1) [OF c l] by simp_all
    have w: "unat (word_of_nat (unat u div 64) :: u32) = unat u div 64"
      using l by (simp add: unat_of_nat)
    show ?thesis
      using q utf8_rest_digits [of "word_of_nat (unat u div 64)" 1 u "0x80" "[d]" "[unat u]" rest] l w d v 2
      by (simp add: o get_utf8_cases Let_def word_le_nat_alt digits del: distrib_right_numeral)
  next
    case 3
    then obtain c d f where o: "utf8_octets u = [c, d, f]" and c: "unat c = 224 + unat u div 4096"
      and d: "unat d = 128 + unat u div 64 mod 64" "unat f = 128 + unat u mod 64"
      using e by (auto simp: map_eq_Cons_conv)
    have l: "unat u div 4096 < 16" using 3 by (simp add: less_mult_imp_div_less)
    have q: "unat c div 32 \<noteq> 6" "unat c div 16 = 14" "unat c mod 16 = unat u div 4096" "\<not> unat c \<le> 127"
      using lead(2) [OF c l] by simp_all
    have w: "unat (word_of_nat (unat u div 4096) :: u32) = unat u div 4096"
      using l by (simp add: unat_of_nat)
    show ?thesis
      using q utf8_rest_digits [of "word_of_nat (unat u div 4096)" 2 u "0x800" "[d, f]" "[unat u div 64, unat u]" rest]
        l w d v 3
      by (simp add: o get_utf8_cases Let_def word_le_nat_alt digits del: distrib_right_numeral)
  next
    case 4
    then obtain c d f g where o: "utf8_octets u = [c, d, f, g]" and c: "unat c = 240 + unat u div 262144"
      and d: "unat d = 128 + unat u div 4096 mod 64" "unat f = 128 + unat u div 64 mod 64" "unat g = 128 + unat u mod 64"
      using e by (auto simp: map_eq_Cons_conv)
    have l: "unat u div 262144 < 8" using valid_bounds [OF v] by (simp add: less_mult_imp_div_less)
    have q: "unat c div 32 \<noteq> 6" "unat c div 16 \<noteq> 14" "unat c div 8 = 30" "unat c mod 8 = unat u div 262144"
      "\<not> unat c \<le> 127"
      using lead(3) [OF c l] by simp_all
    have w: "unat (word_of_nat (unat u div 262144) :: u32) = unat u div 262144"
      using l by (simp add: unat_of_nat)
    show ?thesis
      using q utf8_rest_digits [of "word_of_nat (unat u div 262144)" 3 u "0x10000" "[d, f, g]"
          "[unat u div 4096, unat u div 64, unat u]" rest] l w d v 4
      by (simp add: o get_utf8_cases Let_def word_le_nat_alt digits del: distrib_right_numeral)
  qed
qed

interpretation utf8_codec: exact_codec cbs_get_utf8 utf8_octets is_valid_code_point
  by unfold_locales (auto dest: cbs_get_utf8_sound cbs_get_utf8_complete)

text \<open>C25: The UTF-8 reader accepts exactly the shortest-form encoding of a valid code point:
  it returns \<open>u\<close> and leaves \<open>rest\<close> if and only if \<open>u\<close> is a valid code point and the input is the
  bytes that \<^verbatim>\<open>cbb_add_utf8\<close> writes for \<open>u\<close>, followed by \<open>rest\<close>. In particular no overlong
  form, no surrogate and no truncated sequence is accepted.\<close>

theorem utf8_reader_exact:
  "cbs_get_utf8 s = (Some u, rest) \<longleftrightarrow> is_valid_code_point u \<and> s = utf8_octets u @ rest"
  by (rule utf8_codec.dec_iff)

text \<open>A UTF-8 string has one reading: \<open>n\<close> calls of the reader succeed on an input if and only if it
  starts with the encodings of \<open>n\<close> valid code points, and those are the results.\<close>

theorem utf8_strings_exact:
  "times_act n cbs_get_utf8 s = (Some us, rest) \<longleftrightarrow>
    length us = n \<and> (\<forall>u \<in> set us. is_valid_code_point u) \<and> s = concat (map utf8_octets us) @ rest"
  by (rule utf8_codec.dec_many_iff)

lemma utf8_strings_exact_witness:
  "times_act 2 cbs_get_utf8 ([0x41, 0xc3, 0xa9] @ [0xff]) = (Some [0x41, 0xe9], [0xff])"
proof -
  have "utf8_octets 0x41 = [0x41]" "utf8_octets 0xe9 = [0xc3, 0xa9]"
    "is_valid_code_point 0x41" "is_valid_code_point 0xe9"
    by code_simp+
  then show ?thesis
    using utf8_strings_exact [of 2 "[0x41, 0xc3, 0xa9] @ [0xff]" "[0x41, 0xe9]" "[0xff]"] by simp
qed

end
