(* ===== verification/Ber.thy ===== *)
theory Ber
  imports Cbb_Program
begin

text \<open>
  \<^verbatim>\<open>crypto/bytestring/ber.c\<close>: the conversion of BER to DER. \<^verbatim>\<open>cbs_find_ber\<close> looks for elements that
  only BER allows, \<^verbatim>\<open>cbs_convert_ber\<close> rewrites them through a builder, and \<^verbatim>\<open>CBS_asn1_ber_to_der\<close> and
  \<^verbatim>\<open>CBS_get_asn1_implicit_string\<close> are the interface.
\<close>

definition kMaxDepth :: nat where
  "kMaxDepth = 2048"

definition is_string_type :: "u32 \<Rightarrow> bool" where
  "is_string_type tag \<longleftrightarrow>
     tag AND NOT CBS_ASN1_CONSTRUCTED \<in>
       {CBS_ASN1_BITSTRING, CBS_ASN1_OCTETSTRING, 0xc, 0x12, 0x13, 0x14, 0x15, 0x16, 0x19, 0x1a, 0x1b, 0x1c, 0x1e}"

text \<open>The test for an indefinite-length element: the element is its header, which ends in 0x80.\<close>

definition is_indefinite :: "CBS \<Rightarrow> nat \<Rightarrow> bool" where
  "is_indefinite element header_len \<longleftrightarrow>
     CBS_len element = header_len \<and> header_len > 0 \<and> CBS_data element ! (header_len - 1) = 0x80"

definition is_eoc :: "nat \<Rightarrow> CBS \<Rightarrow> bool" where
  "is_eoc header_len element \<longleftrightarrow>
     header_len = 2 \<and> CBS_len element = 2 \<and> CRYPTO_memcmp (CBS_data element) [0, 0] 2 = 0"

text \<open>What the element reader leaves is shorter, and so is an element without its header.\<close>

lemma ber_element_shorter:
  assumes "CBS_get_any_ber_asn1_element s = (Some (out, tag, h), rest)"
  shows "s = out @ rest \<and> 2 \<le> h \<and> h \<le> length out"
proof -
  obtain t s1 where p: "parse_asn1_tag s = (Some t, s1)" and "s1 \<noteq> []"
    using assms
    by (cases "snd (parse_asn1_tag s)")
      (auto simp: CBS_get_any_ber_asn1_element_def cbs_get_any_asn1_element_def bind_act_def split: prod.splits option.splits)
  then obtain lb tl where s1: "s1 = lb # tl" by (cases s1) auto
  have s: "s = tag_octets t @ lb # tl" using parse_asn1_tag_sound [OF p] s1 by simp
  have "1 \<le> length (tag_octets t)" by (cases "tag_octets t") auto
  then show ?thesis
    using assms unfolding CBS_get_any_ber_asn1_element_def s any_asn1_element_unfold
    by (auto simp: Let_def split: if_splits)
qed

lemma ber_element_lengths:
  assumes "(Some (out, tag, h), rest) = CBS_get_any_ber_asn1_element s"
  shows "length rest < length s" "length out - h < length s" "length out \<le> length s"
  using ber_element_shorter [OF assms [symmetric]] by auto

text \<open>\<^verbatim>\<open>*ber_found\<close> is the result; the loop carries its current value.\<close>

function cbs_find_ber :: "CBS \<Rightarrow> nat \<Rightarrow> bool option"
  and find_ber_loop :: "bool \<Rightarrow> CBS \<Rightarrow> nat \<Rightarrow> bool option"
where
  "cbs_find_ber orig_in depth =
     (if depth > kMaxDepth then None else find_ber_loop False orig_in depth)"
| "find_ber_loop ber_found inp depth =
     (if CBS_len inp > 0 then
        (case CBS_get_any_ber_asn1_element inp of
           (None, _) \<Rightarrow> None
         | (Some (element, tag, header_len), inp') \<Rightarrow>
             if is_indefinite element header_len then Some True
             else if tag AND CBS_ASN1_CONSTRUCTED \<noteq> 0 then
               (if is_string_type tag then Some True
                else case CBS_skip header_len element of
                    (None, _) \<Rightarrow> None
                  | (Some _, element') \<Rightarrow>
                      (case cbs_find_ber element' (depth + 1) of
                         None \<Rightarrow> None
                       | Some ber_found \<Rightarrow> find_ber_loop ber_found inp' depth))
             else find_ber_loop ber_found inp' depth)
      else Some ber_found)"
  by pat_completeness auto
termination
  by (relation "measure (\<lambda>x. case x of Inl (inp, _) \<Rightarrow> 2 * length inp + 1 | Inr (_, inp, _) \<Rightarrow> 2 * length inp)")
    (auto simp: CBS_skip_eq split: if_splits dest: ber_element_lengths)

declare cbs_find_ber.simps [simp del] find_ber_loop.simps [simp del]

text \<open>
  Where the element of an element go: into the object itself when the element is a fragment of a
  string, otherwise into a new child. The local object \<^verbatim>\<open>out_contents_storage\<close> of the activation at depth
  \<open>d\<close> has the handle \<open>d + 1\<close>. The result is the handle and the string tag for the children.
\<close>

definition ber_open :: "libc_malloc \<Rightarrow> nat \<Rightarrow> u32 \<Rightarrow> nat \<Rightarrow> u32 \<Rightarrow> (cbb_state, nat \<times> u32) act" where
  "ber_open m out string_tag depth tag =
     (if string_tag \<noteq> 0 then
        (if tag AND NOT CBS_ASN1_CONSTRUCTED \<noteq> string_tag then fail_act
         else ret_act (out, string_tag))
      else
        (let out_tag = (if tag AND CBS_ASN1_CONSTRUCTED \<noteq> 0 \<and> is_string_type tag
               then tag AND NOT CBS_ASN1_CONSTRUCTED else tag);
             child_string_tag = (if tag AND CBS_ASN1_CONSTRUCTED \<noteq> 0 \<and> is_string_type tag
               then out_tag else string_tag)
         in then_act (CBB_add_asn1 m out (depth + 1) out_tag) (ret_act (depth + 1, child_string_tag))))"

text \<open>
  One activation of \<^verbatim>\<open>cbs_convert_ber\<close> with the rest of its loop. The state is the input and the
  builder. Every round and every recursive call reads at least two bytes of its input first, so fuel
  beyond the length of the input is never used up.
\<close>

fun cbs_convert_ber :: "nat \<Rightarrow> libc_malloc \<Rightarrow> nat \<Rightarrow> u32 \<Rightarrow> bool \<Rightarrow> nat \<Rightarrow> (CBS \<times> cbb_state, unit) act" where
  "cbs_convert_ber 0 m out string_tag looking_for_eoc depth s = (None, s)"
| "cbs_convert_ber (Suc fuel) m out string_tag looking_for_eoc depth (inp, st) =
     (if depth > kMaxDepth then (None, inp, st)
      else if CBS_len inp = 0 then (if \<not> looking_for_eoc then Some () else None, inp, st)
      else case CBS_get_any_ber_asn1_element inp of
        (None, inp) \<Rightarrow> (None, inp, st)
      | (Some (element, tag, header_len), inp) \<Rightarrow>
          if is_eoc header_len element then (if looking_for_eoc then Some () else None, inp, st)
          else case ber_open m out string_tag depth tag st of
            (None, st) \<Rightarrow> (None, inp, st)
          | (Some (out_contents, child_string_tag), st) \<Rightarrow>
              (case
                 (if is_indefinite element header_len then
                    cbs_convert_ber fuel m out_contents child_string_tag True (depth + 1) (inp, st)
                  else
                    (case CBS_skip header_len element of
                       (None, _) \<Rightarrow> (None, inp, st)
                     | (Some _, element) \<Rightarrow>
                         if tag AND CBS_ASN1_CONSTRUCTED \<noteq> 0 then
                           (case cbs_convert_ber fuel m out_contents child_string_tag False (depth + 1) (element, st) of
                              (r, _, st) \<Rightarrow> (r, inp, st))
                         else
                           (case CBB_add_bytes m out_contents element st of (r, st) \<Rightarrow> (r, inp, st))))
               of
                 (None, inp, st) \<Rightarrow> (None, inp, st)
               | (Some _, inp, st) \<Rightarrow>
                   (case CBB_flush m out st of
                      (None, st) \<Rightarrow> (None, inp, st)
                    | (Some _, st) \<Rightarrow>
                        cbs_convert_ber fuel m out string_tag looking_for_eoc depth (inp, st))))"

declare cbs_convert_ber.simps(2) [simp del]

text \<open>The result is the element and the block that holds it, \<open>None\<close> when it still lies in the input.\<close>

definition CBS_asn1_ber_to_der :: "libc_malloc \<Rightarrow> (CBS, CBS \<times> byte list option) act" where
  "CBS_asn1_ber_to_der m inp =
     (case cbs_find_ber inp 0 of
        None \<Rightarrow> (None, inp)
      | Some conversion_needed \<Rightarrow>
          if \<not> conversion_needed then
            bind_act CBS_get_any_asn1_element (\<lambda>(out, _, _). ret_act (out, None)) inp
          else
            (case CBB_init m 0 (CBS_len inp) of
               None \<Rightarrow> (None, inp)
             | Some cbb \<Rightarrow>
                 (case cbs_convert_ber (Suc (CBS_len inp)) m 0 0 False 0 (inp, cbb) of
                    (None, inp, _) \<Rightarrow> (None, inp)
                  | (Some _, inp, cbb) \<Rightarrow>
                      (case CBB_finish m 0 True True cbb of
                         (None, _) \<Rightarrow> (None, inp)
                       | (Some (out_storage, len), _) \<Rightarrow>
                           (Some (CBS_init out_storage len, Some out_storage), inp)))))"

text \<open>The loop over the chunks of a constructed string.\<close>

function implicit_chunks :: "libc_malloc \<Rightarrow> u32 \<Rightarrow> CBS \<Rightarrow> (cbb_state, unit) act" where
  "implicit_chunks m inner_tag child =
     (if CBS_len child > 0 then
        (case CBS_get_asn1 inner_tag child of
           (None, _) \<Rightarrow> fail_act
         | (Some chunk, child') \<Rightarrow> then_act (CBB_add_bytes m 0 chunk) (implicit_chunks m inner_tag child'))
      else ret_act ())"
  by auto
termination
  by (relation "measure (\<lambda>(m, t, child). length child)")
    (auto simp: der_element_def der_header_def dest!: der_codec.dec_sound [OF sym])

declare implicit_chunks.simps [simp del]

definition CBS_get_asn1_implicit_string ::
    "libc_malloc \<Rightarrow> u32 \<Rightarrow> u32 \<Rightarrow> (CBS, CBS \<times> byte list option) act" where
  "CBS_get_asn1_implicit_string m outer_tag inner_tag inp =
     (if CBS_peek_asn1_tag outer_tag inp then
        bind_act (CBS_get_asn1 outer_tag) (\<lambda>out. ret_act (out, None)) inp
      else
        (case CBB_init m 0 (CBS_len inp) of
           None \<Rightarrow> (None, inp)
         | Some result \<Rightarrow>
             (case CBS_get_asn1 (outer_tag OR CBS_ASN1_CONSTRUCTED) inp of
                (None, inp) \<Rightarrow> (None, inp)
              | (Some child, inp) \<Rightarrow>
                  (case then_act (implicit_chunks m inner_tag child) (CBB_finish m 0 True True) result of
                     (None, _) \<Rightarrow> (None, inp)
                   | (Some (data, len), _) \<Rightarrow> (Some (CBS_init data len, Some data), inp)))))"

end
