(* ===== verification/Ber_Convert.thy ===== *)
theory Ber_Convert
  imports Ber
begin

text \<open>
  What the conversion computes: BER values as trees, their octets, and the tree of items that the
  builder is made to write for them.
\<close>

section \<open>BER values\<close>

datatype ber = Primitive u32 "byte list" | Constructed u32 "ber list" | Indefinite u32 "ber list"

fun ber_octets :: "ber list \<Rightarrow> byte list" where
  "ber_octets [] = []"
| "ber_octets (Primitive tag xs # ts) = der_element tag xs @ ber_octets ts"
| "ber_octets (Constructed tag us # ts) = der_element tag (ber_octets us) @ ber_octets ts"
| "ber_octets (Indefinite tag us # ts) = tag_octets tag @ 0x80 # ber_octets us @ 0 # 0 # ber_octets ts"

definition base_tag :: "u32 \<Rightarrow> u32" where
  "base_tag tag = tag AND NOT CBS_ASN1_CONSTRUCTED"

definition constructed :: "u32 \<Rightarrow> bool" where
  "constructed tag \<longleftrightarrow> tag AND CBS_ASN1_CONSTRUCTED \<noteq> 0"

text \<open>The string tag for the children of a constructed element.\<close>

definition child_tag :: "u32 \<Rightarrow> u32 \<Rightarrow> u32" where
  "child_tag st tag = (if st \<noteq> 0 then st else if is_string_type tag then base_tag tag else 0)"

text \<open>Well-formed values: lengths of 32 bits, fragments of a string have its type, and no element
  looks like the end of contents.\<close>

fun ber_ok :: "u32 \<Rightarrow> ber list \<Rightarrow> bool" where
  "ber_ok st [] = True"
| "ber_ok st (Primitive tag xs # ts) \<longleftrightarrow>
     \<not> constructed tag \<and> length xs < 2 ^ 32 \<and> (tag \<noteq> 0 \<or> xs \<noteq> []) \<and> (st \<noteq> 0 \<longrightarrow> tag = st) \<and> ber_ok st ts"
| "ber_ok st (Constructed tag us # ts) \<longleftrightarrow>
     constructed tag \<and> length (ber_octets us) < 2 ^ 32 \<and> (st \<noteq> 0 \<longrightarrow> base_tag tag = st) \<and>
     ber_ok (child_tag st tag) us \<and> ber_ok st ts"
| "ber_ok st (Indefinite tag us # ts) \<longleftrightarrow>
     constructed tag \<and> (st \<noteq> 0 \<longrightarrow> base_tag tag = st) \<and> ber_ok (child_tag st tag) us \<and> ber_ok st ts"

fun ber_height :: "ber list \<Rightarrow> nat" where
  "ber_height [] = 0"
| "ber_height (Primitive tag xs # ts) = ber_height ts"
| "ber_height (Constructed tag us # ts) = max (Suc (ber_height us)) (ber_height ts)"
| "ber_height (Indefinite tag us # ts) = max (Suc (ber_height us)) (ber_height ts)"

text \<open>The items to write: a constructed string becomes one primitive string of its fragments.\<close>

fun ber_items :: "u32 \<Rightarrow> ber list \<Rightarrow> item list" where
  "ber_items st [] = []"
| "ber_items st (Primitive tag xs # ts) =
     (if st \<noteq> 0 then Octets xs else Asn1 tag [Octets xs]) # ber_items st ts"
| "ber_items st (Constructed tag us # ts) =
     (if st \<noteq> 0 then ber_items st us
      else [Asn1 (if is_string_type tag then base_tag tag else tag) (ber_items (child_tag st tag) us)]) @ ber_items st ts"
| "ber_items st (Indefinite tag us # ts) =
     (if st \<noteq> 0 then ber_items st us
      else [Asn1 (if is_string_type tag then base_tag tag else tag) (ber_items (child_tag st tag) us)]) @ ber_items st ts"

section \<open>Reading one element\<close>

lemma read_der:
  "length xs < 2 ^ 32 \<Longrightarrow> CBS_get_any_ber_asn1_element (der_element tag xs @ rest) =
    (Some (der_element tag xs, tag, length (der_header tag (length xs))), rest)"
  unfolding CBS_get_any_ber_asn1_element_def by (rule parse_der_element)

lemma read_indefinite:
  "constructed tag \<Longrightarrow> CBS_get_any_ber_asn1_element (tag_octets tag @ 0x80 # rest) =
    (Some (tag_octets tag @ [0x80], tag, length (tag_octets tag) + 1), rest)"
  unfolding CBS_get_any_ber_asn1_element_def any_asn1_element_unfold
  by (simp add: constructed_def)

lemma skip_der: "CBS_skip (length (der_header tag (length xs))) (der_element tag xs) = (Some (), xs)"
  by (simp add: CBS_skip_eq der_element_def)

lemma not_indefinite:
  assumes "length xs < 2 ^ 32"
  shows "\<not> is_indefinite (der_element tag xs) (length (der_header tag (length xs)))"
proof (cases xs)
  case Nil
  have "der_header tag 0 = tag_octets tag @ [0]" by (simp add: der_header_def length_octets_def)
  then show ?thesis by (simp add: Nil is_indefinite_def CBS_data_def der_element_def nth_append)
next
  case (Cons x xs')
  then show ?thesis by (simp add: is_indefinite_def CBS_len_def der_element_def)
qed

lemma indefinite: "is_indefinite (tag_octets tag @ [0x80]) (length (tag_octets tag) + 1)"
  by (simp add: is_indefinite_def CBS_len_def CBS_data_def nth_append)






section \<open>One round of the conversion\<close>





fun tag_of :: "ber \<Rightarrow> u32" where
  "tag_of (Primitive tag xs) = tag"
| "tag_of (Constructed tag us) = tag"
| "tag_of (Indefinite tag us) = tag"









section \<open>The conversion writes the items\<close>


lemma cat_Nil [simp]: "cat (Some []) x = x" "cat x (Some []) = x"
  by (cases x; simp add: cat_def)+




text \<open>One element as items.\<close>

fun element_items :: "u32 \<Rightarrow> ber \<Rightarrow> item list" where
  "element_items st t = ber_items st [t]"






section \<open>Finding BER\<close>

text \<open>Values that are DER already: definite lengths and primitive strings.\<close>

fun der_only :: "ber list \<Rightarrow> bool" where
  "der_only [] = True"
| "der_only (Primitive tag xs # ts) = der_only ts"
| "der_only (Constructed tag us # ts) = (\<not> is_string_type tag \<and> der_only us \<and> der_only ts)"
| "der_only (Indefinite tag us # ts) = False"

text \<open>
  What the first pass sees of values: it stops at an indefinite length or a constructed string, but what it found inside of a constructed value
  is replaced by what it finds inside of the next one.
\<close>

fun ber_seen :: "bool \<Rightarrow> ber list \<Rightarrow> bool" where
  "ber_seen found [] = found"
| "ber_seen found (Primitive tag xs # ts) = ber_seen found ts"
| "ber_seen found (Constructed tag us # ts) = (is_string_type tag \<or> ber_seen (ber_seen False us) ts)"
| "ber_seen found (Indefinite tag us # ts) = True"

lemma find_ber_seen:
  "ber_ok 0 ts \<Longrightarrow> depth + ber_height ts \<le> kMaxDepth \<Longrightarrow> find_ber_loop found (ber_octets ts) depth = Some (ber_seen found ts)"
proof (induction found ts arbitrary: depth rule: ber_seen.induct)
  case 1
  then show ?case by (simp add: find_ber_loop.simps CBS_len_def)
next
  case (2 found tag xs ts)
  have ne: "der_element tag xs \<noteq> []" by (simp add: der_element_def der_header_def)
  have l: "length xs < 2 ^ 32" "tag AND CBS_ASN1_CONSTRUCTED = 0" using 2(2) by (auto simp: constructed_def)
  then show ?case using 2 ne
    by (subst find_ber_loop.simps) (simp add: CBS_len_def read_der [OF l(1)] not_indefinite [OF l(1)])
next
  case (3 found tag us ts)
  have ne: "der_element tag (ber_octets us) \<noteq> []" by (simp add: der_element_def der_header_def)
  have l: "length (ber_octets us) < 2 ^ 32" "tag AND CBS_ASN1_CONSTRUCTED \<noteq> 0" using 3(3) by (auto simp: constructed_def)
  show ?case
  proof (cases "is_string_type tag")
    case True
    then show ?thesis using ne l(2)
      by (subst find_ber_loop.simps) (simp add: CBS_len_def read_der [OF l(1)] not_indefinite [OF l(1)])
  next
    case False
    then have "cbs_find_ber (ber_octets us) (depth + 1) = Some (ber_seen False us)"
      using 3 by (simp add: cbs_find_ber.simps child_tag_def)
    then show ?thesis using 3 False ne l(2)
      by (subst find_ber_loop.simps) (simp add: CBS_len_def read_der [OF l(1)] not_indefinite [OF l(1)] skip_der)
  qed
next
  case (4 found tag us ts)
  then show ?case using indefinite [of tag]
    by (subst find_ber_loop.simps) (simp add: CBS_len_def read_indefinite [simplified])
qed

lemma find_ber_eq: "ber_ok 0 ts \<Longrightarrow> ber_height ts \<le> kMaxDepth \<Longrightarrow> cbs_find_ber (ber_octets ts) 0 = Some (ber_seen False ts)"
  using find_ber_seen [of ts 0 False] by (simp add: cbs_find_ber.simps)

lemma der_not_seen: "der_only ts \<Longrightarrow> \<not> ber_seen False ts"
  by (induction ts rule: der_only.induct) auto

text \<open>When the pass sees nothing, the first element is returned where it lies in the input.\<close>

lemma ber_not_seen:
  assumes "ber_ok 0 (t # ts)" "ber_height (t # ts) \<le> kMaxDepth" "\<not> ber_seen False (t # ts)"
  shows "CBS_asn1_ber_to_der m (ber_octets (t # ts)) = (Some (ber_octets [t], None), ber_octets ts)"
proof -
  have f: "cbs_find_ber (ber_octets (t # ts)) 0 = Some False" using find_ber_eq [OF assms(1,2)] assms(3) by simp
  obtain xs where x: "ber_octets [t] = der_element (tag_of t) xs" "length xs < 2 ^ 32" "ber_octets (t # ts) = der_element (tag_of t) xs @ ber_octets ts"
    using assms(1,3) by (cases t) auto
  show ?thesis
    using parse_der_element [OF x(2), of False "tag_of t" "ber_octets ts"] f unfolding x(1,3)
    by (simp add: CBS_asn1_ber_to_der_def CBS_get_any_asn1_element_def bind_act_def)
qed

section \<open>Implicitly tagged strings\<close>

lemma emits_implicit_chunks:
  assumes m: "malloc_ok m"
  shows "\<forall>c \<in> set cs. length c < 2 ^ 32 \<Longrightarrow>
    emits m 0 (implicit_chunks m inner_tag (concat (map (der_element inner_tag) cs))) (concat cs)"
proof (induction cs)
  case Nil
  then show ?case by (subst implicit_chunks.simps) (simp add: CBS_len_def emits_ret del: ret_act_simp)
next
  case (Cons c cs)
  then have l: "length c < 2 ^ 32" "length c < object_max" by auto
  have "der_element inner_tag c \<noteq> []" by (simp add: der_element_def der_header_def)
  then show ?case
    using emits_then [OF emits_add_bytes [OF m l(2)] Cons.IH] Cons.prems
      der_codec.dec_enc [OF l(1), of inner_tag "concat (map (der_element inner_tag) cs)"]
    by (subst implicit_chunks.simps) (simp add: CBS_len_def)
qed

lemma tag_or_constructed: "outer_tag AND CBS_ASN1_CONSTRUCTED = 0 \<Longrightarrow> outer_tag OR CBS_ASN1_CONSTRUCTED \<noteq> outer_tag"
proof
  assume "outer_tag AND CBS_ASN1_CONSTRUCTED = 0" "outer_tag OR CBS_ASN1_CONSTRUCTED = outer_tag"
  moreover have "(x OR y) AND y = y" for x y :: u32 by (rule bit_word_eqI) (auto simp: bit_simps)
  ultimately have "CBS_ASN1_CONSTRUCTED = 0" by metis
  then show False by (simp add: CBS_ASN1_CONSTRUCTED_def)
qed

section \<open>Properties\<close>




text \<open>DER passes through unchanged: when every value is DER already, nothing is allocated and the element is
  returned where it lies in the input.\<close>

theorem der_not_converted:
  assumes "ber_ok 0 [t]" and "der_only [t]" and "ber_height [t] \<le> kMaxDepth"
  shows "CBS_asn1_ber_to_der m (ber_octets [t]) = (Some (ber_octets [t], None), [])"
  using ber_not_seen [OF assms(1,3) der_not_seen [OF assms(2)]] by simp

lemma der_not_converted_witness:
  "CBS_asn1_ber_to_der (\<lambda>n. None) [0x30, 3, 2, 1, 5] = (Some ([0x30, 3, 2, 1, 5], None), [])"
proof -
  let ?t = "Constructed 0x20000010 [Primitive 2 [5]]"
  have o: "ber_octets [?t] = [0x30, 3, 2, 1, 5]"
    by (simp add: tag_octets_def der_element_def der_header_def length_octets_def)
  have ty: "\<not> is_string_type 0x20000010" "constructed 0x20000010" "\<not> constructed 2"
    by (simp_all add: is_string_type_def constructed_def asn1_tag_defs)
  have "length (ber_octets [Primitive 2 [5]]) = 3"
    by (simp add: tag_octets_def der_element_def der_header_def length_octets_def)
  then show ?thesis
    using der_not_converted [of ?t] unfolding o by (simp add: ty child_tag_def kMaxDepth_def)
qed

text \<open>The first pass forgets what it found: after the walk into a nested element has found an indefinite
  length, the walk into the next constructed sibling resets the flag, so this BER input is returned
  unconverted, although it contains an indefinite-length element.\<close>

theorem find_ber_forgets:
  "CBS_asn1_ber_to_der m [0x30, 8, 0x30, 4, 0x30, 0x80, 0, 0, 0x30, 0] =
    (Some ([0x30, 8, 0x30, 4, 0x30, 0x80, 0, 0, 0x30, 0], None), []) \<and>
    cbs_find_ber [0x30, 4, 0x30, 0x80, 0, 0] 0 = Some True"
proof -
  have "cbs_find_ber [0x30, 8, 0x30, 4, 0x30, 0x80, 0, 0, 0x30, 0] 0 = Some False"
    "cbs_find_ber [0x30, 4, 0x30, 0x80, 0, 0] 0 = Some True"
    by code_simp+
  moreover have "der_element 0x20000010 [0x30, 4, 0x30, 0x80, 0, 0, 0x30, 0] =
      [0x30, 8, 0x30, 4, 0x30, 0x80, 0, 0, 0x30, 0]"
    by (simp add: tag_octets_def der_element_def der_header_def length_octets_def)
  ultimately show ?thesis
    using parse_der_element [of "[0x30, 4, 0x30, 0x80, 0, 0, 0x30, 0]" False "0x20000010" "[]"]
    by (simp add: CBS_asn1_ber_to_der_def CBS_get_any_asn1_element_def bind_act_def)
qed


text \<open>\<^verbatim>\<open>CBS_get_asn1_implicit_string\<close> joins the chunks of a constructed string: an element with the constructed
  form of the outer tag, holding strings of the inner tag, yields the concatenation of their contents and
  leaves what follows the element.\<close>

theorem implicit_string_joined:
  assumes "malloc_ok m" and "malloc_total m" and "outer_tag AND CBS_ASN1_CONSTRUCTED = 0"
    and "\<forall>c \<in> set cs. length c < 2 ^ 32" and "length (concat (map (der_element inner_tag) cs)) < 2 ^ 32"
    and "inp = der_element (outer_tag OR CBS_ASN1_CONSTRUCTED) (concat (map (der_element inner_tag) cs)) @ rest"
    and "length inp + 8 < object_max"
  shows "\<exists>out_storage. CBS_get_asn1_implicit_string m outer_tag inner_tag inp = (Some (concat cs, Some out_storage), rest)"
proof -
  let ?t = "outer_tag OR CBS_ASN1_CONSTRUCTED" and ?xs = "concat (map (der_element inner_tag) cs)"
  have pk: "\<not> CBS_peek_asn1_tag outer_tag inp"
    using parse_tag_octets [of ?t "length_octets (length ?xs) @ ?xs @ rest"] tag_or_constructed [OF assms(3)]
    by (simp add: CBS_peek_asn1_tag_def assms(6) der_element_def der_header_def)
  from malloc_total_init [OF assms(2,7), of 0] obtain s where s: "CBB_init m 0 (CBS_len inp) = Some s"
    by (auto simp: CBS_len_def)
  from malloc_ok_init [OF assms(1) _ s] assms(7) obtain b c where s': "s = (b, [c])" and t: "tip 0 (b, [c])"
    and e: "contents b = []" "b_can_resize b" "b_len b = 0" and c: "c_handle c = 0"
    by (cases s) (auto simp: CBS_len_def)
  note em = emits_implicit_chunks [OF assms(1,4), of inner_tag]
  have "length (concat cs) \<le> length ?xs" by (induction cs) (simp_all add: der_element_def)
  then have fit: "fits m b (b_len b + length (concat cs))" using assms(2,5) e by (simp add: fits_def)
  obtain r b1 ch1 where r: "implicit_chunks m inner_tag ?xs (b, [c]) = (r, b1, ch1)" by (metis surj_pair)
  have "r \<noteq> None" using emits_NoneD [OF em t, of b1 ch1] r fit by (cases r) auto
  then obtain u where u: "r = Some u" by auto
  from emits_SomeD [OF em t r [unfolded u]] have 1: "ch1 = [c]" "contents b1 = concat cs" "tip 0 (b1, [c])"
    using e by auto
  show ?thesis
    using pk s s' r u 1 finish_tip [OF 1(3) c] der_codec.dec_enc [OF assms(5), of ?t rest]
    by (simp add: CBS_get_asn1_implicit_string_def assms(6) CBS_init_def contents_def)
qed

lemma implicit_string_joined_witness:
  "\<exists>out_storage. CBS_get_asn1_implicit_string zero_malloc 0x80000000 4 [0xa0, 7, 4, 2, 1, 2, 4, 1, 3, 9] =
    (Some ([1, 2, 3], Some out_storage), [9])"
proof -
  have e: "der_element (0x80000000 OR CBS_ASN1_CONSTRUCTED) (concat (map (der_element 4) [[1, 2], [3]])) @ [9] =
      [0xa0, 7, 4, 2, 1, 2, 4, 1, 3, 9]"
    by (simp add: tag_octets_def der_element_def der_header_def length_octets_def CBS_ASN1_CONSTRUCTED_def)
  show ?thesis
    using implicit_string_joined [OF zero_malloc, of "0x80000000" "[[1, 2], [3]]" 4 _ "[9]", OF _ _ _ e [symmetric]]
    by (simp add: CBS_ASN1_CONSTRUCTED_def tag_octets_def der_element_def der_header_def length_octets_def)
qed

end
