(* ===== verification/Stack.thy ===== *)
theory Stack
  imports Mem Comparator
begin

text \<open>
  \<^verbatim>\<open>crypto/stack/stack.c\<close>: the growable array of pointers.

  A pointer is \<open>None\<close> (NULL) or \<open>Some\<close> address; the array \<^verbatim>\<open>data\<close> has \<^verbatim>\<open>num_alloc\<close> slots, those from
  \<^verbatim>\<open>num\<close> on are not read. A comparison function is an abstract name, which \<^verbatim>\<open>sk_set_cmp_func\<close> compares;
  what it computes is given by the argument \<open>call_cmp_func\<close>, as in the code, and a NULL stack is
  \<open>None\<close>. libc's \<^verbatim>\<open>qsort\<close> is a parameter. Functions that release memory return the list of the
  pointers passed to the release function, in order.
\<close>

type_synonym 'p ptr = "'p option"
type_synonym ('c, 'p) cmp_caller = "'c \<Rightarrow> 'p ptr \<Rightarrow> 'p ptr \<Rightarrow> int"

record ('c, 'p) STACK =
  st_num :: nat
  st_data :: "'p ptr list"
  st_sorted :: bool
  st_num_alloc :: nat
  st_comp :: "'c option"

definition kMinSize :: nat where "kMinSize = 4"
definition sizeof_STACK :: nat where "sizeof_STACK = 40"
definition sizeof_ptr :: nat where "sizeof_ptr = 8"

section \<open>Operations\<close>

definition sk_new :: "libc_malloc \<Rightarrow> 'c option \<Rightarrow> ('c, 'p) STACK option" where
  "sk_new m cmpf =
     (case OPENSSL_malloc m sizeof_STACK of
        None \<Rightarrow> None
      | Some _ \<Rightarrow>
          (case OPENSSL_malloc m (sizeof_ptr * kMinSize) of
             None \<Rightarrow> None
           | Some _ \<Rightarrow> Some \<lparr>st_num = 0, st_data = replicate kMinSize None, st_sorted = False,
               st_num_alloc = kMinSize, st_comp = cmpf\<rparr>))"

definition sk_new_null :: "libc_malloc \<Rightarrow> ('c, 'p) STACK option" where
  "sk_new_null m = sk_new m None"

definition sk_num :: "('c, 'p) STACK option \<Rightarrow> nat" where
  "sk_num sk = (case sk of None \<Rightarrow> 0 | Some sk \<Rightarrow> st_num sk)"

definition sk_zero :: "('c, 'p) STACK option \<Rightarrow> ('c, 'p) STACK option" where
  "sk_zero sk =
     (case sk of
        None \<Rightarrow> None
      | Some s \<Rightarrow>
          if st_num s = 0 then sk
          else Some (s\<lparr>st_data := blit 0 (replicate (st_num s) None) (st_data s), st_num := 0, st_sorted := False\<rparr>))"

definition sk_value :: "('c, 'p) STACK option \<Rightarrow> nat \<Rightarrow> 'p ptr" where
  "sk_value sk i = (case sk of None \<Rightarrow> None | Some s \<Rightarrow> if i \<ge> st_num s then None else st_data s ! i)"

definition sk_set :: "('c, 'p) STACK option \<Rightarrow> nat \<Rightarrow> 'p ptr \<Rightarrow> 'p ptr \<times> ('c, 'p) STACK option" where
  "sk_set sk i value =
     (case sk of
        None \<Rightarrow> (None, sk)
      | Some s \<Rightarrow>
          if i \<ge> st_num s then (None, sk)
          else (value, Some (s\<lparr>st_data := (st_data s)[i := value]\<rparr>)))"

text \<open>The pointers handed to the release function.\<close>

definition sk_pop_free_ex :: "('c, 'p) STACK option \<Rightarrow> 'p list" where
  "sk_pop_free_ex sk =
     (case sk of None \<Rightarrow> []
      | Some s \<Rightarrow> concat (map (\<lambda>i. case st_data s ! i of None \<Rightarrow> [] | Some p \<Rightarrow> [p]) [0..<st_num s]))"

definition sk_pop_free :: "('c, 'p) STACK option \<Rightarrow> 'p list" where
  "sk_pop_free sk = sk_pop_free_ex sk"

text \<open>The capacity and its size in bytes that \<^verbatim>\<open>sk_insert\<close> asks for, \<open>None\<close> when both overflow.\<close>

definition sk_new_alloc :: "nat \<Rightarrow> (nat \<times> nat) option" where
  "sk_new_alloc num_alloc =
     (let new_alloc = num_alloc * 2 mod size_modulus;
          alloc_size = new_alloc * sizeof_ptr mod size_modulus;
          (new_alloc, alloc_size) =
            (if new_alloc < num_alloc \<or> alloc_size div sizeof_ptr \<noteq> new_alloc then
               ((num_alloc + 1) mod size_modulus, (num_alloc + 1) mod size_modulus * sizeof_ptr mod size_modulus)
             else (new_alloc, alloc_size))
      in if new_alloc < num_alloc \<or> alloc_size div sizeof_ptr \<noteq> new_alloc then None
         else Some (new_alloc, alloc_size))"

text \<open>\<^verbatim>\<open>OPENSSL_realloc\<close> of an array of pointers: the new slots are indeterminate.\<close>

definition realloc_ptrs :: "libc_malloc \<Rightarrow> 'p ptr list \<Rightarrow> nat \<Rightarrow> nat \<Rightarrow> 'p ptr list option" where
  "realloc_ptrs m data new_alloc alloc_size =
     (case OPENSSL_malloc m alloc_size of
        None \<Rightarrow> None
      | Some _ \<Rightarrow> Some (take new_alloc data @ replicate (new_alloc - length data) None))"

text \<open>Making room for one more element and a spare slot.\<close>

definition sk_grow :: "libc_malloc \<Rightarrow> ('c, 'p) STACK \<Rightarrow> ('c, 'p) STACK option" where
  "sk_grow m s =
     (if st_num_alloc s \<le> st_num s + 1 then
        (case sk_new_alloc (st_num_alloc s) of
           None \<Rightarrow> None
         | Some (new_alloc, alloc_size) \<Rightarrow>
             (case realloc_ptrs m (st_data s) new_alloc alloc_size of
                None \<Rightarrow> None
              | Some data \<Rightarrow> Some (s\<lparr>st_data := data, st_num_alloc := new_alloc\<rparr>)))
      else Some s)"

definition sk_insert :: "libc_malloc \<Rightarrow> ('c, 'p) STACK option \<Rightarrow> 'p ptr \<Rightarrow> nat \<Rightarrow> nat \<times> ('c, 'p) STACK option" where
  "sk_insert m sk p idx =
     (case sk of
        None \<Rightarrow> (0, sk)
      | Some s \<Rightarrow>
          (case sk_grow m s of
             None \<Rightarrow> (0, sk)
           | Some s \<Rightarrow>
               (let data =
                  (if idx \<ge> st_num s then (st_data s)[st_num s := p]
                   else (blit (idx + 1) (take (st_num s - idx) (drop idx (st_data s))) (st_data s))[idx := p])
                in (st_num s + 1,
                    Some (s\<lparr>st_data := data, st_num := st_num s + 1, st_sorted := False\<rparr>)))))"

definition sk_delete :: "('c, 'p) STACK option \<Rightarrow> nat \<Rightarrow> 'p ptr \<times> ('c, 'p) STACK option" where
  "sk_delete sk idx =
     (case sk of
        None \<Rightarrow> (None, sk)
      | Some s \<Rightarrow>
          if idx \<ge> st_num s then (None, sk)
          else
            (let ret = st_data s ! idx;
                 data = (if idx \<noteq> st_num s - 1
                   then blit idx (take (st_num s - idx - 1) (drop (idx + 1) (st_data s))) (st_data s)
                   else st_data s)
             in (ret, Some (s\<lparr>st_data := data, st_num := st_num s - 1\<rparr>))))"

text \<open>The first index from \<open>i\<close> on whose element satisfies the test of a linear search.\<close>

function sk_scan :: "('p ptr \<Rightarrow> bool) \<Rightarrow> 'p ptr list \<Rightarrow> nat \<Rightarrow> nat \<Rightarrow> nat option" where
  "sk_scan test data num i =
     (if i < num then if test (data ! i) then Some i else sk_scan test data num (i + 1) else None)"
  by auto
termination by (relation "measure (\<lambda>(test, data, num, i). num - i)") auto

declare sk_scan.simps [simp del]

definition sk_delete_ptr :: "('c, 'p) STACK option \<Rightarrow> 'p ptr \<Rightarrow> 'p ptr \<times> ('c, 'p) STACK option" where
  "sk_delete_ptr sk p =
     (case sk of
        None \<Rightarrow> (None, sk)
      | Some s \<Rightarrow>
          (case sk_scan (\<lambda>q. q = p) (st_data s) (st_num s) 0 of
             None \<Rightarrow> (None, sk)
           | Some i \<Rightarrow> sk_delete sk i))"

definition sk_is_sorted :: "('c, 'p) STACK option \<Rightarrow> bool" where
  "sk_is_sorted sk = (case sk of None \<Rightarrow> True | Some s \<Rightarrow> st_sorted s)"

text \<open>The binary search on the half-open interval from \<open>lo\<close> to \<open>hi\<close>; \<open>cmp\<close> compares the key with an
  element.\<close>

function sk_bsearch :: "('p ptr \<Rightarrow> int) \<Rightarrow> 'p ptr list \<Rightarrow> nat \<Rightarrow> nat \<Rightarrow> nat option" where
  "sk_bsearch cmp data lo hi =
     (if lo < hi then
        (let mid = lo + (hi - lo - 1) div 2; r = cmp (data ! mid)
         in if r > 0 then sk_bsearch cmp data (mid + 1) hi
            else if r < 0 then sk_bsearch cmp data lo mid
            else if hi - lo = 1 then Some mid
            else sk_bsearch cmp data lo (mid + 1))
      else None)"
  by auto
termination
  by (relation "measure (\<lambda>(cmp, data, lo, hi). hi - lo)") (auto simp: Let_def)

declare sk_bsearch.simps [simp del]

definition sk_find :: "('c, 'p) STACK option \<Rightarrow> 'p ptr \<Rightarrow> ('c, 'p) cmp_caller \<Rightarrow> nat option" where
  "sk_find sk p call_cmp_func =
     (case sk of
        None \<Rightarrow> None
      | Some s \<Rightarrow>
          (case st_comp s of
             None \<Rightarrow> sk_scan (\<lambda>q. q = p) (st_data s) (st_num s) 0
           | Some cmpf \<Rightarrow>
               if p = None then None
               else if \<not> sk_is_sorted sk then
                 sk_scan (\<lambda>elem. call_cmp_func cmpf p elem = 0) (st_data s) (st_num s) 0
               else sk_bsearch (call_cmp_func cmpf p) (st_data s) 0 (st_num s)))"

definition sk_shift :: "('c, 'p) STACK option \<Rightarrow> 'p ptr \<times> ('c, 'p) STACK option" where
  "sk_shift sk =
     (case sk of None \<Rightarrow> (None, sk) | Some s \<Rightarrow> if st_num s = 0 then (None, sk) else sk_delete sk 0)"

definition sk_push :: "libc_malloc \<Rightarrow> ('c, 'p) STACK option \<Rightarrow> 'p ptr \<Rightarrow> nat \<times> ('c, 'p) STACK option" where
  "sk_push m sk p = sk_insert m sk p (sk_num sk)"

definition sk_pop :: "('c, 'p) STACK option \<Rightarrow> 'p ptr \<times> ('c, 'p) STACK option" where
  "sk_pop sk =
     (case sk of None \<Rightarrow> (None, sk) | Some s \<Rightarrow> if st_num s = 0 then (None, sk) else sk_delete sk (st_num s - 1))"

definition sk_dup :: "libc_malloc \<Rightarrow> ('c, 'p) STACK option \<Rightarrow> ('c, 'p) STACK option" where
  "sk_dup m sk =
     (case sk of
        None \<Rightarrow> None
      | Some s \<Rightarrow>
          (case sk_new m (st_comp s) of
             None \<Rightarrow> None
           | Some ret \<Rightarrow>
               (case realloc_ptrs m (st_data ret) (st_num_alloc s) (sizeof_ptr * st_num_alloc s mod size_modulus) of
                  None \<Rightarrow> None
                | Some data \<Rightarrow> Some (ret\<lparr>st_data := blit 0 (take (st_num s) (st_data s)) data, st_num := st_num s,
                    st_sorted := st_sorted s, st_num_alloc := st_num_alloc s, st_comp := st_comp s\<rparr>))))"


definition sk_set_cmp_func :: "('c, 'p) STACK \<Rightarrow> 'c option \<Rightarrow> 'c option \<times> ('c, 'p) STACK" where
  "sk_set_cmp_func sk cmpf =
     (let old = st_comp sk;
          sk = (if st_comp sk \<noteq> cmpf then sk\<lparr>st_sorted := False\<rparr> else sk)
      in (old, sk\<lparr>st_comp := cmpf\<rparr>))"

text \<open>The copying loop of \<^verbatim>\<open>sk_deep_copy\<close> from the index \<open>i\<close>: the array, or on failure the copies that are
  released.\<close>

function deep_copy_loop :: "('p \<Rightarrow> 'p ptr) \<Rightarrow> nat \<Rightarrow> nat \<Rightarrow> 'p ptr list \<Rightarrow> 'p list + 'p ptr list" where
  "deep_copy_loop call_copy_func num i data =
     (if i < num then
        (case data ! i of
           None \<Rightarrow> deep_copy_loop call_copy_func num (i + 1) data
         | Some p \<Rightarrow>
             (case call_copy_func p of
                None \<Rightarrow> Inl (concat (map (\<lambda>j. case data ! j of None \<Rightarrow> [] | Some q \<Rightarrow> [q]) [0..<i]))
              | Some c \<Rightarrow> deep_copy_loop call_copy_func num (i + 1) (data[i := Some c])))
      else Inr data)"
  by auto
termination by (relation "measure (\<lambda>(f, num, i, data). num - i)") auto

declare deep_copy_loop.simps [simp del]

definition sk_deep_copy :: "libc_malloc \<Rightarrow> ('c, 'p) STACK option \<Rightarrow> ('p \<Rightarrow> 'p ptr) \<Rightarrow>
    ('c, 'p) STACK option \<times> 'p list" where
  "sk_deep_copy m sk call_copy_func =
     (case sk_dup m sk of
        None \<Rightarrow> (None, [])
      | Some ret \<Rightarrow>
          (case deep_copy_loop call_copy_func (st_num ret) 0 (st_data ret) of
             Inl freed \<Rightarrow> (None, freed)
           | Inr data \<Rightarrow> (Some (ret\<lparr>st_data := data\<rparr>), [])))"

section \<open>The list of a stack\<close>

definition elems :: "('c, 'p) STACK \<Rightarrow> 'p ptr list" where
  "elems s = take (st_num s) (st_data s)"

definition stack_ok :: "('c, 'p) STACK \<Rightarrow> bool" where
  "stack_ok s \<longleftrightarrow> length (st_data s) = st_num_alloc s \<and> st_num s < st_num_alloc s \<and>
     2 \<le> st_num_alloc s \<and> st_num_alloc s * sizeof_ptr < size_modulus"

lemma length_elems: "stack_ok s \<Longrightarrow> length (elems s) = st_num s"
  by (simp add: stack_ok_def elems_def)

lemma nth_elems: "i < st_num s \<Longrightarrow> elems s ! i = st_data s ! i"
  by (simp add: elems_def)

lemma div_wrap: "k * 8 mod size_modulus div 8 = k \<Longrightarrow> k * 8 < size_modulus"
proof -
  assume "k * 8 mod size_modulus div 8 = k"
  moreover have "k * 8 mod size_modulus div 8 < size_modulus div 8"
    by (rule less_mult_imp_div_less) simp
  ultimately show ?thesis by simp
qed

lemma alloc_choice:
  assumes "(case (if c then (x, g x) else (y, g y)) of
      (a, b) \<Rightarrow> if a < n \<or> h b \<noteq> a then None else Some (a, b)) = Some (k, sz)"
  shows "k = y \<or> k = (x :: nat)" "h (g k) = k"
  using assms by (auto split: if_splits)

lemma new_alloc_grows:
  assumes "sk_new_alloc n = Some (k, sz)" "2 \<le> n" "n * sizeof_ptr < size_modulus"
  shows "n < k" "k * sizeof_ptr < size_modulus"
proof -
  have w: "n * 2 mod size_modulus = n * 2" "(n + 1) mod size_modulus = n + 1"
    using assms(3) by (simp_all add: sizeof_ptr_def)
  note k = alloc_choice [where g = "\<lambda>x. x * 8 mod size_modulus" and h = "\<lambda>b. b div 8",
      OF assms(1) [unfolded sk_new_alloc_def Let_def sizeof_ptr_def w]]
  from k(1) show "n < k" using assms(2) by auto
  show "k * sizeof_ptr < size_modulus" using div_wrap [OF k(2)] by (simp only: sizeof_ptr_def)
qed

lemma insert_elems:
  assumes ok: "stack_ok s" and r: "sk_insert m (Some s) p w = (n, sk')"
  shows "n = 0 \<and> sk' = Some s \<or>
    (\<exists>s'. n = st_num s + 1 \<and> sk' = Some s' \<and> stack_ok s' \<and> st_comp s' = st_comp s \<and> \<not> st_sorted s' \<and>
      elems s' = take w (elems s) @ p # drop w (elems s))"
proof -
  have g: "st_num s1 = st_num s \<and> elems s1 = elems s \<and> st_comp s1 = st_comp s \<and>
      length (st_data s1) = st_num_alloc s1 \<and> st_num s + 1 < st_num_alloc s1 \<and>
      2 \<le> st_num_alloc s1 \<and> st_num_alloc s1 * sizeof_ptr < size_modulus"
    if e: "sk_grow m s = Some s1" for s1
  proof (cases "st_num_alloc s \<le> st_num s + 1")
    case True
    then obtain k sz d where k: "sk_new_alloc (st_num_alloc s) = Some (k, sz)"
      and d: "realloc_ptrs m (st_data s) k sz = Some d" and s1: "s1 = s\<lparr>st_data := d, st_num_alloc := k\<rparr>"
      using e by (auto simp: sk_grow_def split: option.splits)
    have kg: "st_num_alloc s < k" "k * sizeof_ptr < size_modulus"
      using new_alloc_grows [OF k] ok by (simp_all add: stack_ok_def)
    have "d = st_data s @ replicate (k - st_num_alloc s) None"
      using d kg ok by (auto simp: realloc_ptrs_def stack_ok_def split: option.splits)
    then show ?thesis
      using kg ok by (auto simp: s1 elems_def stack_ok_def)
  next
    case False
    then show ?thesis using e ok by (auto simp: sk_grow_def stack_ok_def)
  qed
  show ?thesis
  proof (cases "sk_grow m s")
    case None
    then show ?thesis using r by (simp add: sk_insert_def)
  next
    case (Some s1)
    have g1: "st_num s1 = st_num s" "elems s1 = elems s" "st_comp s1 = st_comp s"
      "length (st_data s1) = st_num_alloc s1" "st_num s + 1 < st_num_alloc s1"
      "2 \<le> st_num_alloc s1" "st_num_alloc s1 * sizeof_ptr < size_modulus"
      using g [OF Some] by blast+
    define data where "data = (if w \<ge> st_num s1 then (st_data s1)[st_num s1 := p]
                   else (blit (w + 1) (take (st_num s1 - w) (drop w (st_data s1))) (st_data s1))[w := p])"
    have "w < st_num s1 \<Longrightarrow> length (take (st_num s1 - w) (drop w (st_data s1))) = st_num s1 - w" using g1 by auto
    then have len: "length data = length (st_data s1)" using g1 by (auto simp: data_def)
    have e1: "take (st_num s) (st_data s1) = elems s" using g1 by (metis elems_def)
    have "take (st_num s + 1) data = take w (elems s) @ p # drop w (elems s)"
    proof (cases "w \<ge> st_num s")
      case True
      then show ?thesis
        using g1 e1 length_elems [OF ok] by (simp add: data_def take_Suc_conv_app_nth)
    next
      case False
      then have w: "w < st_num s" by simp
      have "take (st_num s + 1) data = (take (st_num s + 1) (blit (w + 1) (take (st_num s - w) (drop w (st_data s1))) (st_data s1)))[w := p]"
        using False g1 by (simp add: data_def take_update_swap)
      also have "take (st_num s + 1) (blit (w + 1) (take (st_num s - w) (drop w (st_data s1))) (st_data s1)) =
          take (w + 1) (st_data s1) @ take (st_num s - w) (drop w (st_data s1))"
        using take_blit_append [of "w + 1" "take (st_num s - w) (drop w (st_data s1))" "st_data s1"] w g1 by simp
      finally have e: "take (st_num s + 1) data =
          (take (w + 1) (st_data s1))[w := p] @ take (st_num s - w) (drop w (st_data s1))"
        using w g1 by (simp add: list_update_append)
      have "(take (w + 1) (st_data s1))[w := p] = take w (st_data s1) @ [p]"
        using w g1 by (simp add: take_Suc_conv_app_nth list_update_append)
      moreover have "take w (st_data s1) = take w (elems s)" "take (st_num s - w) (drop w (st_data s1)) = drop w (elems s)"
        using w g1 by (metis elems_def min.absorb1 less_imp_le take_take, metis elems_def drop_take)
      ultimately show ?thesis using e by simp
    qed
    then have "elems (s1\<lparr>st_data := data, st_num := st_num s1 + 1, st_sorted := False\<rparr>) = take w (elems s) @ p # drop w (elems s)"
      using g1 by (simp add: elems_def)
    moreover have "sk_insert m (Some s) p w = (st_num s1 + 1, Some (s1\<lparr>st_data := data, st_num := st_num s1 + 1, st_sorted := False\<rparr>))"
      using Some by (simp add: sk_insert_def data_def Let_def)
    moreover have "stack_ok (s1\<lparr>st_data := data, st_num := st_num s1 + 1, st_sorted := False\<rparr>)"
      using g1 len by (simp add: stack_ok_def)
    ultimately show ?thesis using r g1 by auto
  qed
qed

lemma delete_elems:
  assumes ok: "stack_ok s" and w: "w < st_num s"
  shows "\<exists>s'. sk_delete (Some s) w = (elems s ! w, Some s') \<and> stack_ok s' \<and> st_comp s' = st_comp s \<and>
    st_sorted s' = st_sorted s \<and> elems s' = take w (elems s) @ drop (Suc w) (elems s)"
proof -
  define data where "data = (if w \<noteq> st_num s - 1
                   then blit w (take (st_num s - w - 1) (drop (w + 1) (st_data s))) (st_data s)
                   else st_data s)"
  have len: "length data = length (st_data s)"
    using w ok by (auto simp: data_def stack_ok_def)
  have "take (st_num s - 1) data = take w (elems s) @ drop (Suc w) (elems s)"
  proof (cases "w = st_num s - 1")
    case True
    then show ?thesis using w by (simp add: data_def elems_def min_def)
  next
    case False
    have "length (take (st_num s - w - 1) (drop (w + 1) (st_data s))) = st_num s - w - 1" using ok w by (auto simp: stack_ok_def)
    moreover have "st_num s - Suc 0 \<le> st_num_alloc s" using ok by (auto simp: stack_ok_def)
    ultimately have "take (st_num s - 1) data = take w (st_data s) @ take (st_num s - w - 1) (drop (w + 1) (st_data s))"
      using take_blit_append [of w "take (st_num s - w - 1) (drop (w + 1) (st_data s))" "st_data s"] False w ok
      by (simp add: data_def stack_ok_def del: length_take)
    then show ?thesis using w by (simp add: elems_def drop_take min_def)
  qed
  moreover have "sk_delete (Some s) w = (elems s ! w, Some (s\<lparr>st_data := data, st_num := st_num s - 1\<rparr>))"
    using w by (simp add: sk_delete_def data_def nth_elems Let_def)
  moreover have "st_num s - 1 < st_num_alloc s" using ok by (auto simp: stack_ok_def)
  ultimately show ?thesis
    using ok w len by (intro exI [of _ "s\<lparr>st_data := data, st_num := st_num s - 1\<rparr>"])
      (simp add: elems_def stack_ok_def)
qed

section \<open>Searching\<close>

lemma scan_eq: "sk_scan test data num i = Some j \<longleftrightarrow>
    i \<le> j \<and> j < num \<and> test (data ! j) \<and> (\<forall>k. i \<le> k \<and> k < j \<longrightarrow> \<not> test (data ! k))"
proof (induction test data num i rule: sk_scan.induct)
  case (1 test data num i)
  show ?case
  proof (cases "i < num \<and> \<not> test (data ! i)")
    case True
    then have "sk_scan test data num i = sk_scan test data num (i + 1)" by (subst sk_scan.simps) simp
    moreover have "(i + 1 \<le> j \<and> j < num \<and> test (data ! j) \<and> (\<forall>k. i + 1 \<le> k \<and> k < j \<longrightarrow> \<not> test (data ! k))) \<longleftrightarrow>
        (i \<le> j \<and> j < num \<and> test (data ! j) \<and> (\<forall>k. i \<le> k \<and> k < j \<longrightarrow> \<not> test (data ! k)))"
      using True by (metis Suc_eq_plus1 Suc_leI le_less not_less_eq_eq le_SucI)
    ultimately show ?thesis using 1 True by simp
  next
    case False
    then show ?thesis by (subst sk_scan.simps) (auto simp: le_less)
  qed
qed





lemma elems_update [simp]: "elems (s\<lparr>st_comp := c\<rparr>) = elems s" "elems (s\<lparr>st_sorted := b\<rparr>) = elems s"
  by (simp_all add: elems_def)

section \<open>The sorted flag\<close>

definition flag_ok :: "('c, 'p) cmp_caller \<Rightarrow> ('c, 'p) STACK \<Rightarrow> bool" where
  "flag_ok call s \<longleftrightarrow> (st_sorted s \<longrightarrow>
     (case st_comp s of None \<Rightarrow> True | Some c \<Rightarrow> cmp_sorted (call c) (elems s)))"


lemma sorted_delete:
  assumes "cmp_sorted cmp xs"
  shows "cmp_sorted cmp (take i xs @ drop (Suc i) xs)"
proof -
  have "sorted_wrt (\<lambda>x y. cmp x y \<le> 0) (take i xs @ drop i xs)" using assms by (simp add: cmp_sorted_def)
  moreover have "set (drop (Suc i) xs) \<subseteq> set (drop i xs)" by (rule set_drop_subset_set_drop) simp
  moreover have "sorted_wrt (\<lambda>x y. cmp x y \<le> 0) (drop (Suc i) xs)"
    using assms by (simp add: cmp_sorted_def sorted_wrt_drop)
  ultimately show ?thesis unfolding cmp_sorted_def sorted_wrt_append by blast
qed

section \<open>Deep copies\<close>

definition copied :: "('p \<Rightarrow> 'p ptr) \<Rightarrow> 'p ptr \<Rightarrow> 'p ptr" where
  "copied f q = (case q of None \<Rightarrow> None | Some p \<Rightarrow> f p)"

definition released :: "'p ptr list \<Rightarrow> 'p list" where
  "released qs = concat (map (\<lambda>q. case q of None \<Rightarrow> [] | Some p \<Rightarrow> [p]) qs)"

lemma released_nth:
  "i \<le> length data \<Longrightarrow>
    concat (map (\<lambda>j. case data ! j of None \<Rightarrow> [] | Some q \<Rightarrow> [q]) [0..<i]) = released (take i data)"
proof -
  assume "i \<le> length data"
  then have "take i data = map ((!) data) [0..<i]" by (simp add: list_eq_iff_nth_eq)
  then show ?thesis by (simp add: released_def comp_def)
qed

lemma copied_simps [simp]: "copied f None = None" "copied f (Some p) = f p"
  by (simp_all add: copied_def)

text \<open>Either every element is copied, or the copies of the elements before the first that cannot be
  copied are released.\<close>

lemma deep_copy_loop_eq:
  "num \<le> length data \<Longrightarrow> i \<le> num \<Longrightarrow> deep_copy_loop f num i data =
    (if \<exists>j. i \<le> j \<and> j < num \<and> data ! j \<noteq> None \<and> copied f (data ! j) = None
     then Inl (released (take i data @ map (copied f)
       (takeWhile (\<lambda>q. q = None \<or> copied f q \<noteq> None) (take (num - i) (drop i data)))))
     else Inr (take i data @ map (copied f) (take (num - i) (drop i data)) @ drop num data))"
proof (induction f num i data rule: deep_copy_loop.induct)
  case (1 f num i data)
  show ?case
  proof (cases "i < num")
    case False
    then have "i = num" using 1(4) by simp
    then show ?thesis by (subst deep_copy_loop.simps) auto
  next
    case True
    then have i: "i < length data" using 1(3) by simp
    have dr: "take (num - i) (drop i data) = data ! i # take (num - Suc i) (drop (Suc i) data)"
      using True i by (simp add: Cons_nth_drop_Suc [symmetric] take_Cons' )
    have ex: "(\<exists>j. i \<le> j \<and> j < num \<and> data ! j \<noteq> None \<and> copied f (data ! j) = None) \<longleftrightarrow>
        data ! i \<noteq> None \<and> copied f (data ! i) = None \<or>
        (\<exists>j. Suc i \<le> j \<and> j < num \<and> data ! j \<noteq> None \<and> copied f (data ! j) = None)"
      using True by (metis Suc_leD Suc_leI le_eq_less_or_eq)
    consider "data ! i = None" | p where "data ! i = Some p" "f p = None" | p c where "data ! i = Some p" "f p = Some c"
      by (cases "data ! i") auto
    then show ?thesis
    proof cases
      case a: 1
      have t: "take (Suc i) data = take i data @ [None]" using i a by (simp add: take_Suc_conv_app_nth)
      have "deep_copy_loop f num i data = deep_copy_loop f num (i + 1) data"
        using True a by (subst deep_copy_loop.simps) simp
      then show ?thesis
        using 1(1) [OF True a] 1(3) True a ex by (auto simp: dr t)
    next
      case a: 2
      have "deep_copy_loop f num i data = Inl (released (take i data))"
        using True a released_nth [of i data] i by (subst deep_copy_loop.simps) simp
      then show ?thesis using a ex by (auto simp: dr)
    next
      case a: 3
      let ?d = "data[i := Some c]"
      have t: "take (Suc i) ?d = take i data @ [Some c]" using i by (simp add: take_Suc_conv_app_nth)
      have d: "drop (Suc i) ?d = drop (Suc i) data" "drop num ?d = drop num data" using True by simp_all
      have ex': "(\<exists>j. Suc i \<le> j \<and> j < num \<and> ?d ! j \<noteq> None \<and> copied f (?d ! j) = None) \<longleftrightarrow>
        (\<exists>j. Suc i \<le> j \<and> j < num \<and> data ! j \<noteq> None \<and> copied f (data ! j) = None)"
        by (metis Suc_n_not_le_n nth_list_update_neq)
      have "deep_copy_loop f num i data = deep_copy_loop f num (i + 1) ?d"
        using True a by (subst deep_copy_loop.simps) simp
      then show ?thesis
        using 1(2) [OF True a] 1(3) True a ex ex' by (auto simp: dr t d)
    qed
  qed
qed


section \<open>Properties\<close>

text \<open>C22: Insertion and deletion refine those of a list. \<^verbatim>\<open>sk_insert\<close> either fails and changes nothing, or it keeps
  the invariant of the array and the new stack has the element at the given index, or at the end when
  the index is beyond it; the result is the new number of elements. It does not fail when the array still has room.
  \<^verbatim>\<open>sk_delete\<close> returns the element at the index and closes the gap; an index out of range gives NULL and changes nothing.\<close>

theorem stack_insert_refines:
  assumes "stack_ok s"
  shows "(case sk_insert m (Some s) p i of (n, sk') \<Rightarrow>
      n = 0 \<and> sk' = Some s \<and> st_num_alloc s \<le> length (elems s) + 1 \<or>
      (\<exists>s'. sk' = Some s' \<and> stack_ok s' \<and> n = length (elems s') \<and> elems s' = take i (elems s) @ p # drop i (elems s))) \<and>
    (if i < length (elems s) then
       \<exists>s'. sk_delete (Some s) i = (elems s ! i, Some s') \<and> stack_ok s' \<and> elems s' = take i (elems s) @ drop (Suc i) (elems s)
     else sk_delete (Some s) i = (None, Some s))"
proof (intro conjI)
  show "if i < length (elems s) then
       \<exists>s'. sk_delete (Some s) i = (elems s ! i, Some s') \<and> stack_ok s' \<and> elems s' = take i (elems s) @ drop (Suc i) (elems s)
     else sk_delete (Some s) i = (None, Some s)"
    using delete_elems [OF assms, of i] length_elems [OF assms] by (auto simp: sk_delete_def)
  obtain n sk' where e: "sk_insert m (Some s) p i = (n, sk')" by (metis surj_pair)
  have room: "n \<noteq> 0" if "st_num s + 1 < st_num_alloc s"
    using e that by (auto simp: sk_insert_def sk_grow_def Let_def)
  from insert_elems [OF assms e]
  consider "n = 0 \<and> sk' = Some s" | s' where "n = st_num s + 1" "sk' = Some s'" "stack_ok s'"
      "elems s' = take i (elems s) @ p # drop i (elems s)"
    by blast
  then show "case sk_insert m (Some s) p i of (n, sk') \<Rightarrow>
      n = 0 \<and> sk' = Some s \<and> st_num_alloc s \<le> length (elems s) + 1 \<or>
      (\<exists>s'. sk' = Some s' \<and> stack_ok s' \<and> n = length (elems s') \<and> elems s' = take i (elems s) @ p # drop i (elems s))"
  proof cases
    case 1
    then show ?thesis using e room length_elems [OF assms] by (auto simp: not_less)
  next
    case 2
    then have "length (elems s') = st_num s + 1" using length_elems [OF assms] by simp
    then show ?thesis using 2 e by simp
  qed
qed

definition example_stack :: "(unit, nat) STACK" where
  "example_stack = \<lparr>st_num = 3, st_data = [Some 5, Some 7, Some 7, None], st_sorted = False, st_num_alloc = 4, st_comp = Some ()\<rparr>"

lemma example_stack_ok: "stack_ok example_stack"
  by (simp add: example_stack_def stack_ok_def sizeof_ptr_def)

lemma stack_insert_refines_witness:
  "(\<exists>n sk'. sk_insert (\<lambda>n. Some (replicate n 0)) (Some example_stack) (Some 6) 1 = (n, sk') \<and> 0 < n \<and>
      (\<exists>s'. sk' = Some s' \<and> n = length (elems s') \<and> elems s' = [Some 5, Some 6, Some 7, Some 7])) \<and>
    (\<exists>s'. sk_delete (Some example_stack) 1 = (Some 7, Some s') \<and> elems s' = [Some 5, Some 7])"
proof -
  obtain n sk' where e: "sk_insert (\<lambda>n. Some (replicate n 0)) (Some example_stack) (Some 6) 1 = (n, sk')"
    by (metis surj_pair)
  moreover have "n \<noteq> 0"
    using e by (auto simp: sk_insert_def sk_grow_def example_stack_def sk_new_alloc_def realloc_ptrs_def
        OPENSSL_malloc_def sizeof_ptr_def Let_def)
  moreover have "elems example_stack = [Some 5, Some 7, Some 7]"
    by (simp add: elems_def example_stack_def)
  ultimately show ?thesis
    using stack_insert_refines [OF example_stack_ok, where m = "\<lambda>n. Some (replicate n 0)" and p = "Some 6" and i = 1] by auto
qed

text \<open>The stack is a stack: what \<^verbatim>\<open>sk_push\<close> has pushed, the next \<^verbatim>\<open>sk_pop\<close> returns, and the elements are again
  those of before.\<close>

theorem stack_push_pop:
  assumes "stack_ok s" and "sk_push m (Some s) p = (n, sk')" and "n \<noteq> 0"
  shows "\<exists>s''. sk_pop sk' = (p, Some s'') \<and> stack_ok s'' \<and> elems s'' = elems s"
proof -
  have n: "sk_num (Some s) = length (elems s)" by (simp add: sk_num_def length_elems [OF assms(1)])
  obtain s' where s': "sk' = Some s'" "stack_ok s'" "elems s' = elems s @ [p]"
    using insert_elems [OF assms(1), of m p "sk_num (Some s)" n sk'] assms(2,3) by (auto simp: sk_push_def n)
  then have num: "st_num s' = Suc (length (elems s))" using length_elems [OF s'(2)] by simp
  show ?thesis
    using delete_elems [OF s'(2), of "st_num s' - 1"] num s' by (auto simp: sk_pop_def)
qed

lemma stack_push_pop_witness:
  "\<exists>s''. sk_pop (snd (sk_push (\<lambda>n. Some (replicate n 0)) (Some example_stack) (Some 9))) = (Some 9, Some s'') \<and>
    elems s'' = [Some 5, Some 7, Some 7]"
proof -
  obtain n sk' where e: "sk_push (\<lambda>n. Some (replicate n 0)) (Some example_stack) (Some 9) = (n, sk')"
    by (metis surj_pair)
  moreover have "n \<noteq> 0"
    using e by (auto simp: sk_push_def sk_num_def sk_insert_def sk_grow_def example_stack_def sk_new_alloc_def realloc_ptrs_def
        OPENSSL_malloc_def sizeof_ptr_def Let_def)
  moreover have "elems example_stack = [Some 5, Some 7, Some 7]"
    by (simp add: elems_def example_stack_def)
  ultimately show ?thesis using stack_push_pop [OF example_stack_ok e] by auto
qed


definition nat_cmp :: "unit \<Rightarrow> nat ptr \<Rightarrow> nat ptr \<Rightarrow> int" where
  "nat_cmp c a b = int (case a of None \<Rightarrow> 0 | Some x \<Rightarrow> Suc x) - int (case b of None \<Rightarrow> 0 | Some x \<Rightarrow> Suc x)"



text \<open>Insertion, deletion and a change of the comparison function keep the promise of the sorted flag, that
  the elements are in ascending order whenever it is set.\<close>

theorem sorted_flag_kept:
  assumes "stack_ok s" and "flag_ok call s"
  shows "(\<forall>m p i n s'. sk_insert m (Some s) p i = (n, Some s') \<longrightarrow> flag_ok call s') \<and>
    (\<forall>i p s'. sk_delete (Some s) i = (p, Some s') \<longrightarrow> flag_ok call s') \<and>
    (\<forall>f. flag_ok call (snd (sk_set_cmp_func s f)))"
proof (intro conjI allI impI)
  fix m p i n s'
  assume "sk_insert m (Some s) p i = (n, Some s')"
  from insert_elems [OF assms(1) this] show "flag_ok call s'" using assms(2) by (auto simp: flag_ok_def)
next
  fix i p s'
  assume d: "sk_delete (Some s) i = (p, Some s')"
  show "flag_ok call s'"
  proof (cases "i < st_num s")
    case True
    from delete_elems [OF assms(1) True] d show ?thesis
      using assms(2) by (auto simp: flag_ok_def sorted_delete split: option.splits)
  next
    case False
    then show ?thesis using d assms(2) by (simp add: sk_delete_def)
  qed
next
  fix f
  show "flag_ok call (snd (sk_set_cmp_func s f))"
    using assms(2) by (auto simp: sk_set_cmp_func_def flag_ok_def Let_def split: option.splits)
qed

lemma sorted_flag_kept_witness:
  "flag_ok nat_cmp (snd (sk_set_cmp_func example_stack None))"
  using sorted_flag_kept [OF example_stack_ok, of nat_cmp] by (simp add: flag_ok_def example_stack_def)

text \<open>\<^verbatim>\<open>sk_set\<close> breaks that promise: it replaces an element without clearing the flag, so that \<^verbatim>\<open>sk_find\<close>
  misses an element that is in the stack.\<close>

theorem sk_set_keeps_stale_flag:
  "\<exists>s s'. stack_ok s \<and> flag_ok nat_cmp s \<and> sk_set (Some s) 0 (Some 9) = (Some 9, Some s') \<and>
    \<not> flag_ok nat_cmp s' \<and> Some 9 \<in> set (elems s') \<and> sk_find (Some s') (Some 9) nat_cmp = None"
proof -
  let ?s = "example_stack\<lparr>st_sorted := True\<rparr>"
  let ?s' = "?s\<lparr>st_data := [Some 9, Some 7, Some 7, None]\<rparr>"
  have "stack_ok ?s" by (simp add: example_stack_def stack_ok_def sizeof_ptr_def)
  moreover have "flag_ok nat_cmp ?s" "\<not> flag_ok nat_cmp ?s'"
    by (simp_all add: flag_ok_def example_stack_def elems_def cmp_sorted_def nat_cmp_def)
  moreover have "sk_set (Some ?s) 0 (Some 9) = (Some 9, Some ?s')"
    by (simp add: sk_set_def example_stack_def)
  moreover have "sk_find (Some ?s') (Some 9) nat_cmp = None"
    by (simp add: sk_find_def sk_is_sorted_def example_stack_def sk_bsearch.simps Let_def nat_cmp_def)
  moreover have "Some 9 \<in> set (elems ?s')" by (simp add: elems_def example_stack_def)
  ultimately show ?thesis by blast
qed

text \<open>Deep copies do not leak: either \<^verbatim>\<open>sk_deep_copy\<close> returns a stack whose elements are the copies of the
  elements, releasing nothing, or some element cannot be copied and exactly the copies made before it are
  released.\<close>

theorem deep_copy_releases:
  assumes "stack_ok s" and "sk_dup m (Some s) \<noteq> None"
  shows "(\<forall>q \<in> set (elems s). q \<noteq> None \<longrightarrow> copied f q \<noteq> None) \<and>
      (\<exists>s'. sk_deep_copy m (Some s) f = (Some s', []) \<and> elems s' = map (copied f) (elems s)) \<or>
    (\<exists>q \<in> set (elems s). q \<noteq> None \<and> copied f q = None) \<and>
      sk_deep_copy m (Some s) f =
        (None, released (map (copied f) (takeWhile (\<lambda>q. q = None \<or> copied f q \<noteq> None) (elems s))))"
proof -
  from assms(2) obtain d where d: "sk_dup m (Some s) = Some d" by auto
  have n: "st_num d = st_num s" and e: "elems d = elems s" and l: "st_num s \<le> length (st_data d)"
  proof -
    obtain ret data where rd: "realloc_ptrs m (st_data ret) (st_num_alloc s) (sizeof_ptr * st_num_alloc s mod size_modulus) = Some data"
      and d': "d = ret\<lparr>st_data := blit 0 (take (st_num s) (st_data s)) data, st_num := st_num s,
                    st_sorted := st_sorted s, st_num_alloc := st_num_alloc s, st_comp := st_comp s\<rparr>"
      using d by (auto simp: sk_dup_def split: option.splits)
    have "length data = st_num_alloc s"
      using rd by (auto simp: realloc_ptrs_def split: option.splits)
    then show "st_num d = st_num s" "elems d = elems s" "st_num s \<le> length (st_data d)"
      using assms(1) by (auto simp: d' elems_def blit_def stack_ok_def)
  qed
  have loop: "deep_copy_loop f (st_num s) 0 (st_data d) =
      (if \<exists>j. 0 \<le> j \<and> j < st_num s \<and> st_data d ! j \<noteq> None \<and> copied f (st_data d ! j) = None
       then Inl (released (map (copied f) (takeWhile (\<lambda>q. q = None \<or> copied f q \<noteq> None) (elems s))))
       else Inr (map (copied f) (elems s) @ drop (st_num s) (st_data d)))"
    using deep_copy_loop_eq [OF l, of 0 f] e n by (simp add: elems_def)
  have ex: "(\<exists>j. 0 \<le> j \<and> j < st_num s \<and> st_data d ! j \<noteq> None \<and> copied f (st_data d ! j) = None) \<longleftrightarrow>
      (\<exists>q \<in> set (elems s). q \<noteq> None \<and> copied f q = None)"
    using e n length_elems [OF assms(1)] nth_elems [of _ d] by (auto simp: in_set_conv_nth Bex_def)
  show ?thesis
  proof (cases "\<exists>q \<in> set (elems s). q \<noteq> None \<and> copied f q = None")
    case True
    then show ?thesis using d loop ex n by (simp add: sk_deep_copy_def)
  next
    case False
    then have "sk_deep_copy m (Some s) f = (Some (d\<lparr>st_data := map (copied f) (elems s) @ drop (st_num s) (st_data d)\<rparr>), [])"
      using d loop ex n by (simp add: sk_deep_copy_def)
    then show ?thesis using False n length_elems [OF assms(1)] by (auto simp: elems_def)
  qed
qed

lemma deep_copy_releases_witness:
  "sk_deep_copy (\<lambda>n. Some (replicate n 0)) (Some example_stack) (\<lambda>x. if x = 5 then Some 6 else None) = (None, [6])"
proof -
  have "sk_dup (\<lambda>n. Some (replicate n 0)) (Some example_stack) \<noteq> None"
    by (simp add: sk_dup_def sk_new_def OPENSSL_malloc_def realloc_ptrs_def)
  from deep_copy_releases [OF example_stack_ok this, of "\<lambda>x. if x = 5 then Some 6 else None"] show ?thesis
    by (simp add: elems_def example_stack_def released_def)
qed

end
