(* ===== verification/Key_Map.thy ===== *)
theory Key_Map
  imports Main
begin

text \<open>
  The contract of a dictionary whose operations can fail (on a null pointer, or for want of memory). An entry \<open>e\<close>
  has the key \<open>key e\<close> and the value \<open>val e\<close>; \<open>same m\<close> is the equality of keys that the dictionary \<open>m\<close> uses,
  \<open>good\<close> its representation invariant, \<open>look\<close> the lookup and \<open>put\<close>, \<open>del\<close> the updates, \<open>None\<close> where they fail.
\<close>

datatype ('k, 'e) map_op = Put 'e | Del 'k

fun run_ops :: "('m \<Rightarrow> 'e \<Rightarrow> 'm option) \<Rightarrow> ('m \<Rightarrow> 'k \<Rightarrow> 'm option) \<Rightarrow> ('k, 'e) map_op list \<Rightarrow> 'm \<Rightarrow> 'm option" where
  "run_ops put del [] m = Some m"
| "run_ops put del (Put e # ops) m = Option.bind (put m e) (run_ops put del ops)"
| "run_ops put del (Del k # ops) m = Option.bind (del m k) (run_ops put del ops)"

text \<open>What a lookup of \<open>k\<close> finds after the operations, when it found \<open>r\<close> before them.\<close>

fun found_after :: "('k \<Rightarrow> 'k \<Rightarrow> bool) \<Rightarrow> ('e \<Rightarrow> 'k) \<Rightarrow> ('e \<Rightarrow> 'v) \<Rightarrow> ('k, 'e) map_op list \<Rightarrow> 'k \<Rightarrow> 'v option \<Rightarrow> 'v option" where
  "found_after same key val [] k r = r"
| "found_after same key val (Put e # ops) k r =
     found_after same key val ops k (if same (key e) k then Some (val e) else r)"
| "found_after same key val (Del k' # ops) k r =
     found_after same key val ops k (if same k' k then None else r)"

locale key_map =
  fixes key :: "'e \<Rightarrow> 'k"
    and val :: "'e \<Rightarrow> 'v"
    and same :: "'m \<Rightarrow> 'k \<Rightarrow> 'k \<Rightarrow> bool"
    and good :: "'m \<Rightarrow> bool"
    and look :: "'m \<Rightarrow> 'k \<Rightarrow> 'v option"
    and put :: "'m \<Rightarrow> 'e \<Rightarrow> 'm option"
    and del :: "'m \<Rightarrow> 'k \<Rightarrow> 'm option"
  assumes put_law: "good m \<Longrightarrow> \<exists>m'. put m e = Some m' \<and> good m' \<and> same m' = same m \<and>
        (\<forall>k'. look m' k' = (if same m (key e) k' then Some (val e) else look m k'))"
    and del_law: "good m \<Longrightarrow> \<exists>m'. del m k = Some m' \<and> good m' \<and> same m' = same m \<and>
        (\<forall>k'. look m' k' = (if same m k k' then None else look m k'))"
begin

lemma run_law:
  "good m \<Longrightarrow> \<exists>m'. run_ops put del ops m = Some m' \<and> good m' \<and> same m' = same m \<and>
    (\<forall>k. look m' k = found_after (same m) key val ops k (look m k))"
proof (induction ops arbitrary: m)
  case Nil
  then show ?case by simp
next
  case (Cons op ops)
  have "\<exists>m1. run_ops put del (op # ops) m = run_ops put del ops m1 \<and> good m1 \<and> same m1 = same m \<and>
      (\<forall>k. found_after (same m) key val (op # ops) k (look m k) = found_after (same m) key val ops k (look m1 k))"
  proof (cases op)
    case (Put e)
    then show ?thesis using put_law [OF Cons.prems, of e] by auto
  next
    case (Del k)
    then show ?thesis using del_law [OF Cons.prems, of k] by auto
  qed
  then show ?case using Cons.IH by (metis (no_types, lifting))
qed

end

end
