(* ===== verification/Avl.thy ===== *)
theory Avl
  imports Comparator Key_Map
begin

text \<open>
  \<^verbatim>\<open>gRPC-Core/src/core/lib/avl/avl.cc\<close>: the persistent AVL tree.

  The trees are immutable, so a node is a value: key, value, the two subtrees and the cached height; the
  null pointer is \<open>Nil\<close>. The reference counts, which only decide when nodes are freed, are not modelled. A
  function that reads a field of a node that could be null returns \<open>None\<close> if it is. The \<^verbatim>\<open>vtable\<close> of the
  client is the record \<open>avl_vtable\<close>; \<^verbatim>\<open>user_data\<close> is passed on unchanged and left out.
\<close>

datatype ('k, 'v) avl_node =
  Nil | Node (node_key: 'k) (node_value: 'v) (node_left: "('k, 'v) avl_node") (node_right: "('k, 'v) avl_node") (node_h: int)

record ('k, 'v) avl_vtable =
  copy_key :: "'k \<Rightarrow> 'k"
  compare_keys :: "'k \<Rightarrow> 'k \<Rightarrow> int"
  copy_value :: "'v \<Rightarrow> 'v"

fun node_height :: "('k, 'v) avl_node \<Rightarrow> int" where
  "node_height Nil = 0"
| "node_height (Node k v l r h) = h"

fun calculate_height :: "('k, 'v) avl_node \<Rightarrow> int" where
  "calculate_height Nil = 0"
| "calculate_height (Node k v l r h) = 1 + max (calculate_height l) (calculate_height r)"

text \<open>What \<^verbatim>\<open>assert_invariants\<close> asserts of every node.\<close>

fun avl_invariants :: "('k, 'v) avl_node \<Rightarrow> bool" where
  "avl_invariants Nil = True"
| "avl_invariants (Node k v l r h) =
     (avl_invariants l \<and> avl_invariants r \<and> calculate_height (Node k v l r h) = h \<and>
      \<bar>node_height l - node_height r\<bar> \<le> 1)"

definition new_node :: "'k \<Rightarrow> 'v \<Rightarrow> ('k, 'v) avl_node \<Rightarrow> ('k, 'v) avl_node \<Rightarrow> ('k, 'v) avl_node" where
  "new_node key val l r = Node key val l r (1 + max (node_height l) (node_height r))"

fun avl_get :: "('k, 'v) avl_vtable \<Rightarrow> ('k, 'v) avl_node \<Rightarrow> 'k \<Rightarrow> ('k \<times> 'v) option" where
  "avl_get vt Nil key = None"
| "avl_get vt (Node k v l r h) key =
     (let cmp = compare_keys vt k key
      in if cmp = 0 then Some (k, v) else if cmp > 0 then avl_get vt l key else avl_get vt r key)"

fun rotate_left :: "('k, 'v) avl_vtable \<Rightarrow> 'k \<Rightarrow> 'v \<Rightarrow> ('k, 'v) avl_node \<Rightarrow> ('k, 'v) avl_node \<Rightarrow> ('k, 'v) avl_node option" where
  "rotate_left vt key val l (Node rk rv rl rr rh) =
     Some (new_node (copy_key vt rk) (copy_value vt rv) (new_node key val l rl) rr)"
| "rotate_left vt key val l Nil = None"

fun rotate_right :: "('k, 'v) avl_vtable \<Rightarrow> 'k \<Rightarrow> 'v \<Rightarrow> ('k, 'v) avl_node \<Rightarrow> ('k, 'v) avl_node \<Rightarrow> ('k, 'v) avl_node option" where
  "rotate_right vt key val (Node lk lv ll lr lh) r =
     Some (new_node (copy_key vt lk) (copy_value vt lv) ll (new_node key val lr r))"
| "rotate_right vt key val Nil r = None"

fun rotate_left_right :: "('k, 'v) avl_vtable \<Rightarrow> 'k \<Rightarrow> 'v \<Rightarrow> ('k, 'v) avl_node \<Rightarrow> ('k, 'v) avl_node \<Rightarrow> ('k, 'v) avl_node option" where
  "rotate_left_right vt key val (Node lk lv ll (Node mk mv ml mr mh) lh) r =
     Some (new_node (copy_key vt mk) (copy_value vt mv)
       (new_node (copy_key vt lk) (copy_value vt lv) ll ml) (new_node key val mr r))"
| "rotate_left_right vt key val l r = None"

fun rotate_right_left :: "('k, 'v) avl_vtable \<Rightarrow> 'k \<Rightarrow> 'v \<Rightarrow> ('k, 'v) avl_node \<Rightarrow> ('k, 'v) avl_node \<Rightarrow> ('k, 'v) avl_node option" where
  "rotate_right_left vt key val l (Node rk rv (Node mk mv ml mr mh) rr rh) =
     Some (new_node (copy_key vt mk) (copy_value vt mv)
       (new_node key val l ml) (new_node (copy_key vt rk) (copy_value vt rv) mr rr))"
| "rotate_right_left vt key val l r = None"

definition rebalance :: "('k, 'v) avl_vtable \<Rightarrow> 'k \<Rightarrow> 'v \<Rightarrow> ('k, 'v) avl_node \<Rightarrow> ('k, 'v) avl_node \<Rightarrow> ('k, 'v) avl_node option" where
  "rebalance vt key val l r =
     (let diff = node_height l - node_height r
      in if diff = 2 then
           (case l of
              Nil \<Rightarrow> None
            | Node _ _ ll lr _ \<Rightarrow>
                if node_height ll - node_height lr = -1 then rotate_left_right vt key val l r
                else rotate_right vt key val l r)
         else if diff = -2 then
           (case r of
              Nil \<Rightarrow> None
            | Node _ _ rl rr _ \<Rightarrow>
                if node_height rl - node_height rr = 1 then rotate_right_left vt key val l r
                else rotate_left vt key val l r)
         else Some (new_node key val l r))"

fun add_key :: "('k, 'v) avl_vtable \<Rightarrow> ('k, 'v) avl_node \<Rightarrow> 'k \<Rightarrow> 'v \<Rightarrow> ('k, 'v) avl_node option" where
  "add_key vt Nil key val = Some (new_node key val Nil Nil)"
| "add_key vt (Node k v l r h) key val =
     (let cmp = compare_keys vt k key
      in if cmp = 0 then Some (new_node key val l r)
         else if cmp > 0 then
           Option.bind (add_key vt l key val) (\<lambda>l. rebalance vt (copy_key vt k) (copy_value vt v) l r)
         else
           Option.bind (add_key vt r key val) (\<lambda>r. rebalance vt (copy_key vt k) (copy_value vt v) l r))"

fun in_order_head :: "('k, 'v) avl_node \<Rightarrow> ('k \<times> 'v) option" where
  "in_order_head Nil = None"
| "in_order_head (Node k v l r h) = (if l = Nil then Some (k, v) else in_order_head l)"

fun in_order_tail :: "('k, 'v) avl_node \<Rightarrow> ('k \<times> 'v) option" where
  "in_order_tail Nil = None"
| "in_order_tail (Node k v l r h) = (if r = Nil then Some (k, v) else in_order_tail r)"

fun remove_key :: "('k, 'v) avl_vtable \<Rightarrow> ('k, 'v) avl_node \<Rightarrow> 'k \<Rightarrow> ('k, 'v) avl_node option" where
  "remove_key vt Nil key = Some Nil"
| "remove_key vt (Node k v l r h) key =
     (let cmp = compare_keys vt k key
      in if cmp = 0 then
           (if l = Nil then Some r
            else if r = Nil then Some l
            else if node_height l < node_height r then
              Option.bind (in_order_head r) (\<lambda>(hk, hv).
                Option.bind (remove_key vt r hk) (\<lambda>r. rebalance vt (copy_key vt hk) (copy_value vt hv) l r))
            else
              Option.bind (in_order_tail l) (\<lambda>(hk, hv).
                Option.bind (remove_key vt l hk) (\<lambda>l. rebalance vt (copy_key vt hk) (copy_value vt hv) l r)))
         else if cmp > 0 then
           Option.bind (remove_key vt l key) (\<lambda>l. rebalance vt (copy_key vt k) (copy_value vt v) l r)
         else
           Option.bind (remove_key vt r key) (\<lambda>r. rebalance vt (copy_key vt k) (copy_value vt v) l r))"

record ('k, 'v) grpc_avl =
  vtable :: "('k, 'v) avl_vtable"
  root :: "('k, 'v) avl_node"

definition grpc_avl_create :: "('k, 'v) avl_vtable \<Rightarrow> ('k, 'v) grpc_avl" where
  "grpc_avl_create vt = \<lparr>vtable = vt, root = Nil\<rparr>"

definition grpc_avl_get :: "('k, 'v) grpc_avl \<Rightarrow> 'k \<Rightarrow> 'v option" where
  "grpc_avl_get avl key = (case avl_get (vtable avl) (root avl) key of None \<Rightarrow> None | Some (_, v) \<Rightarrow> Some v)"

definition grpc_avl_maybe_get :: "('k, 'v) grpc_avl \<Rightarrow> 'k \<Rightarrow> 'v \<Rightarrow> bool \<times> 'v" where
  "grpc_avl_maybe_get avl key val =
     (case avl_get (vtable avl) (root avl) key of None \<Rightarrow> (False, val) | Some (_, v) \<Rightarrow> (True, v))"

definition grpc_avl_add :: "('k, 'v) grpc_avl \<Rightarrow> 'k \<Rightarrow> 'v \<Rightarrow> ('k, 'v) grpc_avl option" where
  "grpc_avl_add avl key val =
     map_option (\<lambda>t. avl\<lparr>root := t\<rparr>) (add_key (vtable avl) (root avl) key val)"

definition grpc_avl_remove :: "('k, 'v) grpc_avl \<Rightarrow> 'k \<Rightarrow> ('k, 'v) grpc_avl option" where
  "grpc_avl_remove avl key =
     map_option (\<lambda>t. avl\<lparr>root := t\<rparr>) (remove_key (vtable avl) (root avl) key)"

definition grpc_avl_is_empty :: "('k, 'v) grpc_avl \<Rightarrow> bool" where
  "grpc_avl_is_empty avl \<longleftrightarrow> root avl = Nil"

section \<open>Heights\<close>

text \<open>The height is cached, so a balanced tree is one whose node has the height of its subtrees plus one.\<close>

lemma height_eq: "avl_invariants t \<Longrightarrow> calculate_height t = node_height t"
  by (cases t) auto

lemma height_nonneg: "avl_invariants t \<Longrightarrow> 0 \<le> node_height t"
proof (induction t)
  case (Node k v l r h)
  then show ?case using height_eq [of l] height_eq [of r] by auto
qed simp

lemma invariants_new_node:
  "avl_invariants (new_node k v l r) \<longleftrightarrow> avl_invariants l \<and> avl_invariants r \<and> \<bar>node_height l - node_height r\<bar> \<le> 1"
  by (auto simp: new_node_def height_eq)

lemma height_new_node [simp]: "node_height (new_node k v l r) = 1 + max (node_height l) (node_height r)"
  by (simp add: new_node_def)

lemma invariants_Node:
  "avl_invariants (Node k v l r h) \<longleftrightarrow>
    avl_invariants l \<and> avl_invariants r \<and> h = 1 + max (node_height l) (node_height r) \<and> \<bar>node_height l - node_height r\<bar> \<le> 1"
  by (auto simp: height_eq)

declare avl_invariants.simps(2) [simp del]

lemma rebalance_ok:
  assumes "avl_invariants l" "avl_invariants r" "\<bar>node_height l - node_height r\<bar> \<le> 2"
  shows "\<exists>t. rebalance vt k v l r = Some t \<and> avl_invariants t \<and>
    (\<bar>node_height l - node_height r\<bar> \<le> 1 \<longrightarrow> node_height t = 1 + max (node_height l) (node_height r)) \<and>
    (node_height t = max (node_height l) (node_height r) \<or> node_height t = 1 + max (node_height l) (node_height r))"
proof -
  consider "\<bar>node_height l - node_height r\<bar> \<le> 1" | "node_height l - node_height r = 2" | "node_height l - node_height r = -2"
    using assms(3) by linarith
  then show ?thesis
  proof cases
    case 1
    then show ?thesis using assms by (auto simp: rebalance_def Let_def invariants_new_node)
  next
    case 2
    then obtain lk lv ll lr lh where l: "l = Node lk lv ll lr lh"
      using height_nonneg [OF assms(2)] by (cases l) auto
    show ?thesis
    proof (cases "node_height ll - node_height lr = -1")
      case True
      then obtain mk mv ml mr mh where lr: "lr = Node mk mv ml mr mh"
        using height_nonneg [of ll] assms(1) by (cases lr) (auto simp: l invariants_Node)
      show ?thesis
        using 2 True assms by (auto simp: l lr rebalance_def Let_def invariants_new_node invariants_Node)
    next
      case False
      then show ?thesis
        using 2 assms by (auto simp: l rebalance_def Let_def invariants_new_node invariants_Node)
    qed
  next
    case 3
    then obtain rk rv rl rr rh where r: "r = Node rk rv rl rr rh"
      using height_nonneg [OF assms(1)] by (cases r) auto
    show ?thesis
    proof (cases "node_height rl - node_height rr = 1")
      case True
      then obtain mk mv ml mr mh where rl: "rl = Node mk mv ml mr mh"
        using height_nonneg [of rr] assms(2) by (cases rl) (auto simp: r invariants_Node)
      show ?thesis
        using 3 True assms by (auto simp: r rl rebalance_def Let_def invariants_new_node invariants_Node)
    next
      case False
      then show ?thesis
        using 3 assms by (auto simp: r rebalance_def Let_def invariants_new_node invariants_Node)
    qed
  qed
qed

lemma add_key_balanced:
  "avl_invariants t \<Longrightarrow> \<exists>t'. add_key vt t key val = Some t' \<and> avl_invariants t' \<and>
    (node_height t' = node_height t \<or> node_height t' = node_height t + 1)"
proof (induction t)
  case Nil
  then show ?case by (simp add: invariants_new_node)
next
  case (Node k v l r h)
  then have inv: "avl_invariants l" "avl_invariants r" "h = 1 + max (node_height l) (node_height r)"
      "\<bar>node_height l - node_height r\<bar> \<le> 1"
    by (auto simp: invariants_Node)
  consider "compare_keys vt k key = 0" | "compare_keys vt k key > 0" | "compare_keys vt k key < 0" by linarith
  then show ?case
  proof cases
    case 1
    then show ?thesis using inv by (simp add: invariants_new_node)
  next
    case 2
    from Node.IH(1) [OF inv(1)] obtain l' where l': "add_key vt l key val = Some l'" "avl_invariants l'"
      "node_height l' = node_height l \<or> node_height l' = node_height l + 1" by blast
    then have "\<bar>node_height l' - node_height r\<bar> \<le> 2" using inv(4) by linarith
    from rebalance_ok [OF l'(2) inv(2) this, of vt "copy_key vt k" "copy_value vt v"] show ?thesis
      using 2 l' inv by (auto simp: Let_def)
  next
    case 3
    from Node.IH(2) [OF inv(2)] obtain r' where r': "add_key vt r key val = Some r'" "avl_invariants r'"
      "node_height r' = node_height r \<or> node_height r' = node_height r + 1" by blast
    then have "\<bar>node_height l - node_height r'\<bar> \<le> 2" using inv(4) by linarith
    from rebalance_ok [OF inv(1) r'(2) this, of vt "copy_key vt k" "copy_value vt v"] show ?thesis
      using 3 r' inv by (auto simp: Let_def)
  qed
qed

lemma in_order_head_Some: "t \<noteq> Nil \<Longrightarrow> in_order_head t \<noteq> None"
  by (induction t) auto

lemma in_order_tail_Some: "t \<noteq> Nil \<Longrightarrow> in_order_tail t \<noteq> None"
  by (induction t) auto

lemma remove_key_balanced:
  "avl_invariants t \<Longrightarrow> \<exists>t'. remove_key vt t key = Some t' \<and> avl_invariants t' \<and>
    (node_height t' = node_height t \<or> node_height t' = node_height t - 1)"
proof (induction t arbitrary: key)
  case Nil
  then show ?case by simp
next
  case (Node k v l r h)
  then have inv: "avl_invariants l" "avl_invariants r" "h = 1 + max (node_height l) (node_height r)"
      "\<bar>node_height l - node_height r\<bar> \<le> 1"
    by (auto simp: invariants_Node)
  have left: "\<exists>t'. Option.bind (remove_key vt l key') (\<lambda>l. rebalance vt k' v' l r) = Some t' \<and> avl_invariants t' \<and>
      (node_height t' = h \<or> node_height t' = h - 1)" for key' k' v'
  proof -
    from Node.IH(1) [OF inv(1), of key'] obtain l' where l': "remove_key vt l key' = Some l'" "avl_invariants l'"
      "node_height l' = node_height l \<or> node_height l' = node_height l - 1" by blast
    then have "\<bar>node_height l' - node_height r\<bar> \<le> 2" using inv(4) by linarith
    from rebalance_ok [OF l'(2) inv(2) this, of vt k' v'] show ?thesis
      using l' inv by auto
  qed
  have right: "\<exists>t'. Option.bind (remove_key vt r key') (\<lambda>r. rebalance vt k' v' l r) = Some t' \<and> avl_invariants t' \<and>
      (node_height t' = h \<or> node_height t' = h - 1)" for key' k' v'
  proof -
    from Node.IH(2) [OF inv(2), of key'] obtain r' where r': "remove_key vt r key' = Some r'" "avl_invariants r'"
      "node_height r' = node_height r \<or> node_height r' = node_height r - 1" by blast
    then have "\<bar>node_height l - node_height r'\<bar> \<le> 2" using inv(4) by linarith
    from rebalance_ok [OF inv(1) r'(2) this, of vt k' v'] show ?thesis
      using r' inv by auto
  qed
  show ?case
  proof (cases "compare_keys vt k key = 0 \<and> (l = Nil \<or> r = Nil)")
    case True
    then show ?thesis using inv height_nonneg [OF inv(1)] height_nonneg [OF inv(2)] by (auto simp: Let_def)
  next
    case False
    then show ?thesis
      using left right in_order_head_Some [of r] in_order_tail_Some [of l] by (auto simp: Let_def)
  qed
qed


section \<open>The entries in order\<close>

fun entries :: "('k, 'v) avl_node \<Rightarrow> ('k \<times> 'v) list" where
  "entries Nil = []"
| "entries (Node k v l r h) = entries l @ (k, v) # entries r"

definition vtable_ok :: "('k, 'v) avl_vtable \<Rightarrow> bool" where
  "vtable_ok vt \<longleftrightarrow> cmp_ok (compare_keys vt) \<and> (\<forall>k. copy_key vt k = k) \<and> (\<forall>v. copy_value vt v = v)"

definition in_order :: "('k, 'v) avl_vtable \<Rightarrow> ('k, 'v) avl_node \<Rightarrow> bool" where
  "in_order vt t \<longleftrightarrow> sorted_wrt (\<lambda>p q. compare_keys vt (fst p) (fst q) < 0) (entries t)"

lemma entries_new_node [simp]: "entries (new_node k v l r) = entries l @ (k, v) # entries r"
  by (simp add: new_node_def)

lemma rebalance_entries:
  assumes "rebalance vt k v l r = Some t" "vtable_ok vt"
  shows "entries t = entries l @ (k, v) # entries r"
proof -
  have c: "copy_key vt x = x" "copy_value vt y = y" for x y using assms(2) by (auto simp: vtable_ok_def)
  have rl: "rotate_left vt k v l r = Some t \<Longrightarrow> ?thesis" by (cases r) (auto simp: c)
  have rr: "rotate_right vt k v l r = Some t \<Longrightarrow> ?thesis" by (cases l) (auto simp: c)
  have rlr: "rotate_left_right vt k v l r = Some t \<Longrightarrow> ?thesis"
    by (cases "(vt, k, v, l, r)" rule: rotate_left_right.cases) (auto simp: c)
  have rrl: "rotate_right_left vt k v l r = Some t \<Longrightarrow> ?thesis"
    by (cases "(vt, k, v, l, r)" rule: rotate_right_left.cases) (auto simp: c)
  show ?thesis
    using assms(1) rl rr rlr rrl by (auto simp: rebalance_def Let_def split: if_splits avl_node.splits)
qed

lemma in_order_Node:
  "in_order vt (Node k v l r h) \<longleftrightarrow> in_order vt l \<and> in_order vt r \<and>
    (\<forall>p \<in> set (entries l). compare_keys vt (fst p) k < 0) \<and> (\<forall>p \<in> set (entries r). compare_keys vt k (fst p) < 0) \<and>
    (\<forall>p \<in> set (entries l). \<forall>q \<in> set (entries r). compare_keys vt (fst p) (fst q) < 0)"
  by (auto simp: in_order_def sorted_wrt_append)

text \<open>Lookup, insertion and removal on the ordered list of entries.\<close>

definition below :: "('k, 'v) avl_vtable \<Rightarrow> 'k \<Rightarrow> ('k \<times> 'v) list \<Rightarrow> ('k \<times> 'v) list" where
  "below vt key ps = filter (\<lambda>p. compare_keys vt (fst p) key < 0) ps"

definition beyond :: "('k, 'v) avl_vtable \<Rightarrow> 'k \<Rightarrow> ('k \<times> 'v) list \<Rightarrow> ('k \<times> 'v) list" where
  "beyond vt key ps = filter (\<lambda>p. 0 < compare_keys vt (fst p) key) ps"

lemma below_beyond_append:
  "below vt key (xs @ ys) = below vt key xs @ below vt key ys"
  "beyond vt key (xs @ ys) = beyond vt key xs @ beyond vt key ys"
  by (simp_all add: below_def beyond_def)

lemma all_beyond: "\<forall>p \<in> set ps. 0 < compare_keys vt (fst p) key \<Longrightarrow> below vt key ps = [] \<and> beyond vt key ps = ps"
  by (induction ps) (auto simp: below_def beyond_def)

lemma all_below: "\<forall>p \<in> set ps. compare_keys vt (fst p) key < 0 \<Longrightarrow> below vt key ps = ps \<and> beyond vt key ps = []"
  by (induction ps) (auto simp: below_def beyond_def)

lemma node_sides:
  assumes "vtable_ok vt" "in_order vt (Node k v l r h)"
  shows "0 < compare_keys vt k key \<Longrightarrow> \<forall>p \<in> set (entries r). 0 < compare_keys vt (fst p) key"
    and "compare_keys vt k key < 0 \<Longrightarrow> \<forall>p \<in> set (entries l). compare_keys vt (fst p) key < 0"
    and "compare_keys vt k key = 0 \<Longrightarrow> \<forall>p \<in> set (entries r). 0 < compare_keys vt (fst p) key"
    and "compare_keys vt k key = 0 \<Longrightarrow> \<forall>p \<in> set (entries l). compare_keys vt (fst p) key < 0"
proof -
  have "comparator (compare_keys vt)" using assms(1) by (simp add: vtable_ok_def comparator_def)
  note s = comparator.sides [OF this]
  show "0 < compare_keys vt k key \<Longrightarrow> \<forall>p \<in> set (entries r). 0 < compare_keys vt (fst p) key"
    "compare_keys vt k key < 0 \<Longrightarrow> \<forall>p \<in> set (entries l). compare_keys vt (fst p) key < 0"
    "compare_keys vt k key = 0 \<Longrightarrow> \<forall>p \<in> set (entries r). 0 < compare_keys vt (fst p) key"
    "compare_keys vt k key = 0 \<Longrightarrow> \<forall>p \<in> set (entries l). compare_keys vt (fst p) key < 0"
    using assms(2) s by (auto simp: in_order_Node)
qed

lemma add_key_entries:
  "vtable_ok vt \<Longrightarrow> in_order vt t \<Longrightarrow> add_key vt t key val = Some t' \<Longrightarrow>
    entries t' = below vt key (entries t) @ (key, val) # beyond vt key (entries t)"
proof (induction t arbitrary: t')
  case Nil
  then show ?case by (auto simp: below_def beyond_def)
next
  case (Node k v l r h)
  note sd = node_sides [OF Node.prems(1,2), of key]
  have io: "in_order vt l" "in_order vt r" using Node.prems(2) by (simp_all add: in_order_Node)
  consider "compare_keys vt k key = 0" | "0 < compare_keys vt k key" | "compare_keys vt k key < 0" by linarith
  then show ?case
  proof cases
    case 1
    then show ?thesis
      using Node.prems(3) all_beyond [OF sd(3)] all_below [OF sd(4)]
      by (auto simp: below_beyond_append) (simp_all add: below_def beyond_def)
  next
    case 2
    then obtain l' where l': "add_key vt l key val = Some l'" and t': "rebalance vt (copy_key vt k) (copy_value vt v) l' r = Some t'"
      using Node.prems(3) by (auto simp: Let_def bind_eq_Some_conv)
    from rebalance_entries [OF t' Node.prems(1)] Node.IH(1) [OF Node.prems(1) io(1) l'] 2 Node.prems(1)
    show ?thesis
      using all_beyond [OF sd(1) [OF 2]]
      by (simp add: below_beyond_append vtable_ok_def) (simp add: below_def beyond_def)
  next
    case 3
    then obtain r' where r': "add_key vt r key val = Some r'" and t': "rebalance vt (copy_key vt k) (copy_value vt v) l r' = Some t'"
      using Node.prems(3) by (auto simp: Let_def bind_eq_Some_conv)
    from rebalance_entries [OF t' Node.prems(1)] Node.IH(2) [OF Node.prems(1) io(2) r'] 3 Node.prems(1)
    show ?thesis
      using all_below [OF sd(2) [OF 3]]
      by (simp add: below_beyond_append vtable_ok_def) (simp add: below_def beyond_def)
  qed
qed

lemma in_order_head_entries: "in_order_head t = Some p \<Longrightarrow> \<exists>ps. entries t = p # ps"
  by (induction t) (auto split: if_splits)

lemma in_order_tail_entries: "in_order_tail t = Some p \<Longrightarrow> \<exists>ps. entries t = ps @ [p]"
  by (induction t) (auto split: if_splits)

lemma beyond_head:
  assumes "vtable_ok vt" "in_order vt t" "entries t = p # ps"
  shows "below vt (fst p) (entries t) = [] \<and> beyond vt (fst p) (entries t) = ps"
proof -
  have c: "comparator (compare_keys vt)" using assms(1) by (simp add: vtable_ok_def comparator_def)
  have "\<forall>q \<in> set ps. compare_keys vt (fst p) (fst q) < 0" using assms(2,3) by (simp add: in_order_def)
  then have "\<forall>q \<in> set ps. 0 < compare_keys vt (fst q) (fst p)" using comparator.flip [OF c] by blast
  then show ?thesis
    using all_beyond [of ps vt "fst p"] comparator.refl [OF c] assms(3) by (simp add: below_def beyond_def)
qed

lemma below_tail:
  assumes "vtable_ok vt" "in_order vt t" "entries t = ps @ [p]"
  shows "below vt (fst p) (entries t) = ps \<and> beyond vt (fst p) (entries t) = []"
proof -
  have c: "comparator (compare_keys vt)" using assms(1) by (simp add: vtable_ok_def comparator_def)
  have "\<forall>q \<in> set ps. compare_keys vt (fst q) (fst p) < 0" using assms(2,3) by (simp add: in_order_def sorted_wrt_append)
  then show ?thesis
    using all_below [of ps vt "fst p"] comparator.refl [OF c] assms(3) by (simp add: below_def beyond_def)
qed

lemma remove_key_entries:
  "vtable_ok vt \<Longrightarrow> in_order vt t \<Longrightarrow> remove_key vt t key = Some t' \<Longrightarrow>
    entries t' = below vt key (entries t) @ beyond vt key (entries t)"
proof (induction t arbitrary: key t')
  case Nil
  then show ?case by (auto simp: below_def beyond_def)
next
  case (Node k v l r h)
  note sd = node_sides [OF Node.prems(1,2), of key]
  have io: "in_order vt l" "in_order vt r" using Node.prems(2) by (simp_all add: in_order_Node)
  have copy: "copy_key vt x = x" "copy_value vt y = y" for x y using Node.prems(1) by (simp_all add: vtable_ok_def)
  consider "compare_keys vt k key = 0" | "0 < compare_keys vt k key" | "compare_keys vt k key < 0" by linarith
  then show ?case
  proof cases
    case 1
    have e: "below vt key (entries (Node k v l r h)) @ beyond vt key (entries (Node k v l r h)) = entries l @ entries r"
      using all_beyond [OF sd(3) [OF 1]] all_below [OF sd(4) [OF 1]] 1
      by (simp add: below_beyond_append) (simp add: below_def beyond_def)
    consider "l = Nil" | "l \<noteq> Nil" "r = Nil" | "l \<noteq> Nil" "r \<noteq> Nil" "node_height l < node_height r"
      | "l \<noteq> Nil" "r \<noteq> Nil" "\<not> node_height l < node_height r" by blast
    then show ?thesis
    proof cases
      case a: 3
      then obtain hk hv r' where hd: "in_order_head r = Some (hk, hv)" and r': "remove_key vt r hk = Some r'"
        and t': "rebalance vt hk hv l r' = Some t'"
        using Node.prems(3) 1 by (auto simp: Let_def bind_eq_Some_conv copy)
      from in_order_head_entries [OF hd] obtain ps where ps: "entries r = (hk, hv) # ps" by auto
      have "entries r' = ps" using Node.IH(2) [OF Node.prems(1) io(2) r'] beyond_head [OF Node.prems(1) io(2) ps] by simp
      then show ?thesis using rebalance_entries [OF t' Node.prems(1)] e ps by simp
    next
      case a: 4
      then obtain hk hv l' where hd: "in_order_tail l = Some (hk, hv)" and l': "remove_key vt l hk = Some l'"
        and t': "rebalance vt hk hv l' r = Some t'"
        using Node.prems(3) 1 by (auto simp: Let_def bind_eq_Some_conv copy)
      from in_order_tail_entries [OF hd] obtain ps where ps: "entries l = ps @ [(hk, hv)]" by auto
      have "entries l' = ps" using Node.IH(1) [OF Node.prems(1) io(1) l'] below_tail [OF Node.prems(1) io(1) ps] by simp
      then show ?thesis using rebalance_entries [OF t' Node.prems(1)] e ps by simp
    qed (use Node.prems(3) 1 e in auto)
  next
    case 2
    then obtain l' where l': "remove_key vt l key = Some l'" and t': "rebalance vt k v l' r = Some t'"
      using Node.prems(3) by (auto simp: Let_def bind_eq_Some_conv copy)
    from rebalance_entries [OF t' Node.prems(1)] Node.IH(1) [OF Node.prems(1) io(1) l'] 2
    show ?thesis
      using all_beyond [OF sd(1) [OF 2]] by (simp add: below_beyond_append) (simp add: below_def beyond_def)
  next
    case 3
    then obtain r' where r': "remove_key vt r key = Some r'" and t': "rebalance vt k v l r' = Some t'"
      using Node.prems(3) by (auto simp: Let_def bind_eq_Some_conv copy)
    from rebalance_entries [OF t' Node.prems(1)] Node.IH(2) [OF Node.prems(1) io(2) r'] 3
    show ?thesis
      using all_below [OF sd(2) [OF 3]] by (simp add: below_beyond_append) (simp add: below_def beyond_def)
  qed
qed

lemma avl_get_entries:
  "vtable_ok vt \<Longrightarrow> in_order vt t \<Longrightarrow> avl_get vt t key = List.find (\<lambda>p. compare_keys vt (fst p) key = 0) (entries t)"
proof (induction t)
  case Nil
  then show ?case by simp
next
  case (Node k v l r h)
  note sd = node_sides [OF Node.prems, of key]
  have io: "in_order vt l" "in_order vt r" using Node.prems(2) by (simp_all add: in_order_Node)
  have find_app: "List.find P (xs @ ys) = (case List.find P xs of None \<Rightarrow> List.find P ys | Some x \<Rightarrow> Some x)" for P :: "'a \<times> 'b \<Rightarrow> bool" and xs ys
    by (induction xs) auto
  have none: "List.find (\<lambda>p. compare_keys vt (fst p) key = 0) ps = None" if "\<forall>p \<in> set ps. compare_keys vt (fst p) key \<noteq> 0" for ps :: "('a \<times> 'b) list"
    using that by (induction ps) auto
  consider "compare_keys vt k key = 0" | "0 < compare_keys vt k key" | "compare_keys vt k key < 0" by linarith
  then show ?case
  proof cases
    case 1
    then have "\<forall>p \<in> set (entries l). compare_keys vt (fst p) key \<noteq> 0" using sd(4) by fastforce
    from none [OF this] 1 show ?thesis by (simp add: find_app)
  next
    case 2
    then have "\<forall>p \<in> set (entries r). compare_keys vt (fst p) key \<noteq> 0" using sd(1) by fastforce
    from none [OF this] 2 Node.IH(1) [OF Node.prems(1) io(1)] show ?thesis
      by (simp add: find_app Let_def split: option.splits)
  next
    case 3
    then have "\<forall>p \<in> set (entries l). compare_keys vt (fst p) key \<noteq> 0" using sd(2) by fastforce
    from none [OF this] 3 Node.IH(2) [OF Node.prems(1) io(2)] show ?thesis
      by (simp add: find_app Let_def)
  qed
qed


section \<open>The dictionary\<close>

lemma sorted_split:
  assumes "vtable_ok vt" "in_order vt t"
  shows "entries t = below vt key (entries t) @ filter (\<lambda>p. compare_keys vt (fst p) key = 0) (entries t) @ beyond vt key (entries t)"
proof -
  have c: "comparator (compare_keys vt)" using assms(1) by (simp add: vtable_ok_def comparator_def)
  have "ps = below vt key ps @ filter (\<lambda>p. compare_keys vt (fst p) key = 0) ps @ beyond vt key ps"
    if "sorted_wrt (\<lambda>p q. compare_keys vt (fst p) (fst q) < 0) ps" for ps :: "('a \<times> 'b) list"
    using that
  proof (induction ps)
    case Nil
    then show ?case by (simp add: below_def beyond_def)
  next
    case (Cons p ps)
    have IH: "ps = below vt key ps @ filter (\<lambda>p. compare_keys vt (fst p) key = 0) ps @ beyond vt key ps"
      using Cons by simp
    consider "compare_keys vt (fst p) key < 0" | "compare_keys vt (fst p) key = 0" | "0 < compare_keys vt (fst p) key" by linarith
    then show ?case
    proof cases
      case 1
      then show ?thesis using IH by (simp add: below_def beyond_def)
    next
      case 2
      then have all: "\<forall>q \<in> set ps. 0 < compare_keys vt (fst q) key" using Cons.prems comparator.sides(3) [OF c] by auto
      from all_beyond [OF this] all 2 show ?thesis
        by (auto simp: below_def beyond_def filter_empty_conv)
    next
      case 3
      then have all: "\<forall>q \<in> set ps. 0 < compare_keys vt (fst q) key" using Cons.prems comparator.sides(1) [OF c] by auto
      from all_beyond [OF this] all 3 show ?thesis
        by (auto simp: below_def beyond_def filter_empty_conv)
    qed
  qed
  then show ?thesis using assms(2) by (simp add: in_order_def)
qed

lemma in_order_updated:
  assumes "vtable_ok vt" "in_order vt t"
  shows "entries t' = below vt key (entries t) @ (key, val) # beyond vt key (entries t) \<Longrightarrow> in_order vt t'"
    and "entries t' = below vt key (entries t) @ beyond vt key (entries t) \<Longrightarrow> in_order vt t'"
proof -
  have c: "comparator (compare_keys vt)" using assms(1) by (simp add: vtable_ok_def comparator_def)
  have side: "compare_keys vt (fst p) (fst q) < 0" if "p \<in> set (below vt key (entries t))" "q \<in> set (beyond vt key (entries t))" for p q
    using that comparator.less_trans [OF c, of "fst p" key "fst q"] comparator.flip [OF c, of key "fst q"]
    by (auto simp: below_def beyond_def)
  have s: "sorted_wrt (\<lambda>p q. compare_keys vt (fst p) (fst q) < 0) (below vt key (entries t))"
    "sorted_wrt (\<lambda>p q. compare_keys vt (fst p) (fst q) < 0) (beyond vt key (entries t))"
    using assms(2) by (auto simp: in_order_def below_def beyond_def sorted_wrt_filter)
  show "in_order vt t'" if e: "entries t' = below vt key (entries t) @ (key, val) # beyond vt key (entries t)"
    using s side comparator.flip [OF c] unfolding in_order_def e sorted_wrt_append
    by (auto simp: below_def beyond_def)
  show "in_order vt t'" if e: "entries t' = below vt key (entries t) @ beyond vt key (entries t)"
    using s side unfolding in_order_def e sorted_wrt_append by auto
qed

lemma find_append: "List.find P (xs @ ys) = (case List.find P xs of None \<Rightarrow> List.find P ys | Some x \<Rightarrow> Some x)"
  by (induction xs) auto

lemma find_none: "\<forall>p \<in> set ps. \<not> P p \<Longrightarrow> List.find P ps = None"
  by (induction ps) auto

text \<open>A key that is equal to \<open>key\<close> is found neither below nor beyond it, any other is not found between.\<close>

lemma find_updated:
  assumes "vtable_ok vt" "in_order vt t"
  shows "compare_keys vt key k = 0 \<Longrightarrow> List.find (\<lambda>p. compare_keys vt (fst p) k = 0) (below vt key (entries t)) = None"
    and "compare_keys vt key k = 0 \<Longrightarrow> List.find (\<lambda>p. compare_keys vt (fst p) k = 0) (beyond vt key (entries t)) = None"
    and "compare_keys vt key k \<noteq> 0 \<Longrightarrow> \<forall>p \<in> set mid. fst p = key \<Longrightarrow>
      List.find (\<lambda>p. compare_keys vt (fst p) k = 0) (below vt key (entries t) @ mid @ beyond vt key (entries t)) =
      List.find (\<lambda>p. compare_keys vt (fst p) k = 0) (entries t)"
proof -
  have c: "comparator (compare_keys vt)" using assms(1) by (simp add: vtable_ok_def comparator_def)
  show "List.find (\<lambda>p. compare_keys vt (fst p) k = 0) (below vt key (entries t)) = None" if "compare_keys vt key k = 0"
    using comparator.sides(4) [OF c that] by (intro find_none) (force simp: below_def)
  show "List.find (\<lambda>p. compare_keys vt (fst p) k = 0) (beyond vt key (entries t)) = None" if "compare_keys vt key k = 0"
    using comparator.sides(3) [OF c that] comparator.flip [OF c] by (intro find_none) (force simp: beyond_def)
  show "List.find (\<lambda>p. compare_keys vt (fst p) k = 0) (below vt key (entries t) @ mid @ beyond vt key (entries t)) =
      List.find (\<lambda>p. compare_keys vt (fst p) k = 0) (entries t)" if ne: "compare_keys vt key k \<noteq> 0" "\<forall>p \<in> set mid. fst p = key"
  proof -
    have "List.find (\<lambda>p. compare_keys vt (fst p) k = 0) (filter (\<lambda>p. compare_keys vt (fst p) key = 0) (entries t)) = None"
      using ne comparator.eq_trans [OF c, of key _ k] comparator.eq_sym [OF c] by (intro find_none) auto
    moreover have "List.find (\<lambda>p. compare_keys vt (fst p) k = 0) mid = None"
      using ne by (intro find_none) auto
    ultimately show ?thesis
      by (subst (3) sorted_split [OF assms, of key]) (simp add: find_append split: option.split)
  qed
qed

definition avl_good :: "('k, 'v) grpc_avl \<Rightarrow> bool" where
  "avl_good avl \<longleftrightarrow> vtable_ok (vtable avl) \<and> avl_invariants (root avl) \<and> in_order (vtable avl) (root avl)"

definition avl_same :: "('k, 'v) grpc_avl \<Rightarrow> 'k \<Rightarrow> 'k \<Rightarrow> bool" where
  "avl_same avl k k' \<longleftrightarrow> compare_keys (vtable avl) k k' = 0"

lemma grpc_avl_get_entries:
  "avl_good avl \<Longrightarrow> grpc_avl_get avl key =
    map_option snd (List.find (\<lambda>p. compare_keys (vtable avl) (fst p) key = 0) (entries (root avl)))"
  by (auto simp: grpc_avl_get_def avl_good_def avl_get_entries split: option.splits)

lemma add_good:
  assumes "avl_good avl"
  shows "\<exists>avl'. grpc_avl_add avl key val = Some avl' \<and> avl_good avl' \<and> vtable avl' = vtable avl \<and>
    entries (root avl') = below (vtable avl) key (entries (root avl)) @ (key, val) # beyond (vtable avl) key (entries (root avl))"
proof -
  have g: "vtable_ok (vtable avl)" "avl_invariants (root avl)" "in_order (vtable avl) (root avl)"
    using assms by (simp_all add: avl_good_def)
  from add_key_balanced [OF g(2), of "vtable avl" key val] obtain t'
    where t': "add_key (vtable avl) (root avl) key val = Some t'" "avl_invariants t'" by blast
  note e = add_key_entries [OF g(1,3) t'(1)]
  show ?thesis
    using t' g e in_order_updated(1) [OF g(1,3) e] by (simp add: grpc_avl_add_def avl_good_def)
qed

lemma remove_good:
  assumes "avl_good avl"
  shows "\<exists>avl'. grpc_avl_remove avl key = Some avl' \<and> avl_good avl' \<and> vtable avl' = vtable avl \<and>
    entries (root avl') = below (vtable avl) key (entries (root avl)) @ beyond (vtable avl) key (entries (root avl))"
proof -
  have g: "vtable_ok (vtable avl)" "avl_invariants (root avl)" "in_order (vtable avl) (root avl)"
    using assms by (simp_all add: avl_good_def)
  from remove_key_balanced [OF g(2), of "vtable avl" key] obtain t'
    where t': "remove_key (vtable avl) (root avl) key = Some t'" "avl_invariants t'" by blast
  note e = remove_key_entries [OF g(1,3) t'(1)]
  show ?thesis
    using t' g e in_order_updated(2) [OF g(1,3) e] by (simp add: grpc_avl_remove_def avl_good_def)
qed

interpretation avl_map: key_map fst snd avl_same avl_good grpc_avl_get "\<lambda>avl e. grpc_avl_add avl (fst e) (snd e)" grpc_avl_remove
proof
  fix m :: "('k, 'v) grpc_avl" and e :: "'k \<times> 'v"
  obtain k v where e: "e = (k, v)" by (cases e)
  assume g: "avl_good m"
  then have o: "vtable_ok (vtable m)" "in_order (vtable m) (root m)" by (simp_all add: avl_good_def)
  from add_good [OF g, of k v] obtain m' where m': "grpc_avl_add m k v = Some m'" "avl_good m'" "vtable m' = vtable m"
    "entries (root m') = below (vtable m) k (entries (root m)) @ (k, v) # beyond (vtable m) k (entries (root m))" by blast
  have "grpc_avl_get m' k' = (if avl_same m k k' then Some v else grpc_avl_get m k')" for k'
    using find_updated(1,2) [OF o, of k k'] find_updated(3) [OF o, of k k' "[(k, v)]"] m'
    by (cases "compare_keys (vtable m) k k' = 0")
      (simp_all add: grpc_avl_get_entries [OF g] grpc_avl_get_entries [OF m'(2)] avl_same_def find_append [of _ "below a b c" for a b c])
  then show "\<exists>m'. grpc_avl_add m (fst e) (snd e) = Some m' \<and> avl_good m' \<and> avl_same m' = avl_same m \<and>
      (\<forall>k'. grpc_avl_get m' k' = (if avl_same m (fst e) k' then Some (snd e) else grpc_avl_get m k'))"
    using m' by (auto simp: e avl_same_def fun_eq_iff)
next
  fix m :: "('k, 'v) grpc_avl" and k
  assume g: "avl_good m"
  then have o: "vtable_ok (vtable m)" "in_order (vtable m) (root m)" by (simp_all add: avl_good_def)
  from remove_good [OF g, of k] obtain m' where m': "grpc_avl_remove m k = Some m'" "avl_good m'" "vtable m' = vtable m"
    "entries (root m') = below (vtable m) k (entries (root m)) @ beyond (vtable m) k (entries (root m))" by blast
  have "grpc_avl_get m' k' = (if avl_same m k k' then None else grpc_avl_get m k')" for k'
    using find_updated(1,2) [OF o, of k k'] find_updated(3) [OF o, of k k' "[]"] m'
    by (cases "compare_keys (vtable m) k k' = 0")
      (simp_all add: grpc_avl_get_entries [OF g] grpc_avl_get_entries [OF m'(2)] avl_same_def find_append [of _ "below a b c" for a b c])
  then show "\<exists>m'. grpc_avl_remove m k = Some m' \<and> avl_good m' \<and> avl_same m' = avl_same m \<and>
      (\<forall>k'. grpc_avl_get m' k' = (if avl_same m k k' then None else grpc_avl_get m k'))"
    using m' by (auto simp: avl_same_def fun_eq_iff)
qed

text \<open>A tree of height \<open>h\<close> has at least \<open>2 ^ (h div 2) - 1\<close> entries.\<close>

lemma height_entries:
  "avl_invariants t \<Longrightarrow> 2 ^ (nat (node_height t) div 2) \<le> Suc (length (entries t))"
proof (induction t)
  case Nil
  then show ?case by simp
next
  case (Node k v l r h)
  then have inv: "avl_invariants l" "avl_invariants r" "h = 1 + max (node_height l) (node_height r)"
      "\<bar>node_height l - node_height r\<bar> \<le> 1"
    by (auto simp: invariants_Node)
  have hn: "0 \<le> node_height l" "0 \<le> node_height r" using inv by (simp_all add: height_nonneg)
  show ?case
  proof (cases "nat h < 2")
    case True
    then show ?thesis by simp
  next
    case False
    have "2 \<le> n \<Longrightarrow> n div 2 = Suc ((n - 2) div 2)" for n :: nat by presburger
    with False have half: "nat h div 2 = Suc ((nat h - 2) div 2)" by simp
    have "(nat h - 2) div 2 \<le> nat (node_height l) div 2" "(nat h - 2) div 2 \<le> nat (node_height r) div 2"
      using inv(3,4) hn False by (auto intro!: div_le_mono)
    then have pow: "(2::nat) ^ ((nat h - 2) div 2) \<le> 2 ^ (nat (node_height l) div 2)"
      "(2::nat) ^ ((nat h - 2) div 2) \<le> 2 ^ (nat (node_height r) div 2)"
      by (intro power_increasing; simp)+
    have "(2::nat) ^ ((nat h - 2) div 2) \<le> Suc (length (entries l))" "(2::nat) ^ ((nat h - 2) div 2) \<le> Suc (length (entries r))"
      using order_trans [OF pow(1)] order_trans [OF pow(2)] Node.IH inv by blast+
    then show ?thesis by (simp add: half del: nat_add_distrib)
  qed
qed


section \<open>Properties\<close>

lemma avl_create_good: "vtable_ok vt \<Longrightarrow> avl_good (grpc_avl_create vt)"
  by (simp add: avl_good_def grpc_avl_create_def in_order_def)

lemma avl_create_get [simp]: "grpc_avl_get (grpc_avl_create vt) k = None"
  by (simp add: grpc_avl_get_def grpc_avl_create_def)

definition int_vtable :: "(int, 'v) avl_vtable" where
  "int_vtable = \<lparr>copy_key = (\<lambda>k. k), compare_keys = (\<lambda>x y. x - y), copy_value = (\<lambda>v. v)\<rparr>"

lemma int_vtable_ok: "vtable_ok int_vtable"
  by (simp add: vtable_ok_def int_vtable_def cmp_ok_def)

text \<open>C11: No sequence of additions and removals dereferences a null pointer or violates what
  \<^verbatim>\<open>assert_invariants\<close> asserts, and a lookup then finds the value of the last addition of the key that
  no removal followed.\<close>

theorem avl_programs:
  assumes "avl_good avl"
  shows "\<exists>avl'. run_ops (\<lambda>a e. grpc_avl_add a (fst e) (snd e)) grpc_avl_remove ops avl = Some avl' \<and> avl_good avl' \<and>
    (\<forall>k. grpc_avl_get avl' k = found_after (avl_same avl) fst snd ops k (grpc_avl_get avl k))"
  using avl_map.run_law [OF assms, of ops] by blast

theorem avl_programs_witness:
  "\<exists>avl'. run_ops (\<lambda>a e. grpc_avl_add a (fst e) (snd e)) grpc_avl_remove [Put (3, ''c''), Put (2, ''b''), Put (1, ''a''), Del 2] (grpc_avl_create int_vtable) = Some avl' \<and>
    avl_good avl' \<and> grpc_avl_get avl' 1 = Some ''a'' \<and> grpc_avl_get avl' 2 = None"
proof -
  have same: "avl_same (grpc_avl_create int_vtable) k k' \<longleftrightarrow> k = k'" for k k'
    by (simp add: avl_same_def grpc_avl_create_def int_vtable_def)
  show ?thesis
    using avl_programs [OF avl_create_good [OF int_vtable_ok], of "[Put (3, ''c''), Put (2, ''b''), Put (1, ''a''), Del 2]"]
    by (auto simp: same)
qed

text \<open>An addition replaces the entry of the key in the ordered list of entries, or inserts it between the smaller and the
  greater keys, and a removal deletes it; all other entries stay as they are.\<close>

theorem avl_updates_ordered_list:
  assumes "avl_good avl" "entries (root avl) = lo @ mid @ hi"
    and "\<forall>p \<in> set lo. compare_keys (vtable avl) (fst p) key < 0"
    and "\<forall>p \<in> set mid. compare_keys (vtable avl) (fst p) key = 0"
    and "\<forall>p \<in> set hi. compare_keys (vtable avl) (fst p) key > 0"
  shows "map_option (\<lambda>a. entries (root a)) (grpc_avl_add avl key val) = Some (lo @ (key, val) # hi) \<and>
    map_option (\<lambda>a. entries (root a)) (grpc_avl_remove avl key) = Some (lo @ hi)"
proof -
  have "below (vtable avl) key (entries (root avl)) = lo" "beyond (vtable avl) key (entries (root avl)) = hi"
    using all_below [OF assms(3)] all_beyond [OF assms(5)] assms(2,4)
    by (auto simp: below_beyond_append) (auto simp: below_def beyond_def filter_empty_conv)
  then show ?thesis
    using add_good [OF assms(1), of key val] remove_good [OF assms(1), of key] by auto
qed

theorem avl_updates_ordered_list_witness:
  "map_option (\<lambda>a. entries (root a)) (grpc_avl_add \<lparr>vtable = int_vtable, root = Node 5 ''e'' Nil Nil 1\<rparr> 7 ''g'') =
    Some [(5, ''e''), (7, ''g'')]"
  using avl_updates_ordered_list [of "\<lparr>vtable = int_vtable, root = Node 5 ''e'' Nil Nil 1\<rparr>" "[(5, ''e'')]" "[]" "[]" 7 "''g''"]
  by (simp add: avl_good_def int_vtable_ok avl_invariants.simps in_order_def) (simp add: int_vtable_def)

text \<open>The comparisons that a lookup makes.\<close>

fun get_steps :: "('k, 'v) avl_vtable \<Rightarrow> ('k, 'v) avl_node \<Rightarrow> 'k \<Rightarrow> nat" where
  "get_steps vt Nil key = 0"
| "get_steps vt (Node k v l r h) key =
     Suc (if compare_keys vt k key = 0 then 0
          else if compare_keys vt k key > 0 then get_steps vt l key else get_steps vt r key)"

lemma get_steps_height: "avl_invariants t \<Longrightarrow> int (get_steps vt t key) \<le> node_height t"
  by (induction t) (auto simp: invariants_Node max_def)

text \<open>The tree stays shallow: in every tree built from the empty one, the height is at most twice the logarithm of
  the number of entries plus one, and a lookup makes no more comparisons than that.\<close>

theorem avl_shallow:
  assumes "vtable_ok vt" "run_ops (\<lambda>a e. grpc_avl_add a (fst e) (snd e)) grpc_avl_remove ops (grpc_avl_create vt) = Some avl"
  shows "2 ^ (nat (node_height (root avl)) div 2) \<le> Suc (length (entries (root avl))) \<and>
    int (get_steps (vtable avl) (root avl) key) \<le> node_height (root avl)"
proof -
  have "avl_good avl"
    using avl_map.run_law [OF avl_create_good [OF assms(1)], of ops] assms(2) by auto
  then show ?thesis using height_entries get_steps_height by (auto simp: avl_good_def)
qed

theorem avl_shallow_witness:
  "\<exists>avl. run_ops (\<lambda>a e. grpc_avl_add a (fst e) (snd e)) grpc_avl_remove [Put (1, ''a''), Put (2, ''b''), Put (3, ''c'')] (grpc_avl_create int_vtable) = Some avl \<and>
    2 ^ (nat (node_height (root avl)) div 2) \<le> Suc (length (entries (root avl)))"
  using avl_map.run_law [OF avl_create_good [OF int_vtable_ok], of "[Put (1, ''a''), Put (2, ''b''), Put (3, ''c'')]"]
    avl_shallow [OF int_vtable_ok, of "[Put (1, ''a''), Put (2, ''b''), Put (3, ''c'')]"] by blast

end
