(* ===== verification/Lhash.thy ===== *)
theory Lhash
  imports Mem Key_Map
begin

text \<open>
  \<^verbatim>\<open>crypto/lhash/lhash.c\<close>: the chained hash table.

  A chain is the list of its items and the table the list of its chains. A pointer to the \<open>next\<close> pointer of
  a chain, as \<^verbatim>\<open>get_next_ptr_and_hash\<close> returns it, is the pair of the bucket and of the position in the chain; it points to NULL
  if the position is the length of the chain. The elements are abstract, non-null pointers; the two callbacks of
  the client are fields of the table, and the typed wrappers through which the code calls them are left out.
\<close>

record 'd LHASH_ITEM =
  item_data :: 'd
  item_hash :: u32

record 'd lhash_st =
  num_items :: nat
  buckets :: "'d LHASH_ITEM list list"
  num_buckets :: nat
  callback_depth :: nat
  lh_comp :: "'d \<Rightarrow> 'd \<Rightarrow> int"
  lh_hash :: "'d \<Rightarrow> u32"

definition kMinNumBuckets :: nat where "kMinNumBuckets = 16"
definition kMaxAverageChainLength :: nat where "kMaxAverageChainLength = 2"
definition kMinAverageChainLength :: nat where "kMinAverageChainLength = 1"
definition sizeof_LHASH :: nat where "sizeof_LHASH = 48"
definition sizeof_LHASH_ITEM :: nat where "sizeof_LHASH_ITEM = 24"
definition sizeof_item_ptr :: nat where "sizeof_item_ptr = 8"
definition uint_max :: nat where "uint_max = 2 ^ 32 - 1"

definition lh_new :: "libc_malloc \<Rightarrow> ('d \<Rightarrow> u32) \<Rightarrow> ('d \<Rightarrow> 'd \<Rightarrow> int) \<Rightarrow> 'd lhash_st option" where
  "lh_new m hash cmpf =
     (case OPENSSL_malloc m sizeof_LHASH of
        None \<Rightarrow> None
      | Some _ \<Rightarrow>
          (case OPENSSL_malloc m (sizeof_item_ptr * kMinNumBuckets) of
             None \<Rightarrow> None
           | Some _ \<Rightarrow> Some \<lparr>num_items = 0, buckets = replicate kMinNumBuckets [], num_buckets = kMinNumBuckets,
               callback_depth = 0, lh_comp = cmpf, lh_hash = hash\<rparr>))"

definition lh_num_items :: "'d lhash_st \<Rightarrow> nat" where
  "lh_num_items lh = num_items lh"

text \<open>The loop along a chain: the position of the first item that passes the test, the length if none does.\<close>

fun chain_pos :: "('d \<Rightarrow> bool) \<Rightarrow> 'd LHASH_ITEM list \<Rightarrow> nat" where
  "chain_pos test [] = 0"
| "chain_pos test (cur # rest) = (if test (item_data cur) then 0 else Suc (chain_pos test rest))"

definition get_next_ptr_and_hash :: "'d lhash_st \<Rightarrow> 'd \<Rightarrow> u32 \<times> nat \<times> nat" where
  "get_next_ptr_and_hash lh data =
     (let hash = lh_hash lh data;
          bucket = unat hash mod num_buckets lh
      in (hash, bucket, chain_pos (\<lambda>d. lh_comp lh d data = 0) (buckets lh ! bucket)))"

definition get_next_ptr_by_key :: "'d lhash_st \<Rightarrow> 'k \<Rightarrow> u32 \<Rightarrow> ('k \<Rightarrow> 'd \<Rightarrow> int) \<Rightarrow> nat \<times> nat" where
  "get_next_ptr_by_key lh key key_hash cmp_key =
     (let bucket = unat key_hash mod num_buckets lh
      in (bucket, chain_pos (\<lambda>d. cmp_key key d = 0) (buckets lh ! bucket)))"

definition lh_retrieve :: "'d lhash_st \<Rightarrow> 'd \<Rightarrow> 'd option" where
  "lh_retrieve lh data =
     (case get_next_ptr_and_hash lh data of
        (_, b, i) \<Rightarrow> if i = length (buckets lh ! b) then None else Some (item_data (buckets lh ! b ! i)))"

definition lh_retrieve_key :: "'d lhash_st \<Rightarrow> 'k \<Rightarrow> u32 \<Rightarrow> ('k \<Rightarrow> 'd \<Rightarrow> int) \<Rightarrow> 'd option" where
  "lh_retrieve_key lh key key_hash cmp_key =
     (case get_next_ptr_by_key lh key key_hash cmp_key of
        (b, i) \<Rightarrow> if i = length (buckets lh ! b) then None else Some (item_data (buckets lh ! b ! i)))"

text \<open>One step of the loop of \<^verbatim>\<open>lh_rebucket\<close>: the item becomes the head of its new chain.\<close>

definition lh_move :: "nat \<Rightarrow> 'd LHASH_ITEM \<Rightarrow> 'd LHASH_ITEM list list \<Rightarrow> 'd LHASH_ITEM list list" where
  "lh_move new_num_buckets cur new_buckets =
     (let new_bucket = unat (item_hash cur) mod new_num_buckets
      in new_buckets[new_bucket := cur # new_buckets ! new_bucket])"

definition lh_rebucket :: "libc_malloc \<Rightarrow> 'd lhash_st \<Rightarrow> nat \<Rightarrow> 'd lhash_st" where
  "lh_rebucket m lh new_num_buckets =
     (let alloc_size = sizeof_item_ptr * new_num_buckets mod size_modulus
      in if alloc_size div sizeof_item_ptr \<noteq> new_num_buckets then lh
         else case OPENSSL_malloc m alloc_size of
                None \<Rightarrow> lh
              | Some _ \<Rightarrow>
                  lh\<lparr>num_buckets := new_num_buckets,
                     buckets := fold (fold (lh_move new_num_buckets)) (buckets lh) (replicate new_num_buckets [])\<rparr>)"

definition lh_maybe_resize :: "libc_malloc \<Rightarrow> 'd lhash_st \<Rightarrow> 'd lhash_st" where
  "lh_maybe_resize m lh =
     (if callback_depth lh > 0 then lh
      else
        let avg_chain_length = num_items lh div num_buckets lh
        in if avg_chain_length > kMaxAverageChainLength then
             let new_num_buckets = num_buckets lh * 2 mod size_modulus
             in if new_num_buckets > num_buckets lh then lh_rebucket m lh new_num_buckets else lh
           else if avg_chain_length < kMinAverageChainLength \<and> num_buckets lh > kMinNumBuckets then
             let new_num_buckets = num_buckets lh div 2
             in lh_rebucket m lh (if new_num_buckets < kMinNumBuckets then kMinNumBuckets else new_num_buckets)
           else lh)"

text \<open>Whether the insertion succeeded, the element that it replaced, and the table.\<close>

definition lh_insert :: "libc_malloc \<Rightarrow> 'd lhash_st \<Rightarrow> 'd \<Rightarrow> bool \<times> 'd option \<times> 'd lhash_st" where
  "lh_insert m lh data =
     (case get_next_ptr_and_hash lh data of
        (hash, b, i) \<Rightarrow>
          let chain = buckets lh ! b
          in if i \<noteq> length chain then
               (True, Some (item_data (chain ! i)),
                lh\<lparr>buckets := (buckets lh)[b := chain[i := (chain ! i)\<lparr>item_data := data\<rparr>]]\<rparr>)
             else
               case OPENSSL_malloc m sizeof_LHASH_ITEM of
                 None \<Rightarrow> (False, None, lh)
               | Some _ \<Rightarrow>
                   (True, None,
                    lh_maybe_resize m
                      (lh\<lparr>buckets := (buckets lh)[b := chain @ [\<lparr>item_data = data, item_hash = hash\<rparr>]],
                          num_items := (num_items lh + 1) mod size_modulus\<rparr>)))"

definition lh_delete :: "libc_malloc \<Rightarrow> 'd lhash_st \<Rightarrow> 'd \<Rightarrow> 'd option \<times> 'd lhash_st" where
  "lh_delete m lh data =
     (case get_next_ptr_and_hash lh data of
        (_, b, i) \<Rightarrow>
          let chain = buckets lh ! b
          in if i = length chain then (None, lh)
             else
               (Some (item_data (chain ! i)),
                lh_maybe_resize m
                  (lh\<lparr>buckets := (buckets lh)[b := take i chain @ drop (Suc i) chain],
                      num_items := (num_items lh + size_modulus - 1) mod size_modulus\<rparr>)))"

text \<open>The callback gets and returns its own state; it does not change the table.\<close>

definition lh_doall_arg :: "libc_malloc \<Rightarrow> 'd lhash_st option \<Rightarrow> ('d \<Rightarrow> 's \<Rightarrow> 's) \<Rightarrow> 's \<Rightarrow> 's \<times> 'd lhash_st option" where
  "lh_doall_arg m lh func arg =
     (case lh of
        None \<Rightarrow> (arg, None)
      | Some lh \<Rightarrow>
          let lh1 = (if callback_depth lh < uint_max then lh\<lparr>callback_depth := callback_depth lh + 1\<rparr> else lh);
              arg' = fold (fold (\<lambda>cur. func (item_data cur))) (buckets lh1) arg;
              lh2 = (if callback_depth lh1 < uint_max then lh1\<lparr>callback_depth := callback_depth lh1 - 1\<rparr> else lh1)
          in (arg', Some (lh_maybe_resize m lh2)))"

definition lh_strhash :: "byte list option \<Rightarrow> u32" where
  "lh_strhash c = (case c of None \<Rightarrow> 0 | Some s \<Rightarrow> OPENSSL_hash32 (takeWhile (\<lambda>b. b \<noteq> 0) s))"


section \<open>The invariant\<close>

text \<open>What the client owes: equality is an equivalence, and equal elements have the same hash.\<close>

definition client_ok :: "('d \<Rightarrow> 'd \<Rightarrow> int) \<Rightarrow> ('d \<Rightarrow> u32) \<Rightarrow> bool" where
  "client_ok cmpf hash \<longleftrightarrow>
     (\<forall>x. cmpf x x = 0) \<and> (\<forall>x y. cmpf x y = 0 \<longrightarrow> cmpf y x = 0 \<and> hash x = hash y) \<and>
     (\<forall>x y z. cmpf x y = 0 \<longrightarrow> cmpf y z = 0 \<longrightarrow> cmpf x z = 0)"

definition distinct_items :: "('d \<Rightarrow> 'd \<Rightarrow> int) \<Rightarrow> 'd LHASH_ITEM list \<Rightarrow> bool" where
  "distinct_items cmpf its \<longleftrightarrow> sorted_wrt (\<lambda>a b. cmpf (item_data a) (item_data b) \<noteq> 0) its"

definition all_items :: "'d lhash_st \<Rightarrow> 'd LHASH_ITEM list" where
  "all_items lh = concat (buckets lh)"

definition lh_ok :: "'d lhash_st \<Rightarrow> bool" where
  "lh_ok lh \<longleftrightarrow>
     length (buckets lh) = num_buckets lh \<and> kMinNumBuckets \<le> num_buckets lh \<and>
     num_items lh = length (all_items lh) mod size_modulus \<and>
     (\<forall>i < num_buckets lh. \<forall>it \<in> set (buckets lh ! i).
        unat (item_hash it) mod num_buckets lh = i \<and> item_hash it = lh_hash lh (item_data it)) \<and>
     (\<forall>i < num_buckets lh. distinct_items (lh_comp lh) (buckets lh ! i))"

definition members :: "'d lhash_st \<Rightarrow> 'd set" where
  "members lh = item_data ` set (all_items lh)"

lemma lh_okI:
  assumes "length (buckets lh) = num_buckets lh" "kMinNumBuckets \<le> num_buckets lh"
    and "num_items lh = length (all_items lh) mod size_modulus"
    and "\<And>i it. i < num_buckets lh \<Longrightarrow> it \<in> set (buckets lh ! i) \<Longrightarrow>
      unat (item_hash it) mod num_buckets lh = i \<and> item_hash it = lh_hash lh (item_data it)"
    and "\<And>i. i < num_buckets lh \<Longrightarrow> distinct_items (lh_comp lh) (buckets lh ! i)"
  shows "lh_ok lh"
  unfolding lh_ok_def using assms by blast

lemma lh_okD:
  assumes "lh_ok lh"
  shows "length (buckets lh) = num_buckets lh" "kMinNumBuckets \<le> num_buckets lh"
    and "num_items lh = length (all_items lh) mod size_modulus"
    and "i < num_buckets lh \<Longrightarrow> it \<in> set (buckets lh ! i) \<Longrightarrow> unat (item_hash it) mod num_buckets lh = i"
    and "i < num_buckets lh \<Longrightarrow> it \<in> set (buckets lh ! i) \<Longrightarrow> item_hash it = lh_hash lh (item_data it)"
    and "i < num_buckets lh \<Longrightarrow> distinct_items (lh_comp lh) (buckets lh ! i)"
  using assms unfolding lh_ok_def by blast+

lemma chain_pos_le: "chain_pos test c \<le> length c"
  by (induction c) auto

lemma chain_pos_split:
  "chain_pos test c < length c \<Longrightarrow>
    \<exists>xs it ys. c = xs @ it # ys \<and> length xs = chain_pos test c \<and> test (item_data it) \<and> (\<forall>x \<in> set xs. \<not> test (item_data x))"
proof (induction c)
  case Nil
  then show ?case by simp
next
  case (Cons cur rest)
  show ?case
  proof (cases "test (item_data cur)")
    case True
    then show ?thesis by (intro exI [of _ "[]"]) auto
  next
    case False
    with Cons obtain xs it ys where "rest = xs @ it # ys" "length xs = chain_pos test rest" "test (item_data it)"
      "\<forall>x \<in> set xs. \<not> test (item_data x)" by auto
    with False show ?thesis by (intro exI [of _ "cur # xs"] exI [of _ it] exI [of _ ys]) auto
  qed
qed

lemma chain_pos_none: "chain_pos test c = length c \<longleftrightarrow> (\<forall>x \<in> set c. \<not> test (item_data x))"
  by (induction c) auto

lemma sorted_wrt_concat:
  "(\<forall>b \<in> set bs. sorted_wrt R b) \<Longrightarrow> sorted_wrt (\<lambda>b c. \<forall>x \<in> set b. \<forall>y \<in> set c. R x y) bs \<Longrightarrow> sorted_wrt R (concat bs)"
  by (induction bs) (auto simp: sorted_wrt_append)

lemma concat_update:
  "b < length bs \<Longrightarrow> concat (bs[b := c]) = concat (take b bs) @ c @ concat (drop (Suc b) bs)"
  by (simp add: upd_conv_take_nth_drop)

lemma concat_split: "b < length bs \<Longrightarrow> concat bs = concat (take b bs) @ bs ! b @ concat (drop (Suc b) bs)"
  using concat_update [of b bs "bs ! b"] by simp

lemma distinct_all:
  assumes "lh_ok lh" "client_ok (lh_comp lh) (lh_hash lh)"
  shows "distinct_items (lh_comp lh) (all_items lh)"
  unfolding distinct_items_def all_items_def
proof (rule sorted_wrt_concat)
  show "\<forall>b \<in> set (buckets lh). sorted_wrt (\<lambda>a b. lh_comp lh (item_data a) (item_data b) \<noteq> 0) b"
    using assms(1) by (auto simp: lh_ok_def distinct_items_def in_set_conv_nth)
  show "sorted_wrt (\<lambda>b c. \<forall>x \<in> set b. \<forall>y \<in> set c. lh_comp lh (item_data x) (item_data y) \<noteq> 0) (buckets lh)"
    unfolding sorted_wrt_iff_nth_less
  proof (intro allI impI ballI notI)
    fix i j x y
    assume h: "i < j" "j < length (buckets lh)" "x \<in> set (buckets lh ! i)" "y \<in> set (buckets lh ! j)"
      "lh_comp lh (item_data x) (item_data y) = 0"
    then have ij: "i < num_buckets lh" "j < num_buckets lh" using lh_okD(1) [OF assms(1)] by simp_all
    note x = lh_okD(4,5) [OF assms(1) ij(1) h(3)] and y = lh_okD(4,5) [OF assms(1) ij(2) h(4)]
    have "lh_hash lh (item_data x) = lh_hash lh (item_data y)" using h(5) assms(2) unfolding client_ok_def by blast
    then have "item_hash x = item_hash y" unfolding x(2) y(2) .
    then show False using x(1) y(1) h(1) by simp
  qed
qed

section \<open>Moving the items\<close>

lemma length_fold_move: "length (fold (lh_move n) its bs) = length bs"
  by (induction its arbitrary: bs) (auto simp: lh_move_def Let_def)

lemma fold_move_nth:
  "length bs = n \<Longrightarrow> j < n \<Longrightarrow> fold (lh_move n) its bs ! j = rev (filter (\<lambda>it. unat (item_hash it) mod n = j) its) @ bs ! j"
proof (induction its arbitrary: bs)
  case Nil
  then show ?case by simp
next
  case (Cons it its)
  then show ?case
    using Cons.IH [of "lh_move n it bs"] by (auto simp: lh_move_def Let_def nth_list_update)
qed

lemma fold_fold: "fold (fold f) xss s = fold f (concat xss) s"
  by (induction xss arbitrary: s) auto

lemma length_concat_move:
  "length bs = n \<Longrightarrow> 0 < n \<Longrightarrow> length (concat (fold (lh_move n) its bs)) = length its + length (concat bs)"
proof (induction its arbitrary: bs)
  case Nil
  then show ?case by simp
next
  case (Cons it its)
  let ?b = "unat (item_hash it) mod n"
  have b: "?b < length bs" using Cons.prems by simp
  have "length (concat (lh_move n it bs)) = Suc (length (concat bs))"
    using concat_split [OF b] by (simp add: lh_move_def Let_def concat_update [OF b])
  then show ?case using Cons.IH [of "lh_move n it bs"] Cons.prems by (simp add: lh_move_def Let_def)
qed

lemma rebucket_ok:
  assumes "lh_ok lh" "client_ok (lh_comp lh) (lh_hash lh)" "kMinNumBuckets \<le> n"
  shows "lh_ok (lh_rebucket m lh n) \<and> members (lh_rebucket m lh n) = members lh"
proof (cases "lh_rebucket m lh n = lh")
  case True
  then show ?thesis using assms by simp
next
  case False
  let ?bs = "fold (lh_move n) (all_items lh) (replicate n [])"
  have n: "0 < n" using assms(3) by (simp add: kMinNumBuckets_def)
  from False have new: "lh_rebucket m lh n = lh\<lparr>num_buckets := n, buckets := ?bs\<rparr>"
    by (auto simp: lh_rebucket_def Let_def fold_fold all_items_def split: option.splits if_splits)
  have len: "length ?bs = n" by (simp add: length_fold_move)
  have nth: "?bs ! j = rev (filter (\<lambda>it. unat (item_hash it) mod n = j) (all_items lh))" if "j < n" for j
    using fold_move_nth [of "replicate n []" n j] that by simp
  have items: "set (concat ?bs) = set (all_items lh)"
  proof -
    have "set (concat ?bs) = (\<Union>j \<in> {..<n}. set (?bs ! j))" using len by (auto simp: in_set_conv_nth set_conv_nth [of ?bs])
    also have "\<dots> = set (all_items lh)" using nth n by auto
    finally show ?thesis .
  qed
  have hashes: "item_hash it = lh_hash lh (item_data it)" if "it \<in> set (all_items lh)" for it
    using that assms(1) by (fastforce simp: lh_ok_def all_items_def in_set_conv_nth)
  have symp: "lh_comp lh x y \<noteq> 0 \<longleftrightarrow> lh_comp lh y x \<noteq> 0" for x y
    using assms(2) unfolding client_ok_def by blast
  then have symp: "(\<lambda>a b. lh_comp lh (item_data b) (item_data a) \<noteq> 0) = (\<lambda>a b. lh_comp lh (item_data a) (item_data b) \<noteq> 0)"
    by blast
  have dist: "distinct_items (lh_comp lh) (?bs ! j)" if "j < n" for j
    unfolding nth [OF that] distinct_items_def sorted_wrt_rev
    by (subst symp) (rule sorted_wrt_filter [OF distinct_all [OF assms(1,2), unfolded distinct_items_def]])
  have "lh_ok (lh\<lparr>num_buckets := n, buckets := ?bs\<rparr>)"
  proof (rule lh_okI, goal_cases)
    case 3
    then show ?case
      using lh_okD(3) [OF assms(1)] length_concat_move [of "replicate n []" n "all_items lh"] n by (simp add: all_items_def)
  next
    case (4 i it)
    then show ?case using nth [of i] hashes [of it] by auto
  qed (use len assms(3) dist in simp_all)
  then show ?thesis using items by (simp add: new members_def all_items_def)
qed


lemma maybe_resize_ok:
  assumes "lh_ok lh" "client_ok (lh_comp lh) (lh_hash lh)"
  shows "lh_ok (lh_maybe_resize m lh) \<and> members (lh_maybe_resize m lh) = members lh"
  using assms rebucket_ok [OF assms] lh_okD(2) [OF assms(1)]
  by (auto simp: lh_maybe_resize_def Let_def)

lemma rebucket_fields [simp]:
  "lh_comp (lh_rebucket m lh n) = lh_comp lh" "lh_hash (lh_rebucket m lh n) = lh_hash lh"
  "callback_depth (lh_rebucket m lh n) = callback_depth lh" "num_items (lh_rebucket m lh n) = num_items lh"
  by (auto simp: lh_rebucket_def Let_def split: option.splits)

lemma maybe_resize_fields [simp]:
  "lh_comp (lh_maybe_resize m lh) = lh_comp lh" "lh_hash (lh_maybe_resize m lh) = lh_hash lh"
  "callback_depth (lh_maybe_resize m lh) = callback_depth lh" "num_items (lh_maybe_resize m lh) = num_items lh"
  by (auto simp: lh_maybe_resize_def Let_def)


section \<open>The chain of an element\<close>

definition bucket_of :: "'d lhash_st \<Rightarrow> 'd \<Rightarrow> nat" where
  "bucket_of lh d = unat (lh_hash lh d) mod num_buckets lh"

definition other_items :: "'d lhash_st \<Rightarrow> nat \<Rightarrow> 'd LHASH_ITEM set" where
  "other_items lh b = set (concat (take b (buckets lh))) \<union> set (concat (drop (Suc b) (buckets lh)))"

lemma bucket_of_less: "lh_ok lh \<Longrightarrow> bucket_of lh d < num_buckets lh"
  using lh_okD(2) [of lh] by (simp add: bucket_of_def kMinNumBuckets_def)

lemma members_split:
  assumes "b < length (buckets lh)"
  shows "members lh = item_data ` (set (buckets lh ! b) \<union> other_items lh b)"
    and "members (lh\<lparr>buckets := (buckets lh)[b := c]\<rparr>) = item_data ` (set c \<union> other_items lh b)"
    and "members (lh\<lparr>buckets := (buckets lh)[b := c], num_items := n\<rparr>) = item_data ` (set c \<union> other_items lh b)"
  using concat_split [OF assms] concat_update [OF assms]
  by (auto simp: members_def all_items_def other_items_def)

lemma in_bucket:
  assumes "lh_ok lh" "client_ok (lh_comp lh) (lh_hash lh)" "i < num_buckets lh" "it \<in> set (buckets lh ! i)"
    and "lh_comp lh (item_data it) d = 0"
  shows "i = bucket_of lh d"
proof -
  have "lh_hash lh (item_data it) = lh_hash lh d" using assms(2,5) unfolding client_ok_def by blast
  then show ?thesis
    using lh_okD(4,5) [OF assms(1,3,4)] by (simp add: bucket_of_def)
qed

lemma other_items_nth:
  assumes "it \<in> other_items lh b"
  shows "\<exists>i < length (buckets lh). i \<noteq> b \<and> it \<in> set (buckets lh ! i)"
proof -
  from assms consider c where "c \<in> set (take b (buckets lh))" "it \<in> set c"
    | c where "c \<in> set (drop (Suc b) (buckets lh))" "it \<in> set c"
    by (auto simp: other_items_def)
  then show ?thesis
  proof cases
    case 1
    then obtain j where "j < length (take b (buckets lh))" "take b (buckets lh) ! j = c" by (auto simp: in_set_conv_nth)
    with 1 show ?thesis by (intro exI [of _ j]) auto
  next
    case 2
    then obtain j where "j < length (drop (Suc b) (buckets lh))" "drop (Suc b) (buckets lh) ! j = c"
      by (auto simp: in_set_conv_nth)
    with 2 show ?thesis by (intro exI [of _ "Suc b + j"]) auto
  qed
qed

lemma other_items_differ:
  assumes "lh_ok lh" "client_ok (lh_comp lh) (lh_hash lh)" "it \<in> other_items lh (bucket_of lh d)"
  shows "lh_comp lh (item_data it) d \<noteq> 0"
proof
  assume eq: "lh_comp lh (item_data it) d = 0"
  from assms(3) obtain i where i: "i < length (buckets lh)" "i \<noteq> bucket_of lh d" "it \<in> set (buckets lh ! i)"
    using other_items_nth by blast
  then show False using in_bucket [OF assms(1,2) _ i(3) eq] lh_okD(1) [OF assms(1)] by simp
qed

lemma replace_chain_ok:
  assumes "lh_ok lh" "b < num_buckets lh"
    and "\<And>it. it \<in> set c \<Longrightarrow> unat (item_hash it) mod num_buckets lh = b \<and> item_hash it = lh_hash lh (item_data it)"
    and "distinct_items (lh_comp lh) c"
    and "n = (length (all_items lh) + length c - length (buckets lh ! b)) mod size_modulus"
  shows "lh_ok (lh\<lparr>buckets := (buckets lh)[b := c], num_items := n\<rparr>)"
proof (rule lh_okI, goal_cases)
  case 3
  have b: "b < length (buckets lh)" using assms(2) lh_okD(1) [OF assms(1)] by simp
  show ?case
    using assms(5) arg_cong [OF concat_split [OF b], of length] arg_cong [OF concat_update [OF b, of c], of length]
    by (simp add: all_items_def add.commute add.left_commute)
next
  case (4 i it)
  show ?case
  proof (cases "i = b")
    case True
    then have "it \<in> set c" using 4 assms(2) lh_okD(1) [OF assms(1)] by (simp add: nth_list_update)
    from assms(3) [OF this] True show ?thesis by auto
  next
    case False
    then have "it \<in> set (buckets lh ! i)" "i < num_buckets lh" using 4 by (simp_all add: nth_list_update)
    then show ?thesis using lh_okD(4,5) [OF assms(1)] by auto
  qed
next
  case (5 i)
  then show ?case
    using assms(2,4) lh_okD(1,6) [OF assms(1)] by (cases "i = b") (simp_all add: nth_list_update)
qed (use lh_okD(1,2) [OF assms(1)] in simp_all)


section \<open>Operations on the set of members\<close>

lemma next_ptr:
  "get_next_ptr_and_hash lh d =
    (lh_hash lh d, bucket_of lh d, chain_pos (\<lambda>x. lh_comp lh x d = 0) (buckets lh ! bucket_of lh d))"
  by (simp add: get_next_ptr_and_hash_def bucket_of_def Let_def)

text \<open>Either no member is equal to \<open>d\<close>, or its chain contains the one that is.\<close>

lemma chain_cases:
  assumes "lh_ok lh" "client_ok (lh_comp lh) (lh_hash lh)"
  obtains (absent) "chain_pos (\<lambda>x. lh_comp lh x d = 0) (buckets lh ! bucket_of lh d) = length (buckets lh ! bucket_of lh d)"
      "\<forall>x \<in> members lh. lh_comp lh x d \<noteq> 0"
  | (present) xs it ys where "buckets lh ! bucket_of lh d = xs @ it # ys"
      "chain_pos (\<lambda>x. lh_comp lh x d = 0) (buckets lh ! bucket_of lh d) = length xs"
      "lh_comp lh (item_data it) d = 0" "\<forall>x \<in> set (xs @ ys). lh_comp lh (item_data x) d \<noteq> 0" "item_data it \<in> members lh"
proof -
  let ?b = "bucket_of lh d" and ?test = "\<lambda>x. lh_comp lh x d = 0"
  have b: "?b < length (buckets lh)" using bucket_of_less [OF assms(1)] lh_okD(1) [OF assms(1)] by simp
  consider "chain_pos ?test (buckets lh ! ?b) = length (buckets lh ! ?b)" | "chain_pos ?test (buckets lh ! ?b) < length (buckets lh ! ?b)"
    using chain_pos_le [of ?test "buckets lh ! ?b"] by linarith
  then show thesis
  proof cases
    case 1
    then have "\<forall>x \<in> set (buckets lh ! ?b). lh_comp lh (item_data x) d \<noteq> 0" by (simp add: chain_pos_none)
    then have "\<forall>x \<in> members lh. lh_comp lh x d \<noteq> 0"
      unfolding members_split(1) [OF b] using other_items_differ [OF assms] by blast
    with 1 show thesis by (rule absent)
  next
    case 2
    then obtain xs it ys where c: "buckets lh ! ?b = xs @ it # ys" "length xs = chain_pos ?test (buckets lh ! ?b)"
      "lh_comp lh (item_data it) d = 0" "\<forall>x \<in> set xs. lh_comp lh (item_data x) d \<noteq> 0"
      using chain_pos_split by blast
    have "\<forall>y \<in> set ys. lh_comp lh (item_data it) (item_data y) \<noteq> 0"
      using lh_okD(6) [OF assms(1) bucket_of_less [OF assms(1)], of d] by (simp add: c(1) distinct_items_def sorted_wrt_append)
    then have "\<forall>y \<in> set ys. lh_comp lh (item_data y) d \<noteq> 0" using c(3) assms(2) unfolding client_ok_def by blast
    moreover have "item_data it \<in> members lh" unfolding members_split(1) [OF b] c(1) by simp
    ultimately show thesis using present [OF c(1) c(2) [symmetric] c(3)] c(4) by auto
  qed
qed

lemma retrieve_iff:
  assumes "lh_ok lh" "client_ok (lh_comp lh) (lh_hash lh)"
  shows "lh_retrieve lh d = Some x \<longleftrightarrow> x \<in> members lh \<and> lh_comp lh x d = 0"
  using assms
proof (cases rule: chain_cases [of _ d])
  case absent
  then show ?thesis by (auto simp: lh_retrieve_def next_ptr)
next
  case (present xs it ys)
  have b: "bucket_of lh d < length (buckets lh)" using bucket_of_less [OF assms(1)] lh_okD(1) [OF assms(1)] by simp
  have "x \<in> members lh \<and> lh_comp lh x d = 0 \<longleftrightarrow> x = item_data it"
    using present(3,4) other_items_differ [OF assms] by (auto simp: members_split(1) [OF b] present(1))
  then show ?thesis using present(1,2) by (auto simp: lh_retrieve_def next_ptr)
qed

lemma insert_members:
  assumes "lh_ok lh" "client_ok (lh_comp lh) (lh_hash lh)" "lh_insert m lh d = (True, old, lh')"
  shows "lh_ok lh' \<and> lh_comp lh' = lh_comp lh \<and> lh_hash lh' = lh_hash lh \<and> callback_depth lh' = callback_depth lh \<and>
    old = lh_retrieve lh d \<and> members lh' = insert d {x \<in> members lh. lh_comp lh x d \<noteq> 0}"
  using assms(1,2)
proof (cases rule: chain_cases [of _ d])
  case absent
  let ?b = "bucket_of lh d" and ?c = "buckets lh ! bucket_of lh d @ [\<lparr>item_data = d, item_hash = lh_hash lh d\<rparr>]"
  let ?lh = "lh\<lparr>buckets := (buckets lh)[?b := ?c], num_items := (num_items lh + 1) mod size_modulus\<rparr>"
  have b: "?b < length (buckets lh)" using bucket_of_less [OF assms(1)] lh_okD(1) [OF assms(1)] by simp
  have r: "old = None" "lh' = lh_maybe_resize m ?lh"
    using assms(3) absent(1) by (auto simp: lh_insert_def next_ptr Let_def split: option.splits)
  have old: "lh_retrieve lh d = None" using absent(1) by (simp add: lh_retrieve_def next_ptr)
  have diff: "\<forall>it \<in> set (buckets lh ! ?b). lh_comp lh (item_data it) d \<noteq> 0"
    using absent(1) by (simp add: chain_pos_none)
  have ok: "lh_ok ?lh"
  proof (rule replace_chain_ok [OF assms(1)], goal_cases)
    case 2
    then show ?case using lh_okD(4,5) [OF assms(1) bucket_of_less [OF assms(1)]] by (auto simp: bucket_of_def)
  next
    case 3
    then show ?case using diff lh_okD(6) [OF assms(1) bucket_of_less [OF assms(1)], of d]
      by (simp add: distinct_items_def sorted_wrt_append)
  next
    case 4
    then show ?case using lh_okD(3) [OF assms(1)] arg_cong [OF concat_split [OF b], of length]
      by (simp add: mod_simps all_items_def add.commute add.left_commute)
  qed (use bucket_of_less [OF assms(1)] in simp)
  have "members ?lh = insert d {x \<in> members lh. lh_comp lh x d \<noteq> 0}"
    using absent(2) by (auto simp: members_split(3) [OF b]) (auto simp: members_split(1) [OF b])
  then show ?thesis using maybe_resize_ok [OF ok] assms(2) by (simp add: r old)
next
  case (present xs it ys)
  let ?b = "bucket_of lh d" and ?c = "xs @ it\<lparr>item_data := d\<rparr> # ys"
  have b: "?b < length (buckets lh)" using bucket_of_less [OF assms(1)] lh_okD(1) [OF assms(1)] by simp
  have r: "old = Some (item_data it)" "lh' = lh\<lparr>buckets := (buckets lh)[?b := ?c], num_items := num_items lh\<rparr>"
    using assms(3) present(1,2) by (auto simp: lh_insert_def next_ptr Let_def)
  have old: "lh_retrieve lh d = Some (item_data it)" using present(3,5) by (simp add: retrieve_iff [OF assms(1,2)])
  have hash: "lh_hash lh (item_data it) = lh_hash lh d" using present(3) assms(2) unfolding client_ok_def by blast
  note chain = lh_okD(4,5) [OF assms(1) bucket_of_less [OF assms(1)]]
  have sym: "lh_comp lh x y = 0 \<longleftrightarrow> lh_comp lh y x = 0" for x y using assms(2) unfolding client_ok_def by blast
  have ok: "lh_ok lh'" unfolding r(2)
  proof (rule replace_chain_ok [OF assms(1)], goal_cases)
    case (2 x)
    then consider "x \<in> set (buckets lh ! ?b)" | "x = it\<lparr>item_data := d\<rparr>" by (auto simp: present(1))
    then show ?case
    proof cases
      case 2
      have it: "it \<in> set (buckets lh ! ?b)" by (simp add: present(1))
      show ?thesis using chain [OF it] hash 2 by (simp add: bucket_of_def)
    qed (use chain [of x d] in blast)
  next
    case 3
    then show ?case using present(4) sym [of d] lh_okD(6) [OF assms(1) bucket_of_less [OF assms(1)], of d]
      by (simp add: distinct_items_def sorted_wrt_append present(1))
  next
    case 4
    then show ?case using lh_okD(3) [OF assms(1)] arg_cong [OF concat_split [OF b], of length]
      by (simp add: present(1))
  qed (use bucket_of_less [OF assms(1)] in simp)
  have "members lh' = insert d {x \<in> members lh. lh_comp lh x d \<noteq> 0}"
    unfolding r(2) members_split(3) [OF b] using present(3,4) other_items_differ [OF assms(1,2), of _ d]
    by (auto simp: members_split(1) [OF b] present(1))
  then show ?thesis using ok by (simp add: r old)
qed


lemma pred_mod:
  fixes n :: nat
  assumes "0 < n"
  shows "(Suc k mod n + n - 1) mod n = k mod n"
proof -
  have "(Suc k mod n + n - 1) mod n = (Suc k mod n + (n - 1)) mod n" using assms by simp
  also have "\<dots> = (Suc k + (n - 1)) mod n" by (rule mod_add_left_eq)
  also have "Suc k + (n - 1) = k + n" using assms by simp
  finally show ?thesis by simp
qed

lemma delete_members:
  assumes "lh_ok lh" "client_ok (lh_comp lh) (lh_hash lh)" "lh_delete m lh d = (old, lh')"
  shows "lh_ok lh' \<and> lh_comp lh' = lh_comp lh \<and> lh_hash lh' = lh_hash lh \<and> callback_depth lh' = callback_depth lh \<and>
    old = lh_retrieve lh d \<and> members lh' = {x \<in> members lh. lh_comp lh x d \<noteq> 0}"
  using assms(1,2)
proof (cases rule: chain_cases [of _ d])
  case absent
  then show ?thesis using assms by (auto simp: lh_delete_def next_ptr Let_def lh_retrieve_def)
next
  case (present xs it ys)
  let ?b = "bucket_of lh d" and ?c = "xs @ ys"
  let ?lh = "lh\<lparr>buckets := (buckets lh)[?b := ?c], num_items := (num_items lh + size_modulus - 1) mod size_modulus\<rparr>"
  have b: "?b < length (buckets lh)" using bucket_of_less [OF assms(1)] lh_okD(1) [OF assms(1)] by simp
  have r: "old = Some (item_data it)" "lh' = lh_maybe_resize m ?lh"
    using assms(3) present(1,2) by (auto simp: lh_delete_def next_ptr Let_def)
  have old: "lh_retrieve lh d = Some (item_data it)" using present(3,5) by (simp add: retrieve_iff [OF assms(1,2)])
  note chain = lh_okD(4,5) [OF assms(1) bucket_of_less [OF assms(1)]]
  have ok: "lh_ok ?lh"
  proof (rule replace_chain_ok [OF assms(1)], goal_cases)
    case (2 x)
    then have x: "x \<in> set (buckets lh ! ?b)" by (auto simp: present(1))
    from chain [OF x] show ?case by blast
  next
    case 3
    then show ?case using lh_okD(6) [OF assms(1) bucket_of_less [OF assms(1)], of d]
      by (simp add: distinct_items_def sorted_wrt_append present(1))
  next
    case 4
    obtain k where k: "length (all_items lh) = Suc k" "length (all_items lh) + length ?c - length (buckets lh ! ?b) = k"
      using arg_cong [OF concat_split [OF b], of length] by (simp add: all_items_def present(1))
    show ?case unfolding k(2) unfolding lh_okD(3) [OF assms(1)] k(1) by (rule pred_mod) simp
  qed (use bucket_of_less [OF assms(1)] in simp)
  have "members ?lh = {x \<in> members lh. lh_comp lh x d \<noteq> 0}"
    using present(3,4) other_items_differ [OF assms(1,2), of _ d]
    by (auto simp: members_split(3) [OF b]) (auto simp: members_split(1) [OF b] present(1))
  then show ?thesis using maybe_resize_ok [OF ok] assms(2) by (simp add: r old)
qed

lemma insert_fails: "lh_insert m lh d = (False, old, lh') \<Longrightarrow> old = None \<and> lh' = lh"
  by (auto simp: lh_insert_def Let_def split: prod.splits if_splits option.splits)

lemma insert_succeeds: "OPENSSL_malloc m sizeof_LHASH_ITEM \<noteq> None \<Longrightarrow> fst (lh_insert m lh d)"
  by (auto simp: lh_insert_def Let_def split: prod.splits if_splits option.splits)

lemma new_ok: "lh_new m hash cmpf = Some lh \<Longrightarrow> lh_ok lh \<and> lh_comp lh = cmpf \<and> lh_hash lh = hash \<and> members lh = {} \<and> callback_depth lh = 0"
  by (auto simp: lh_new_def lh_ok_def members_def all_items_def distinct_items_def kMinNumBuckets_def split: option.splits)

lemma distinct_data:
  assumes "distinct_items cmpf its" "client_ok cmpf hash"
  shows "distinct (map item_data its)"
  using assms(1)
proof (induction its)
  case (Cons it its)
  have "item_data it \<notin> item_data ` set its"
  proof
    assume "item_data it \<in> item_data ` set its"
    then obtain x where "x \<in> set its" "item_data it = item_data x" by blast
    moreover from this have "cmpf (item_data it) (item_data x) \<noteq> 0" using Cons.prems by (simp add: distinct_items_def)
    ultimately show False using assms(2) by (simp add: client_ok_def)
  qed
  then show ?case using Cons by (auto simp: distinct_items_def)
qed simp

lemma num_items_members:
  assumes "lh_ok lh" "client_ok (lh_comp lh) (lh_hash lh)"
  shows "lh_num_items lh = card (members lh) mod size_modulus"
  using lh_okD(3) [OF assms(1)] distinct_card [OF distinct_data [OF distinct_all [OF assms] assms(2)]]
  by (simp add: lh_num_items_def members_def)

lemma depth_irrelevant [simp]:
  "lh_ok (lh\<lparr>callback_depth := n\<rparr>) = lh_ok lh" "members (lh\<lparr>callback_depth := n\<rparr>) = members lh"
  by (simp_all add: lh_ok_def members_def all_items_def)

section \<open>The table as a dictionary\<close>

type_synonym 'd table = "libc_malloc \<times> 'd lhash_st"

definition table_good :: "'d table \<Rightarrow> bool" where
  "table_good t \<longleftrightarrow> lh_ok (snd t) \<and> client_ok (lh_comp (snd t)) (lh_hash (snd t)) \<and> OPENSSL_malloc (fst t) sizeof_LHASH_ITEM \<noteq> None"

definition table_same :: "'d table \<Rightarrow> 'd \<Rightarrow> 'd \<Rightarrow> bool" where
  "table_same t x y \<longleftrightarrow> lh_comp (snd t) x y = 0"

definition table_look :: "'d table \<Rightarrow> 'd \<Rightarrow> 'd option" where
  "table_look t d = lh_retrieve (snd t) d"

definition table_put :: "'d table \<Rightarrow> 'd \<Rightarrow> 'd table option" where
  "table_put t d = (case lh_insert (fst t) (snd t) d of (ok, _, lh) \<Rightarrow> if ok then Some (fst t, lh) else None)"

definition table_del :: "'d table \<Rightarrow> 'd \<Rightarrow> 'd table option" where
  "table_del t d = (case lh_delete (fst t) (snd t) d of (_, lh) \<Rightarrow> Some (fst t, lh))"

lemma retrieve_eqI:
  assumes "lh_ok lh" "client_ok (lh_comp lh) (lh_hash lh)"
  shows "(\<And>x. x \<in> members lh \<and> lh_comp lh x d = 0 \<longleftrightarrow> r = Some x) \<Longrightarrow> lh_retrieve lh d = r"
  by (cases r) (auto simp: retrieve_iff [OF assms, symmetric] intro: option.exhaust [of "lh_retrieve lh d"])

interpretation lh_map: key_map "\<lambda>d. d" "\<lambda>d. d" table_same table_good table_look table_put table_del
proof
  fix t :: "'d table" and d :: 'd
  assume g: "table_good t"
  obtain m lh where t: "t = (m, lh)" by (cases t)
  have ok: "lh_ok lh" "client_ok (lh_comp lh) (lh_hash lh)" using g by (auto simp: table_good_def t)
  have trans: "lh_comp lh x y = 0 \<Longrightarrow> lh_comp lh x z = 0 \<longleftrightarrow> lh_comp lh y z = 0" for x y z
    using ok(2) unfolding client_ok_def by blast
  have sym: "lh_comp lh x y = 0 \<longleftrightarrow> lh_comp lh y x = 0" for x y
    using ok(2) unfolding client_ok_def by blast
  obtain old lh' where ins: "lh_insert m lh d = (True, old, lh')"
    using g insert_succeeds [of m lh d] by (cases "lh_insert m lh d") (auto simp: table_good_def t)
  note ins' = insert_members [OF ok ins]
  have "lh_retrieve lh' k = (if lh_comp lh d k = 0 then Some d else lh_retrieve lh k)" for k
  proof (rule retrieve_eqI)
    fix x
    show "x \<in> members lh' \<and> lh_comp lh' x k = 0 \<longleftrightarrow> (if lh_comp lh d k = 0 then Some d else lh_retrieve lh k) = Some x"
      using ins' trans [of x d k] trans [of d x k] trans [of x k d] sym [of k d] sym [of x d] by (auto simp: retrieve_iff [OF ok])
  qed (use ins' ok in simp_all)
  then show "\<exists>t'. table_put t d = Some t' \<and> table_good t' \<and> table_same t' = table_same t \<and>
      (\<forall>k. table_look t' k = (if table_same t d k then Some d else table_look t k))"
    using g ins ins' by (auto simp: t table_put_def table_good_def table_same_def [abs_def] table_look_def)
next
  fix t :: "'d table" and d :: 'd
  assume g: "table_good t"
  obtain m lh where t: "t = (m, lh)" by (cases t)
  have ok: "lh_ok lh" "client_ok (lh_comp lh) (lh_hash lh)" using g by (auto simp: table_good_def t)
  have trans: "lh_comp lh x y = 0 \<Longrightarrow> lh_comp lh x z = 0 \<longleftrightarrow> lh_comp lh y z = 0" for x y z
    using ok(2) unfolding client_ok_def by blast
  have sym: "lh_comp lh x y = 0 \<longleftrightarrow> lh_comp lh y x = 0" for x y
    using ok(2) unfolding client_ok_def by blast
  obtain old lh' where del: "lh_delete m lh d = (old, lh')" by (cases "lh_delete m lh d")
  note del' = delete_members [OF ok del]
  have "lh_retrieve lh' k = (if lh_comp lh d k = 0 then None else lh_retrieve lh k)" for k
  proof (rule retrieve_eqI)
    fix x
    show "x \<in> members lh' \<and> lh_comp lh' x k = 0 \<longleftrightarrow> (if lh_comp lh d k = 0 then None else lh_retrieve lh k) = Some x"
      using del' trans [of x k d] sym [of k d] by (auto simp: retrieve_iff [OF ok])
  qed (use del' ok in simp_all)
  then show "\<exists>t'. table_del t d = Some t' \<and> table_good t' \<and> table_same t' = table_same t \<and>
      (\<forall>k. table_look t' k = (if table_same t d k then None else table_look t k))"
    using g del del' by (auto simp: t table_del_def table_good_def table_same_def [abs_def] table_look_def)
qed



section \<open>Properties\<close>

text \<open>An example client: naturals below \<open>2 ^ 32\<close> hashed to themselves.\<close>

definition nat_table :: "nat lhash_st" where
  "nat_table = \<lparr>num_items = 0, buckets = replicate 16 [], num_buckets = 16, callback_depth = 0,
     lh_comp = (\<lambda>x y. if x = y then 0 else 1), lh_hash = of_nat\<rparr>"

definition total_malloc :: libc_malloc where
  "total_malloc n = Some (replicate n 0)"

lemma nat_table_ok: "lh_ok nat_table" "client_ok (lh_comp nat_table) (lh_hash nat_table)"
  by (auto simp: lh_ok_def nat_table_def all_items_def distinct_items_def kMinNumBuckets_def client_ok_def)

lemma total_malloc_Some: "OPENSSL_malloc total_malloc n \<noteq> None"
  by (simp add: OPENSSL_malloc_def total_malloc_def)

lemma nat_table_good: "table_good (total_malloc, nat_table)"
  by (simp add: table_good_def nat_table_ok total_malloc_Some del: not_None_eq)

text \<open>C12: The hash table is a dictionary: whatever sequence of insertions and deletions it went through, with the
  resizing that they cause, a lookup finds the element that was inserted last among those equal to the one looked up, unless
  such an element was deleted since. Resizing may fail for want of memory; an item may not.\<close>

theorem lhash_programs:
  assumes "table_good t"
  shows "\<exists>t'. run_ops table_put table_del ops t = Some t' \<and> table_good t' \<and>
    (\<forall>d. table_look t' d = found_after (table_same t) (\<lambda>d. d) (\<lambda>d. d) ops d (table_look t d))"
  using lh_map.run_law [OF assms, of ops] by blast

theorem lhash_programs_witness:
  "\<exists>t'. run_ops table_put table_del [Put 5, Put 21, Put 37, Del 21] (total_malloc, nat_table) = Some t' \<and>
    table_look t' 37 = Some 37 \<and> table_look t' 21 = None"
proof -
  have same: "table_same (total_malloc, nat_table) x y \<longleftrightarrow> x = y" for x y by (simp add: table_same_def nat_table_def)
  have "table_look (total_malloc, nat_table) x = None" for x
    by (simp add: table_look_def lh_retrieve_def next_ptr bucket_of_def nat_table_def)
  then show ?thesis using lhash_programs [OF nat_table_good, of "[Put 5, Put 21, Put 37, Del 21]"] by (auto simp: same)
qed

text \<open>\<^verbatim>\<open>lh_insert\<close> and \<^verbatim>\<open>lh_delete\<close> keep the invariant of the table: every item is in the chain of its
  hash, no two items are equal and the counter is their number. They report the element that was there before; an insertion that cannot allocate
  changes nothing.\<close>

theorem lhash_invariant:
  assumes "lh_ok lh" "client_ok (lh_comp lh) (lh_hash lh)"
  shows "(case lh_insert m lh d of (ok, old, lh') \<Rightarrow>
      if ok then lh_ok lh' \<and> old = lh_retrieve lh d \<and> members lh' = insert d {x \<in> members lh. lh_comp lh x d \<noteq> 0}
      else old = None \<and> lh' = lh) \<and>
    (case lh_delete m lh d of (old, lh') \<Rightarrow>
      lh_ok lh' \<and> old = lh_retrieve lh d \<and> members lh' = {x \<in> members lh. lh_comp lh x d \<noteq> 0})"
proof -
  obtain ok old lh' where ins: "lh_insert m lh d = (ok, old, lh')" by (metis prod.collapse)
  obtain old2 lh2 where del: "lh_delete m lh d = (old2, lh2)" by (metis prod.collapse)
  show ?thesis
    using insert_members [OF assms, of m d old lh'] insert_fails [of m lh d old lh'] delete_members [OF assms del] ins del
    by (cases ok) auto
qed

theorem lhash_invariant_witness:
  "case lh_insert total_malloc nat_table 7 of (ok, old, lh') \<Rightarrow>
      if ok then lh_ok lh' \<and> old = None \<and> members lh' = {7} else old = None \<and> lh' = nat_table"
proof -
  have "lh_retrieve nat_table 7 = None" "members nat_table = {}"
    by (simp_all add: lh_retrieve_def next_ptr bucket_of_def nat_table_def members_def all_items_def)
  then show ?thesis using lhash_invariant [OF nat_table_ok, of 7 total_malloc] by (auto split: prod.splits if_splits)
qed

text \<open>While memory lasts, insertions keep the average chain below three items, so that lookups stay short.\<close>

theorem lhash_load_bounded:
  assumes "lh_ok lh" "callback_depth lh = 0" "num_items lh < 3 * num_buckets lh"
    and "16 * num_buckets lh < size_modulus" "OPENSSL_malloc m (16 * num_buckets lh) \<noteq> None"
    and "lh_insert m lh d = (ok, old, lh')"
  shows "num_items lh' < 3 * num_buckets lh'"
proof -
  have big: "kMinNumBuckets \<le> num_buckets lh" using lh_okD(2) [OF assms(1)] .
  have nowrap: "(num_items lh + 1) mod size_modulus = num_items lh + 1" using assms(3,4) by simp
  have resized: "num_items (lh_maybe_resize m l) < 3 * num_buckets (lh_maybe_resize m l)"
    if l: "num_items l = num_items lh + 1" "num_buckets l = num_buckets lh" "callback_depth l = 0" for l
  proof (cases "num_items l div num_buckets l > 2")
    case True
    have "num_buckets (lh_maybe_resize m l) = num_buckets lh * 2"
      using True l assms(4,5) big
      by (auto simp: lh_maybe_resize_def Let_def lh_rebucket_def kMaxAverageChainLength_def sizeof_item_ptr_def kMinNumBuckets_def mult.commute split: option.splits)
    then show ?thesis using assms(3) l(1) big by (simp add: kMinNumBuckets_def)
  next
    case False
    have small: "num_items l < 3 * num_buckets l"
      using False l(2) big div_greater_zero_iff by (simp add: kMinNumBuckets_def not_less div_less_iff_less_mult less_Suc_eq_le [symmetric] mult.commute)
    show ?thesis
    proof (cases "num_buckets (lh_maybe_resize m l) = num_buckets l")
      case False
      then have "num_items l div num_buckets l = 0 \<and> num_buckets l div 2 \<le> num_buckets (lh_maybe_resize m l)"
        using \<open>\<not> num_items l div num_buckets l > 2\<close>
        by (auto simp: lh_maybe_resize_def Let_def lh_rebucket_def kMaxAverageChainLength_def kMinAverageChainLength_def split: option.splits if_splits)
      then show ?thesis using l(2) big by (auto simp: div_eq_0_iff kMinNumBuckets_def)
    qed (use small in simp)
  qed
  show ?thesis
    using assms(3,6) nowrap assms(2)
    by (auto simp: lh_insert_def Let_def split: prod.splits if_splits option.splits intro!: resized)
qed

theorem lhash_load_bounded_witness:
  "num_items (snd (snd (lh_insert total_malloc nat_table 7))) < 3 * num_buckets (snd (snd (lh_insert total_malloc nat_table 7)))"
proof -
  have "lh_insert total_malloc nat_table 7 = (fst (lh_insert total_malloc nat_table 7),
      fst (snd (lh_insert total_malloc nat_table 7)), snd (snd (lh_insert total_malloc nat_table 7)))" by simp
  then show ?thesis
    by (rule lhash_load_bounded [OF nat_table_ok(1) _ _ _ total_malloc_Some, rotated 3]) (simp_all add: nat_table_def)
qed

text \<open>\<^verbatim>\<open>lh_doall_arg\<close> calls the function once on every element, and the resizing after it loses none.\<close>

theorem lhash_doall_visits_all:
  assumes "lh_ok lh" "client_ok (lh_comp lh) (lh_hash lh)"
  shows "\<exists>ds lh'. distinct ds \<and> set ds = members lh \<and> lh_doall_arg m (Some lh) func arg = (fold func ds arg, Some lh') \<and>
    lh_ok lh' \<and> members lh' = members lh \<and> callback_depth lh' = (if callback_depth lh + 1 = uint_max then uint_max else callback_depth lh)"
proof -
  have d: "distinct (map item_data (all_items lh))"
    using distinct_data [OF distinct_all [OF assms] assms(2)] .
  have visit: "fold (fold (\<lambda>cur. func (item_data cur))) (buckets lh) arg = fold func (map item_data (all_items lh)) arg"
    by (simp add: fold_fold fold_map comp_def all_items_def)
  have resize: "lh_ok (lh_maybe_resize m (lh\<lparr>callback_depth := n\<rparr>)) \<and> members (lh_maybe_resize m (lh\<lparr>callback_depth := n\<rparr>)) = members lh" for n
    using maybe_resize_ok [of "lh\<lparr>callback_depth := n\<rparr>" m] assms by simp
  show ?thesis
    using d visit resize [of "callback_depth lh"] resize [of uint_max]
    by (intro exI [of _ "map item_data (all_items lh)"])
      (auto simp: lh_doall_arg_def Let_def members_def uint_max_def)
qed

theorem lhash_doall_visits_all_witness:
  "\<exists>ds lh'. set ds = {} \<and> lh_doall_arg total_malloc (Some nat_table) (\<lambda>d n. n + d) 0 = (fold (\<lambda>d n. n + d) ds 0, Some lh')"
proof -
  have "members nat_table = {}" by (simp add: nat_table_def members_def all_items_def)
  then show ?thesis using lhash_doall_visits_all [OF nat_table_ok, of total_malloc "\<lambda>d n. n + d" 0] by auto
qed

end
