(* ===== verification/Buf.thy ===== *)
theory Buf
  imports Mem
begin

text \<open>
  \<^verbatim>\<open>crypto/buf/buf.c\<close>: the growable byte buffer \<^verbatim>\<open>BUF_MEM\<close>.

  The field \<^verbatim>\<open>data\<close> is a block and an offset \<open>bm_off\<close> into it: \<^verbatim>\<open>bio_mem.c\<close> moves the pointer forward when it reads
  from a read-only buffer. For a buffer that is written to, the offset is zero.
\<close>

record BUF_MEM =
  bm_length :: nat
  bm_data :: "block option"
  bm_off :: nat
  bm_max :: nat

definition sizeof_BUF_MEM :: nat where "sizeof_BUF_MEM = 24"

definition BUF_MEM_new :: "libc_malloc \<Rightarrow> BUF_MEM option" where
  "BUF_MEM_new m =
     (case OPENSSL_malloc m sizeof_BUF_MEM of
        None \<Rightarrow> None
      | Some _ \<Rightarrow> Some \<lparr>bm_length = 0, bm_data = None, bm_off = 0, bm_max = 0\<rparr>)"

definition BUF_MEM_reserve :: "libc_malloc \<Rightarrow> nat \<Rightarrow> (BUF_MEM, unit) act" where
  "BUF_MEM_reserve m cap buf =
     (if bm_max buf \<ge> cap then (Some (), buf)
      else
        let n = (cap + 3) mod size_modulus
        in if n < cap then (None, buf)
           else
             let n = n div 3; alloc_size = n * 4 mod size_modulus
             in if alloc_size div 4 \<noteq> n then (None, buf)
                else case OPENSSL_realloc m (bm_data buf) alloc_size of
                       None \<Rightarrow> (None, buf)
                     | Some new_buf \<Rightarrow> (Some (), buf\<lparr>bm_data := Some new_buf, bm_max := alloc_size\<rparr>))"

text \<open>\<^verbatim>\<open>memcpy\<close> or \<^verbatim>\<open>memset\<close> of the bytes \<open>xs\<close> to \<^verbatim>\<open>buf->data + i\<close>.\<close>

definition buf_put :: "nat \<Rightarrow> byte list \<Rightarrow> BUF_MEM \<Rightarrow> BUF_MEM" where
  "buf_put i xs buf = buf\<lparr>bm_data := map_option (\<lambda>(sz, bs). (sz, blit (bm_off buf + i) xs bs)) (bm_data buf)\<rparr>"

text \<open>The result is the returned length, 0 on failure.\<close>

definition BUF_MEM_grow :: "libc_malloc \<Rightarrow> nat \<Rightarrow> BUF_MEM \<Rightarrow> nat \<times> BUF_MEM" where
  "BUF_MEM_grow m len buf =
     (case BUF_MEM_reserve m len buf of
        (None, buf) \<Rightarrow> (0, buf)
      | (Some _, buf) \<Rightarrow>
          let buf = (if bm_length buf < len then buf_put (bm_length buf) (replicate (len - bm_length buf) 0) buf else buf)
          in (len, buf\<lparr>bm_length := len\<rparr>))"

definition BUF_MEM_grow_clean :: "libc_malloc \<Rightarrow> nat \<Rightarrow> BUF_MEM \<Rightarrow> nat \<times> BUF_MEM" where
  "BUF_MEM_grow_clean m len buf = BUF_MEM_grow m len buf"

definition BUF_MEM_append :: "libc_malloc \<Rightarrow> byte list \<Rightarrow> (BUF_MEM, unit) act" where
  "BUF_MEM_append m inp buf =
     (if length inp = 0 then (Some (), buf)
      else
        let new_len = (bm_length buf + length inp) mod size_modulus
        in if new_len < length inp then (None, buf)
           else case BUF_MEM_reserve m new_len buf of
                  (None, buf) \<Rightarrow> (None, buf)
                | (Some _, buf) \<Rightarrow> (Some (), (buf_put (bm_length buf) inp buf)\<lparr>bm_length := new_len\<rparr>))"

definition BUF_strdup :: "libc_malloc \<Rightarrow> byte list option \<Rightarrow> byte list option" where
  "BUF_strdup m str = OPENSSL_strdup m str"

definition BUF_strnlen :: "byte list \<Rightarrow> nat \<Rightarrow> nat" where
  "BUF_strnlen str max_len = OPENSSL_strnlen str max_len"

definition BUF_strndup :: "libc_malloc \<Rightarrow> byte list option \<Rightarrow> nat \<Rightarrow> byte list option" where
  "BUF_strndup m str sz = OPENSSL_strndup m str sz"

definition BUF_strlcpy :: "byte list \<Rightarrow> byte list \<Rightarrow> nat \<Rightarrow> byte list \<times> nat" where
  "BUF_strlcpy dst src dst_size = OPENSSL_strlcpy dst src dst_size"

definition BUF_strlcat :: "byte list \<Rightarrow> byte list \<Rightarrow> nat \<Rightarrow> byte list \<times> nat" where
  "BUF_strlcat dst src dst_size = OPENSSL_strlcat dst src dst_size"

definition BUF_memdup :: "libc_malloc \<Rightarrow> byte list \<Rightarrow> byte list option" where
  "BUF_memdup m data = OPENSSL_memdup m data"


section \<open>The contents of a buffer\<close>

text \<open>The buffer lies inside its block, and its length inside the buffer.\<close>

definition buf_ok :: "BUF_MEM \<Rightarrow> bool" where
  "buf_ok b \<longleftrightarrow> bm_length b \<le> bm_max b \<and> bm_max b < object_max \<and>
     (case bm_data b of
        None \<Rightarrow> bm_max b = 0 \<and> bm_off b = 0
      | Some (sz, bs) \<Rightarrow> sz = length bs \<and> bm_off b + bm_length b \<le> length bs \<and> (bm_off b = 0 \<longrightarrow> bm_max b \<le> length bs))"

definition buf_contents :: "BUF_MEM \<Rightarrow> byte list" where
  "buf_contents b = (case bm_data b of None \<Rightarrow> [] | Some (_, bs) \<Rightarrow> take (bm_length b) (drop (bm_off b) bs))"

lemma length_buf_contents: "buf_ok b \<Longrightarrow> length (buf_contents b) = bm_length b"
  by (auto simp: buf_ok_def buf_contents_def split: option.splits)

text \<open>A reservation that succeeds keeps the contents and makes room.\<close>

lemma reserve_ok:
  assumes "malloc_ok m" "buf_ok b" "bm_off b = 0" "cap < object_max div 2" "BUF_MEM_reserve m cap b = (r, b')"
  shows "buf_ok b' \<and> bm_off b' = 0 \<and> bm_length b' = bm_length b \<and> buf_contents b' = buf_contents b \<and>
    (r = None \<longrightarrow> b' = b) \<and> (r = Some () \<longrightarrow> cap \<le> bm_max b')"
proof (cases "b' = b")
  case True
  then show ?thesis using assms
    by (auto simp: BUF_MEM_reserve_def Let_def split: if_splits option.splits dest: arg_cong [where f = bm_max])
next
  case False
  define a where "a = (cap + 3) div 3 * 4"
  have wrap: "(cap + 3) mod size_modulus = cap + 3" "a mod size_modulus = a" "a < object_max" "cap \<le> a"
    using assms(4) unfolding a_def by simp_all
  have quot: "(cap + 3) div 3 * 4 mod size_modulus = a" "a div 4 = (cap + 3) div 3"
    using wrap(2) unfolding a_def by simp_all
  have eq: "BUF_MEM_reserve m cap b = (if cap \<le> bm_max b then (Some (), b)
      else case OPENSSL_realloc m (bm_data b) a of None \<Rightarrow> (None, b)
        | Some new_buf \<Rightarrow> (Some (), b\<lparr>bm_data := Some new_buf, bm_max := a\<rparr>))"
    unfolding BUF_MEM_reserve_def Let_def wrap(1) quot by simp
  obtain nb where
    nb: "OPENSSL_realloc m (bm_data b) a = Some nb" "b' = b\<lparr>bm_data := Some nb, bm_max := a\<rparr>" "bm_max b < cap" "r = Some ()"
    using False assms(5) unfolding eq by (cases "OPENSSL_realloc m (bm_data b) a") (auto split: if_splits)
  have len: "a + OPENSSL_MALLOC_PREFIX < size_modulus" using wrap(3) by (simp add: OPENSSL_MALLOC_PREFIX_def)
  have small: "bm_length b \<le> bm_max b" "bm_max b < a" using assms(2) nb(3) wrap(4) by (auto simp: buf_ok_def)
  show ?thesis
  proof (cases "bm_data b")
    case None
    then have "OPENSSL_malloc m a = Some nb" using nb(1) by (simp add: OPENSSL_realloc_def)
    moreover obtain sz bs where "nb = (sz, bs)" by (cases nb)
    ultimately have "nb = (a, bs)" "length bs = a" using OPENSSL_malloc_length [OF assms(1) _ len] by auto
    then show ?thesis using assms(2,3) None nb wrap by (auto simp: buf_ok_def buf_contents_def)
  next
    case (Some d)
    obtain osz old where d: "d = (osz, old)" by (cases d)
    have o: "osz = length old" "bm_length b \<le> length old" "bm_max b \<le> length old"
      using assms(2,3) by (auto simp: buf_ok_def Some d)
    from nb(1) obtain sz ret where al: "OPENSSL_malloc m a = Some (sz, ret)"
      by (cases "OPENSSL_malloc m a") (auto simp: OPENSSL_realloc_def Some d)
    have "sz = a" "length ret = a" using OPENSSL_malloc_length [OF assms(1) al len] by simp_all
    then have ret: "length ret = a" "nb = (a, blit 0 (take (if osz < a then osz else a) old) ret)"
      using nb(1) al by (simp_all add: OPENSSL_realloc_def Some d Let_def)
    have "take (bm_length b) (blit 0 (take (if osz < a then osz else a) old) ret) = take (bm_length b) old"
      using o small by (auto simp: blit_def min_def)
    moreover have "length (blit 0 (take (if osz < a then osz else a) old) ret) = a"
      using ret(1) by (intro trans [OF length_blit]) auto
    ultimately show ?thesis
      using nb(2-4) ret(2) small wrap(3,4) assms(3) by (auto simp: buf_ok_def buf_contents_def Some d)
  qed
qed

lemma put_ok:
  assumes "buf_ok b" "bm_off b = 0" "i \<le> bm_length b" "i + length xs \<le> bm_max b"
  shows "buf_ok ((buf_put i xs b)\<lparr>bm_length := i + length xs\<rparr>) \<and>
    buf_contents ((buf_put i xs b)\<lparr>bm_length := i + length xs\<rparr>) = take i (buf_contents b) @ xs"
proof (cases "bm_data b")
  case None
  then show ?thesis using assms by (auto simp: buf_ok_def buf_put_def buf_contents_def)
next
  case (Some d)
  then obtain bs where bs: "bm_data b = Some (length bs, bs)" using assms(1) by (cases d) (auto simp: buf_ok_def)
  then have "bm_max b \<le> length bs" using assms(1,2) by (simp add: buf_ok_def)
  then show ?thesis
    using assms bs take_blit_append [of i xs bs]
    by (auto simp: buf_ok_def buf_put_def buf_contents_def min_def)
qed

lemma truncate_ok:
  "buf_ok b \<Longrightarrow> n \<le> bm_length b \<Longrightarrow>
    buf_ok (b\<lparr>bm_length := n\<rparr>) \<and> buf_contents (b\<lparr>bm_length := n\<rparr>) = take n (buf_contents b)"
  by (auto simp: buf_ok_def buf_contents_def min_def split: option.splits)

lemma grow_ok:
  assumes "malloc_ok m" "buf_ok b" "bm_off b = 0" "len < object_max div 2" "BUF_MEM_grow m len b = (n, b')"
  shows "buf_ok b' \<and> bm_off b' = 0 \<and>
    (if BUF_MEM_reserve m len b = (Some (), snd (BUF_MEM_reserve m len b))
     then n = len \<and> buf_contents b' = take len (buf_contents b) @ replicate (len - length (buf_contents b)) 0
     else n = 0 \<and> b' = b)"
proof -
  obtain r b1 where r: "BUF_MEM_reserve m len b = (r, b1)" by (cases "BUF_MEM_reserve m len b")
  note b1 = reserve_ok [OF assms(1-4) r]
  show ?thesis
  proof (cases r)
    case None
    then show ?thesis using assms(5) r b1 by (auto simp: BUF_MEM_grow_def)
  next
    case (Some u)
    show ?thesis
    proof (cases "bm_length b1 < len")
      case True
      then show ?thesis
        using Some assms(5) r b1 put_ok [of b1 "bm_length b1" "replicate (len - bm_length b1) 0"] length_buf_contents [of b1]
        by (auto simp: BUF_MEM_grow_def Let_def buf_put_def)
    next
      case False
      then have "n = len" "b' = b1\<lparr>bm_length := len\<rparr>" "len \<le> bm_length b1"
        using Some assms(5) r by (auto simp: BUF_MEM_grow_def Let_def)
      then show ?thesis
        using Some r b1 truncate_ok [of b1 len] length_buf_contents [of b1] by simp
    qed
  qed
qed

lemma append_ok:
  assumes "malloc_ok m" "buf_ok b" "bm_off b = 0" "bm_length b + length xs < object_max div 2"
    "BUF_MEM_append m xs b = (r, b')"
  shows "buf_ok b' \<and> bm_off b' = 0 \<and>
    (case r of None \<Rightarrow> b' = b | Some _ \<Rightarrow> buf_contents b' = buf_contents b @ xs)"
proof (cases "xs = []")
  case True
  then show ?thesis using assms by (auto simp: BUF_MEM_append_def)
next
  case False
  have wrap: "(bm_length b + length xs) mod size_modulus = bm_length b + length xs" using assms(4) by simp
  obtain r1 b1 where r: "BUF_MEM_reserve m (bm_length b + length xs) b = (r1, b1)"
    by (cases "BUF_MEM_reserve m (bm_length b + length xs) b")
  note b1 = reserve_ok [OF assms(1-4) r]
  show ?thesis
    using False assms(5) r b1 wrap put_ok [of b1 "bm_length b1" xs] length_buf_contents [of b1]
    by (cases r1) (auto simp: BUF_MEM_append_def Let_def buf_put_def)
qed

end
