(* ===== verification/Bio_Base.thy ===== *)
theory Bio_Base
  imports Buf
begin

text \<open>
  The \<^verbatim>\<open>BIO\<close> object (\<^verbatim>\<open>include/openssl/bio.h\<close>, \<^verbatim>\<open>crypto/bio/bio.c\<close>) and the store in which BIOs point at each
  other.

  A \<^verbatim>\<open>BIO*\<close> is a number, NULL is \<open>None\<close>, and \<open>bios\<close> maps the live ones to their objects; \<open>next_id\<close> is the address that the
  next allocation gets. The two kinds of BIO whose methods are modelled are memory buffers and the halves of a pair; the
  structure behind \<^verbatim>\<open>bio->ptr\<close> belongs to one BIO only and is part of it. An operation on the store
  is \<open>None\<close> when the code has no defined behaviour there: a dead or wrong pointer, an access outside an array, an assertion that fails, or
  a loop that does not end.
\<close>

datatype bio_method = BIO_s_bio | BIO_s_mem

record bio_bio_st =
  peer :: "nat option"
  closed :: bool
  bb_len :: nat
  bb_offset :: nat
  bb_size :: nat
  bb_buf :: "byte list option"
  request :: nat

datatype bio_data = No_Data | Pair_Data bio_bio_st | Mem_Data BUF_MEM

record BIO =
  bmethod :: bio_method
  init :: bool
  bshutdown :: int
  flags :: u32
  retry_reason :: int
  num :: int
  references :: nat
  bptr :: bio_data
  next_bio :: "nat option"
  num_read :: nat
  num_write :: nat

text \<open>The cast of a \<^verbatim>\<open>long\<close> to \<^verbatim>\<open>int\<close>, which has 32 bits.\<close>

definition int_of_long :: "int \<Rightarrow> int" where
  "int_of_long n = signed_take_bit 31 n"

record bios =
  next_id :: nat
  bio_at :: "nat \<Rightarrow> BIO option"

definition BIO_FLAGS_READ :: u32 where "BIO_FLAGS_READ = 0x01"
definition BIO_FLAGS_WRITE :: u32 where "BIO_FLAGS_WRITE = 0x02"
definition BIO_FLAGS_IO_SPECIAL :: u32 where "BIO_FLAGS_IO_SPECIAL = 0x04"
definition BIO_FLAGS_RWS :: u32 where "BIO_FLAGS_RWS = (BIO_FLAGS_READ OR BIO_FLAGS_WRITE OR BIO_FLAGS_IO_SPECIAL)"
definition BIO_FLAGS_SHOULD_RETRY :: u32 where "BIO_FLAGS_SHOULD_RETRY = 0x08"
definition BIO_FLAGS_MEM_RDONLY :: u32 where "BIO_FLAGS_MEM_RDONLY = 0x200"
definition kRetryFlags :: u32 where "kRetryFlags = (BIO_FLAGS_RWS OR BIO_FLAGS_SHOULD_RETRY)"

definition BIO_CTRL_RESET :: int where "BIO_CTRL_RESET = 1"
definition BIO_CTRL_EOF :: int where "BIO_CTRL_EOF = 2"
definition BIO_CTRL_INFO :: int where "BIO_CTRL_INFO = 3"
definition BIO_CTRL_GET_CLOSE :: int where "BIO_CTRL_GET_CLOSE = 8"
definition BIO_CTRL_SET_CLOSE :: int where "BIO_CTRL_SET_CLOSE = 9"
definition BIO_CTRL_PENDING :: int where "BIO_CTRL_PENDING = 10"
definition BIO_CTRL_FLUSH :: int where "BIO_CTRL_FLUSH = 11"
definition BIO_CTRL_WPENDING :: int where "BIO_CTRL_WPENDING = 13"
definition BIO_C_SET_BUF_MEM :: int where "BIO_C_SET_BUF_MEM = 114"
definition BIO_C_GET_BUF_MEM_PTR :: int where "BIO_C_GET_BUF_MEM_PTR = 115"
definition BIO_C_SET_BUF_MEM_EOF_RETURN :: int where "BIO_C_SET_BUF_MEM_EOF_RETURN = 130"
definition BIO_C_GET_WRITE_BUF_SIZE :: int where "BIO_C_GET_WRITE_BUF_SIZE = 137"
definition BIO_C_GET_WRITE_GUARANTEE :: int where "BIO_C_GET_WRITE_GUARANTEE = 140"
definition BIO_C_GET_READ_REQUEST :: int where "BIO_C_GET_READ_REQUEST = 141"
definition BIO_C_SHUTDOWN_WR :: int where "BIO_C_SHUTDOWN_WR = 142"
definition BIO_C_RESET_READ_REQUEST :: int where "BIO_C_RESET_READ_REQUEST = 147"

lemmas bio_ctrl_codes =
  BIO_CTRL_RESET_def BIO_CTRL_EOF_def BIO_CTRL_INFO_def BIO_CTRL_GET_CLOSE_def BIO_CTRL_SET_CLOSE_def
  BIO_CTRL_PENDING_def BIO_CTRL_FLUSH_def BIO_CTRL_WPENDING_def BIO_C_SET_BUF_MEM_def BIO_C_GET_BUF_MEM_PTR_def
  BIO_C_SET_BUF_MEM_EOF_RETURN_def BIO_C_GET_WRITE_BUF_SIZE_def BIO_C_GET_WRITE_GUARANTEE_def
  BIO_C_GET_READ_REQUEST_def BIO_C_SHUTDOWN_WR_def BIO_C_RESET_READ_REQUEST_def

text \<open>What the \<^verbatim>\<open>void*\<close> argument of a control operation points to.\<close>

datatype ctrl_ptr = No_Ptr | Bio_Ptr nat | Buf_Ptr BUF_MEM

text \<open>The conversion of \<^verbatim>\<open>size_t\<close> to \<^verbatim>\<open>int\<close>.\<close>

definition to_int :: "nat \<Rightarrow> int" where
  "to_int n = sint (word_of_nat n :: 32 word)"

lemma to_int_small: "n \<le> int_max \<Longrightarrow> to_int n = int n"
  by (simp add: to_int_def signed_of_nat signed_take_bit_int_eq_self)

section \<open>Flags\<close>

definition BIO_set_flags :: "u32 \<Rightarrow> BIO \<Rightarrow> BIO" where
  "BIO_set_flags fl bio = bio\<lparr>flags := flags bio OR fl\<rparr>"

definition BIO_test_flags :: "u32 \<Rightarrow> BIO \<Rightarrow> u32" where
  "BIO_test_flags fl bio = flags bio AND fl"

definition BIO_should_read :: "BIO \<Rightarrow> bool" where
  "BIO_should_read bio \<longleftrightarrow> BIO_test_flags BIO_FLAGS_READ bio \<noteq> 0"

definition BIO_should_write :: "BIO \<Rightarrow> bool" where
  "BIO_should_write bio \<longleftrightarrow> BIO_test_flags BIO_FLAGS_WRITE bio \<noteq> 0"

definition BIO_should_retry :: "BIO \<Rightarrow> bool" where
  "BIO_should_retry bio \<longleftrightarrow> BIO_test_flags BIO_FLAGS_SHOULD_RETRY bio \<noteq> 0"

definition BIO_should_io_special :: "BIO \<Rightarrow> bool" where
  "BIO_should_io_special bio \<longleftrightarrow> BIO_test_flags BIO_FLAGS_IO_SPECIAL bio \<noteq> 0"

definition BIO_clear_flags :: "u32 \<Rightarrow> BIO \<Rightarrow> BIO" where
  "BIO_clear_flags fl bio = bio\<lparr>flags := flags bio AND NOT fl\<rparr>"

definition BIO_set_retry_read :: "BIO \<Rightarrow> BIO" where
  "BIO_set_retry_read bio = bio\<lparr>flags := flags bio OR (BIO_FLAGS_READ OR BIO_FLAGS_SHOULD_RETRY)\<rparr>"

definition BIO_set_retry_write :: "BIO \<Rightarrow> BIO" where
  "BIO_set_retry_write bio = bio\<lparr>flags := flags bio OR (BIO_FLAGS_WRITE OR BIO_FLAGS_SHOULD_RETRY)\<rparr>"

definition BIO_set_retry_special :: "BIO \<Rightarrow> BIO" where
  "BIO_set_retry_special bio = bio\<lparr>flags := flags bio OR (BIO_FLAGS_READ OR BIO_FLAGS_IO_SPECIAL)\<rparr>"

definition BIO_get_retry_flags :: "BIO \<Rightarrow> u32" where
  "BIO_get_retry_flags bio = flags bio AND kRetryFlags"

definition BIO_clear_retry_flags :: "BIO \<Rightarrow> BIO" where
  "BIO_clear_retry_flags bio = bio\<lparr>flags := flags bio AND NOT kRetryFlags, retry_reason := 0\<rparr>"

lemmas bio_flag_defs = BIO_FLAGS_READ_def BIO_FLAGS_WRITE_def BIO_FLAGS_IO_SPECIAL_def BIO_FLAGS_RWS_def
  BIO_FLAGS_SHOULD_RETRY_def BIO_FLAGS_MEM_RDONLY_def kRetryFlags_def

text \<open>The retry flags are set by the last operation only: clearing leaves none, and says nothing about the others.\<close>

lemma retry_flags:
  "\<not> BIO_should_retry (BIO_clear_retry_flags b)" "\<not> BIO_should_read (BIO_clear_retry_flags b)"
  "\<not> BIO_should_write (BIO_clear_retry_flags b)"
  "BIO_should_retry (BIO_set_retry_read b)" "BIO_should_read (BIO_set_retry_read b)"
  "BIO_should_retry (BIO_set_retry_write b)" "BIO_should_write (BIO_set_retry_write b)"
  by (simp_all add: BIO_should_retry_def BIO_should_read_def BIO_should_write_def BIO_test_flags_def BIO_clear_retry_flags_def
      BIO_set_retry_read_def BIO_set_retry_write_def bio_flag_defs and.assoc word_ao_dist or_eq_0_iff)

lemma retry_counters [simp]:
  "BIO_should_retry (b\<lparr>num_read := n\<rparr>) = BIO_should_retry b" "BIO_should_retry (b\<lparr>num_write := n\<rparr>) = BIO_should_retry b"
  by (simp_all add: BIO_should_retry_def BIO_test_flags_def)

section \<open>The store\<close>

definition upd_bio :: "nat \<Rightarrow> (BIO \<Rightarrow> BIO) \<Rightarrow> bios \<Rightarrow> bios" where
  "upd_bio x f h = h\<lparr>bio_at := (bio_at h)(x := map_option f (bio_at h x))\<rparr>"

definition pair_at :: "bios \<Rightarrow> nat \<Rightarrow> bio_bio_st option" where
  "pair_at h x = (case bio_at h x of Some b \<Rightarrow> (case bptr b of Pair_Data p \<Rightarrow> Some p | _ \<Rightarrow> None) | None \<Rightarrow> None)"

definition mem_at :: "bios \<Rightarrow> nat \<Rightarrow> BUF_MEM option" where
  "mem_at h x = (case bio_at h x of Some b \<Rightarrow> (case bptr b of Mem_Data p \<Rightarrow> Some p | _ \<Rightarrow> None) | None \<Rightarrow> None)"

definition set_pair :: "nat \<Rightarrow> bio_bio_st \<Rightarrow> bios \<Rightarrow> bios" where
  "set_pair x p = upd_bio x (\<lambda>b. b\<lparr>bptr := Pair_Data p\<rparr>)"

definition set_mem :: "nat \<Rightarrow> BUF_MEM \<Rightarrow> bios \<Rightarrow> bios" where
  "set_mem x p = upd_bio x (\<lambda>b. b\<lparr>bptr := Mem_Data p\<rparr>)"

lemma upd_bio_at [simp]: "bio_at (upd_bio x f h) y = (if y = x then map_option f (bio_at h x) else bio_at h y)"
  by (simp add: upd_bio_def)

lemma set_pair_at: "bio_at (set_pair x p h) y = (if y = x then map_option (\<lambda>b. b\<lparr>bptr := Pair_Data p\<rparr>) (bio_at h x) else bio_at h y)"
  by (simp add: set_pair_def)

lemma set_mem_at: "bio_at (set_mem x p h) y = (if y = x then map_option (\<lambda>b. b\<lparr>bptr := Mem_Data p\<rparr>) (bio_at h x) else bio_at h y)"
  by (simp add: set_mem_def)

lemma pair_at_Some: "pair_at h x = Some p \<longleftrightarrow> (\<exists>b. bio_at h x = Some b \<and> bptr b = Pair_Data p)"
  by (auto simp: pair_at_def split: option.splits bio_data.splits)

lemma mem_at_Some: "mem_at h x = Some p \<longleftrightarrow> (\<exists>b. bio_at h x = Some b \<and> bptr b = Mem_Data p)"
  by (auto simp: mem_at_def split: option.splits bio_data.splits)

lemma pair_at_set [simp]:
  "pair_at (set_pair x p h) y = (if y = x \<and> bio_at h x \<noteq> None then Some p else pair_at h y)"
  "mem_at (set_mem x q h) y = (if y = x \<and> bio_at h x \<noteq> None then Some q else mem_at h y)"
  by (auto simp: pair_at_def mem_at_def set_pair_at set_mem_at split: option.splits)

lemma flag_fields [simp]:
  "bptr (BIO_clear_retry_flags b) = bptr b" "init (BIO_clear_retry_flags b) = init b"
  "bmethod (BIO_clear_retry_flags b) = bmethod b" "next_bio (BIO_clear_retry_flags b) = next_bio b"
  "num (BIO_clear_retry_flags b) = num b" "num_read (BIO_clear_retry_flags b) = num_read b"
  "num_write (BIO_clear_retry_flags b) = num_write b" "bshutdown (BIO_clear_retry_flags b) = bshutdown b"
  "bptr (BIO_set_retry_read b) = bptr b" "init (BIO_set_retry_read b) = init b"
  "bmethod (BIO_set_retry_read b) = bmethod b" "next_bio (BIO_set_retry_read b) = next_bio b"
  "num (BIO_set_retry_read b) = num b" "num_read (BIO_set_retry_read b) = num_read b"
  "num_write (BIO_set_retry_read b) = num_write b" "bshutdown (BIO_set_retry_read b) = bshutdown b"
  "bptr (BIO_set_retry_write b) = bptr b" "init (BIO_set_retry_write b) = init b"
  "bmethod (BIO_set_retry_write b) = bmethod b" "next_bio (BIO_set_retry_write b) = next_bio b"
  "num (BIO_set_retry_write b) = num b" "num_read (BIO_set_retry_write b) = num_read b"
  "num_write (BIO_set_retry_write b) = num_write b" "bshutdown (BIO_set_retry_write b) = bshutdown b"
  by (simp_all add: BIO_clear_retry_flags_def BIO_set_retry_read_def BIO_set_retry_write_def)

lemma pair_at_upd [simp]:
  "(\<And>b. bptr (f b) = bptr b) \<Longrightarrow> pair_at (upd_bio x f h) y = pair_at h y"
  "(\<And>b. bptr (f b) = bptr b) \<Longrightarrow> mem_at (upd_bio x f h) y = mem_at h y"
  by (auto simp: pair_at_def mem_at_def split: option.splits)

end
