(* ===== verification/Bio_Pair.thy ===== *)
theory Bio_Pair
  imports Bio_Base "HOL-Library.Monad_Syntax"
begin

text \<open>
  \<^verbatim>\<open>crypto/bio/pair.c\<close>: two BIOs connected by two ring buffers. What is written to one half is read from the
  other.

  An assertion of the code is \<open>assert_that\<close>, a \<^verbatim>\<open>memcpy\<close> carries the assertion that it stays inside the ring buffer, and the
  two copying loops have the bound of two iterations that their comment claims: where the code would break one of them,
  the result is \<open>None\<close>. Returned lengths and error codes are integers; \<^verbatim>\<open>bio_read\<close> also returns the bytes that it stores
  through \<^verbatim>\<open>buf\<close>.
\<close>

definition assert_that :: "bool \<Rightarrow> unit option" where
  "assert_that b = (if b then Some () else None)"

lemma assert_that_simps [simp]:
  "assert_that True = Some ()" "assert_that False = None"
  "assert_that b = Some u \<longleftrightarrow> b" "b \<Longrightarrow> Option.bind (assert_that b) f = f ()"
  by (auto simp: assert_that_def)

definition sizeof_bio_bio_st :: nat where "sizeof_bio_bio_st = 56"

definition bio_new :: "libc_malloc \<Rightarrow> BIO \<Rightarrow> BIO option" where
  "bio_new m bio =
     (case OPENSSL_malloc m sizeof_bio_bio_st of
        None \<Rightarrow> None
      | Some _ \<Rightarrow> Some (bio\<lparr>bptr := Pair_Data \<lparr>peer = None, closed = False, bb_len = 0, bb_offset = 0,
          bb_size = 17 * 1024, bb_buf = None, request = 0\<rparr>\<rparr>))"

definition bio_destroy_pair :: "nat \<Rightarrow> bios \<Rightarrow> bios option" where
  "bio_destroy_pair x h = do {
     b \<leftarrow> pair_at h x;
     (case peer b of
        None \<Rightarrow> Some h
      | Some y \<Rightarrow> do {
          peer_b \<leftarrow> pair_at h y;
          assert_that (peer peer_b = Some x);
          assert_that (bb_buf peer_b \<noteq> None);
          let h = upd_bio y (\<lambda>o'. o'\<lparr>init := False\<rparr>) (set_pair y (peer_b\<lparr>peer := None, bb_len := 0, bb_offset := 0\<rparr>) h);
          b \<leftarrow> pair_at h x;
          assert_that (bb_buf b \<noteq> None);
          Some (upd_bio x (\<lambda>o'. o'\<lparr>init := False\<rparr>) (set_pair x (b\<lparr>peer := None, bb_len := 0, bb_offset := 0\<rparr>) h))
        })
   }"

text \<open>The structure is freed; the BIO does not use \<^verbatim>\<open>ptr\<close> any more.\<close>

definition bio_free :: "nat \<Rightarrow> bios \<Rightarrow> (int \<times> bios) option" where
  "bio_free x h = do {
     b \<leftarrow> pair_at h x;
     h \<leftarrow> (if peer b \<noteq> None then bio_destroy_pair x h else Some h);
     Some (1, upd_bio x (\<lambda>o'. o'\<lparr>bptr := No_Data\<rparr>) h)
   }"

text \<open>The loop of \<^verbatim>\<open>bio_read\<close>: the bytes of this and the following chunks, and the ring buffer without them.\<close>

primrec ring_read :: "nat \<Rightarrow> bio_bio_st \<Rightarrow> nat \<Rightarrow> (byte list \<times> bio_bio_st) option" where
  "ring_read 0 p rest = None"
| "ring_read (Suc n) p rest = do {
     buf \<leftarrow> bb_buf p;
     assert_that (rest \<le> bb_len p);
     let chunk = (if bb_offset p + rest \<le> bb_size p then rest else bb_size p - bb_offset p);
     assert_that (bb_offset p + chunk \<le> bb_size p);
     assert_that (bb_offset p + chunk \<le> length buf);
     let out = take chunk (drop (bb_offset p) buf);
     let p = p\<lparr>bb_len := bb_len p - chunk\<rparr>;
     p \<leftarrow> (if bb_len p \<noteq> 0 then do {
              let p = p\<lparr>bb_offset := bb_offset p + chunk\<rparr>;
              assert_that (bb_offset p \<le> bb_size p);
              Some (if bb_offset p = bb_size p then p\<lparr>bb_offset := 0\<rparr> else p)
            } else do {
              assert_that (chunk = rest);
              Some (p\<lparr>bb_offset := 0\<rparr>)
            });
     let rest = rest - chunk;
     if rest \<noteq> 0 then do {
       (more, p) \<leftarrow> ring_read n p rest;
       Some (out @ more, p)
     } else Some (out, p)
   }"

text \<open>\<open>buf_null\<close> says that the caller passed NULL for \<^verbatim>\<open>buf\<close>.\<close>

definition bio_read :: "nat \<Rightarrow> bool \<Rightarrow> int \<Rightarrow> bios \<Rightarrow> (int \<times> byte list \<times> bios) option" where
  "bio_read x buf_null len h = do {
     let sz = nat (len mod int size_modulus);
     let h = upd_bio x BIO_clear_retry_flags h;
     bio \<leftarrow> bio_at h x;
     if \<not> init bio then Some (0, [], h)
     else do {
       b \<leftarrow> pair_at h x;
       y \<leftarrow> peer b;
       peer_b \<leftarrow> pair_at h y;
       assert_that (bb_buf peer_b \<noteq> None);
       let peer_b = peer_b\<lparr>request := 0\<rparr>;
       if buf_null \<or> sz = 0 then Some (0, [], set_pair y peer_b h)
       else if bb_len peer_b = 0 then
         (if closed peer_b then Some (0, [], set_pair y peer_b h)
          else
            let peer_b = (if sz \<le> bb_size peer_b then peer_b\<lparr>request := sz\<rparr> else peer_b\<lparr>request := bb_size peer_b\<rparr>)
            in Some (-1, [], upd_bio x BIO_set_retry_read (set_pair y peer_b h)))
       else do {
         let sz = (if bb_len peer_b < sz then bb_len peer_b else sz);
         assert_that (sz > 0);
         (out, peer_b) \<leftarrow> ring_read 2 peer_b sz;
         Some (int sz, out, set_pair y peer_b h)
       }
     }
   }"

primrec ring_write :: "nat \<Rightarrow> bio_bio_st \<Rightarrow> byte list \<Rightarrow> bio_bio_st option" where
  "ring_write 0 b buf = None"
| "ring_write (Suc n) b buf = do {
     ring \<leftarrow> bb_buf b;
     let rest = length buf;
     assert_that (bb_len b + rest \<le> bb_size b);
     let write_offset = bb_offset b + bb_len b;
     let write_offset = (if write_offset \<ge> bb_size b then write_offset - bb_size b else write_offset);
     let chunk = (if write_offset + rest \<le> bb_size b then rest else bb_size b - write_offset);
     assert_that (write_offset + chunk \<le> length ring);
     let b = b\<lparr>bb_buf := Some (blit write_offset (take chunk buf) ring), bb_len := bb_len b + chunk\<rparr>;
     assert_that (bb_len b \<le> bb_size b);
     if rest - chunk \<noteq> 0 then ring_write n b (drop chunk buf) else Some b
   }"

text \<open>\<open>buf\<close> is \<open>None\<close> for NULL, otherwise the array whose first \<^verbatim>\<open>num\<close> bytes are written.\<close>

definition bio_write :: "nat \<Rightarrow> byte list option \<Rightarrow> int \<Rightarrow> bios \<Rightarrow> (int \<times> bios) option" where
  "bio_write x buf len h = do {
     let n = nat (len mod int size_modulus);
     let h = upd_bio x BIO_clear_retry_flags h;
     bio \<leftarrow> bio_at h x;
     if \<not> init bio \<or> buf = None \<or> n = 0 then Some (0, h)
     else do {
       data \<leftarrow> buf;
       b \<leftarrow> pair_at h x;
       assert_that (peer b \<noteq> None);
       assert_that (bb_buf b \<noteq> None);
       let b = b\<lparr>request := 0\<rparr>;
       if closed b then Some (-1, set_pair x b h)
       else do {
         assert_that (bb_len b \<le> bb_size b);
         if bb_len b = bb_size b then Some (-1, upd_bio x BIO_set_retry_write (set_pair x b h))
         else do {
           let n = (if n > bb_size b - bb_len b then bb_size b - bb_len b else n);
           assert_that (n > 0);
           assert_that (n \<le> length data);
           b \<leftarrow> ring_write 2 b (take n data);
           Some (int n, set_pair x b h)
         }
       }
     }
   }"

text \<open>Allocating the ring buffer of one half, if it has none yet.\<close>

definition make_buf :: "libc_malloc \<Rightarrow> nat \<Rightarrow> bio_bio_st \<Rightarrow> bio_bio_st option \<times> bio_bio_st" where
  "make_buf m writebuf_len b =
     (if bb_buf b = None then
        let b = (if writebuf_len \<noteq> 0 then b\<lparr>bb_size := writebuf_len\<rparr> else b)
        in case OPENSSL_malloc m (bb_size b) of
             None \<Rightarrow> (None, b)
           | Some (_, buf) \<Rightarrow> (Some (b\<lparr>bb_buf := Some buf, bb_len := 0, bb_offset := 0\<rparr>), b)
      else (Some b, b))"

text \<open>Two calls of \<^verbatim>\<open>malloc\<close>, which may fail independently of one another: the one for each half has an argument of its own.\<close>

definition bio_make_pair :: "libc_malloc \<Rightarrow> libc_malloc \<Rightarrow> nat \<Rightarrow> nat \<Rightarrow> nat \<Rightarrow> nat \<Rightarrow> bios \<Rightarrow> (bool \<times> bios) option" where
  "bio_make_pair m1 m2 bio1 bio2 writebuf1_len writebuf2_len h = do {
     b1 \<leftarrow> pair_at h bio1;
     b2 \<leftarrow> pair_at h bio2;
     if peer b1 \<noteq> None \<or> peer b2 \<noteq> None then Some (False, h)
     else
       (case make_buf m1 writebuf1_len b1 of
          (None, b1) \<Rightarrow> Some (False, set_pair bio1 b1 h)
        | (Some b1, _) \<Rightarrow>
            let h = set_pair bio1 b1 h
            in do {
              b2 \<leftarrow> pair_at h bio2;
              (case make_buf m2 writebuf2_len b2 of
                 (None, b2) \<Rightarrow> Some (False, set_pair bio2 b2 h)
               | (Some b2, _) \<Rightarrow> do {
                   let h = set_pair bio2 b2 h;
                   b1 \<leftarrow> pair_at h bio1;
                   let h = set_pair bio1 (b1\<lparr>peer := Some bio2, closed := False, request := 0\<rparr>) h;
                   b2 \<leftarrow> pair_at h bio2;
                   let h = set_pair bio2 (b2\<lparr>peer := Some bio1, closed := False, request := 0\<rparr>) h;
                   Some (True, upd_bio bio2 (\<lambda>o'. o'\<lparr>init := True\<rparr>) (upd_bio bio1 (\<lambda>o'. o'\<lparr>init := True\<rparr>) h))
                 })
            })
   }"

text \<open>\<^verbatim>\<open>long\<close> has 64 bits and holds every buffer size.\<close>

definition bio_ctrl :: "nat \<Rightarrow> int \<Rightarrow> int \<Rightarrow> ctrl_ptr \<Rightarrow> bios \<Rightarrow> (int \<times> bios) option" where
  "bio_ctrl x cmd n ptr h = do {
     bio \<leftarrow> bio_at h x;
     b \<leftarrow> pair_at h x;
     if cmd = BIO_C_GET_WRITE_BUF_SIZE then Some (int (bb_size b), h)
     else if cmd = BIO_C_GET_WRITE_GUARANTEE then
       Some (if peer b = None \<or> closed b then 0 else int (bb_size b) - int (bb_len b), h)
     else if cmd = BIO_C_GET_READ_REQUEST then Some (int (request b), h)
     else if cmd = BIO_C_RESET_READ_REQUEST then Some (1, set_pair x (b\<lparr>request := 0\<rparr>) h)
     else if cmd = BIO_C_SHUTDOWN_WR then Some (1, set_pair x (b\<lparr>closed := True\<rparr>) h)
     else if cmd = BIO_CTRL_GET_CLOSE then Some (bshutdown bio, h)
     else if cmd = BIO_CTRL_SET_CLOSE then Some (1, upd_bio x (\<lambda>o'. o'\<lparr>bshutdown := int_of_long n\<rparr>) h)
     else if cmd = BIO_CTRL_PENDING then
       (case peer b of None \<Rightarrow> Some (0, h) | Some y \<Rightarrow> do { peer_b \<leftarrow> pair_at h y; Some (int (bb_len peer_b), h) })
     else if cmd = BIO_CTRL_WPENDING then Some (if bb_buf b \<noteq> None then int (bb_len b) else 0, h)
     else if cmd = BIO_CTRL_FLUSH then Some (1, h)
     else if cmd = BIO_CTRL_EOF then
       (case ptr of
          Bio_Ptr y \<Rightarrow> do { other_b \<leftarrow> pair_at h y; Some (if bb_len other_b = 0 \<and> closed other_b then 1 else 0, h) }
        | No_Ptr \<Rightarrow> Some (1, h)
        | Buf_Ptr _ \<Rightarrow> None)
     else Some (0, h)
   }"


section \<open>The ring buffer is a queue\<close>

definition ring_ok :: "bio_bio_st \<Rightarrow> bool" where
  "ring_ok p \<longleftrightarrow> (\<exists>buf. bb_buf p = Some buf \<and> length buf = bb_size p) \<and> 0 < bb_size p \<and> bb_size p < object_max \<and>
     bb_len p \<le> bb_size p \<and> bb_offset p < bb_size p \<and> (bb_len p = 0 \<longrightarrow> bb_offset p = 0) \<and>
     request p \<le> bb_size p \<and> (bb_len p \<noteq> 0 \<longrightarrow> request p = 0)"

definition ring :: "bio_bio_st \<Rightarrow> byte list" where
  "ring p = map (\<lambda>i. the (bb_buf p) ! ((bb_offset p + i) mod bb_size p)) [0..<bb_len p]"

lemma length_ring [simp]: "length (ring p) = bb_len p"
  by (simp add: ring_def)

lemma ring_okD:
  assumes "ring_ok p"
  shows "bb_buf p = Some (the (bb_buf p))" "length (the (bb_buf p)) = bb_size p" "0 < bb_size p" "bb_size p < object_max"
    "bb_len p \<le> bb_size p" "bb_offset p < bb_size p" "bb_len p = 0 \<Longrightarrow> bb_offset p = 0"
    "request p \<le> bb_size p" "bb_len p \<noteq> 0 \<Longrightarrow> request p = 0"
  using assms by (auto simp: ring_ok_def)

text \<open>One chunk is read: the front of the queue.\<close>

lemma ring_chunk:
  assumes "ring_ok p" "bb_offset p + c \<le> bb_size p" "c \<le> bb_len p"
    and "off = (if bb_len p = c then 0 else if bb_offset p + c = bb_size p then 0 else bb_offset p + c)"
  shows "take c (drop (bb_offset p) (the (bb_buf p))) = take c (ring p)"
    and "ring (p\<lparr>bb_len := bb_len p - c, bb_offset := off\<rparr>) = drop c (ring p)"
    and "ring_ok (p\<lparr>bb_len := bb_len p - c, bb_offset := off\<rparr>)"
proof -
  note d = ring_okD [OF assms(1)]
  show "take c (drop (bb_offset p) (the (bb_buf p))) = take c (ring p)"
  proof (rule nth_equalityI)
    show "length (take c (drop (bb_offset p) (the (bb_buf p)))) = length (take c (ring p))"
      using d(2) assms(2,3) by simp
    fix i assume "i < length (take c (drop (bb_offset p) (the (bb_buf p))))"
    then show "take c (drop (bb_offset p) (the (bb_buf p))) ! i = take c (ring p) ! i"
      using d(2) assms(2,3) by (simp add: ring_def)
  qed
  show "ring (p\<lparr>bb_len := bb_len p - c, bb_offset := off\<rparr>) = drop c (ring p)"
  proof (rule nth_equalityI)
    fix i assume "i < length (ring (p\<lparr>bb_len := bb_len p - c, bb_offset := off\<rparr>))"
    then have i: "i < bb_len p - c" by simp
    have "(off + i) mod bb_size p = (bb_offset p + (c + i)) mod bb_size p"
    proof (cases "bb_offset p + c = bb_size p")
      case True
      then have "(bb_offset p + (c + i)) mod bb_size p = i mod bb_size p" by (metis add.assoc mod_add_self1)
      moreover have "off = 0" using assms(4) True by simp
      ultimately show ?thesis by simp
    next
      case False
      then show ?thesis using assms(4) i by (simp add: add.assoc)
    qed
    then show "ring (p\<lparr>bb_len := bb_len p - c, bb_offset := off\<rparr>) ! i = drop c (ring p) ! i"
      using i less_diff_conv [of i "bb_len p" c] by (simp add: ring_def add.commute)
  qed simp
  show "ring_ok (p\<lparr>bb_len := bb_len p - c, bb_offset := off\<rparr>)"
    using assms d by (auto simp: ring_ok_def)
qed

text \<open>An iteration of the reading loop takes one chunk off the queue.\<close>

definition after_chunk :: "bio_bio_st \<Rightarrow> nat \<Rightarrow> bio_bio_st" where
  "after_chunk p c = p\<lparr>bb_len := bb_len p - c,
     bb_offset := (if bb_len p = c then 0 else if bb_offset p + c = bb_size p then 0 else bb_offset p + c)\<rparr>"

lemma ring_read_step:
  assumes "ring_ok p" "0 < n" "n \<le> bb_len p"
    and "c = (if bb_offset p + n \<le> bb_size p then n else bb_size p - bb_offset p)"
  shows "ring_read (Suc k) p n = (if n - c \<noteq> 0 then
       Option.bind (ring_read k (after_chunk p c) (n - c)) (\<lambda>(more, p'). Some (take c (ring p) @ more, p'))
     else Some (take c (ring p), after_chunk p c))"
proof -
  note d = ring_okD [OF assms(1)]
  have c: "bb_offset p + c \<le> bb_size p" "c \<le> bb_len p"
    using assms d(6) by (auto split: if_splits)
  obtain buf where buf: "bb_buf p = Some buf" using d(1) by blast
  have out: "take c (drop (bb_offset p) buf) = take c (ring p)"
    using ring_chunk(1) [OF assms(1) c refl] buf by simp
  have len: "length buf = bb_size p" using d(2) buf by simp
  note unf = ring_read.simps(2) Let_def assms(4) [symmetric] buf Option.bind.bind_lunit out
  show ?thesis
  proof (cases "bb_len p = c")
    case True
    then have "c = n" using assms(3,4) d(6) by (auto split: if_splits)
    then show ?thesis using True c len assms(3) unfolding unf by (simp add: after_chunk_def)
  next
    case False
    then have "bb_len p - c \<noteq> 0" using c(2) by simp
    then show ?thesis using False c len assms(3) unfolding unf by (simp add: after_chunk_def)
  qed
qed

lemma after_chunk_ok:
  assumes "ring_ok p" "bb_offset p + c \<le> bb_size p" "c \<le> bb_len p"
  shows "ring (after_chunk p c) = drop c (ring p) \<and> ring_ok (after_chunk p c) \<and> bb_len (after_chunk p c) = bb_len p - c \<and>
    peer (after_chunk p c) = peer p \<and> closed (after_chunk p c) = closed p \<and> bb_size (after_chunk p c) = bb_size p \<and>
    request (after_chunk p c) = request p"
  using ring_chunk(2,3) [OF assms refl] by (simp add: after_chunk_def)

lemma ring_read_queue:
  assumes "ring_ok p" "0 < n" "n \<le> bb_len p"
  shows "\<exists>p'. ring_read 2 p n = Some (take n (ring p), p') \<and> ring_ok p' \<and> ring p' = drop n (ring p) \<and>
    peer p' = peer p \<and> closed p' = closed p \<and> bb_size p' = bb_size p \<and> request p' = request p"
proof (cases "bb_offset p + n \<le> bb_size p")
  case True
  have "ring_read 2 p n = Some (take n (ring p), after_chunk p n)"
    using ring_read_step [OF assms, of n "Suc 0"] True by (simp add: numeral_2_eq_2)
  then show ?thesis using after_chunk_ok [OF assms(1) True assms(3)] by simp
next
  case False
  define c where "c = bb_size p - bb_offset p"
  have c: "bb_offset p + c \<le> bb_size p" "c < n" "c \<le> bb_len p" "bb_offset p + c = bb_size p" "bb_len p \<noteq> c"
    using False assms(3) ring_okD(6) [OF assms(1)] by (auto simp: c_def)
  note p1 = after_chunk_ok [OF assms(1) c(1,3)]
  have off: "bb_offset (after_chunk p c) = 0" using c(4) by (simp add: after_chunk_def)
  have fits: "bb_offset (after_chunk p c) + (n - c) \<le> bb_size (after_chunk p c)"
    using off p1 assms(3) ring_okD(5) [OF assms(1)] by simp
  have second: "ring_read (Suc 0) (after_chunk p c) (n - c) = Some (take (n - c) (drop c (ring p)), after_chunk (after_chunk p c) (n - c))"
    using ring_read_step [of "after_chunk p c" "n - c" "n - c" 0] p1 fits c(2) assms(3) by simp
  note p2 = after_chunk_ok [of "after_chunk p c" "n - c", OF _ fits]
  have "take c (ring p) @ take (n - c) (drop c (ring p)) = take n (ring p)"
    using c(2) by (metis le_add_diff_inverse less_imp_le take_add)
  then have "ring_read 2 p n = Some (take n (ring p), after_chunk (after_chunk p c) (n - c))"
    using ring_read_step [OF assms, of c "Suc 0"] False second c(2) by (simp add: numeral_2_eq_2 c_def)
  moreover have "n - c \<le> bb_len (after_chunk p c)" using p1 assms(3) by simp
  ultimately show ?thesis using p1 p2 c(2) assms(3) by simp
qed

text \<open>An iteration of the writing loop appends one chunk to the queue.\<close>

lemma nth_blit:
  assumes "w + length xs \<le> length ys" "j < length ys"
  shows "blit w xs ys ! j = (if w \<le> j \<and> j < w + length xs then xs ! (j - w) else ys ! j)"
  using assms by (auto simp: blit_def nth_append)

definition after_put :: "bio_bio_st \<Rightarrow> nat \<Rightarrow> byte list \<Rightarrow> bio_bio_st" where
  "after_put b w xs = b\<lparr>bb_buf := Some (blit w xs (the (bb_buf b))), bb_len := bb_len b + length xs\<rparr>"

lemma after_put_ok:
  assumes "ring_ok b" "w = (if bb_offset b + bb_len b \<ge> bb_size b then bb_offset b + bb_len b - bb_size b else bb_offset b + bb_len b)"
    and "w + length xs \<le> bb_size b" "bb_len b + length xs \<le> bb_size b" "request b = 0"
  shows "ring (after_put b w xs) = ring b @ xs \<and> ring_ok (after_put b w xs) \<and> bb_len (after_put b w xs) = bb_len b + length xs \<and>
    bb_offset (after_put b w xs) = bb_offset b \<and>
    peer (after_put b w xs) = peer b \<and> closed (after_put b w xs) = closed b \<and> bb_size (after_put b w xs) = bb_size b \<and>
    request (after_put b w xs) = 0"
proof -
  note d = ring_okD [OF assms(1)]
  have wrap: "a mod bb_size b = (if a < bb_size b then a else a - bb_size b)" if "a < 2 * bb_size b" for a
    using that by (simp add: mod_if)
  have "ring (after_put b w xs) = ring b @ xs"
  proof (rule nth_equalityI)
    fix i assume "i < length (ring (after_put b w xs))"
    then have i: "i < bb_len b + length xs" by (simp add: after_put_def)
    let ?j = "(bb_offset b + i) mod bb_size b"
    have j: "?j = (if bb_offset b + i < bb_size b then bb_offset b + i else bb_offset b + i - bb_size b)"
      using i d(6) assms(4) by (intro wrap) linarith
    have jl: "?j < length (the (bb_buf b))" using d(2,3) by simp
    have wl: "w + length xs \<le> length (the (bb_buf b))" using d(2) assms(3) by simp
    have "ring (after_put b w xs) ! i = blit w xs (the (bb_buf b)) ! ?j"
      using i by (simp add: ring_def after_put_def)
    also have "\<dots> = (if w \<le> ?j \<and> ?j < w + length xs then xs ! (?j - w) else the (bb_buf b) ! ?j)"
      by (rule nth_blit [OF wl jl])
    also have "\<dots> = (ring b @ xs) ! i"
    proof (cases "i < bb_len b")
      case True
      then have "\<not> (w \<le> ?j \<and> ?j < w + length xs)"
        using assms(2,4) d(5,6) unfolding j by (auto split: if_splits)
      then have "(if w \<le> ?j \<and> ?j < w + length xs then xs ! (?j - w) else the (bb_buf b) ! ?j) = the (bb_buf b) ! ?j" by (rule if_not_P)
      then show ?thesis using True by (simp add: ring_def nth_append)
    next
      case False
      then obtain k where k: "i = bb_len b + k" "k < length xs" using i by (metis add_less_cancel_left le_Suc_ex not_less)
      have jk: "?j = w + k"
        using assms(2,3) d(5,6) k unfolding j by (auto split: if_splits)
      show ?thesis using k unfolding jk by (simp add: nth_append)
    qed
    finally show "ring (after_put b w xs) ! i = (ring b @ xs) ! i" .
  qed (simp add: after_put_def)
  then show ?thesis using d assms by (auto simp: after_put_def ring_ok_def)
qed

lemma ring_write_step:
  assumes "ring_ok b" "bb_len b + length xs \<le> bb_size b"
    and "w = (if bb_offset b + bb_len b \<ge> bb_size b then bb_offset b + bb_len b - bb_size b else bb_offset b + bb_len b)"
    and "c = (if w + length xs \<le> bb_size b then length xs else bb_size b - w)"
  shows "ring_write (Suc k) b xs = (if length xs - c \<noteq> 0 then ring_write k (after_put b w (take c xs)) (drop c xs)
     else Some (after_put b w (take c xs)))"
proof -
  note d = ring_okD [OF assms(1)]
  have c: "w + c \<le> bb_size b" "c \<le> length xs" using assms d(6) by (auto split: if_splits)
  obtain buf where buf: "bb_buf b = Some buf" using d(1) by blast
  have len: "length buf = bb_size b" using d(2) buf by simp
  show ?thesis
    using c assms(2) len unfolding ring_write.simps(2) Let_def assms(3) [symmetric] assms(4) [symmetric] buf Option.bind.bind_lunit
    by (simp add: after_put_def buf min_def)
qed

lemma ring_write_queue:
  assumes "ring_ok b" "0 < length xs" "bb_len b + length xs \<le> bb_size b" "request b = 0"
  shows "\<exists>b'. ring_write 2 b xs = Some b' \<and> ring_ok b' \<and> ring b' = ring b @ xs \<and>
    peer b' = peer b \<and> closed b' = closed b \<and> bb_size b' = bb_size b \<and> request b' = 0"
proof -
  note d = ring_okD [OF assms(1)]
  define w where "w = (if bb_offset b + bb_len b \<ge> bb_size b then bb_offset b + bb_len b - bb_size b else bb_offset b + bb_len b)"
  define c where "c = (if w + length xs \<le> bb_size b then length xs else bb_size b - w)"
  have wb: "w < bb_size b" using assms d(5,6) by (auto simp: w_def)
  have c: "w + length (take c xs) \<le> bb_size b" "bb_len b + length (take c xs) \<le> bb_size b" "c \<le> length xs"
    using assms wb by (auto simp: c_def)
  note b1 = after_put_ok [OF assms(1) w_def c(1,2) assms(4)]
  note step = ring_write_step [OF assms(1,3) w_def c_def, of 1]
  show ?thesis
  proof (cases "length xs - c = 0")
    case True
    then show ?thesis using b1 step c(3) by (simp add: numeral_2_eq_2)
  next
    case False
    let ?b = "after_put b w (take c xs)"
    have full: "w + c = bb_size b" using False wb by (auto simp: c_def split: if_splits)
    have w2: "0 = (if bb_offset ?b + bb_len ?b \<ge> bb_size ?b then bb_offset ?b + bb_len ?b - bb_size ?b else bb_offset ?b + bb_len ?b)"
      using b1 full c(3) assms(3) d(6) False by (auto simp: w_def split: if_splits)
    have l2: "bb_len ?b + length (drop c xs) \<le> bb_size ?b" "0 + length (drop c xs) \<le> bb_size ?b"
      using b1 assms(3) c(3) by auto
    have ok1: "ring_ok ?b" "request ?b = 0" using b1 by simp_all
    have c2: "length (drop c xs) = (if 0 + length (drop c xs) \<le> bb_size ?b then length (drop c xs) else bb_size ?b - 0)"
      using l2(2) by simp
    note b2 = after_put_ok [OF ok1(1) w2 l2(2,1) ok1(2)]
    have "ring_write (Suc 0) ?b (drop c xs) = Some (after_put ?b 0 (drop c xs))"
      unfolding ring_write_step [OF ok1(1) l2(1) w2 c2] by simp
    moreover have "ring_write 2 b xs = ring_write (Suc 0) ?b (drop c xs)"
      using step False unfolding numeral_2_eq_2 by (simp only: not_False_eq_True if_True One_nat_def)
    ultimately have "ring_write 2 b xs = Some (after_put ?b 0 (drop c xs))" by (rule trans [rotated])
    moreover have "ring (after_put ?b 0 (drop c xs)) = ring b @ xs" using b1 b2 by simp
    ultimately show ?thesis using b1 b2 by (intro exI [of _ "after_put ?b 0 (drop c xs)"]) (simp only: simp_thms)
  qed
qed


section \<open>A pair is two channels\<close>

text \<open>What one half offers to the other: a bounded queue of bytes that can be closed.\<close>

record chan =
  ch_queue :: "byte list"
  ch_cap :: nat
  ch_closed :: bool

definition chan_of :: "bio_bio_st \<Rightarrow> chan" where
  "chan_of p = \<lparr>ch_queue = ring p, ch_cap = bb_size p, ch_closed = closed p\<rparr>"

definition chan :: "bios \<Rightarrow> nat \<Rightarrow> chan" where
  "chan h x = chan_of (the (pair_at h x))"

definition chan_write :: "byte list \<Rightarrow> chan \<Rightarrow> int \<times> chan" where
  "chan_write xs c =
     (if ch_closed c \<or> length (ch_queue c) = ch_cap c then (-1, c)
      else let n = min (length xs) (ch_cap c - length (ch_queue c))
           in (int n, c\<lparr>ch_queue := ch_queue c @ take n xs\<rparr>))"

definition chan_read :: "nat \<Rightarrow> chan \<Rightarrow> int \<times> byte list \<times> chan" where
  "chan_read n c =
     (if ch_queue c = [] then (if ch_closed c then 0 else -1, [], c)
      else let k = min n (length (ch_queue c)) in (int k, take k (ch_queue c), c\<lparr>ch_queue := drop k (ch_queue c)\<rparr>))"

definition half :: "bios \<Rightarrow> nat \<Rightarrow> nat \<Rightarrow> bio_bio_st \<Rightarrow> bool" where
  "half h x y p \<longleftrightarrow> (\<exists>b. bio_at h x = Some b \<and> init b \<and> bmethod b = BIO_s_bio \<and> bptr b = Pair_Data p) \<and> peer p = Some y \<and> ring_ok p"

definition linked :: "bios \<Rightarrow> nat \<Rightarrow> nat \<Rightarrow> bool" where
  "linked h x y \<longleftrightarrow> x \<noteq> y \<and> (\<exists>p. half h x y p) \<and> (\<exists>q. half h y x q)"

lemma halfD: "half h x y p \<Longrightarrow> pair_at h x = Some p \<and> peer p = Some y \<and> ring_ok p \<and> bio_at h x \<noteq> None"
  by (auto simp: half_def pair_at_Some)

lemma half_chan: "half h x y p \<Longrightarrow> chan h x = chan_of p"
  by (simp add: chan_def halfD)

lemma linked_sym: "linked h x y \<Longrightarrow> linked h y x"
  by (auto simp: linked_def)

text \<open>Replacing the state of one half, and changing other fields than those of the pair.\<close>

lemma half_set: "half h x y p0 \<Longrightarrow> ring_ok p \<Longrightarrow> peer p = Some y \<Longrightarrow> half (set_pair x p h) x y p"
  by (auto simp: half_def set_pair_at)

lemma half_set_other: "x \<noteq> z \<Longrightarrow> half (set_pair z p h) x y q = half h x y q"
  by (simp add: half_def set_pair_at)

lemma half_upd:
  "(\<And>b. bptr (f b) = bptr b \<and> init (f b) = init b \<and> bmethod (f b) = bmethod b) \<Longrightarrow> half (upd_bio z f h) x y p = half h x y p"
  by (auto simp: half_def)

lemma bio_write_refines:
  assumes "linked h x y" "0 < len" "len \<le> length buf" "len \<le> int_max"
  shows "\<exists>r h'. bio_write x (Some buf) (int len) h = Some (r, h') \<and> linked h' x y \<and>
    (r, chan h' x) = chan_write (take len buf) (chan h x) \<and> chan h' y = chan h y \<and>
    BIO_should_retry (the (bio_at h' x)) = (r = -1 \<and> \<not> ch_closed (chan h x))"
proof -
  obtain p q where p: "half h x y p" and q: "half h y x q" and xy: "x \<noteq> y" using assms(1) by (auto simp: linked_def)
  obtain b where b: "bio_at h x = Some b" "init b" "bptr b = Pair_Data p" using p by (auto simp: half_def)
  note pd = halfD [OF p] and d = ring_okD [of p]
  let ?h = "upd_bio x BIO_clear_retry_flags h" and ?p = "p\<lparr>request := 0\<rparr>"
  have wrap: "nat (int len mod int size_modulus) = len" using assms(4) by simp
  have ph: "half ?h x y p" "half ?h y x q" using p q by (simp_all add: half_upd)
  have rp: "ring_ok ?p" "ring ?p = ring p" using pd by (auto simp: ring_ok_def ring_def)
  have pat: "pair_at ?h x = Some p" using halfD [OF ph(1)] by simp
  obtain rbuf where rbuf: "bb_buf p = Some rbuf" using d(1) pd by blast
  have step: "bio_write x (Some buf) (int len) h =
      (if closed p then Some (-1, set_pair x ?p ?h)
       else if bb_len p = bb_size p then Some (-1, upd_bio x BIO_set_retry_write (set_pair x ?p ?h))
       else let n = min len (bb_size p - bb_len p) in
         Option.bind (ring_write 2 ?p (take n buf)) (\<lambda>b. Some (int n, set_pair x b ?h)))"
    using pd pat d(5) b assms wrap rbuf by (simp add: bio_write_def Let_def min_def not_le)
  consider "closed p" | "\<not> closed p" "bb_len p = bb_size p" | "\<not> closed p" "bb_len p < bb_size p"
    using d(5) pd by linarith
  then show ?thesis
  proof cases
    case 1
    let ?h' = "set_pair x ?p ?h"
    have "half ?h' x y ?p" "half ?h' y x q" using half_set [OF ph(1) rp(1)] half_set_other [of y x ?p ?h] ph(2) pd xy by auto
    then show ?thesis
      using 1 xy p q rp(2) b retry_flags(1) [of b]
      by (auto simp: step linked_def half_chan chan_of_def chan_write_def set_pair_at half_chan [of ?h' x y ?p] half_chan [of ?h' y x q]
          BIO_should_retry_def BIO_test_flags_def)
  next
    case 2
    let ?h' = "upd_bio x BIO_set_retry_write (set_pair x ?p ?h)"
    have "half ?h' x y ?p" "half ?h' y x q" using half_set [OF ph(1) rp(1)] half_set_other [of y x ?p ?h] ph(2) pd xy by (auto simp: half_upd)
    then show ?thesis
      using 2 xy p q rp(2) b retry_flags(6)
      by (auto simp: step linked_def half_chan chan_of_def chan_write_def set_pair_at half_chan [of ?h' x y ?p] half_chan [of ?h' y x q])
  next
    case 3
    define n where "n = min len (bb_size p - bb_len p)"
    have n: "length (take n buf) = n" "0 < n" "bb_len ?p + n \<le> bb_size ?p" using 3 assms by (auto simp: n_def)
    obtain b' where b': "ring_write 2 ?p (take n buf) = Some b'" "ring_ok b'" "ring b' = ring p @ take n buf"
      "peer b' = peer p" "closed b' = closed p" "bb_size b' = bb_size p"
      using ring_write_queue [OF rp(1), of "take n buf"] n rp(2) assms(2,3) by fastforce
    let ?h' = "set_pair x b' ?h"
    have "half ?h' x y b'" "half ?h' y x q" using half_set [OF ph(1) b'(2)] b'(4) half_set_other [of y x b' ?h] ph(2) pd xy by auto
    moreover have "take (min len (bb_size p - bb_len p)) (take len buf) = take n buf" by (simp add: n_def min_def)
    ultimately show ?thesis
      using 3 xy p q b b' n(1) assms(3) retry_flags(1) [of b]
      by (auto simp: step n_def [symmetric] Let_def linked_def half_chan [of h] chan_of_def chan_write_def set_pair_at half_chan [of ?h' x y b'] half_chan [of ?h' y x q]
          BIO_should_retry_def BIO_test_flags_def)
  qed
qed


lemma bio_read_refines:
  assumes "linked h x y" "0 < len" "len \<le> int_max"
  shows "\<exists>r out h'. bio_read x False (int len) h = Some (r, out, h') \<and> linked h' x y \<and>
    (r, out, chan h' y) = chan_read len (chan h y) \<and> chan h' x = chan h x \<and>
    BIO_should_retry (the (bio_at h' x)) = (r = -1)"
proof -
  obtain p q where p: "half h x y p" and q: "half h y x q" and xy: "x \<noteq> y" using assms(1) by (auto simp: linked_def)
  obtain b where b: "bio_at h x = Some b" "init b" "bptr b = Pair_Data p" using p by (auto simp: half_def)
  note pd = halfD [OF p] and qd = halfD [OF q] and d = ring_okD [of q]
  let ?h = "upd_bio x BIO_clear_retry_flags h" and ?q = "q\<lparr>request := 0\<rparr>"
  have wrap: "nat (int len mod int size_modulus) = len" using assms(3) by simp
  have ph: "half ?h x y p" "half ?h y x q" using p q by (simp_all add: half_upd)
  have rq: "ring_ok ?q" "ring ?q = ring q" using qd by (auto simp: ring_ok_def ring_def)
  have pat: "pair_at ?h x = Some p" "pair_at ?h y = Some q" using halfD [OF ph(1)] halfD [OF ph(2)] by simp_all
  obtain rbuf where rbuf: "bb_buf q = Some rbuf" using d(1) qd by blast
  have step: "bio_read x False (int len) h =
      (if bb_len q = 0 then
         (if closed q then Some (0, [], set_pair y ?q ?h)
          else Some (-1, [], upd_bio x BIO_set_retry_read (set_pair y (q\<lparr>request := min len (bb_size q)\<rparr>) ?h)))
       else let n = min len (bb_len q) in
         Option.bind (ring_read 2 ?q n) (\<lambda>(out, q). Some (int n, out, set_pair y q ?h)))"
    using pd pat b assms wrap rbuf by (simp add: bio_read_def Let_def min_def not_le)
  have linked_after: "linked (set_pair y q' ?h) x y \<and> half (set_pair y q' ?h) x y p \<and> half (set_pair y q' ?h) y x q'"
    if "ring_ok q'" "peer q' = Some x" for q'
    using half_set [OF ph(2) that] half_set_other [of x y q' ?h] ph(1) xy by (auto simp: linked_def)
  have bx: "bio_at (set_pair y q' ?h) x = Some (BIO_clear_retry_flags b)" for q' using xy b by (simp add: set_pair_at)
  consider "bb_len q = 0" "closed q" | "bb_len q = 0" "\<not> closed q" | "0 < bb_len q" by linarith
  then show ?thesis
  proof cases
    case 1
    then show ?thesis
      using linked_after [OF rq(1)] qd p q rq(2) retry_flags(1) bx
      by (auto simp: step half_chan chan_of_def chan_read_def ring_def)
  next
    case 2
    let ?r = "q\<lparr>request := min len (bb_size q)\<rparr>"
    let ?h' = "upd_bio x BIO_set_retry_read (set_pair y ?r ?h)"
    have "ring_ok ?r" using qd 2 by (auto simp: ring_ok_def)
    from linked_after [OF this] qd have "linked ?h' x y" "half ?h' x y p" "half ?h' y x ?r" by (auto simp: linked_def half_upd)
    then show ?thesis
      using 2 p q retry_flags(4) bx
      by (auto simp: step half_chan chan_of_def chan_read_def ring_def)
  next
    case 3
    define n where "n = min len (bb_len q)"
    have n: "0 < n" "n \<le> bb_len ?q" using 3 assms by (auto simp: n_def)
    obtain q' where q': "ring_read 2 ?q n = Some (take n (ring q), q')" "ring_ok q'" "ring q' = drop n (ring q)"
      "peer q' = peer q" "closed q' = closed q" "bb_size q' = bb_size q"
      using ring_read_queue [OF rq(1) n] rq(2) by auto
    have ne: "ring q \<noteq> []" using 3 by (metis length_ring less_numeral_extra(3) list.size(3))
    show ?thesis
      using linked_after [OF q'(2)] q' qd 3 ne p q bx retry_flags(1)
      by (auto simp: step n_def [symmetric] Let_def half_chan chan_of_def chan_read_def)
  qed
qed

end
