(* ===== verification/Bio_Mem.thy ===== *)
theory Bio_Mem
  imports Bio_Base "HOL-Library.Monad_Syntax"
begin

text \<open>
  \<^verbatim>\<open>crypto/bio/bio_mem.c\<close>: a BIO over a memory buffer. A writable one is a queue; a read-only one walks through the
  caller's bytes. Reading an empty one returns the configured value \<^verbatim>\<open>num\<close>.

  The caller's bytes of a read-only BIO are a block of its own. The pointers that
  \<^verbatim>\<open>BIO_CTRL_INFO\<close> and \<^verbatim>\<open>BIO_C_GET_BUF_MEM_PTR\<close> store through their argument are left out; what they point to is \<open>mem_at\<close>.
\<close>

definition mem_new :: "libc_malloc \<Rightarrow> BIO \<Rightarrow> BIO option" where
  "mem_new m bio =
     (case BUF_MEM_new m of
        None \<Rightarrow> None
      | Some b \<Rightarrow> Some (bio\<lparr>bshutdown := 1, init := True, num := -1, bptr := Mem_Data b\<rparr>))"

definition mem_free :: "nat \<Rightarrow> bios \<Rightarrow> (int \<times> bios) option" where
  "mem_free x h = do {
     bio \<leftarrow> bio_at h x;
     if bshutdown bio = 0 \<or> \<not> init bio \<or> bptr bio = No_Data then Some (1, h)
     else do {
       b \<leftarrow> mem_at h x;
       Some (1, upd_bio x (\<lambda>o'. o'\<lparr>bptr := No_Data\<rparr>) h)
     }
   }"

text \<open>The bytes of the block from index \<open>i\<close> on, behind the data pointer.\<close>

definition buf_from :: "nat \<Rightarrow> BUF_MEM \<Rightarrow> byte list" where
  "buf_from i b = (case bm_data b of None \<Rightarrow> [] | Some (_, bs) \<Rightarrow> drop (bm_off b + i) bs)"

definition mem_read :: "nat \<Rightarrow> int \<Rightarrow> bios \<Rightarrow> (int \<times> byte list \<times> bios) option" where
  "mem_read x outl h = do {
     b \<leftarrow> mem_at h x;
     let h = upd_bio x BIO_clear_retry_flags h;
     bio \<leftarrow> bio_at h x;
     let ret = (if bm_length b < int_max \<and> outl > to_int (bm_length b) then to_int (bm_length b) else outl);
     if ret > 0 then
       let n = nat ret;
           out = take n (buf_from 0 b);
           b = b\<lparr>bm_length := bm_length b - n\<rparr>;
           b = (if flags bio AND BIO_FLAGS_MEM_RDONLY \<noteq> 0 then b\<lparr>bm_off := bm_off b + n\<rparr>
                else buf_put 0 (take (bm_length b) (buf_from n b)) b)
       in if length out = n then Some (ret, out, set_mem x b h) else None
     else if bm_length b = 0 then
       Some (num bio, [], if num bio \<noteq> 0 then upd_bio x BIO_set_retry_read h else h)
     else Some (ret, [], h)
   }"

definition mem_write :: "libc_malloc \<Rightarrow> nat \<Rightarrow> byte list \<Rightarrow> int \<Rightarrow> bios \<Rightarrow> (int \<times> bios) option" where
  "mem_write m x inp inl h = do {
     b \<leftarrow> mem_at h x;
     bio \<leftarrow> bio_at h x;
     if flags bio AND BIO_FLAGS_MEM_RDONLY \<noteq> 0 then Some (-1, h)
     else
       let h = upd_bio x BIO_clear_retry_flags h;
           blen = to_int (bm_length b)
       in if blen < 0 \<or> inl < 0 \<or> nat inl > length inp then None
          else if int int_max - blen < inl then Some (-1, h)
          else case BUF_MEM_grow_clean m (nat (blen + inl)) b of
            (n, b) \<Rightarrow>
              if n \<noteq> (nat blen + nat inl) mod size_modulus then Some (-1, set_mem x b h)
              else Some (inl, set_mem x (buf_put (nat blen) (take (nat inl) inp) b) h)
   }"

text \<open>The number of bytes up to and including the first newline, at most \<open>j\<close>.\<close>

fun line_length :: "nat \<Rightarrow> byte list \<Rightarrow> nat" where
  "line_length 0 p = 0"
| "line_length (Suc j) [] = 0"
| "line_length (Suc j) (c # p) = (if c = 10 then 1 else Suc (line_length j p))"

text \<open>The bytes that are stored in the caller's array, with the terminating zero.\<close>

definition mem_gets :: "nat \<Rightarrow> int \<Rightarrow> bios \<Rightarrow> (int \<times> byte list \<times> bios) option" where
  "mem_gets x sz h = do {
     b \<leftarrow> mem_at h x;
     let h = upd_bio x BIO_clear_retry_flags h;
     let j = (if sz - 1 < to_int (bm_length b) then sz - 1 else to_int (bm_length b));
     if j \<le> 0 then Some (0, if sz > 0 then [0] else [], h)
     else do {
       (i, out, h) \<leftarrow> mem_read x (int (line_length (nat j) (buf_from 0 b))) h;
       Some (i, if i > 0 then out @ [0] else out, h)
     }
   }"

definition mem_ctrl :: "nat \<Rightarrow> int \<Rightarrow> int \<Rightarrow> ctrl_ptr \<Rightarrow> bios \<Rightarrow> (int \<times> bios) option" where
  "mem_ctrl x cmd n ptr h = do {
     bio \<leftarrow> bio_at h x;
     b \<leftarrow> mem_at h x;
     if cmd = BIO_CTRL_RESET then
       (if bm_data b = None then Some (1, h)
        else if flags bio AND BIO_FLAGS_MEM_RDONLY \<noteq> 0 then
          (if bm_length b \<le> bm_max b \<and> bm_max b - bm_length b \<le> bm_off b then
             Some (1, set_mem x (b\<lparr>bm_off := bm_off b - (bm_max b - bm_length b), bm_length := bm_max b\<rparr>) h)
           else None)
        else Some (1, set_mem x ((buf_put 0 (replicate (bm_max b) 0) b)\<lparr>bm_length := 0\<rparr>) h))
     else if cmd = BIO_CTRL_EOF then Some (if bm_length b = 0 then 1 else 0, h)
     else if cmd = BIO_C_SET_BUF_MEM_EOF_RETURN then Some (1, upd_bio x (\<lambda>o'. o'\<lparr>num := int_of_long n\<rparr>) h)
     else if cmd = BIO_CTRL_INFO then Some (int (bm_length b), h)
     else if cmd = BIO_C_SET_BUF_MEM then
       (case ptr of
          Buf_Ptr b' \<Rightarrow> do {
            (_, h) \<leftarrow> mem_free x h;
            Some (1, set_mem x b' (upd_bio x (\<lambda>o'. o'\<lparr>bshutdown := int_of_long n\<rparr>) h))
          }
        | _ \<Rightarrow> None)
     else if cmd = BIO_C_GET_BUF_MEM_PTR then Some (1, h)
     else if cmd = BIO_CTRL_GET_CLOSE then Some (bshutdown bio, h)
     else if cmd = BIO_CTRL_SET_CLOSE then Some (1, upd_bio x (\<lambda>o'. o'\<lparr>bshutdown := int_of_long n\<rparr>) h)
     else if cmd = BIO_CTRL_WPENDING then Some (0, h)
     else if cmd = BIO_CTRL_PENDING then Some (int (bm_length b), h)
     else if cmd = BIO_CTRL_FLUSH then Some (1, h)
     else Some (0, h)
   }"

section \<open>The contents of a memory BIO\<close>

definition mem_bytes :: "bios \<Rightarrow> nat \<Rightarrow> byte list" where
  "mem_bytes h x = (case mem_at h x of None \<Rightarrow> [] | Some b \<Rightarrow> buf_contents b)"

text \<open>A memory BIO of moderate size; only a read-only one has moved its data pointer.\<close>

definition mem_ok :: "bios \<Rightarrow> nat \<Rightarrow> bool" where
  "mem_ok h x \<longleftrightarrow> (\<exists>bio b. bio_at h x = Some bio \<and> bmethod bio = BIO_s_mem \<and> init bio \<and> bptr bio = Mem_Data b \<and> buf_ok b \<and>
     bm_length b \<le> int_max \<and> (flags bio AND BIO_FLAGS_MEM_RDONLY = 0 \<longrightarrow> bm_off b = 0))"

definition mem_writable :: "bios \<Rightarrow> nat \<Rightarrow> bool" where
  "mem_writable h x \<longleftrightarrow> flags (the (bio_at h x)) AND BIO_FLAGS_MEM_RDONLY = 0"

lemma buf_from_contents: "buf_ok b \<Longrightarrow> n \<le> bm_length b \<Longrightarrow> take n (buf_from 0 b) = take n (buf_contents b)"
  by (auto simp: buf_from_def buf_contents_def buf_ok_def min_def split: option.splits)

lemma rdonly_retry [simp]:
  "flags (BIO_clear_retry_flags bio) AND BIO_FLAGS_MEM_RDONLY = flags bio AND BIO_FLAGS_MEM_RDONLY"
  "flags (BIO_set_retry_read bio) AND BIO_FLAGS_MEM_RDONLY = flags bio AND BIO_FLAGS_MEM_RDONLY"
  by (simp_all add: BIO_clear_retry_flags_def BIO_set_retry_read_def bio_flag_defs and.assoc word_ao_dist)

lemma consume_ok:
  assumes "buf_ok b" "n \<le> bm_length b" "rd \<or> bm_off b = 0"
  defines "b1 \<equiv> b\<lparr>bm_length := bm_length b - n\<rparr>"
  defines "b2 \<equiv> (if rd then b1\<lparr>bm_off := bm_off b1 + n\<rparr> else buf_put 0 (take (bm_length b1) (buf_from n b1)) b1)"
  shows "buf_ok b2 \<and> buf_contents b2 = drop n (buf_contents b) \<and> bm_length b2 = bm_length b - n \<and> (\<not> rd \<longrightarrow> bm_off b2 = 0)"
proof (cases "bm_data b")
  case None
  then show ?thesis using assms(1-3) by (auto simp: b2_def b1_def buf_ok_def buf_contents_def buf_put_def)
next
  case (Some d)
  then obtain bs where bs: "bm_data b = Some (length bs, bs)" using assms(1) by (cases d) (auto simp: buf_ok_def)
  show ?thesis
  proof (cases rd)
    case True
    then show ?thesis using assms(1,2) bs
      by (auto simp: b2_def b1_def buf_ok_def buf_contents_def drop_take add.commute)
  next
    case False
    then have "bm_off b = 0" "bm_length b \<le> length bs" using assms(1,3) bs by (auto simp: buf_ok_def)
    then show ?thesis using False assms(1,2) bs
      by (auto simp: b2_def b1_def buf_ok_def buf_contents_def buf_put_def buf_from_def blit_def drop_take)
  qed
qed

lemma mem_read_spec:
  assumes "mem_ok h x" "0 < len" "len \<le> int_max" "mem_bytes h x \<noteq> []"
  defines "n \<equiv> min len (length (mem_bytes h x))"
  shows "\<exists>h'. mem_read x (int len) h = Some (int n, take n (mem_bytes h x), h') \<and> mem_ok h' x \<and>
    mem_bytes h' x = drop n (mem_bytes h x) \<and> mem_writable h' x = mem_writable h x \<and>
    num (the (bio_at h' x)) = num (the (bio_at h x)) \<and> \<not> BIO_should_retry (the (bio_at h' x))"
proof -
  obtain bio b where b: "bio_at h x = Some bio" "bmethod bio = BIO_s_mem" "init bio" "bptr bio = Mem_Data b" "buf_ok b"
    "bm_length b \<le> int_max" "flags bio AND BIO_FLAGS_MEM_RDONLY = 0 \<longrightarrow> bm_off b = 0"
    using assms(1) by (auto simp: mem_ok_def)
  have mb: "mem_at h x = Some b" using b by (auto simp: mem_at_Some)
  have bytes: "mem_bytes h x = buf_contents b" "length (mem_bytes h x) = bm_length b"
    using mb b(5) by (simp_all add: mem_bytes_def length_buf_contents)
  define rd where "rd = (flags bio AND BIO_FLAGS_MEM_RDONLY \<noteq> 0)"
  define b1 where "b1 = b\<lparr>bm_length := bm_length b - n\<rparr>"
  define b2 where "b2 = (if rd then b1\<lparr>bm_off := bm_off b1 + n\<rparr> else buf_put 0 (take (bm_length b1) (buf_from n b1)) b1)"
  have "0 < bm_length b" using assms(4) bytes(2) by (cases "mem_bytes h x") auto
  then have n: "n \<le> bm_length b" "0 < n" "int n = (if bm_length b < int_max \<and> int len > int (bm_length b) then int (bm_length b) else int len)"
    using assms(2-4) b(6) bytes by (auto simp: n_def min_def)
  note c = consume_ok [OF b(5) n(1), of rd, folded b1_def, folded b2_def]
  have out: "take n (buf_from 0 b) = take n (buf_contents b)" "length (take n (buf_contents b)) = n"
    using buf_from_contents [OF b(5) n(1)] n(1) bytes by auto
  have "mem_read x (int len) h = Some (int n, take n (buf_contents b), set_mem x b2 (upd_bio x BIO_clear_retry_flags h))"
    unfolding mem_read_def mb Option.bind.bind_lunit Let_def to_int_small [OF b(6)] n(3) [symmetric]
    using b(1) n(2) out by (simp add: b2_def b1_def rd_def)
  moreover have "rd \<or> bm_off b = 0" using b(7) by (auto simp: rd_def)
  moreover have "\<not> BIO_should_retry (BIO_clear_retry_flags bio)" by (simp add: retry_flags)
  ultimately show ?thesis
    using c b bytes(1) rd_def
    by (auto simp: mem_ok_def set_mem_at mem_bytes_def mb mem_writable_def BIO_should_retry_def BIO_test_flags_def)
qed

lemma mem_read_empty:
  assumes "mem_ok h x" "0 < len" "mem_bytes h x = []"
  shows "\<exists>h'. mem_read x (int len) h = Some (num (the (bio_at h x)), [], h') \<and> mem_ok h' x \<and> mem_bytes h' x = [] \<and>
    num (the (bio_at h' x)) = num (the (bio_at h x)) \<and> mem_writable h' x = mem_writable h x \<and>
    BIO_should_retry (the (bio_at h' x)) = (num (the (bio_at h x)) \<noteq> 0)"
proof -
  obtain bio b where b: "bio_at h x = Some bio" "bmethod bio = BIO_s_mem" "init bio" "bptr bio = Mem_Data b" "buf_ok b"
    "bm_length b \<le> int_max" "flags bio AND BIO_FLAGS_MEM_RDONLY = 0 \<longrightarrow> bm_off b = 0"
    using assms(1) by (auto simp: mem_ok_def)
  have mb: "mem_at h x = Some b" using b by (auto simp: mem_at_Some)
  have "bm_length b = 0" using assms(3) mb b(5) length_buf_contents [of b] by (simp add: mem_bytes_def)
  then show ?thesis
    using mb b assms(2,3) retry_flags(1) [of bio] retry_flags(4) [of "BIO_clear_retry_flags bio"]
    by (auto simp: mem_read_def Let_def to_int_small mem_ok_def mem_bytes_def mem_writable_def)
qed

lemma mem_write_spec:
  assumes "malloc_ok m" "mem_ok h x" "mem_writable h x" "0 < len" "len \<le> length xs" "len \<le> int_max"
    and "mem_write m x xs (int len) h = Some (r, h')"
  shows "mem_ok h' x \<and> mem_writable h' x \<and>
    (if r = int len then mem_bytes h' x = mem_bytes h x @ take len xs \<and> length (mem_bytes h x) + len \<le> int_max
     else r = -1 \<and> mem_bytes h' x = mem_bytes h x)"
proof -
  obtain bio b where b: "bio_at h x = Some bio" "bmethod bio = BIO_s_mem" "init bio" "bptr bio = Mem_Data b" "buf_ok b"
    "bm_length b \<le> int_max" "bm_off b = 0" "flags bio AND BIO_FLAGS_MEM_RDONLY = 0"
    using assms(2,3) by (auto simp: mem_ok_def mem_writable_def)
  have mb: "mem_at h x = Some b" using b by (auto simp: mem_at_Some)
  have bytes: "mem_bytes h x = buf_contents b" "length (mem_bytes h x) = bm_length b"
    using mb b(5) by (simp_all add: mem_bytes_def length_buf_contents)
  show ?thesis
  proof (cases "int int_max - int (bm_length b) < int len")
    case True
    then have "r = -1" "h' = upd_bio x BIO_clear_retry_flags h"
      using assms(4-7) mb b by (auto simp: mem_write_def to_int_small Let_def)
    then show ?thesis using mb b bytes by (auto simp: mem_ok_def mem_writable_def mem_bytes_def)
  next
    case False
    then have sum: "bm_length b + len \<le> int_max" by linarith
    obtain n b1 where g: "BUF_MEM_grow m (bm_length b + len) b = (n, b1)" by (cases "BUF_MEM_grow m (bm_length b + len) b")
    have small: "bm_length b + len < object_max div 2" using sum by simp
    note grow = grow_ok [OF assms(1) b(5,7) small g]
    have nat_sum: "nat (int (bm_length b) + int len) = bm_length b + len" "(bm_length b + len) mod size_modulus = bm_length b + len"
      using sum by simp_all
    have step: "(r, h') = (if n \<noteq> bm_length b + len then (-1, set_mem x b1 (upd_bio x BIO_clear_retry_flags h))
        else (int len, set_mem x (buf_put (bm_length b) (take len xs) b1) (upd_bio x BIO_clear_retry_flags h)))"
      using assms(4-7) mb b False g nat_sum
      by (auto simp: mem_write_def to_int_small Let_def BUF_MEM_grow_clean_def split: if_splits)
    show ?thesis
    proof (cases "n = bm_length b + len")
      case True
      then have g1: "buf_ok b1" "bm_off b1 = 0" "buf_contents b1 = buf_contents b @ replicate len 0"
        using grow assms(4) bytes by (auto split: if_splits)
      have l1: "bm_length b1 = bm_length b + len"
        using length_buf_contents [OF g1(1)] g1(3) bytes by simp
      let ?b2 = "buf_put (bm_length b) (take len xs) b1"
      have len: "length (take len xs) = len" using assms(5) by simp
      have "?b2\<lparr>bm_length := bm_length b + length (take len xs)\<rparr> = ?b2"
        using l1 len by (simp add: buf_put_def)
      moreover have "bm_length b \<le> bm_length b1" "bm_length b + length (take len xs) \<le> bm_max b1"
        using l1 len g1(1) by (auto simp: buf_ok_def)
      ultimately have b2: "buf_ok ?b2" "buf_contents ?b2 = buf_contents b @ take len xs"
        using put_ok [of b1 "bm_length b" "take len xs"] g1 bytes by auto
      then show ?thesis
        using step True b l1 g1(2) sum bytes assms(4)
        by (auto simp: mem_ok_def mem_writable_def mem_bytes_def set_mem_at mb buf_put_def)
    next
      case False
      then have "b1 = b" "n = 0" using grow by (auto split: if_splits)
      then show ?thesis
        using step False b mb bytes assms(4) by (auto simp: mem_ok_def mem_writable_def mem_bytes_def set_mem_at)
    qed
  qed
qed

end
