(* ===== verification/Bio_Stream.thy ===== *)
theory Bio_Stream
  imports Buf Der "HOL-Library.Monad_Syntax"
begin

text \<open>
  The contract between a BIO and the code that moves data through it, and the functions of \<^verbatim>\<open>crypto/bio/bio.c\<close> that are
  clients of it: \<^verbatim>\<open>BIO_write_all\<close>, \<^verbatim>\<open>bio_read_full\<close>, \<^verbatim>\<open>bio_read_all\<close> and \<^verbatim>\<open>BIO_read_asn1\<close>.

  The BIO that such a function works on is the argument \<open>rd\<close> or \<open>wr\<close>: \<^verbatim>\<open>BIO_read\<close> or \<^verbatim>\<open>BIO_write\<close> of that BIO, as a function
  of the length (and the data) and of the state of all BIOs. The loops are partial functions: \<open>None\<close> is a loop that does not
  end, or a violated assertion.
\<close>

type_synonym 's reader = "int \<Rightarrow> 's \<Rightarrow> (int \<times> byte list \<times> 's) option"
type_synonym 's writer = "byte list \<Rightarrow> int \<Rightarrow> 's \<Rightarrow> (int \<times> 's) option"

definition as_int :: "nat \<Rightarrow> int" where
  "as_int n = (if n > int_max then int int_max else int n)"

partial_function (option) BIO_write_all :: "'s writer \<Rightarrow> byte list \<Rightarrow> 's \<Rightarrow> (bool \<times> 's) option" where
  "BIO_write_all wr data s =
     (if length data > 0 then
        Option.bind (wr data (as_int (length data)) s) (\<lambda>(ret, s).
          if ret \<le> 0 then Some (False, s)
          else if nat ret > length data then None
          else BIO_write_all wr (drop (nat ret) data) s)
      else Some (True, s))"

text \<open>The bytes that were read, or whether the first read returned zero.\<close>

partial_function (option) bio_read_full :: "'s reader \<Rightarrow> bool \<Rightarrow> nat \<Rightarrow> 's \<Rightarrow> ((bool + byte list) \<times> 's) option" where
  "bio_read_full rd first_read len s =
     (if len > 0 then
        Option.bind (rd (as_int len) s) (\<lambda>(ret, out, s).
          if ret \<le> 0 then Some (Inl (first_read \<and> ret = 0), s)
          else if nat ret > len then None
          else Option.bind (bio_read_full rd False (len - nat ret) s) (\<lambda>(r, s).
            case r of Inl eof \<Rightarrow> Some (Inl eof, s) | Inr rest \<Rightarrow> Some (Inr (out @ rest), s)))
      else Some (Inr [], s))"

definition kChunkSize :: nat where "kChunkSize = 4096"

text \<open>The loop of \<^verbatim>\<open>bio_read_all\<close>; \<open>filled\<close> is the variable \<^verbatim>\<open>done\<close>. The result is the block and the number of its bytes that are
  valid, or \<open>None\<close> on an error.\<close>

partial_function (option) read_all_loop ::
    "libc_malloc \<Rightarrow> 's reader \<Rightarrow> nat \<Rightarrow> nat \<Rightarrow> nat \<Rightarrow> byte list \<Rightarrow> 's \<Rightarrow> ((byte list \<times> nat) option \<times> 's) option" where
  "read_all_loop m rd max_len len filled buf s =
     (if filled = len then Some (None, s)
      else
        let todo = (len + size_modulus - filled) mod size_modulus
        in if todo \<ge> int_max then None
           else Option.bind (rd (int todo) s) (\<lambda>(n, out, s).
             if n = 0 then Some (Some (buf, filled), s)
             else if n = -1 then Some (None, s)
             else if out \<noteq> [] \<and> filled + length out > length buf then None
             else
               let buf = (if out = [] then buf else blit filled out buf);
                   filled = nat ((int filled + n) mod int size_modulus)
               in if len < max_len \<and> (len + size_modulus - filled) mod size_modulus < kChunkSize div 2 then
                    let len = (len + kChunkSize) mod size_modulus;
                        len = (if len < kChunkSize \<or> len > max_len then max_len else len)
                    in case OPENSSL_realloc m (Some (length buf, buf)) len of
                         None \<Rightarrow> Some (None, s)
                       | Some (_, buf) \<Rightarrow> read_all_loop m rd max_len len filled buf s
                  else read_all_loop m rd max_len len filled buf s))"

definition bio_read_all :: "libc_malloc \<Rightarrow> 's reader \<Rightarrow> byte list \<Rightarrow> nat \<Rightarrow> 's \<Rightarrow> ((byte list \<times> nat) option \<times> 's) option" where
  "bio_read_all m rd prefix max_len s =
     (let len = (length prefix + kChunkSize) mod size_modulus;
          len = (if len > max_len then max_len else len)
      in if len < length prefix then Some (None, s)
         else case OPENSSL_malloc m len of
                None \<Rightarrow> Some (None, s)
              | Some (_, out) \<Rightarrow> read_all_loop m rd max_len len (length prefix) (blit 0 prefix out) s)"

definition kInitialHeaderLen :: nat where "kInitialHeaderLen = 2"

text \<open>The end of \<^verbatim>\<open>BIO_read_asn1\<close>: the length is known, the contents are read behind the header.\<close>

definition read_asn1_rest :: "libc_malloc \<Rightarrow> 's reader \<Rightarrow> nat \<Rightarrow> nat \<Rightarrow> byte list \<Rightarrow> 's \<Rightarrow> ((byte list \<times> nat) option \<times> 's) option" where
  "read_asn1_rest m rd max_len len header s =
     (let header_len = length header
      in if (len + header_len) mod size_modulus < len \<or> (len + header_len) mod size_modulus > max_len \<or> len > int_max then
           Some (None, s)
         else
           let len = len + header_len
           in case OPENSSL_malloc m len of
                None \<Rightarrow> Some (None, s)
              | Some (_, out) \<Rightarrow>
                  Option.bind (bio_read_full rd True (len - header_len) s) (\<lambda>(r, s).
                    case r of
                      Inl _ \<Rightarrow> Some (None, s)
                    | Inr body \<Rightarrow> Some (Some (blit header_len body (blit 0 header out), len), s)))"

text \<open>The element that \<^verbatim>\<open>BIO_read_asn1\<close> stores through \<^verbatim>\<open>out\<close> and \<^verbatim>\<open>out_len\<close>, \<open>None\<close> when it returns 0.\<close>

definition BIO_read_asn1 :: "libc_malloc \<Rightarrow> 's reader \<Rightarrow> nat \<Rightarrow> 's \<Rightarrow> ((byte list \<times> nat) option \<times> 's) option" where
  "BIO_read_asn1 m rd max_len s =
     Option.bind (bio_read_full rd True kInitialHeaderLen s) (\<lambda>(r, s).
       case r of
         Inl _ \<Rightarrow> Some (None, s)
       | Inr header \<Rightarrow>
           let tag = header ! 0;
               length_byte = header ! 1
           in if tag AND 0x1f = 0x1f then Some (None, s)
              else if length_byte AND 0x80 = 0 then read_asn1_rest m rd max_len (unat length_byte) header s
              else
                let num_bytes = unat (length_byte AND 0x7f)
                in if tag AND 0x20 \<noteq> 0 \<and> num_bytes = 0 then bio_read_all m rd header max_len s
                   else if num_bytes = 0 \<or> num_bytes > 4 then Some (None, s)
                   else Option.bind (bio_read_full rd True num_bytes s) (\<lambda>(r, s).
                     case r of
                       Inl _ \<Rightarrow> Some (None, s)
                     | Inr len_bytes \<Rightarrow>
                         let len32 = foldl (\<lambda>len32 b. push_bit 8 len32 OR ucast b) (0 :: u32) len_bytes
                         in if len32 < 128 then Some (None, s)
                            else if drop_bit ((num_bytes - 1) * 8) len32 = 0 then Some (None, s)
                            else read_asn1_rest m rd max_len (unat len32) (header @ len_bytes) s))"


section \<open>Headers\<close>

lemma low_tag:
  assumes "unat tag mod 2 ^ 29 < 31"
  shows "\<exists>t. tag_octets tag = [t] \<and> t AND 0x1f \<noteq> 0x1f"
proof -
  let ?t = "word_of_nat (unat tag div 2 ^ 29 * 32 + unat tag mod 2 ^ 29) :: byte"
  have "unat ?t = unat tag div 2 ^ 29 * 32 + unat tag mod 2 ^ 29"
    using tag_split(1) [of tag] assms unfolding unat_of_nat_byte by simp
  then have "unat (?t AND 0x1f) = unat tag mod 2 ^ 29"
    using assms unat_and_mask [of ?t 5] by (simp add: mask_numeral)
  then have "?t AND 0x1f \<noteq> 0x1f" using assms by auto
  then show ?thesis using assms by (auto simp: tag_octets_def Let_def)
qed

lemma len32_be:
  "length bs \<le> 4 \<Longrightarrow> unat (foldl (\<lambda>len32 b. push_bit 8 len32 OR ucast b) (0 :: u32) bs) = be_nat bs"
proof (induction bs rule: rev_induct)
  case Nil
  then show ?case by simp
next
  case (snoc b bs)
  let ?a = "foldl (\<lambda>len32 b. push_bit 8 len32 OR ucast b) (0 :: u32) bs"
  have a: "unat ?a = be_nat bs" using snoc by simp
  have ub: "unat (ucast b :: u32) = unat b" by (simp add: unat_ucast_le)
  have "be_nat (bs @ [b]) < 256 ^ 4"
    using be_nat_less [of "bs @ [b]"] snoc.prems power_increasing [of "length (bs @ [b])" 4 "256::nat"] by simp
  then have "unat ?a * 2 ^ 8 + unat (ucast b :: u32) < 2 ^ LENGTH(32)" using a ub by simp
  then show ?case using unat_push_bit_or [of "ucast b :: u32" 8 ?a] a ub by simp
qed

section \<open>Contracts\<close>

text \<open>A source that is not exhausted delivers at least one byte, from the front of what it holds.\<close>

locale byte_source =
  fixes rd :: "'s reader" and bytes :: "'s \<Rightarrow> byte list" and ok :: "'s \<Rightarrow> bool"
  assumes read_law: "ok s \<Longrightarrow> 0 < len \<Longrightarrow> len \<le> int_max \<Longrightarrow> bytes s \<noteq> [] \<Longrightarrow>
    \<exists>n s'. 0 < n \<and> n \<le> len \<and> n \<le> length (bytes s) \<and> rd (int len) s = Some (int n, take n (bytes s), s') \<and>
      ok s' \<and> bytes s' = drop n (bytes s)"
begin

lemma read_as_int:
  assumes "ok s" "0 < len" "len \<le> length (bytes s)"
  shows "\<exists>n s'. 0 < n \<and> n \<le> len \<and> n \<le> length (bytes s) \<and> rd (as_int len) s = Some (int n, take n (bytes s), s') \<and>
      ok s' \<and> bytes s' = drop n (bytes s)"
proof -
  have "bytes s \<noteq> []" using assms by auto
  then show ?thesis
    using read_law [OF assms(1), of len] read_law [OF assms(1), of int_max] assms(2)
    by (cases "len \<le> int_max") (auto simp: as_int_def)
qed

lemma read_full:
  "ok s \<Longrightarrow> n \<le> length (bytes s) \<Longrightarrow>
    \<exists>s'. bio_read_full rd f n s = Some (Inr (take n (bytes s)), s') \<and> ok s' \<and> bytes s' = drop n (bytes s)"
proof (induction n arbitrary: s f rule: less_induct)
  case (less n)
  show ?case
  proof (cases "n = 0")
    case True
    then show ?thesis using less.prems by (subst bio_read_full.simps) simp
  next
    case False
    with read_as_int [OF less.prems(1) _ less.prems(2)] obtain k s1 where
      k: "0 < k" "k \<le> n" "rd (as_int n) s = Some (int k, take k (bytes s), s1)" "ok s1" "bytes s1 = drop k (bytes s)"
      by auto
    have "n - k < n" "n - k \<le> length (bytes s1)" using k less.prems(2) by auto
    from less.IH [OF this(1) k(4) this(2), of False] obtain s2 where
      s2: "bio_read_full rd False (n - k) s1 = Some (Inr (take (n - k) (bytes s1)), s2)" "ok s2" "bytes s2 = drop (n - k) (bytes s1)"
      by blast
    have "take k (bytes s) @ take (n - k) (drop k (bytes s)) = take n (bytes s)"
      using k(2) by (metis le_add_diff_inverse take_add)
    then show ?thesis
      using False k s2 by (subst bio_read_full.simps) simp
  qed
qed

text \<open>An element that fits is read from the front of the source, whatever follows it.\<close>

lemma read_asn1_rest:
  assumes "malloc_ok m" "ok s" "bytes s = body @ rest" "length header + length body \<le> max_len" "length body \<le> int_max"
    and "length header \<le> 6" "OPENSSL_malloc m (length header + length body) \<noteq> None"
  shows "\<exists>s'. read_asn1_rest m rd max_len (length body) header s =
      Some (Some (header @ body, length header + length body), s') \<and> ok s' \<and> bytes s' = rest"
proof -
  obtain sz out where al: "OPENSSL_malloc m (length header + length body) = Some (sz, out)" using assms(7) by auto
  have "length out = length header + length body"
    using OPENSSL_malloc_length [OF assms(1) al] assms(5,6) by (simp add: OPENSSL_MALLOC_PREFIX_def)
  then have blit: "blit (length header) body (blit 0 header out) = header @ body" by (simp add: blit_def)
  obtain s' where "bio_read_full rd True (length body) s = Some (Inr body, s')" "ok s'" "bytes s' = rest"
    using read_full [OF assms(2), of "length body" True] assms(3) by auto
  moreover have "(length body + length header) mod size_modulus = length body + length header" using assms(5,6) by simp
  ultimately show ?thesis
    using assms(4,5) al blit by (simp add: read_asn1_rest_def Let_def add.commute)
qed

lemma read_asn1:
  assumes "malloc_ok m" "ok s" "unat tag mod 2 ^ 29 < 31" "bytes s = der_element tag xs @ rest"
    and "length (der_element tag xs) \<le> max_len" "length xs \<le> int_max" "OPENSSL_malloc m (length (der_element tag xs)) \<noteq> None"
  shows "\<exists>s'. BIO_read_asn1 m rd max_len s = Some (Some (der_element tag xs, length (der_element tag xs)), s') \<and>
    ok s' \<and> bytes s' = rest"
proof -
  obtain t where t: "tag_octets tag = [t]" "t AND 0x1f \<noteq> 0x1f" using low_tag [OF assms(3)] by blast
  show ?thesis
  proof (cases "length xs < 128")
    case True
    let ?l = "word_of_nat (length xs) :: byte"
    have l: "length_octets (length xs) = [?l]" "?l AND 0x80 = 0" "unat ?l = length xs"
      using True by (simp_all add: length_octets_def byte_and_80_eq_0 unat_of_nat)
    have el: "der_element tag xs = [t, ?l] @ xs" by (simp add: der_element_def der_header_def t(1) l(1))
    obtain s1 where s1: "bio_read_full rd True 2 s = Some (Inr [t, ?l], s1)" "ok s1" "bytes s1 = xs @ rest"
      using read_full [OF assms(2), of 2 True] assms(4) el by auto
    then show ?thesis
      using read_asn1_rest [OF assms(1) s1(2,3), of "[t, ?l]" max_len] assms(5-7) t(2) l(2,3)
      by (simp add: BIO_read_asn1_def kInitialHeaderLen_def el)
  next
    case False
    define k where "k = num_len_bytes (length xs)"
    have k: "1 \<le> k" "k \<le> 4" "length xs < 256 ^ k" "256 ^ (k - 1) \<le> length xs"
      using num_len_bytes_range [of "length xs"] num_len_bytes_bounds [of "length xs"] False assms(6) by (simp_all add: k_def)
    let ?l = "word_of_nat (128 + k) :: byte" and ?ls = "nat_be k (length xs)"
    have l: "length_octets (length xs) = ?l # ?ls" using False by (simp add: length_octets_def k_def)
    have ul: "unat ?l = 128 + k" using k(2) unfolding unat_of_nat_byte by simp
    have lb: "?l AND 0x80 \<noteq> 0" "unat (?l AND 0x7f) = k" using ul k(2) by (simp_all add: byte_and_80 byte_and_7f)
    have el: "der_element tag xs = [t, ?l] @ ?ls @ xs" by (simp add: der_element_def der_header_def t(1) l)
    obtain s1 where s1: "bio_read_full rd True 2 s = Some (Inr [t, ?l], s1)" "ok s1" "bytes s1 = ?ls @ xs @ rest"
      using read_full [OF assms(2), of 2 True] assms(4) el by auto
    obtain s2 where s2: "bio_read_full rd True k s1 = Some (Inr ?ls, s2)" "ok s2" "bytes s2 = xs @ rest"
      using read_full [OF s1(2), of k True] s1(3) by auto
    let ?len32 = "foldl (\<lambda>len32 b. push_bit 8 len32 OR ucast b) (0 :: u32) ?ls"
    have u: "unat ?len32 = length xs"
      using len32_be [of ?ls] k(2,3) assms(6) by (simp add: be_nat_nat_be)
    have min: "\<not> ?len32 < 128" "drop_bit ((k - 1) * 8) ?len32 \<noteq> 0"
      using u False k(4) power_mult [of "2::nat" 8 "k - 1"]
      by (simp_all add: word_less_nat_alt drop_bit_eq_0_iff_unat mult.commute)
    have "length ([t, ?l] @ ?ls) \<le> 6" using k(2) by simp
    then obtain s' where "read_asn1_rest m rd max_len (length xs) ([t, ?l] @ ?ls) s2 =
        Some (Some (([t, ?l] @ ?ls) @ xs, length ([t, ?l] @ ?ls) + length xs), s')" "ok s'" "bytes s' = rest"
      using read_asn1_rest [OF assms(1) s2(2,3), of "[t, ?l] @ ?ls" max_len] assms(5-7) by (auto simp: el)
    then show ?thesis
      using s1 s2 t(2) lb k(1,2) min u by (simp add: BIO_read_asn1_def kInitialHeaderLen_def el Let_def)
  qed
qed

end

text \<open>A source that moreover reports its end by returning 0.\<close>

locale ending_source = byte_source +
  assumes end_law: "ok s \<Longrightarrow> 0 < len \<Longrightarrow> len \<le> int_max \<Longrightarrow> bytes s = [] \<Longrightarrow>
    \<exists>s'. rd (int len) s = Some (0, [], s') \<and> ok s' \<and> bytes s' = []"
begin

lemma read_all_loop:
  assumes "malloc_ok m" "\<And>n. n \<le> max_len \<Longrightarrow> OPENSSL_malloc m n \<noteq> None" "max_len < object_max"
  shows "ok s \<Longrightarrow> filled + length (bytes s) < max_len \<Longrightarrow> filled \<le> length buf \<Longrightarrow> length buf = len \<Longrightarrow> len \<le> max_len \<Longrightarrow>
    len = max_len \<or> 2048 \<le> len - filled \<Longrightarrow> len - filled \<le> 6144 \<Longrightarrow>
    \<exists>buf' s'. read_all_loop m rd max_len len filled buf s = Some (Some (buf', filled + length (bytes s)), s') \<and>
      take (filled + length (bytes s)) buf' = take filled buf @ bytes s \<and> ok s' \<and> bytes s' = []"
proof (induction "length (bytes s)" arbitrary: s filled buf len rule: less_induct)
  case less
  have fl: "filled < len" using less.prems by linarith
  then have todo: "(len + size_modulus - filled) mod size_modulus = len - filled"
    using less.prems(5) assms(3) by (simp add: mod_if)
  have small: "0 < len - filled" "len - filled \<le> int_max" "len - filled < int_max" using fl less.prems(7) by simp_all
  show ?case
  proof (cases "bytes s = []")
    case True
    from end_law [OF less.prems(1) small(1,2) True] obtain s' where
      "rd (int (len - filled)) s = Some (0, [], s')" "ok s'" "bytes s' = []" by blast
    then show ?thesis
      using True fl small less.prems(3) by (subst read_all_loop.simps) (simp add: Let_def todo del: of_nat_diff)
  next
    case False
    from read_law [OF less.prems(1) small(1,2) False] obtain n s1 where
      n: "0 < n" "n \<le> len - filled" "n \<le> length (bytes s)"
      "rd (int (len - filled)) s = Some (int n, take n (bytes s), s1)" "ok s1" "bytes s1 = drop n (bytes s)" by blast
    define buf1 where "buf1 = blit filled (take n (bytes s)) buf"
    have outl: "length (take n (bytes s)) = n" "take n (bytes s) \<noteq> []" using n by auto
    have b1: "length buf1 = len" "take (filled + n) buf1 = take filled buf @ take n (bytes s)"
      using n fl less.prems(4) outl take_blit_append [of filled "take n (bytes s)" buf] by (auto simp: buf1_def)
    have fn: "nat ((int filled + int n) mod int size_modulus) = filled + n"
      using n less.prems(4,5) fl assms(3) by simp
    have todo1: "(len + size_modulus - (filled + n)) mod size_modulus = len - (filled + n)"
      using n less.prems(5) assms(3) fl by (cases "len = filled + n") (simp_all add: mod_if)
    have shorter: "length (bytes s1) < length (bytes s)" "length (bytes s1) = length (bytes s) - n" using n by auto
    have step: "read_all_loop m rd max_len len filled buf s =
        (if len < max_len \<and> len - (filled + n) < 2048 then
           let len = (len + kChunkSize) mod size_modulus;
               len = (if len < kChunkSize \<or> len > max_len then max_len else len)
           in case OPENSSL_realloc m (Some (length buf1, buf1)) len of
                None \<Rightarrow> Some (None, s1)
              | Some (_, buf) \<Rightarrow> read_all_loop m rd max_len len (filled + n) buf s1
         else read_all_loop m rd max_len len (filled + n) buf1 s1)"
    proof -
      have "nat (int filled + int n) = filled + n" "\<not> len < filled + n" using n(2) fl by linarith+
      then show ?thesis
        using fl small n outl less.prems(4) fn
        by (subst read_all_loop.simps) (simp add: Let_def todo todo1 buf1_def kChunkSize_def del: of_nat_diff)
    qed
    have rest: "\<exists>buf' s'. read_all_loop m rd max_len len' (filled + n) buf2 s1 = Some (Some (buf', filled + length (bytes s)), s') \<and>
        take (filled + length (bytes s)) buf' = take filled buf @ bytes s \<and> ok s' \<and> bytes s' = []"
      if "length buf2 = len'" "len \<le> len'" "len' \<le> max_len" "len' = max_len \<or> 2048 \<le> len' - (filled + n)" "len' - (filled + n) \<le> 6144"
        "take (filled + n) buf2 = take (filled + n) buf1" for len' buf2
    proof -
      have "filled + n + length (bytes s1) = filled + length (bytes s)" using shorter(2) n(3) by simp
      moreover have "take n (bytes s) @ bytes s1 = bytes s" using n(6) by simp
      moreover have "filled + n \<le> length buf2" using that(1,2) n(2) fl by simp
      ultimately show ?thesis
        using less.hyps [OF shorter(1) n(5), of "filled + n" buf2 len'] that b1 less.prems(2)
        by (simp only: append.assoc [symmetric] append_assoc)
    qed
    show ?thesis
    proof (cases "len < max_len \<and> len - (filled + n) < 2048")
      case False
      then show ?thesis using rest [of buf1 len] b1 less.prems(5-7) step by auto
    next
      case True
      define len' where "len' = (if (len + kChunkSize) mod size_modulus < kChunkSize \<or> (len + kChunkSize) mod size_modulus > max_len
        then max_len else (len + kChunkSize) mod size_modulus)"
      have l': "len \<le> len'" "len' \<le> max_len" "len' = max_len \<or> len' = len + 4096" "len' \<le> len + 4096"
        using True assms(3) by (auto simp: len'_def kChunkSize_def)
      obtain sz ret where al: "OPENSSL_malloc m len' = Some (sz, ret)" using assms(2) [OF l'(2)] by auto
      have ret: "sz = len'" "length ret = len'"
        using OPENSSL_malloc_length [OF assms(1) al] l'(2) assms(3) by (simp_all add: OPENSSL_MALLOC_PREFIX_def)
      define buf2 where "buf2 = blit 0 (take (if length buf1 < len' then length buf1 else len') buf1) ret"
      have re: "OPENSSL_realloc m (Some (length buf1, buf1)) len' = Some (len', buf2)"
        using al ret by (simp add: OPENSSL_realloc_def Let_def buf2_def)
      have b2: "length buf2 = len'" "take (filled + n) buf2 = take (filled + n) buf1"
        using b1(1) ret l'(1) n(2) fl by (auto simp: buf2_def blit_def min_def)
      have "len' = max_len \<or> 2048 \<le> len' - (filled + n)" "len' - (filled + n) \<le> 6144" using l' True n(2) fl by auto
      from rest [OF b2(1) l'(1,2) this b2(2)] show ?thesis
        using True step re by (simp add: Let_def len'_def)
    qed
  qed
qed

end

text \<open>A sink takes a non-empty front of the data, or reports that it cannot.\<close>

locale byte_sink =
  fixes wr :: "'s writer" and bytes :: "'s \<Rightarrow> byte list" and ok :: "'s \<Rightarrow> bool"
  assumes write_law: "ok s \<Longrightarrow> 0 < len \<Longrightarrow> len \<le> length data \<Longrightarrow> len \<le> int_max \<Longrightarrow>
    \<exists>r s'. wr data (int len) s = Some (r, s') \<and> ok s' \<and>
      (if r \<le> 0 then bytes s' = bytes s else nat r \<le> len \<and> bytes s' = bytes s @ take (nat r) data)"
begin

text \<open>\<^verbatim>\<open>BIO_write_all\<close> always ends. If it succeeds, all of the data was appended, otherwise a front of it.\<close>

lemma write_all:
  "ok s \<Longrightarrow> \<exists>r k s'. BIO_write_all wr data s = Some (r, s') \<and> ok s' \<and> bytes s' = bytes s @ take k data \<and> (r \<longrightarrow> k = length data)"
proof (induction "length data" arbitrary: s data rule: less_induct)
  case less
  show ?case
  proof (cases "data = []")
    case True
    then show ?thesis using less.prems by (subst BIO_write_all.simps) (auto intro!: exI [of _ True])
  next
    case False
    define len where "len = (if length data > int_max then int_max else length data)"
    have len: "0 < len" "len \<le> length data" "len \<le> int_max" "as_int (length data) = int len"
      using False by (auto simp: len_def as_int_def)
    from write_law [OF less.prems len(1-3)] obtain r s1 where
      r: "wr data (int len) s = Some (r, s1)" "ok s1"
      "if r \<le> 0 then bytes s1 = bytes s else nat r \<le> len \<and> bytes s1 = bytes s @ take (nat r) data" by blast
    show ?thesis
    proof (cases "r \<le> 0")
      case True
      then show ?thesis using r False len(4) by (subst BIO_write_all.simps) (auto intro: exI [of _ 0])
    next
      case pos: False
      then have k: "nat r \<le> length data" "length (drop (nat r) data) < length data" "bytes s1 = bytes s @ take (nat r) data"
        using r(3) len(2) False by auto
      from less.hyps [OF k(2) r(2)] obtain r' k' s' where
        r': "BIO_write_all wr (drop (nat r) data) s1 = Some (r', s')" "ok s'"
        "bytes s' = bytes s1 @ take k' (drop (nat r) data)" "r' \<longrightarrow> k' = length (drop (nat r) data)" by blast
      have "take (nat r) data @ take k' (drop (nat r) data) = take (nat r + k') data" by (simp add: take_add)
      then show ?thesis
        using r r' k pos False len(4)
        by (subst BIO_write_all.simps) (auto intro!: exI [of _ "nat r + k'"])
    qed
  qed
qed

end

end
