(* ===== verification/Bio.thy ===== *)
theory Bio
  imports Bio_Pair Bio_Mem Bio_Stream
begin

text \<open>
  \<^verbatim>\<open>crypto/bio/bio.c\<close>: the operations on a \<^verbatim>\<open>BIO\<close> of any kind, which call the methods of its kind, chains of BIOs, and the
  properties of pairs and memory buffers as the caller sees them.

  The argument \<open>bio\<close> is a pointer, \<open>None\<close> for NULL. A BIO of the model always has a method table, and both tables have the
  entries for reading, writing and control; that of pairs has none for \<^verbatim>\<open>BIO_gets\<close>. The error queue is left out.
\<close>

section \<open>Reference counts\<close>

definition CRYPTO_REFCOUNT_MAX :: nat where "CRYPTO_REFCOUNT_MAX = 0xffffffff"

definition CRYPTO_refcount_inc :: "nat \<Rightarrow> nat" where
  "CRYPTO_refcount_inc count = (if count < CRYPTO_REFCOUNT_MAX then count + 1 else count)"

text \<open>Aborting is \<open>None\<close>.\<close>

definition CRYPTO_refcount_dec_and_test_zero :: "nat \<Rightarrow> (bool \<times> nat) option" where
  "CRYPTO_refcount_dec_and_test_zero count =
     (if count = 0 then None
      else let count = (if count < CRYPTO_REFCOUNT_MAX then count - 1 else count) in Some (count = 0, count))"

section \<open>Life cycle\<close>

definition sizeof_BIO :: nat where "sizeof_BIO = 64"

text \<open>\<open>m\<close> allocates the \<^verbatim>\<open>BIO\<close>, \<open>m'\<close> what the method keeps behind it: two calls, of which the second may fail when the first did not. The
  \<^verbatim>\<open>BIO\<close> is freed again then.\<close>

definition BIO_new :: "libc_malloc \<Rightarrow> libc_malloc \<Rightarrow> bio_method \<Rightarrow> bios \<Rightarrow> nat option \<times> bios" where
  "BIO_new m m' meth h =
     (case OPENSSL_malloc m sizeof_BIO of
        None \<Rightarrow> (None, h)
      | Some _ \<Rightarrow>
          let ret = \<lparr>bmethod = meth, init = False, bshutdown = 1, flags = 0, retry_reason = 0, num = 0, references = 1,
                bptr = No_Data, next_bio = None, num_read = 0, num_write = 0\<rparr>
          in case (case meth of BIO_s_bio \<Rightarrow> bio_new m' ret | BIO_s_mem \<Rightarrow> mem_new m' ret) of
               None \<Rightarrow> (None, h)
             | Some ret \<Rightarrow> (Some (next_id h), h\<lparr>next_id := next_id h + 1, bio_at := (bio_at h)(next_id h := Some ret)\<rparr>))"

definition BIO_pop :: "nat option \<Rightarrow> bios \<Rightarrow> (nat option \<times> bios) option" where
  "BIO_pop bio h =
     (case bio of
        None \<Rightarrow> Some (None, h)
      | Some x \<Rightarrow> do { b \<leftarrow> bio_at h x; Some (next_bio b, upd_bio x (\<lambda>b. b\<lparr>next_bio := None\<rparr>) h) })"

definition method_destroy :: "nat \<Rightarrow> bios \<Rightarrow> bios option" where
  "method_destroy x h = do {
     b \<leftarrow> bio_at h x;
     (_, h) \<leftarrow> (case bmethod b of BIO_s_bio \<Rightarrow> bio_free x h | BIO_s_mem \<Rightarrow> mem_free x h);
     Some h
   }"

partial_function (option) BIO_free :: "nat option \<Rightarrow> bios \<Rightarrow> (int \<times> bios) option" where
  "BIO_free bio h =
     (case bio of
        None \<Rightarrow> Some (1, h)
      | Some x \<Rightarrow>
          Option.bind (bio_at h x) (\<lambda>b.
          Option.bind (CRYPTO_refcount_dec_and_test_zero (references b)) (\<lambda>(zero, count).
            let h = upd_bio x (\<lambda>b. b\<lparr>references := count\<rparr>) h
            in if \<not> zero then Some (0, h)
               else Option.bind (BIO_pop (Some x) h) (\<lambda>(next, h).
                 Option.bind (method_destroy x h) (\<lambda>h.
                   BIO_free next (h\<lparr>bio_at := (bio_at h)(x := None)\<rparr>))))))"

definition BIO_up_ref :: "nat \<Rightarrow> bios \<Rightarrow> (int \<times> bios) option" where
  "BIO_up_ref x h = do {
     b \<leftarrow> bio_at h x;
     Some (1, upd_bio x (\<lambda>b. b\<lparr>references := CRYPTO_refcount_inc (references b)\<rparr>) h)
   }"

definition BIO_vfree :: "nat option \<Rightarrow> bios \<Rightarrow> bios option" where
  "BIO_vfree bio h = map_option snd (BIO_free bio h)"

definition BIO_free_all :: "nat option \<Rightarrow> bios \<Rightarrow> bios option" where
  "BIO_free_all bio h = map_option snd (BIO_free bio h)"

section \<open>Reading and writing\<close>

definition method_bread :: "nat \<Rightarrow> int \<Rightarrow> bios \<Rightarrow> (int \<times> byte list \<times> bios) option" where
  "method_bread x len h = do {
     b \<leftarrow> bio_at h x;
     (case bmethod b of BIO_s_bio \<Rightarrow> bio_read x False len h | BIO_s_mem \<Rightarrow> mem_read x len h)
   }"

definition method_bwrite :: "libc_malloc \<Rightarrow> nat \<Rightarrow> byte list \<Rightarrow> int \<Rightarrow> bios \<Rightarrow> (int \<times> bios) option" where
  "method_bwrite m x inp inl h = do {
     b \<leftarrow> bio_at h x;
     (case bmethod b of BIO_s_bio \<Rightarrow> bio_write x (Some inp) inl h | BIO_s_mem \<Rightarrow> mem_write m x inp inl h)
   }"

definition BIO_read :: "nat option \<Rightarrow> int \<Rightarrow> bios \<Rightarrow> (int \<times> byte list \<times> bios) option" where
  "BIO_read bio len h =
     (case bio of
        None \<Rightarrow> Some (-2, [], h)
      | Some x \<Rightarrow> do {
          b \<leftarrow> bio_at h x;
          if \<not> init b then Some (-2, [], h)
          else if len \<le> 0 then Some (0, [], h)
          else do {
            (ret, out, h) \<leftarrow> method_bread x len h;
            Some (ret, out, if ret > 0 then upd_bio x (\<lambda>b. b\<lparr>num_read := (num_read b + nat ret) mod size_modulus\<rparr>) h else h)
          }
        })"

definition BIO_gets :: "nat option \<Rightarrow> int \<Rightarrow> bios \<Rightarrow> (int \<times> byte list \<times> bios) option" where
  "BIO_gets bio len h =
     (case bio of
        None \<Rightarrow> Some (-2, [], h)
      | Some x \<Rightarrow> do {
          b \<leftarrow> bio_at h x;
          if bmethod b = BIO_s_bio then Some (-2, [], h)
          else if \<not> init b then Some (-2, [], h)
          else if len \<le> 0 then Some (0, [], h)
          else do {
            (ret, out, h) \<leftarrow> mem_gets x len h;
            Some (ret, out, if ret > 0 then upd_bio x (\<lambda>b. b\<lparr>num_read := (num_read b + nat ret) mod size_modulus\<rparr>) h else h)
          }
        })"

definition BIO_write :: "libc_malloc \<Rightarrow> nat option \<Rightarrow> byte list \<Rightarrow> int \<Rightarrow> bios \<Rightarrow> (int \<times> bios) option" where
  "BIO_write m bio inp inl h =
     (case bio of
        None \<Rightarrow> Some (-2, h)
      | Some x \<Rightarrow> do {
          b \<leftarrow> bio_at h x;
          if \<not> init b then Some (-2, h)
          else if inl \<le> 0 then Some (0, h)
          else do {
            (ret, h) \<leftarrow> method_bwrite m x inp inl h;
            Some (ret, if ret > 0 then upd_bio x (\<lambda>b. b\<lparr>num_write := (num_write b + nat ret) mod size_modulus\<rparr>) h else h)
          }
        })"

definition BIO_puts :: "libc_malloc \<Rightarrow> nat option \<Rightarrow> byte list \<Rightarrow> bios \<Rightarrow> (int \<times> bios) option" where
  "BIO_puts m bio s h = BIO_write m bio s (to_int (strlen s)) h"

section \<open>Control operations\<close>

definition BIO_ctrl :: "nat option \<Rightarrow> int \<Rightarrow> int \<Rightarrow> ctrl_ptr \<Rightarrow> bios \<Rightarrow> (int \<times> bios) option" where
  "BIO_ctrl bio cmd larg parg h =
     (case bio of
        None \<Rightarrow> Some (0, h)
      | Some x \<Rightarrow> do {
          b \<leftarrow> bio_at h x;
          (case bmethod b of BIO_s_bio \<Rightarrow> bio_ctrl x cmd larg parg h | BIO_s_mem \<Rightarrow> mem_ctrl x cmd larg parg h)
        })"

definition BIO_flush :: "nat option \<Rightarrow> bios \<Rightarrow> (int \<times> bios) option" where
  "BIO_flush bio h = BIO_ctrl bio BIO_CTRL_FLUSH 0 No_Ptr h"

definition BIO_reset :: "nat option \<Rightarrow> bios \<Rightarrow> (int \<times> bios) option" where
  "BIO_reset bio h = BIO_ctrl bio BIO_CTRL_RESET 0 No_Ptr h"

definition BIO_eof :: "nat option \<Rightarrow> bios \<Rightarrow> (int \<times> bios) option" where
  "BIO_eof bio h = BIO_ctrl bio BIO_CTRL_EOF 0 No_Ptr h"

definition BIO_pending :: "nat option \<Rightarrow> bios \<Rightarrow> (nat \<times> bios) option" where
  "BIO_pending bio h = do { (r, h) \<leftarrow> BIO_ctrl bio BIO_CTRL_PENDING 0 No_Ptr h; assert_that (r \<ge> 0); Some (nat r, h) }"

definition BIO_ctrl_pending :: "nat option \<Rightarrow> bios \<Rightarrow> (nat \<times> bios) option" where
  "BIO_ctrl_pending bio h = BIO_pending bio h"

definition BIO_wpending :: "nat option \<Rightarrow> bios \<Rightarrow> (nat \<times> bios) option" where
  "BIO_wpending bio h = do { (r, h) \<leftarrow> BIO_ctrl bio BIO_CTRL_WPENDING 0 No_Ptr h; assert_that (r \<ge> 0); Some (nat r, h) }"

definition BIO_set_close :: "nat option \<Rightarrow> int \<Rightarrow> bios \<Rightarrow> (int \<times> bios) option" where
  "BIO_set_close bio close_flag h = BIO_ctrl bio BIO_CTRL_SET_CLOSE close_flag No_Ptr h"

definition BIO_set_mem_eof_return :: "nat option \<Rightarrow> int \<Rightarrow> bios \<Rightarrow> (int \<times> bios) option" where
  "BIO_set_mem_eof_return bio eof_value h = BIO_ctrl bio BIO_C_SET_BUF_MEM_EOF_RETURN eof_value No_Ptr h"

definition BIO_set_mem_buf :: "nat option \<Rightarrow> BUF_MEM \<Rightarrow> int \<Rightarrow> bios \<Rightarrow> (int \<times> bios) option" where
  "BIO_set_mem_buf bio b take_ownership h = BIO_ctrl bio BIO_C_SET_BUF_MEM take_ownership (Buf_Ptr b) h"

definition BIO_ctrl_get_read_request :: "nat option \<Rightarrow> bios \<Rightarrow> (int \<times> bios) option" where
  "BIO_ctrl_get_read_request bio h = BIO_ctrl bio BIO_C_GET_READ_REQUEST 0 No_Ptr h"

definition BIO_ctrl_get_write_guarantee :: "nat option \<Rightarrow> bios \<Rightarrow> (int \<times> bios) option" where
  "BIO_ctrl_get_write_guarantee bio h = BIO_ctrl bio BIO_C_GET_WRITE_GUARANTEE 0 No_Ptr h"

definition BIO_shutdown_wr :: "nat option \<Rightarrow> bios \<Rightarrow> (int \<times> bios) option" where
  "BIO_shutdown_wr bio h = BIO_ctrl bio BIO_C_SHUTDOWN_WR 0 No_Ptr h"

definition BIO_number_read :: "BIO \<Rightarrow> nat" where
  "BIO_number_read bio = num_read bio"

definition BIO_number_written :: "BIO \<Rightarrow> nat" where
  "BIO_number_written bio = num_write bio"

definition BIO_method_type :: "BIO \<Rightarrow> int" where
  "BIO_method_type bio = (case bmethod bio of BIO_s_bio \<Rightarrow> 0x413 | BIO_s_mem \<Rightarrow> 0x401)"

section \<open>Chains\<close>

text \<open>The last BIO of a chain.\<close>

partial_function (option) last_bio :: "nat \<Rightarrow> bios \<Rightarrow> nat option" where
  "last_bio x h =
     Option.bind (bio_at h x) (\<lambda>b. case next_bio b of None \<Rightarrow> Some x | Some y \<Rightarrow> last_bio y h)"

definition BIO_push :: "nat option \<Rightarrow> nat option \<Rightarrow> bios \<Rightarrow> (nat option \<times> bios) option" where
  "BIO_push bio appended_bio h =
     (case bio of
        None \<Rightarrow> Some (None, h)
      | Some x \<Rightarrow> do { l \<leftarrow> last_bio x h; Some (bio, upd_bio l (\<lambda>b. b\<lparr>next_bio := appended_bio\<rparr>) h) })"

definition BIO_next :: "nat option \<Rightarrow> bios \<Rightarrow> nat option option" where
  "BIO_next bio h = (case bio of None \<Rightarrow> Some None | Some x \<Rightarrow> map_option next_bio (bio_at h x))"

definition type_matches :: "int \<Rightarrow> BIO \<Rightarrow> bool" where
  "type_matches ty b \<longleftrightarrow> (if ty AND 0xff = 0 then BIO_method_type b AND ty \<noteq> 0 else BIO_method_type b = ty)"

partial_function (option) BIO_find_type :: "nat option \<Rightarrow> int \<Rightarrow> bios \<Rightarrow> nat option option" where
  "BIO_find_type bio ty h =
     (case bio of
        None \<Rightarrow> Some None
      | Some x \<Rightarrow>
          Option.bind (bio_at h x) (\<lambda>b. if type_matches ty b then Some (Some x) else BIO_find_type (next_bio b) ty h))"

definition BIO_copy_next_retry :: "nat \<Rightarrow> bios \<Rightarrow> bios option" where
  "BIO_copy_next_retry x h = do {
     b \<leftarrow> bio_at h x;
     y \<leftarrow> next_bio b;
     let h = upd_bio x BIO_clear_retry_flags h;
     n \<leftarrow> bio_at h y;
     let h = upd_bio x (BIO_set_flags (BIO_get_retry_flags n)) h;
     n \<leftarrow> bio_at h y;
     Some (upd_bio x (\<lambda>b. b\<lparr>retry_reason := retry_reason n\<rparr>) h)
   }"

partial_function (option) BIO_indent :: "libc_malloc \<Rightarrow> nat option \<Rightarrow> nat \<Rightarrow> nat \<Rightarrow> bios \<Rightarrow> (int \<times> bios) option" where
  "BIO_indent m bio indent max_indent h =
     (let indent = (if indent > max_indent then max_indent else indent)
      in if indent = 0 then Some (1, h)
         else Option.bind (BIO_puts m bio [32, 0] h) (\<lambda>(r, h).
           if r \<noteq> 1 then Some (0, h) else BIO_indent m bio (indent - 1) max_indent h))"

section \<open>Constructors of pairs and memory BIOs\<close>

text \<open>Six calls of \<^verbatim>\<open>malloc\<close>, each at most once: \<open>m 0\<close> and \<open>m 1\<close> serve the first \<^verbatim>\<open>BIO_new\<close>, \<open>m 2\<close> and \<open>m 3\<close> the second, \<open>m 4\<close> and \<open>m 5\<close> the two
  ring buffers.\<close>

definition BIO_new_bio_pair :: "(nat \<Rightarrow> libc_malloc) \<Rightarrow> nat \<Rightarrow> nat \<Rightarrow> bios \<Rightarrow> ((nat \<times> nat) option \<times> bios) option" where
  "BIO_new_bio_pair m writebuf1_len writebuf2_len h = do {
     let (bio1, h) = BIO_new (m 0) (m 1) BIO_s_bio h;
     let (bio2, h) = BIO_new (m 2) (m 3) BIO_s_bio h;
     (ok, h) \<leftarrow> (case (bio1, bio2) of
         (Some x, Some y) \<Rightarrow> bio_make_pair (m 4) (m 5) x y writebuf1_len writebuf2_len h
       | _ \<Rightarrow> Some (False, h));
     (case (ok, bio1, bio2) of
        (True, Some x, Some y) \<Rightarrow> Some (Some (x, y), h)
      | _ \<Rightarrow> do {
          (_, h) \<leftarrow> BIO_free bio1 h;
          (_, h) \<leftarrow> BIO_free bio2 h;
          Some (None, h)
        })
   }"

text \<open>\<open>len\<close> may be negative for a C string.\<close>

definition BIO_new_mem_buf :: "libc_malloc \<Rightarrow> libc_malloc \<Rightarrow> byte list option \<Rightarrow> int \<Rightarrow> bios \<Rightarrow> (nat option \<times> bios) option" where
  "BIO_new_mem_buf m m' buf len h =
     (if buf = None \<and> len < 0 then None
      else
        let n = (if len < 0 then strlen (the buf) else nat len)
        in if buf = None \<and> len \<noteq> 0 then Some (None, h)
           else case BIO_new m m' BIO_s_mem h of
                  (None, h) \<Rightarrow> Some (None, h)
                | (Some x, h) \<Rightarrow> do {
                    b \<leftarrow> mem_at h x;
                    let h = set_mem x (b\<lparr>bm_data := map_option (\<lambda>d. (length d, d)) buf, bm_length := n, bm_max := n\<rparr>) h;
                    let h = upd_bio x (\<lambda>b. b\<lparr>flags := flags b OR BIO_FLAGS_MEM_RDONLY\<rparr>) h;
                    Some (Some x, upd_bio x (\<lambda>b. b\<lparr>num := 0\<rparr>) h)
                  })"

definition BIO_mem_contents :: "nat \<Rightarrow> bios \<Rightarrow> (byte list \<times> nat) option option" where
  "BIO_mem_contents x h = do {
     b \<leftarrow> bio_at h x;
     if bmethod b \<noteq> BIO_s_mem then Some None
     else do { d \<leftarrow> mem_at h x; Some (Some (buf_from 0 d, bm_length d)) }
   }"

end
