(* ===== verification/Bio_Ports.thy ===== *)
theory Bio_Ports
  imports Bio
begin

text \<open>
  Memory BIOs and pairs are byte sources and byte sinks, so what the contracts of \<open>Bio_Stream\<close> give holds for both; the order of
  the bytes through a pair, over every sequence of operations on its two ends.
\<close>

section \<open>Memory BIOs\<close>

lemma mem_upd:
  assumes "\<And>b. bptr (f b) = bptr b \<and> init (f b) = init b \<and> bmethod (f b) = bmethod b \<and> flags (f b) = flags b \<and> num (f b) = num b"
  shows "mem_ok (upd_bio z f h) x = mem_ok h x" "mem_bytes (upd_bio z f h) x = mem_bytes h x"
    "mem_ok h x \<Longrightarrow> mem_writable (upd_bio z f h) x = mem_writable h x"
    "mem_ok h x \<Longrightarrow> num (the (bio_at (upd_bio z f h) x)) = num (the (bio_at h x))"
    "mem_ok h x \<Longrightarrow> BIO_should_retry (the (bio_at (upd_bio z f h) x)) = BIO_should_retry (the (bio_at h x))"
  using assms by (auto simp: mem_ok_def mem_bytes_def mem_writable_def BIO_should_retry_def BIO_test_flags_def)

lemma mem_okD: "mem_ok h x \<Longrightarrow> \<exists>b. bio_at h x = Some b \<and> init b \<and> bmethod b = BIO_s_mem"
  by (auto simp: mem_ok_def)

lemma BIO_read_mem:
  assumes "mem_ok h x" "0 < len" "len \<le> int_max"
  shows "\<exists>h'. BIO_read (Some x) (int len) h =
      Some (if mem_bytes h x = [] then num (the (bio_at h x)) else int (min len (length (mem_bytes h x))), take len (mem_bytes h x), h') \<and>
    mem_ok h' x \<and> mem_bytes h' x = drop len (mem_bytes h x) \<and> mem_writable h' x = mem_writable h x \<and>
    num (the (bio_at h' x)) = num (the (bio_at h x)) \<and>
    BIO_should_retry (the (bio_at h' x)) = (mem_bytes h x = [] \<and> num (the (bio_at h x)) \<noteq> 0)"
proof -
  obtain b where b: "bio_at h x = Some b" "init b" "bmethod b = BIO_s_mem" using mem_okD [OF assms(1)] by blast
  let ?cnt = "\<lambda>r h'. if r > 0 then upd_bio x (\<lambda>b. b\<lparr>num_read := (num_read b + nat r) mod size_modulus\<rparr>) h' else h'"
  have via: "BIO_read (Some x) (int len) h = Option.bind (mem_read x (int len) h) (\<lambda>(r, out, h'). Some (r, out, ?cnt r h'))"
    using b assms(2) by (simp add: BIO_read_def method_bread_def)
  have cnt: "mem_ok (?cnt r h') x = mem_ok h' x" "mem_bytes (?cnt r h') x = mem_bytes h' x"
    "mem_ok h' x \<Longrightarrow> mem_writable (?cnt r h') x = mem_writable h' x"
    "mem_ok h' x \<Longrightarrow> num (the (bio_at (?cnt r h') x)) = num (the (bio_at h' x))"
    "mem_ok h' x \<Longrightarrow> BIO_should_retry (the (bio_at (?cnt r h') x)) = BIO_should_retry (the (bio_at h' x))" for r h'
    by (auto simp: mem_upd dest: mem_okD)
  show ?thesis
  proof (cases "mem_bytes h x = []")
    case True
    from mem_read_empty [OF assms(1,2) True] obtain h' where
      "mem_read x (int len) h = Some (num (the (bio_at h x)), [], h')" "mem_ok h' x" "mem_bytes h' x = []"
      "num (the (bio_at h' x)) = num (the (bio_at h x))" "mem_writable h' x = mem_writable h x"
      "BIO_should_retry (the (bio_at h' x)) = (num (the (bio_at h x)) \<noteq> 0)" by blast
    then show ?thesis using True cnt [where r = "num (the (bio_at h x))" and h' = h'] unfolding via by simp
  next
    case False
    define n where "n = min len (length (mem_bytes h x))"
    have n: "take n (mem_bytes h x) = take len (mem_bytes h x)" "drop n (mem_bytes h x) = drop len (mem_bytes h x)"
      by (auto simp: n_def min_def)
    from mem_read_spec [OF assms False] obtain h' where
      "mem_read x (int len) h = Some (int n, take n (mem_bytes h x), h')" "mem_ok h' x" "mem_bytes h' x = drop n (mem_bytes h x)"
      "mem_writable h' x = mem_writable h x" "num (the (bio_at h' x)) = num (the (bio_at h x))" "\<not> BIO_should_retry (the (bio_at h' x))"
      unfolding n_def by blast
    then show ?thesis using False cnt [where r = "int n" and h' = h'] unfolding via n n_def [symmetric] by simp
  qed
qed

interpretation mem_source: byte_source "\<lambda>len h. BIO_read (Some x) len h" "\<lambda>h. mem_bytes h x" "\<lambda>h. mem_ok h x" for x
proof
  fix s len
  assume s: "mem_ok s x" "0 < len" "len \<le> int_max" "mem_bytes s x \<noteq> []"
  define n where "n = min len (length (mem_bytes s x))"
  have "0 < n" "n \<le> len" "n \<le> length (mem_bytes s x)" "take n (mem_bytes s x) = take len (mem_bytes s x)"
    "drop n (mem_bytes s x) = drop len (mem_bytes s x)" using s(2,4) by (auto simp: n_def min_def)
  then show "\<exists>n s'. 0 < n \<and> n \<le> len \<and> n \<le> length (mem_bytes s x) \<and>
      BIO_read (Some x) (int len) s = Some (int n, take n (mem_bytes s x), s') \<and> mem_ok s' x \<and> mem_bytes s' x = drop n (mem_bytes s x)"
    using BIO_read_mem [OF s(1-3)] s(4) by (auto simp: n_def [symmetric])
qed

interpretation mem_ending: ending_source "\<lambda>len h. BIO_read (Some x) len h" "\<lambda>h. mem_bytes h x"
  "\<lambda>h. mem_ok h x \<and> num (the (bio_at h x)) = 0" for x
proof
  fix s len
  assume s: "mem_ok s x \<and> num (the (bio_at s x)) = 0" "0 < len" "len \<le> int_max"
  note r = BIO_read_mem [of s x len, OF conjunct1 [OF s(1)] s(2,3)]
  show "mem_bytes s x \<noteq> [] \<Longrightarrow> \<exists>n s'. 0 < n \<and> n \<le> len \<and> n \<le> length (mem_bytes s x) \<and>
      BIO_read (Some x) (int len) s = Some (int n, take n (mem_bytes s x), s') \<and>
      (mem_ok s' x \<and> num (the (bio_at s' x)) = 0) \<and> mem_bytes s' x = drop n (mem_bytes s x)"
  proof -
    assume ne: "mem_bytes s x \<noteq> []"
    define n where "n = min len (length (mem_bytes s x))"
    have "0 < n" "n \<le> len" "n \<le> length (mem_bytes s x)" "take n (mem_bytes s x) = take len (mem_bytes s x)"
      "drop n (mem_bytes s x) = drop len (mem_bytes s x)" using s(2) ne by (auto simp: n_def min_def)
    then show ?thesis using r s(1) ne by (auto simp: n_def [symmetric])
  qed
  show "mem_bytes s x = [] \<Longrightarrow> \<exists>s'. BIO_read (Some x) (int len) s = Some (0, [], s') \<and>
      (mem_ok s' x \<and> num (the (bio_at s' x)) = 0) \<and> mem_bytes s' x = []"
    using r s(1) by auto
qed

lemma BIO_write_mem:
  assumes "malloc_ok m" "mem_ok h x" "mem_writable h x" "0 < len" "len \<le> length xs" "len \<le> int_max"
  shows "\<exists>r h'. BIO_write m (Some x) xs (int len) h = Some (r, h') \<and> mem_ok h' x \<and> mem_writable h' x \<and>
    (if r = int len then mem_bytes h' x = mem_bytes h x @ take len xs else r = -1 \<and> mem_bytes h' x = mem_bytes h x)"
proof -
  obtain b where b: "bio_at h x = Some b" "init b" "bmethod b = BIO_s_mem" using mem_okD [OF assms(2)] by blast
  let ?cnt = "\<lambda>r h'. if r > 0 then upd_bio x (\<lambda>b. b\<lparr>num_write := (num_write b + nat r) mod size_modulus\<rparr>) h' else h'"
  have via: "BIO_write m (Some x) xs (int len) h = Option.bind (mem_write m x xs (int len) h) (\<lambda>(r, h'). Some (r, ?cnt r h'))"
    using b assms(4) by (simp add: BIO_write_def method_bwrite_def)
  have "mem_write m x xs (int len) h \<noteq> None"
    using assms(2-5) by (auto simp: mem_write_def mem_ok_def mem_at_def Let_def to_int_small split: prod.splits)
  then obtain r h' where w: "mem_write m x xs (int len) h = Some (r, h')" by auto
  have cnt: "mem_ok (?cnt r h') x = mem_ok h' x" "mem_bytes (?cnt r h') x = mem_bytes h' x"
    "mem_ok h' x \<Longrightarrow> mem_writable (?cnt r h') x = mem_writable h' x"
    by (simp_all add: mem_upd)
  show ?thesis using mem_write_spec [OF assms w] cnt unfolding via w by (auto split: if_splits)
qed

interpretation mem_sink: byte_sink "\<lambda>xs len h. BIO_write m (Some x) xs len h" "\<lambda>h. mem_bytes h x"
  "\<lambda>h. malloc_ok m \<and> mem_ok h x \<and> mem_writable h x" for m x
proof
  fix s len and data :: "byte list"
  assume s: "malloc_ok m \<and> mem_ok s x \<and> mem_writable s x" "0 < len" "len \<le> length data" "len \<le> int_max"
  from BIO_write_mem [of m s x len data] s obtain r s' where r: "BIO_write m (Some x) data (int len) s = Some (r, s')"
    "mem_ok s' x" "mem_writable s' x"
    "if r = int len then mem_bytes s' x = mem_bytes s x @ take len data else r = -1 \<and> mem_bytes s' x = mem_bytes s x" by blast
  then show "\<exists>r s'. BIO_write m (Some x) data (int len) s = Some (r, s') \<and>
      (malloc_ok m \<and> mem_ok s' x \<and> mem_writable s' x) \<and>
      (if r \<le> 0 then mem_bytes s' x = mem_bytes s x else nat r \<le> len \<and> mem_bytes s' x = mem_bytes s x @ take (nat r) data)"
    using s by (intro exI [of _ r] exI [of _ s']) (auto split: if_splits)
qed

section \<open>Pairs\<close>

lemma linked_upd:
  "(\<And>b. bptr (f b) = bptr b \<and> init (f b) = init b \<and> bmethod (f b) = bmethod b) \<Longrightarrow> linked (upd_bio z f h) x y = linked h x y"
  by (simp add: linked_def half_upd)

lemma chan_upd: "(\<And>b. bptr (f b) = bptr b) \<Longrightarrow> chan (upd_bio z f h) x = chan h x"
  by (simp add: chan_def)

lemma linkedD: "linked h x y \<Longrightarrow> \<exists>b. bio_at h x = Some b \<and> init b \<and> bmethod b = BIO_s_bio"
  by (auto simp: linked_def half_def)

lemma retry_upd:
  "(\<And>b. flags (f b) = flags b) \<Longrightarrow> bio_at h x \<noteq> None \<Longrightarrow>
    BIO_should_retry (the (bio_at (upd_bio z f h) x)) = BIO_should_retry (the (bio_at h x))"
  by (auto simp: BIO_should_retry_def BIO_test_flags_def)

lemma BIO_write_pair:
  assumes "linked h x y" "0 < len" "len \<le> length xs" "len \<le> int_max"
  shows "\<exists>r h'. BIO_write m (Some x) xs (int len) h = Some (r, h') \<and> linked h' x y \<and>
    (r, chan h' x) = chan_write (take len xs) (chan h x) \<and> chan h' y = chan h y \<and>
    BIO_should_retry (the (bio_at h' x)) = (r = -1 \<and> \<not> ch_closed (chan h x))"
proof -
  obtain b where b: "bio_at h x = Some b" "init b" "bmethod b = BIO_s_bio" using linkedD [OF assms(1)] by blast
  from bio_write_refines [OF assms] obtain r h' where
    r: "bio_write x (Some xs) (int len) h = Some (r, h')" "linked h' x y" "(r, chan h' x) = chan_write (take len xs) (chan h x)"
    "chan h' y = chan h y" "BIO_should_retry (the (bio_at h' x)) = (r = -1 \<and> \<not> ch_closed (chan h x))" by blast
  have "bio_at h' x \<noteq> None" using linkedD [OF r(2)] by auto
  then show ?thesis
    using r b assms(2) by (auto simp: BIO_write_def method_bwrite_def linked_upd chan_upd retry_upd)
qed

lemma BIO_read_pair:
  assumes "linked h x y" "0 < len" "len \<le> int_max"
  shows "\<exists>r out h'. BIO_read (Some x) (int len) h = Some (r, out, h') \<and> linked h' x y \<and>
    (r, out, chan h' y) = chan_read len (chan h y) \<and> chan h' x = chan h x \<and>
    BIO_should_retry (the (bio_at h' x)) = (r = -1)"
proof -
  obtain b where b: "bio_at h x = Some b" "init b" "bmethod b = BIO_s_bio" using linkedD [OF assms(1)] by blast
  from bio_read_refines [OF assms] obtain r out h' where
    r: "bio_read x False (int len) h = Some (r, out, h')" "linked h' x y" "(r, out, chan h' y) = chan_read len (chan h y)"
    "chan h' x = chan h x" "BIO_should_retry (the (bio_at h' x)) = (r = -1)" by blast
  have "bio_at h' x \<noteq> None" using linkedD [OF r(2)] by auto
  then show ?thesis
    using r b assms(2) by (auto simp: BIO_read_def method_bread_def linked_upd chan_upd retry_upd)
qed

interpretation pair_source: byte_source "\<lambda>len h. BIO_read (Some x) len h" "\<lambda>h. ch_queue (chan h y)" "\<lambda>h. linked h x y" for x y
proof
  fix s len
  assume s: "linked s x y" "0 < len" "len \<le> int_max" "ch_queue (chan s y) \<noteq> []"
  define n where "n = min len (length (ch_queue (chan s y)))"
  have "0 < n" "n \<le> len" "n \<le> length (ch_queue (chan s y))" using s(2,4) by (auto simp: n_def)
  then show "\<exists>n s'. 0 < n \<and> n \<le> len \<and> n \<le> length (ch_queue (chan s y)) \<and>
      BIO_read (Some x) (int len) s = Some (int n, take n (ch_queue (chan s y)), s') \<and> linked s' x y \<and>
      ch_queue (chan s' y) = drop n (ch_queue (chan s y))"
    using BIO_read_pair [OF s(1-3)] s(4) by (auto simp: chan_read_def Let_def n_def [symmetric])
qed

interpretation pair_sink: byte_sink "\<lambda>xs len h. BIO_write m (Some x) xs len h" "\<lambda>h. ch_queue (chan h x)" "\<lambda>h. linked h x y" for m x y
proof
  fix s len and data :: "byte list"
  assume s: "linked s x y" "0 < len" "len \<le> length data" "len \<le> int_max"
  from BIO_write_pair [OF s, of m] obtain r s' where r: "BIO_write m (Some x) data (int len) s = Some (r, s')" "linked s' x y"
    "(r, chan s' x) = chan_write (take len data) (chan s x)" by blast
  have "if r \<le> 0 then ch_queue (chan s' x) = ch_queue (chan s x)
      else nat r \<le> len \<and> ch_queue (chan s' x) = ch_queue (chan s x) @ take (nat r) data"
    using r(3) s(3) by (auto simp: chan_write_def Let_def min_def split: if_splits)
  then show "\<exists>r s'. BIO_write m (Some x) data (int len) s = Some (r, s') \<and> linked s' x y \<and>
      (if r \<le> 0 then ch_queue (chan s' x) = ch_queue (chan s x)
       else nat r \<le> len \<and> ch_queue (chan s' x) = ch_queue (chan s x) @ take (nat r) data)"
    using r by blast
qed


section \<open>Control operations on a pair\<close>

lemma linked_set:
  assumes "linked h x y" "half h x y p" "ring_ok p'" "peer p' = Some y"
  shows "linked (set_pair x p' h) x y \<and> chan (set_pair x p' h) x = chan_of p' \<and> chan (set_pair x p' h) y = chan h y"
proof -
  obtain q where q: "half h y x q" and xy: "x \<noteq> y" using assms(1) by (auto simp: linked_def)
  have "half (set_pair x p' h) x y p'" "half (set_pair x p' h) y x q"
    using half_set [OF assms(2-4)] half_set_other [of y x p' h] q xy by auto
  then show ?thesis using xy q by (auto simp: linked_def half_chan)
qed

lemma BIO_ctrl_pair:
  assumes "linked h x y" "BIO_ctrl (Some x) cmd n ptr h = Some (r, h')"
  shows "linked h' x y \<and> ch_queue (chan h' x) = ch_queue (chan h x) \<and> chan h' y = chan h y"
proof -
  obtain p where p: "half h x y p" using assms(1) by (auto simp: linked_def)
  obtain b where b: "bio_at h x = Some b" "bmethod b = BIO_s_bio" using linkedD [OF assms(1)] by blast
  note pd = halfD [OF p]
  have ctrl: "bio_ctrl x cmd n ptr h = Some (r, h')" using assms(2) b by (simp add: BIO_ctrl_def)
  have reset: "ring_ok (p\<lparr>request := 0\<rparr>)" "ring_ok (p\<lparr>closed := True\<rparr>)" using pd by (auto simp: ring_ok_def)
  consider "h' = h" | "h' = set_pair x (p\<lparr>request := 0\<rparr>) h" | "h' = set_pair x (p\<lparr>closed := True\<rparr>) h"
    | "h' = upd_bio x (\<lambda>o'. o'\<lparr>bshutdown := int_of_long n\<rparr>) h"
    using ctrl pd b by (auto simp: bio_ctrl_def bind_eq_Some_conv split: if_splits option.splits ctrl_ptr.splits)
  then show ?thesis
  proof cases
    case 2
    then show ?thesis using linked_set [OF assms(1) p reset(1)] pd p by (auto simp: half_chan chan_of_def ring_def)
  next
    case 3
    then show ?thesis using linked_set [OF assms(1) p reset(2)] pd p by (auto simp: half_chan chan_of_def ring_def)
  qed (use assms(1) in \<open>simp_all add: linked_upd chan_upd\<close>)
qed

section \<open>All runs of a pair\<close>

text \<open>A state with its history: the bytes that were accepted from and delivered to each end.\<close>

type_synonym pair_state = "bios \<times> (nat \<Rightarrow> byte list) \<times> (nat \<Rightarrow> byte list)"

inductive pair_step :: "libc_malloc \<Rightarrow> nat \<Rightarrow> nat \<Rightarrow> pair_state \<Rightarrow> pair_state \<Rightarrow> bool" for m x y where
  write_step: "z \<in> {x, y} \<Longrightarrow> 0 < length data \<Longrightarrow> length data \<le> int_max \<Longrightarrow>
    BIO_write m (Some z) data (int (length data)) h = Some (r, h') \<Longrightarrow>
    pair_step m x y (h, sent, got) (h', sent(z := sent z @ take (nat r) data), got)"
| read_step: "z \<in> {x, y} \<Longrightarrow> 0 < len \<Longrightarrow> len \<le> int_max \<Longrightarrow>
    BIO_read (Some z) (int len) h = Some (r, out, h') \<Longrightarrow>
    pair_step m x y (h, sent, got) (h', sent, got(z := got z @ out))"
| ctrl_step: "z \<in> {x, y} \<Longrightarrow> BIO_ctrl (Some z) cmd n ptr h = Some (r, h') \<Longrightarrow>
    pair_step m x y (h, sent, got) (h', sent, got)"

inductive_cases pair_stepE: "pair_step m x y (h, sent, got) s'"

fun pair_inv :: "nat \<Rightarrow> nat \<Rightarrow> pair_state \<Rightarrow> bool" where
  "pair_inv x y (h, sent, got) \<longleftrightarrow>
     linked h x y \<and> sent x = got y @ ch_queue (chan h x) \<and> sent y = got x @ ch_queue (chan h y)"

lemma pair_inv_sym: "pair_inv x y s = pair_inv y x s"
  by (cases s) (auto dest: linked_sym)

lemma write_keeps:
  assumes "pair_inv x y (h, sent, got)" "0 < length data" "length data \<le> int_max"
    and "BIO_write m (Some x) data (int (length data)) h = Some (r, h')"
  shows "pair_inv x y (h', sent(x := sent x @ take (nat r) data), got)"
proof -
  have l: "linked h x y" "x \<noteq> y" using assms(1) by (auto simp: linked_def)
  from BIO_write_pair [OF l(1) assms(2) order_refl assms(3), of m] assms(4)
  have w: "linked h' x y" "(r, chan h' x) = chan_write data (chan h x)" "chan h' y = chan h y" by auto
  have "ch_queue (chan h' x) = ch_queue (chan h x) @ take (nat r) data"
    using w(2) by (auto simp: chan_write_def Let_def min_def split: if_splits)
  then show ?thesis using assms(1) w(1,3) l(2) by simp
qed

lemma read_keeps:
  assumes "pair_inv x y (h, sent, got)" "0 < len" "len \<le> int_max" "BIO_read (Some x) (int len) h = Some (r, out, h')"
  shows "pair_inv x y (h', sent, got(x := got x @ out))"
proof -
  have l: "linked h x y" "x \<noteq> y" using assms(1) by (auto simp: linked_def)
  from BIO_read_pair [OF l(1) assms(2,3)] assms(4)
  have w: "linked h' x y" "(r, out, chan h' y) = chan_read len (chan h y)" "chan h' x = chan h x" by auto
  have "ch_queue (chan h y) = out @ ch_queue (chan h' y)"
    using w(2) by (auto simp: chan_read_def Let_def split: if_splits)
  then show ?thesis using assms(1) w(1,3) l(2) by simp
qed

lemma ctrl_keeps:
  "pair_inv x y (h, sent, got) \<Longrightarrow> BIO_ctrl (Some x) cmd n ptr h = Some (r, h') \<Longrightarrow> pair_inv x y (h', sent, got)"
  using BIO_ctrl_pair [of h x y cmd n ptr r h'] by auto

lemma step_keeps: "pair_step m x y s s' \<Longrightarrow> pair_inv x y s \<Longrightarrow> pair_inv x y s'"
proof (induction rule: pair_step.induct)
  case (write_step z data h r h' sent got)
  then show ?case by (metis write_keeps pair_inv_sym insertE singletonD)
next
  case (read_step z len h r out h' sent got)
  then show ?case by (metis read_keeps pair_inv_sym insertE singletonD)
next
  case (ctrl_step z cmd n ptr h r h' sent got)
  then show ?case by (metis ctrl_keeps pair_inv_sym insertE singletonD)
qed

end
