(* ===== verification/Bio_Props.thy ===== *)
theory Bio_Props
  imports Bio_Ports
begin

text \<open>
  What holds of BIOs as their users see them: pairs are two bounded queues in opposite directions, the functions
  that read and write whole messages agree with the reader of DER, and what happens on errors.
\<close>

section \<open>Pairs are queues\<close>

text \<open>C4: \<^verbatim>\<open>BIO_write\<close> and \<^verbatim>\<open>BIO_read\<close> on a pair act on the two ring buffers as on bounded queues: they never violate an assertion or
  leave the buffer, a write appends as much as fits, a read takes the oldest bytes, and the retry flag is set exactly when the
  caller has to wait for the other end.\<close>

theorem pair_refines_channels:
  assumes "linked h x y" "0 < length data" "length data \<le> int_max" "0 < len" "len \<le> int_max"
  shows "(\<exists>r h'. BIO_write m (Some x) data (int (length data)) h = Some (r, h') \<and> linked h' x y \<and>
      (r, chan h' x) = chan_write data (chan h x) \<and> chan h' y = chan h y \<and>
      BIO_should_retry (the (bio_at h' x)) = (r = -1 \<and> \<not> ch_closed (chan h x))) \<and>
    (\<exists>r out h'. BIO_read (Some x) (int len) h = Some (r, out, h') \<and> linked h' x y \<and>
      (r, out, chan h' y) = chan_read len (chan h y) \<and> chan h' x = chan h x \<and>
      BIO_should_retry (the (bio_at h' x)) = (r = -1))"
  using BIO_write_pair [OF assms(1,2) order_refl assms(3), of m] BIO_read_pair [OF assms(1,4,5)] by simp

text \<open>Two halves with ring buffers of four bytes; the first holds three, across the end of the array.\<close>

definition example_half :: "nat \<Rightarrow> nat \<Rightarrow> nat \<Rightarrow> byte list \<Rightarrow> BIO" where
  "example_half y len off buf = \<lparr>bmethod = BIO_s_bio, init = True, bshutdown = 1, flags = 0, retry_reason = 0, num = 0,
     references = 1, bptr = Pair_Data \<lparr>peer = Some y, closed = False, bb_len = len, bb_offset = off, bb_size = length buf,
       bb_buf = Some buf, request = 0\<rparr>, next_bio = None, num_read = 0, num_write = 0\<rparr>"

definition example_pair :: bios where
  "example_pair = \<lparr>next_id = 2,
     bio_at = (\<lambda>_. None)(0 := Some (example_half 1 3 2 [12, 0, 10, 11]), 1 := Some (example_half 0 0 0 [0, 0, 0, 0]))\<rparr>"

lemma example_linked: "linked example_pair 0 1"
  by (simp add: linked_def half_def example_pair_def example_half_def ring_ok_def)

lemma example_chan:
  "chan example_pair 0 = \<lparr>ch_queue = [10, 11, 12], ch_cap = 4, ch_closed = False\<rparr>"
  "chan example_pair 1 = \<lparr>ch_queue = [], ch_cap = 4, ch_closed = False\<rparr>"
proof -
  have "[0..<3] = [0, 1, 2::nat]" by code_simp
  then show "chan example_pair 0 = \<lparr>ch_queue = [10, 11, 12], ch_cap = 4, ch_closed = False\<rparr>"
    "chan example_pair 1 = \<lparr>ch_queue = [], ch_cap = 4, ch_closed = False\<rparr>"
    by (simp_all add: chan_def pair_at_def example_pair_def example_half_def chan_of_def ring_def)
qed

lemmas example_chans = example_chan example_chan [simplified]

theorem pair_refines_channels_witness:
  "(\<exists>h'. BIO_write (\<lambda>_. None) (Some 0) [20, 21] 2 example_pair = Some (1, h') \<and> ch_queue (chan h' 0) = [10, 11, 12, 20]) \<and>
    (\<exists>h'. BIO_read (Some 0) 5 example_pair = Some (-1, [], h') \<and> BIO_should_retry (the (bio_at h' 0)))"
  using pair_refines_channels [OF example_linked, of "[20, 21]" 5 "\<lambda>_. None"]
  by (auto simp: example_chans chan_write_def chan_read_def)

text \<open>C3: Over every sequence of reads, writes and control operations on both ends of a new pair, what one end got is a front of what was
  accepted from the other end, in order, and the rest is still in the ring buffer: no byte is lost, repeated or reordered.\<close>

theorem pair_is_fifo:
  assumes "linked h x y" "ch_queue (chan h x) = []" "ch_queue (chan h y) = []"
    and "(pair_step m x y)\<^sup>*\<^sup>* (h, \<lambda>_. [], \<lambda>_. []) (h', sent, got)"
  shows "linked h' x y \<and> sent x = got y @ ch_queue (chan h' x) \<and> sent y = got x @ ch_queue (chan h' y)"
proof -
  have "pair_inv x y s'" if "(pair_step m x y)\<^sup>*\<^sup>* s s'" "pair_inv x y s" for s s'
    using that by (induction rule: rtranclp_induct) (auto intro: step_keeps simp del: pair_inv.simps)
  from this [OF assms(4)] show ?thesis using assms(1-3) by simp
qed

definition empty_pair :: bios where
  "empty_pair = \<lparr>next_id = 2,
     bio_at = (\<lambda>_. None)(0 := Some (example_half 1 0 0 [0, 0, 0, 0]), 1 := Some (example_half 0 0 0 [0, 0, 0, 0]))\<rparr>"

lemma empty_pair_ok:
  "linked empty_pair 0 1"
  "chan empty_pair 0 = \<lparr>ch_queue = [], ch_cap = 4, ch_closed = False\<rparr>" "chan empty_pair 1 = \<lparr>ch_queue = [], ch_cap = 4, ch_closed = False\<rparr>"
  by (simp_all add: linked_def half_def empty_pair_def example_half_def ring_ok_def chan_def pair_at_def chan_of_def ring_def)

theorem pair_is_fifo_witness:
  "\<exists>h'. BIO_write (\<lambda>_. None) (Some 0) [1, 2, 3, 4, 5] 5 empty_pair = Some (4, h') \<and> [1, 2, 3, 4] = ch_queue (chan h' 0)"
proof -
  from BIO_write_pair [OF empty_pair_ok(1), of 5 "[1, 2, 3, 4, 5]" "\<lambda>_. None"] obtain h' where
    h': "BIO_write (\<lambda>_. None) (Some 0) [1, 2, 3, 4, 5] 5 empty_pair = Some (4, h')"
    by (auto simp: empty_pair_ok chan_write_def)
  then have "pair_step (\<lambda>_. None) 0 1 (empty_pair, \<lambda>_. [], \<lambda>_. []) (h', (\<lambda>_. [])(0 := [1, 2, 3, 4]), \<lambda>_. [])"
    using write_step [of 0 0 1 "[1, 2, 3, 4, 5]" "\<lambda>_. None" empty_pair 4 h' "\<lambda>_. []" "\<lambda>_. []"] by simp
  then have run: "(pair_step (\<lambda>_. None) 0 1)\<^sup>*\<^sup>* (empty_pair, \<lambda>_. [], \<lambda>_. []) (h', (\<lambda>_. [])(0 := [1, 2, 3, 4]), \<lambda>_. [])"
    by (rule r_into_rtranclp)
  have "ch_queue (chan empty_pair 0) = []" "ch_queue (chan empty_pair 1) = []" by (simp_all only: empty_pair_ok chan.simps)
  from pair_is_fifo [OF empty_pair_ok(1) this run] h' show ?thesis by (intro exI [of _ h']) simp
qed

text \<open>After \<^verbatim>\<open>BIO_ctrl_get_write_guarantee\<close> has returned \<open>g\<close>, a write of at most \<open>g\<close> bytes is accepted in full, and the other end can read them
  back in full behind what was pending.\<close>

theorem write_guarantee_honoured:
  assumes "linked h x y" "BIO_ctrl_get_write_guarantee (Some x) h = Some (g, h1)"
    and "0 < length data" "int (length data) \<le> g" "length data \<le> int_max"
  shows "\<exists>h2. BIO_write m (Some x) data (int (length data)) h1 = Some (int (length data), h2) \<and>
    (\<exists>h3. bio_read_full (\<lambda>len h. BIO_read (Some y) len h) True (length (ch_queue (chan h x)) + length data) h2 =
      Some (Inr (ch_queue (chan h x) @ data), h3) \<and> ch_queue (chan h3 x) = [])"
proof -
  obtain p where p: "half h x y p" using assms(1) by (auto simp: linked_def)
  obtain b where b: "bio_at h x = Some b" "bmethod b = BIO_s_bio" using linkedD [OF assms(1)] by blast
  note pd = halfD [OF p]
  have g: "h1 = h" "g = (if closed p then 0 else int (bb_size p) - int (bb_len p))"
    using assms(2) pd b by (auto simp: BIO_ctrl_get_write_guarantee_def BIO_ctrl_def bio_ctrl_def bio_ctrl_codes)
  have room: "\<not> closed p" "bb_len p + length data \<le> bb_size p" using g(2) assms(3,4) by (auto split: if_splits)
  from BIO_write_pair [OF assms(1,3) order_refl assms(5), of m] obtain r h2 where
    w: "BIO_write m (Some x) data (int (length data)) h = Some (r, h2)" "linked h2 x y" "(r, chan h2 x) = chan_write data (chan h x)"
    by auto
  have r: "r = int (length data)" "ch_queue (chan h2 x) = ch_queue (chan h x) @ data"
    using w(3) room assms(3) by (auto simp: half_chan [OF p] chan_of_def chan_write_def Let_def)
  from pair_source.read_full [OF linked_sym [OF w(2)], of "length (ch_queue (chan h x)) + length data" True]
  show ?thesis using w(1) r g(1) by auto
qed

theorem write_guarantee_honoured_witness:
  "\<exists>h2. BIO_write (\<lambda>_. None) (Some 0) [20] 1 example_pair = Some (1, h2) \<and>
    (\<exists>h3. bio_read_full (\<lambda>len h. BIO_read (Some 1) len h) True 4 h2 = Some (Inr [10, 11, 12, 20], h3))"
proof -
  have "BIO_ctrl_get_write_guarantee (Some 0) example_pair = Some (1, example_pair)"
    by (simp add: BIO_ctrl_get_write_guarantee_def BIO_ctrl_def bio_ctrl_def bio_ctrl_codes example_pair_def example_half_def pair_at_def)
  from write_guarantee_honoured [OF example_linked this, of "[20]" "\<lambda>_. None"] obtain h2 h3 where
    "BIO_write (\<lambda>_. None) (Some 0) [20] (int (length [20 :: byte])) example_pair = Some (int (length [20 :: byte]), h2)"
    "bio_read_full (\<lambda>len h. BIO_read (Some 1) len h) True (length [10, 11, 12 :: byte] + length [20 :: byte]) h2 =
      Some (Inr ([10, 11, 12] @ [20]), h3)"
    by (auto simp: example_chan)
  moreover have "length [10, 11, 12 :: byte] + length [20 :: byte] = 4" "int (length [20 :: byte]) = 1" by simp_all
  ultimately show ?thesis unfolding append.simps by metis
qed

text \<open>C34: \<^verbatim>\<open>BIO_read_asn1\<close> reads a DER element whose tag fits one octet from a memory BIO or from the other end of a pair, however the bytes are
  split over reads; the result is the element that \<^verbatim>\<open>CBS_get_any_asn1_element\<close> finds at the front of the pending bytes, and the bytes
  behind it stay in the BIO.\<close>

theorem bio_read_asn1_agrees:
  assumes "malloc_ok m" "CBS_get_any_asn1_element s = (Some (el, tag, hlen), rest)" "unat tag mod 2 ^ 29 < 31"
    and "length el \<le> max_len" "length el \<le> int_max" "OPENSSL_malloc m (length el) \<noteq> None"
  shows "(mem_ok h x \<and> mem_bytes h x = s \<longrightarrow>
      (\<exists>h'. BIO_read_asn1 m (\<lambda>len h. BIO_read (Some x) len h) max_len h = Some (Some (el, length el), h') \<and> mem_bytes h' x = rest)) \<and>
    (linked h x y \<and> ch_queue (chan h y) = s \<longrightarrow>
      (\<exists>h'. BIO_read_asn1 m (\<lambda>len h. BIO_read (Some x) len h) max_len h = Some (Some (el, length el), h') \<and> ch_queue (chan h' y) = rest))"
proof -
  obtain xs where xs: "el = der_element tag xs" "s = el @ rest"
    using any_asn1_element_sound [OF assms(2) [unfolded CBS_get_any_asn1_element_def]] by blast
  have "length xs \<le> int_max" using assms(5) by (simp add: xs(1) der_element_def)
  then show ?thesis
    using mem_source.read_asn1 [OF assms(1) _ assms(3), of h x xs rest max_len]
      pair_source.read_asn1 [OF assms(1) _ assms(3), of h x y xs rest max_len] assms(4,6) xs by auto
qed

text \<open>A memory BIO with the given contents and the given return value at the end.\<close>

definition example_mem :: "byte list \<Rightarrow> int \<Rightarrow> bios" where
  "example_mem bs e = \<lparr>next_id = 1, bio_at = (\<lambda>_. None)(0 := Some \<lparr>bmethod = BIO_s_mem, init = True, bshutdown = 1, flags = 0,
     retry_reason = 0, num = e, references = 1,
     bptr = Mem_Data \<lparr>bm_length = length bs, bm_data = Some (length bs, bs), bm_off = 0, bm_max = length bs\<rparr>,
     next_bio = None, num_read = 0, num_write = 0\<rparr>)\<rparr>"

lemma example_mem_ok:
  "length bs \<le> int_max \<Longrightarrow> mem_ok (example_mem bs e) 0" "mem_writable (example_mem bs e) 0"
  "mem_bytes (example_mem bs e) 0 = bs" "num (the (bio_at (example_mem bs e) 0)) = e"
  by (auto simp: mem_ok_def example_mem_def buf_ok_def mem_writable_def mem_bytes_def mem_at_def buf_contents_def)

definition zero_malloc :: libc_malloc where
  "zero_malloc n = (if n < 65536 then Some (replicate n 0) else None)"

lemma zero_malloc_ok: "malloc_ok zero_malloc" "n < 60000 \<Longrightarrow> OPENSSL_malloc zero_malloc n = Some (n, replicate n 0)"
  by (auto simp: malloc_ok_def zero_malloc_def OPENSSL_malloc_def OPENSSL_MALLOC_PREFIX_def split: if_splits)

theorem bio_read_asn1_agrees_witness:
  "\<exists>h'. BIO_read_asn1 zero_malloc (\<lambda>len h. BIO_read (Some 0) len h) 100 (example_mem [4, 2, 7, 8, 9] 0) =
      Some (Some ([4, 2, 7, 8], 4), h') \<and> mem_bytes h' 0 = [9]"
proof -
  have "der_element 4 [7, 8] = [4, 2, 7, 8]"
    by (simp add: der_element_def der_header_def tag_octets_def length_octets_def Let_def)
  then have "CBS_get_any_asn1_element [4, 2, 7, 8, 9] = (Some ([4, 2, 7, 8], 4, length (der_header 4 (length [7, 8 :: byte]))), [9])"
    by (subst der_reader_exact) (intro exI [of _ "[7, 8]"], simp)
  from bio_read_asn1_agrees [OF zero_malloc_ok(1) this, of 100 "example_mem [4, 2, 7, 8, 9] 0" 0 0]
  have "\<exists>h'. BIO_read_asn1 zero_malloc (\<lambda>len h. BIO_read (Some 0) len h) 100 (example_mem [4, 2, 7, 8, 9] 0) =
      Some (Some ([4, 2, 7, 8], length [4, 2, 7, 8 :: byte]), h') \<and> mem_bytes h' 0 = [9]"
    by (simp add: zero_malloc_ok(2) example_mem_ok)
  moreover have "length [4, 2, 7, 8 :: byte] = 4" by simp
  ultimately show ?thesis by (simp only:)
qed

section \<open>Writing and reading everything\<close>

text \<open>C35: \<^verbatim>\<open>BIO_write_all\<close> terminates on memory BIOs and on pairs, whatever the data, however little each write accepts; it reports success
  only if all of the data was appended, otherwise a front of the data was.\<close>

theorem write_all_terminates:
  "(malloc_ok m \<and> mem_ok h x \<and> mem_writable h x \<longrightarrow>
      (\<exists>r k h'. BIO_write_all (\<lambda>xs len h. BIO_write m (Some x) xs len h) data h = Some (r, h') \<and> mem_ok h' x \<and>
        mem_bytes h' x = mem_bytes h x @ take k data \<and> (r \<longrightarrow> k = length data))) \<and>
    (linked h x y \<longrightarrow>
      (\<exists>r k h'. BIO_write_all (\<lambda>xs len h. BIO_write m (Some x) xs len h) data h = Some (r, h') \<and> linked h' x y \<and>
        ch_queue (chan h' x) = ch_queue (chan h x) @ take k data \<and> (r \<longrightarrow> k = length data)))"
  using mem_sink.write_all [of m h x data] pair_sink.write_all [of h x y m data] by blast

theorem write_all_terminates_witness:
  "\<exists>r k h'. BIO_write_all (\<lambda>xs len h. BIO_write (\<lambda>_. None) (Some 0) xs len h) [1, 2, 3, 4, 5, 6] empty_pair = Some (r, h') \<and>
    linked h' 0 1 \<and> ch_queue (chan h' 0) = take k [1, 2, 3, 4, 5, 6]"
  using conjunct2 [OF write_all_terminates [of "\<lambda>_. None" empty_pair 0 "[1, 2, 3, 4, 5, 6]" 1], rule_format, OF empty_pair_ok(1)]
  unfolding empty_pair_ok chan.simps append_Nil by blast

text \<open>If an empty memory BIO returns 0 and memory suffices, \<^verbatim>\<open>bio_read_all\<close> returns the prefix followed by the whole contents, growing its buffer as it
  goes, and leaves the BIO empty.\<close>

theorem bio_read_all_complete:
  assumes "malloc_ok m" "\<And>n. n \<le> max_len \<Longrightarrow> OPENSSL_malloc m n \<noteq> None" "max_len < object_max"
    and "mem_ok h x" "num (the (bio_at h x)) = 0" "length prefix + length (mem_bytes h x) < max_len"
  shows "\<exists>buf h'. bio_read_all m (\<lambda>len h. BIO_read (Some x) len h) prefix max_len h =
      Some (Some (buf, length prefix + length (mem_bytes h x)), h') \<and>
    take (length prefix + length (mem_bytes h x)) buf = prefix @ mem_bytes h x \<and> mem_bytes h' x = []"
proof -
  define len where "len = min (length prefix + 4096) max_len"
  have len: "length prefix < len" "len \<le> max_len" "len = max_len \<or> 2048 \<le> len - length prefix" "len - length prefix \<le> 6144"
    using assms(6) by (auto simp: len_def)
  obtain sz out where al: "OPENSSL_malloc m len = Some (sz, out)" using assms(2) [OF len(2)] by auto
  have out: "length out = len"
    using OPENSSL_malloc_length [OF assms(1) al] len(2) assms(3) by (simp add: OPENSSL_MALLOC_PREFIX_def)
  have start: "bio_read_all m rd prefix max_len h = read_all_loop m rd max_len len (length prefix) (blit 0 prefix out) h" for rd :: "bios reader"
  proof -
    have "length prefix + 4096 < size_modulus" using assms(3,6) by simp
    then have "(if (length prefix + kChunkSize) mod size_modulus > max_len then max_len else (length prefix + kChunkSize) mod size_modulus) = len"
      by (simp add: len_def kChunkSize_def)
    then show ?thesis using al len(1) by (simp add: bio_read_all_def Let_def)
  qed
  have "length (blit 0 prefix out) = len" "take (length prefix) (blit 0 prefix out) = prefix" using out len(1) by (simp_all add: blit_def)
  with mem_ending.read_all_loop [OF assms(1,2,3), of h x "length prefix" "blit 0 prefix out" len] assms(4-6) len
  show ?thesis unfolding start by auto
qed

theorem bio_read_all_complete_witness:
  "\<exists>buf h'. bio_read_all zero_malloc (\<lambda>len h. BIO_read (Some 0) len h) [0x30, 0x80] 50000 (example_mem [1, 2, 3] 0) = Some (Some (buf, 5), h') \<and>
    take 5 buf = [0x30, 0x80, 1, 2, 3]"
proof -
  have five: "length [0x30, 0x80 :: byte] + length [1, 2, 3 :: byte] = 5" by simp
  have malloc: "OPENSSL_malloc zero_malloc n \<noteq> None" if "n \<le> 50000" for n using that by (simp add: zero_malloc_ok(2))
  from bio_read_all_complete [of zero_malloc 50000 "example_mem [1, 2, 3] 0" 0 "[0x30, 0x80]", unfolded example_mem_ok(3) five,
      OF zero_malloc_ok(1) malloc]
  show ?thesis by (auto simp: example_mem_ok)
qed

lemma wrapped_difference:
  fixes M :: nat
  assumes "b < M"
  shows "int ((a + M - b) mod M) = (int a - int b) mod int M"
proof -
  have "int (a + M - b) = (int a - int b) + int M" using assms by simp
  then show ?thesis unfolding of_nat_mod by simp
qed

lemma read_all_backwards:
  assumes "\<And>n. n \<le> max_len \<Longrightarrow> OPENSSL_malloc m n \<noteq> None" "max_len < object_max" "e < -1" "- (2 ^ 31) \<le> e"
  shows "mem_ok h x \<Longrightarrow> mem_bytes h x = [] \<Longrightarrow> num (the (bio_at h x)) = e \<Longrightarrow> len \<le> max_len \<Longrightarrow> filled < size_modulus \<Longrightarrow>
    0 < (len + size_modulus - filled) mod size_modulus \<Longrightarrow>
    read_all_loop m (\<lambda>len h. BIO_read (Some x) len h) max_len len filled buf h = None"
proof (induction "int_max - (len + size_modulus - filled) mod size_modulus" arbitrary: h len filled buf rule: less_induct)
  case less
  define todo where "todo = (len + size_modulus - filled) mod size_modulus"
  show ?case
  proof (cases "todo \<ge> int_max")
    case True
    moreover have "filled \<noteq> len" using less.prems(6) by auto
    ultimately show ?thesis by (subst read_all_loop.simps) (simp add: Let_def todo_def [symmetric])
  next
    case False
    then have td: "0 < todo" "todo < int_max" "filled \<noteq> len" using less.prems(6) by (auto simp: todo_def)
    from BIO_read_mem [OF less.prems(1) td(1)] td(2) less.prems(2,3) obtain h1 where
      r: "BIO_read (Some x) (int todo) h = Some (e, [], h1)" "mem_ok h1 x" "mem_bytes h1 x = []" "num (the (bio_at h1 x)) = e"
      by auto
    define filled1 where "filled1 = nat ((int filled + e) mod int size_modulus)"
    define d where "d = nat (- e)"
    have d: "1 < d" "d \<le> 2147483648" "e = - int d" using assms(3,4) by (auto simp: d_def)
    have f1: "filled1 < size_modulus" by (simp add: filled1_def nat_less_iff)
    have todo1: "(len' + size_modulus - filled1) mod size_modulus = todo + d + (len' - len)"
      if "len \<le> len'" "len' \<le> len + 4096" "len' \<le> max_len" for len'
    proof -
      have "int todo = (int len - int filled) mod int size_modulus"
        using wrapped_difference [OF less.prems(5), of len] by (simp only: todo_def)
      then have "(int todo + (int d + (int len' - int len))) mod int size_modulus = (int len' - (int filled - int d)) mod int size_modulus"
        by (simp only: mod_add_left_eq) (simp add: algebra_simps)
      moreover have "int filled1 = (int filled - int d) mod int size_modulus" using d(3) by (simp add: filled1_def)
      then have "int ((len' + size_modulus - filled1) mod size_modulus) = (int len' - (int filled - int d)) mod int size_modulus"
        using wrapped_difference [OF f1, of len'] by (simp only: mod_diff_right_eq)
      moreover have "(int todo + (int d + (int len' - int len))) mod int size_modulus = int todo + (int d + (int len' - int len))"
        using that td d by (intro mod_pos_pos_trivial) linarith+
      ultimately show ?thesis using that(1) by linarith
    qed
    have rec: "read_all_loop m (\<lambda>len h. BIO_read (Some x) len h) max_len len' filled1 buf' h1 = None"
      if "len \<le> len'" "len' \<le> len + 4096" "len' \<le> max_len" for len' buf'
    proof (rule less.hyps)
      show "int_max - (len' + size_modulus - filled1) mod size_modulus < int_max - (len + size_modulus - filled) mod size_modulus"
        using todo1 [OF that] td d by (simp add: todo_def [symmetric])
      show "0 < (len' + size_modulus - filled1) mod size_modulus" using todo1 [OF that] d by simp
    qed (use r that f1 in auto)
    define len2 where "len2 = (if (len + kChunkSize) mod size_modulus < kChunkSize \<or> (len + kChunkSize) mod size_modulus > max_len
        then max_len else (len + kChunkSize) mod size_modulus)"
    have len2: "len \<le> len2" "len2 \<le> len + 4096" "len2 \<le> max_len" if "len < max_len"
      using that assms(2) by (auto simp: len2_def kChunkSize_def)
    obtain sz ret where al: "OPENSSL_malloc m len2 = Some (sz, ret)" if "len < max_len"
      using assms(1) len2(3) by fastforce
    have e: "e \<noteq> 0" "e \<noteq> -1" using assms(3) by auto
    have fd: "nat ((int filled + e) mod 18446744073709551616) = filled1" by (simp add: filled1_def)
    show ?thesis
      using td r(1) e rec [of len] rec [OF len2] al less.prems(4)
      by (subst read_all_loop.simps)
        (simp add: Let_def todo_def [symmetric] fd len2_def [symmetric] OPENSSL_realloc_def)
  qed
qed

text \<open>C37: \<^verbatim>\<open>bio_read_all\<close> takes only -1 for an error: on a memory BIO whose end was set to another negative value, as
  \<^verbatim>\<open>BIO_set_mem_eof_return\<close> allows, it moves backwards in its buffer until its assertion on the distance fails.\<close>

theorem bio_read_all_ignores_errors:
  assumes "mem_ok h x" "mem_bytes h x = []" "num (the (bio_at h x)) = e" "e < -1" "- (2 ^ 31) \<le> e"
    and "length prefix < max_len" "max_len < object_max" "\<And>n. n \<le> max_len \<Longrightarrow> OPENSSL_malloc m n \<noteq> None"
  shows "bio_read_all m (\<lambda>len h. BIO_read (Some x) len h) prefix max_len h = None"
proof -
  define len where "len = (if (length prefix + kChunkSize) mod size_modulus > max_len then max_len
    else (length prefix + kChunkSize) mod size_modulus)"
  have len: "length prefix < len" "len \<le> max_len" using assms(6,7) by (auto simp: len_def kChunkSize_def)
  obtain sz out where al: "OPENSSL_malloc m len = Some (sz, out)" using assms(8) [OF len(2)] by auto
  have "length prefix < size_modulus" using assms(6,7) by simp
  moreover have "0 < (len + size_modulus - length prefix) mod size_modulus" 
  proof -
    have eq: "len + size_modulus - length prefix = (len - length prefix) + size_modulus" "len - length prefix < size_modulus"
      using len assms(7) by simp_all
    show ?thesis unfolding eq(1) mod_add_self2 using eq(2) len(1) by simp
  qed
  ultimately have "read_all_loop m (\<lambda>len h. BIO_read (Some x) len h) max_len len (length prefix) (blit 0 prefix out) h = None"
    by (intro read_all_backwards [OF assms(8) assms(7,4,5,1,2,3) len(2)])
  then show ?thesis using al len(1) by (simp add: bio_read_all_def len_def [symmetric])
qed

theorem bio_read_all_ignores_errors_witness:
  "bio_read_all zero_malloc (\<lambda>len h. BIO_read (Some 0) len h) [0x30, 0x80] 50000 (example_mem [] (-2)) = None"
  by (rule bio_read_all_ignores_errors [of _ _ "-2"]) (simp_all add: example_mem_ok zero_malloc_ok(2))

section \<open>New pairs\<close>

lemma BIO_free_half:
  assumes "bio_at h x = Some b" "references b = 1" "next_bio b = None" "bmethod b = BIO_s_bio" "bptr b = Pair_Data p" "peer p = None"
  shows "BIO_free (Some x) h = Some (1, h\<lparr>bio_at := (bio_at h)(x := None)\<rparr>)"
proof -
  have "BIO_free None h = Some (1, h)" for h by (subst BIO_free.simps) simp
  then show ?thesis
    using assms
    by (subst BIO_free.simps)
      (simp add: CRYPTO_refcount_dec_and_test_zero_def CRYPTO_REFCOUNT_MAX_def BIO_pop_def method_destroy_def bio_free_def pair_at_def upd_bio_def)
qed

text \<open>A half before it is connected.\<close>

definition new_half :: BIO where
  "new_half = \<lparr>bmethod = BIO_s_bio, init = False, bshutdown = 1, flags = 0, retry_reason = 0, num = 0, references = 1,
     bptr = Pair_Data \<lparr>peer = None, closed = False, bb_len = 0, bb_offset = 0, bb_size = 17 * 1024, bb_buf = None, request = 0\<rparr>,
     next_bio = None, num_read = 0, num_write = 0\<rparr>"

lemma BIO_new_half:
  "BIO_new m m' BIO_s_bio h = (if OPENSSL_malloc m sizeof_BIO = None \<or> OPENSSL_malloc m' sizeof_bio_bio_st = None then (None, h)
     else (Some (next_id h), h\<lparr>next_id := next_id h + 1, bio_at := (bio_at h)(next_id h := Some new_half)\<rparr>))"
  by (auto simp: BIO_new_def bio_new_def new_half_def split: option.splits)

text \<open>The pair structure of such a half with another ring buffer, and the half with that structure.\<close>

definition unlinked :: "nat \<Rightarrow> byte list option \<Rightarrow> bio_bio_st" where
  "unlinked sz buf = \<lparr>peer = None, closed = False, bb_len = 0, bb_offset = 0, bb_size = sz, bb_buf = buf, request = 0\<rparr>"

definition half_with :: "bio_bio_st \<Rightarrow> BIO" where
  "half_with p = new_half\<lparr>bptr := Pair_Data p\<rparr>"

definition ring_size :: "nat \<Rightarrow> nat" where
  "ring_size len = (if len = 0 then 17 * 1024 else len)"

lemma new_half_with: "new_half = half_with (unlinked 17408 None)"
  by (simp add: half_with_def new_half_def unlinked_def)

lemma unlinked_simps [simp]:
  "peer (unlinked s b) = None" "(unlinked s b)\<lparr>peer := z, closed := False, request := 0\<rparr> = (unlinked s b)\<lparr>peer := z\<rparr>"
  by (simp_all add: unlinked_def)

lemma half_with_simps [simp]:
  "bptr (half_with p) = Pair_Data p" "(half_with p)\<lparr>bptr := Pair_Data q\<rparr> = half_with q"
  by (simp_all add: half_with_def)

lemma make_buf_unlinked:
  "make_buf m len (unlinked 17408 None) = (case OPENSSL_malloc m (ring_size len) of None \<Rightarrow> (None, unlinked (ring_size len) None)
    | Some (_, buf) \<Rightarrow> (Some (unlinked (ring_size len) (Some buf)), unlinked (ring_size len) None))"
  by (auto simp: make_buf_def ring_size_def unlinked_def Let_def split: option.split)

lemma free_unlinked:
  "bio_at h x = Some (half_with (unlinked s b)) \<Longrightarrow> BIO_free (Some x) h = Some (1, h\<lparr>bio_at := (bio_at h)(x := None)\<rparr>)"
  using BIO_free_half [of h x "half_with (unlinked s b)" "unlinked s b"] by (simp add: half_with_def new_half_def)

lemma bio_at_set_pair: "bio_at h z = Some (half_with p) \<Longrightarrow> bio_at (set_pair z q h) = (bio_at h)(z := Some (half_with q))"
  by (simp add: set_pair_def upd_bio_def)

text \<open>Two such halves are connected, or they remain as they are but for their ring buffers.\<close>

lemma make_pair_fails:
  assumes "x \<noteq> y" "bio_at h x = Some new_half" "bio_at h y = Some new_half"
    "OPENSSL_malloc m1 (ring_size len1) = None \<or> OPENSSL_malloc m2 (ring_size len2) = None"
  shows "\<exists>h' s1 b1 s2 b2. bio_make_pair m1 m2 x y len1 len2 h = Some (False, h') \<and>
    bio_at h' = (bio_at h)(x := Some (half_with (unlinked s1 b1)), y := Some (half_with (unlinked s2 b2)))"
proof -
  have p: "pair_at h x = Some (unlinked 17408 None)" "pair_at h y = Some (unlinked 17408 None)"
    using assms(2,3) by (simp_all add: pair_at_def new_half_with)
  show ?thesis
  proof (cases "OPENSSL_malloc m1 (ring_size len1)")
    case None
    have "bio_make_pair m1 m2 x y len1 len2 h = Some (False, set_pair x (unlinked (ring_size len1) None) h)"
      using None p by (simp add: bio_make_pair_def make_buf_unlinked)
    moreover have "bio_at (set_pair x (unlinked (ring_size len1) None) h) =
        (bio_at h)(x := Some (half_with (unlinked (ring_size len1) None)), y := Some (half_with (unlinked 17408 None)))"
      using assms(1-3) by (auto simp: bio_at_set_pair new_half_with)
    ultimately show ?thesis by blast
  next
    case (Some b)
    obtain buf where buf: "OPENSSL_malloc m1 (ring_size len1) = Some (fst b, buf)" using Some by (cases b) auto
    let ?h = "set_pair y (unlinked (ring_size len2) None) (set_pair x (unlinked (ring_size len1) (Some buf)) h)"
    have "bio_make_pair m1 m2 x y len1 len2 h = Some (False, ?h)"
      using assms(1,4) buf p by (simp add: bio_make_pair_def make_buf_unlinked set_pair_at)
    moreover have "bio_at ?h = (bio_at h)(x := Some (half_with (unlinked (ring_size len1) (Some buf))), y := Some (half_with (unlinked (ring_size len2) None)))"
      using assms(1-3) by (auto simp: bio_at_set_pair new_half_with)
    ultimately show ?thesis by blast
  qed
qed

lemma make_pair_succeeds:
  assumes "x \<noteq> y" "bio_at h x = Some new_half" "bio_at h y = Some new_half" "malloc_ok m1" "malloc_ok m2"
    "OPENSSL_malloc m1 (ring_size len1) \<noteq> None" "OPENSSL_malloc m2 (ring_size len2) \<noteq> None" "ring_size len1 < object_max" "ring_size len2 < object_max"
  shows "\<exists>h'. bio_make_pair m1 m2 x y len1 len2 h = Some (True, h') \<and> linked h' x y \<and> (\<forall>z. z \<noteq> x \<and> z \<noteq> y \<longrightarrow> bio_at h' z = bio_at h z) \<and>
    chan h' x = \<lparr>ch_queue = [], ch_cap = ring_size len1, ch_closed = False\<rparr> \<and>
    chan h' y = \<lparr>ch_queue = [], ch_cap = ring_size len2, ch_closed = False\<rparr>"
proof -
  have p: "pair_at h x = Some (unlinked 17408 None)" "pair_at h y = Some (unlinked 17408 None)"
    using assms(2,3) by (simp_all add: pair_at_def new_half_with)
  obtain buf1 where m1: "OPENSSL_malloc m1 (ring_size len1) = Some (ring_size len1, buf1)" "length buf1 = ring_size len1"
    using OPENSSL_malloc_length [OF assms(4), of "ring_size len1"] assms(6,8) by (auto simp: OPENSSL_MALLOC_PREFIX_def)
  obtain buf2 where m2: "OPENSSL_malloc m2 (ring_size len2) = Some (ring_size len2, buf2)" "length buf2 = ring_size len2"
    using OPENSSL_malloc_length [OF assms(5), of "ring_size len2"] assms(7,9) by (auto simp: OPENSSL_MALLOC_PREFIX_def)
  define q1 q2 where "q1 = (unlinked (ring_size len1) (Some buf1))\<lparr>peer := Some y\<rparr>" and "q2 = (unlinked (ring_size len2) (Some buf2))\<lparr>peer := Some x\<rparr>"
  define h' where "h' = h\<lparr>bio_at := (bio_at h)(x := Some ((half_with q1)\<lparr>init := True\<rparr>), y := Some ((half_with q2)\<lparr>init := True\<rparr>))\<rparr>"
  have "bio_make_pair m1 m2 x y len1 len2 h = Some (True, h')"
    using m1 m2 assms(1-3) p
    by (simp add: bio_make_pair_def make_buf_unlinked set_pair_at)
      (simp add: h'_def q1_def q2_def set_pair_def upd_bio_def fun_upd_twist half_with_def)
  moreover have "half h' x y q1" "half h' y x q2"
    using m1 m2 assms(1,8,9) by (auto simp: half_def h'_def q1_def q2_def unlinked_def ring_ok_def half_with_def new_half_def ring_size_def)
  moreover have "ring q1 = []" "ring q2 = []" by (simp_all add: ring_def q1_def q2_def unlinked_def)
  ultimately show ?thesis
    using assms(1)
    by (intro exI [of _ h']) (auto simp: linked_def half_chan chan_of_def q1_def q2_def unlinked_def, simp_all add: h'_def)
qed

text \<open>The six allocations of a pair, in the order of their calls.\<close>

definition all_allocated :: "(nat \<Rightarrow> libc_malloc) \<Rightarrow> nat \<Rightarrow> nat \<Rightarrow> bool" where
  "all_allocated m len1 len2 \<longleftrightarrow>
     OPENSSL_malloc (m 0) sizeof_BIO \<noteq> None \<and> OPENSSL_malloc (m 1) sizeof_bio_bio_st \<noteq> None \<and>
     OPENSSL_malloc (m 2) sizeof_BIO \<noteq> None \<and> OPENSSL_malloc (m 3) sizeof_bio_bio_st \<noteq> None \<and>
     OPENSSL_malloc (m 4) (ring_size len1) \<noteq> None \<and> OPENSSL_malloc (m 5) (ring_size len2) \<noteq> None"

lemma free_new_half:
  assumes "bio_at h x = None"
  shows "BIO_free (Some x) (h\<lparr>next_id := i, bio_at := (bio_at h)(x := Some new_half)\<rparr>) = Some (1, h\<lparr>next_id := i\<rparr>)"
  using free_unlinked [of "h\<lparr>next_id := i, bio_at := (bio_at h)(x := Some new_half)\<rparr>" x 17408 None] assms
  by (simp add: new_half_with fun_upd_idem)

lemma BIO_free_null: "BIO_free None h = Some (1, h)"
  by (subst BIO_free.simps) simp

text \<open>One of the two calls of \<^verbatim>\<open>BIO_new\<close> fails.\<close>

lemma new_pair_without_half:
  assumes "bio_at h (next_id h) = None"
    "OPENSSL_malloc (m 0) sizeof_BIO = None \<or> OPENSSL_malloc (m 1) sizeof_bio_bio_st = None \<or>
     OPENSSL_malloc (m 2) sizeof_BIO = None \<or> OPENSSL_malloc (m 3) sizeof_bio_bio_st = None"
  shows "\<exists>h'. BIO_new_bio_pair m len1 len2 h = Some (None, h') \<and> bio_at h' = bio_at h"
  using assms(2) free_new_half [OF assms(1), of "Suc (next_id h)"] unfolding BIO_new_bio_pair_def BIO_new_half
  by (auto simp: BIO_free_null)

text \<open>Both exist and cannot be connected, because one of the ring buffers could not be allocated.\<close>

lemma new_pair_without_buffer:
  assumes "x \<noteq> y" "bio_at h x = None" "bio_at h y = None" "bio_at h2 = (bio_at h)(x := Some new_half, y := Some new_half)"
    "OPENSSL_malloc m1 (ring_size len1) = None \<or> OPENSSL_malloc m2 (ring_size len2) = None"
  shows "\<exists>h3 h4 h5. bio_make_pair m1 m2 x y len1 len2 h2 = Some (False, h3) \<and> BIO_free (Some x) h3 = Some (1, h4) \<and>
    BIO_free (Some y) h4 = Some (1, h5) \<and> bio_at h5 = bio_at h"
proof -
  have at2: "bio_at h2 x = Some new_half" "bio_at h2 y = Some new_half" using assms(1,4) by simp_all
  from make_pair_fails [OF assms(1) at2 assms(5)] obtain h3 s1 b1 s2 b2 where h3: "bio_make_pair m1 m2 x y len1 len2 h2 = Some (False, h3)"
    "bio_at h3 = (bio_at h2)(x := Some (half_with (unlinked s1 b1)), y := Some (half_with (unlinked s2 b2)))" by blast
  have "BIO_free (Some x) h3 = Some (1, h3\<lparr>bio_at := (bio_at h3)(x := None)\<rparr>)"
    by (rule free_unlinked [of _ _ s1 b1]) (use h3(2) assms(1) in simp)
  moreover have "BIO_free (Some y) (h3\<lparr>bio_at := (bio_at h3)(x := None)\<rparr>) = Some (1, h3\<lparr>bio_at := (bio_at h3)(x := None, y := None)\<rparr>)"
    by (subst free_unlinked [of _ _ s2 b2]) (use h3(2) assms(1) in simp_all)
  moreover have "(bio_at h3)(x := None, y := None) = bio_at h" using assms(2-4) h3(2) by auto
  ultimately show ?thesis using h3(1) by simp
qed

text \<open>C36: \<^verbatim>\<open>BIO_new_bio_pair\<close> succeeds if its six allocations do, and only then: it returns two new BIOs, linked, with empty ring buffers of the sizes
  that were asked for, 17 KiB by default, and does not touch other BIOs. Whichever of the allocations fails, for one half or the other, it returns
  none and has freed whatever it had made.\<close>

theorem new_pair_or_nothing:
  assumes "\<And>i. malloc_ok (m i)" "bio_at h (next_id h) = None" "bio_at h (next_id h + 1) = None" "len1 < object_max" "len2 < object_max"
  shows "\<exists>h'. BIO_new_bio_pair m len1 len2 h =
      Some (if all_allocated m len1 len2 then Some (next_id h, next_id h + 1) else None, h') \<and>
    (if all_allocated m len1 len2 then
       linked h' (next_id h) (next_id h + 1) \<and> (\<forall>z. z \<noteq> next_id h \<and> z \<noteq> next_id h + 1 \<longrightarrow> bio_at h' z = bio_at h z) \<and>
       chan h' (next_id h) = \<lparr>ch_queue = [], ch_cap = if len1 = 0 then 17 * 1024 else len1, ch_closed = False\<rparr> \<and>
       chan h' (next_id h + 1) = \<lparr>ch_queue = [], ch_cap = if len2 = 0 then 17 * 1024 else len2, ch_closed = False\<rparr>
     else bio_at h' = bio_at h)"
proof (cases "OPENSSL_malloc (m 0) sizeof_BIO = None \<or> OPENSSL_malloc (m 1) sizeof_bio_bio_st = None \<or>
     OPENSSL_malloc (m 2) sizeof_BIO = None \<or> OPENSSL_malloc (m 3) sizeof_bio_bio_st = None")
  case True
  then have "\<not> all_allocated m len1 len2" by (auto simp: all_allocated_def)
  then show ?thesis using new_pair_without_half [OF assms(2) True, of len1 len2] by auto
next
  case False
  define x y where "x = next_id h" and "y = next_id h + 1"
  have xy: "x \<noteq> y" "next_id h = x" "x + 1 = y" "Suc x = y" by (simp_all add: x_def y_def)
  define h2 where "h2 = h\<lparr>next_id := Suc y, bio_at := (bio_at h)(x := Some new_half, y := Some new_half)\<rparr>"
  have at2: "bio_at h2 x = Some new_half" "bio_at h2 y = Some new_half" using xy(1) by (simp_all add: h2_def)
  have new: "bio_at h x = None" "bio_at h y = None" using assms(2,3) by (simp_all add: x_def y_def)
  have via: "BIO_new_bio_pair m len1 len2 h = do {
      (ok, h) \<leftarrow> bio_make_pair (m 4) (m 5) x y len1 len2 h2;
      if ok then Some (Some (x, y), h)
      else do { (_, h) \<leftarrow> BIO_free (Some x) h; (_, h) \<leftarrow> BIO_free (Some y) h; Some (None, h) } }"
    using False xy
    by (auto simp: BIO_new_bio_pair_def BIO_new_half h2_def fun_eq_iff intro!: arg_cong2 [where f = Option.bind] split: bool.splits)
  show ?thesis
  proof (cases "OPENSSL_malloc (m 4) (ring_size len1) = None \<or> OPENSSL_malloc (m 5) (ring_size len2) = None")
    case True
    then have "\<not> all_allocated m len1 len2" by (auto simp: all_allocated_def)
    moreover have "bio_at h2 = (bio_at h)(x := Some new_half, y := Some new_half)" by (simp add: h2_def)
    ultimately show ?thesis using new_pair_without_buffer [OF xy(1) new _ True, of h2] by (auto simp: via)
  next
    case left: False
    have sizes: "ring_size len1 < object_max" "ring_size len2 < object_max" using assms(4,5) by (simp_all add: ring_size_def)
    have all: "all_allocated m len1 len2" using False left by (simp add: all_allocated_def)
    have "OPENSSL_malloc (m 4) (ring_size len1) \<noteq> None" "OPENSSL_malloc (m 5) (ring_size len2) \<noteq> None" using left by simp_all
    from make_pair_succeeds [OF xy(1) at2 assms(1,1) this sizes] obtain h3 where
      "bio_make_pair (m 4) (m 5) x y len1 len2 h2 = Some (True, h3)" "linked h3 x y" "\<forall>z. z \<noteq> x \<and> z \<noteq> y \<longrightarrow> bio_at h3 z = bio_at h2 z"
      "chan h3 x = \<lparr>ch_queue = [], ch_cap = ring_size len1, ch_closed = False\<rparr>"
      "chan h3 y = \<lparr>ch_queue = [], ch_cap = ring_size len2, ch_closed = False\<rparr>" by (elim exE conjE)
    then show ?thesis unfolding xy(2,3) by (intro exI [of _ h3]) (simp add: via all ring_size_def h2_def)
  qed
qed

text \<open>Every allocation succeeds; and all but that of the second \<^verbatim>\<open>BIO\<close> do.\<close>

theorem new_pair_or_nothing_witness:
  "(\<exists>h'. BIO_new_bio_pair (\<lambda>_. zero_malloc) 4 0 \<lparr>next_id = 0, bio_at = \<lambda>_. None\<rparr> = Some (Some (0, 1), h') \<and> linked h' 0 1 \<and>
      ch_cap (chan h' 0) = 4 \<and> ch_cap (chan h' 1) = 17 * 1024) \<and>
    (\<exists>h'. BIO_new_bio_pair ((\<lambda>_. zero_malloc)(2 := \<lambda>_. None)) 4 0 \<lparr>next_id = 0, bio_at = \<lambda>_. None\<rparr> = Some (None, h') \<and> bio_at h' = (\<lambda>_. None))"
proof -
  let ?h = "\<lparr>next_id = 0, bio_at = \<lambda>_. None\<rparr> :: bios" and ?m = "(\<lambda>_. zero_malloc)(2 := \<lambda>_. None)"
  have "malloc_ok (?m i)" for i using zero_malloc_ok(1) by (simp add: malloc_ok_def)
  moreover have "all_allocated (\<lambda>_. zero_malloc) 4 0"
    by (simp add: all_allocated_def zero_malloc_def OPENSSL_malloc_def OPENSSL_MALLOC_PREFIX_def ring_size_def sizeof_BIO_def sizeof_bio_bio_st_def)
  moreover have "\<not> all_allocated ?m 4 0" by (simp add: all_allocated_def OPENSSL_malloc_def)
  ultimately show ?thesis
    using new_pair_or_nothing [of "\<lambda>_. zero_malloc" ?h 4 0] new_pair_or_nothing [of ?m ?h 4 0] zero_malloc_ok(1) by auto
qed

end
