(* ===== verification/Timer_Heap.thy ===== *)
theory Timer_Heap
  imports Prelude "HOL-Library.Monad_Syntax" "HOL-Library.Multiset"
begin

text \<open>
  The heap of pending timers (gRPC core, \<^verbatim>\<open>src/core/lib/iomgr/timer_heap.cc\<close>): an array of pointers
  to timers, ordered as a binary heap by deadline; each timer knows its index in the array.

  A \<^verbatim>\<open>grpc_timer*\<close> is a number and \<open>timer_store\<close> holds the timers; of a timer only the two fields that the heap uses are
  modelled. A slot of the array is \<open>None\<close> as long as nothing was stored in it. Reading such a slot or leaving the array is the result
  \<open>None\<close>; a loop that does not end is \<open>None\<close> as well. \<^verbatim>\<open>gpr_realloc\<close> aborts when memory is short, so its result is always a block.
\<close>

record grpc_timer =
  deadline :: int
  heap_index :: nat

type_synonym timer_store = "nat \<Rightarrow> grpc_timer"
type_synonym timer_array = "nat option list"

record grpc_timer_heap =
  timers :: timer_array
  timer_count :: nat
  timer_capacity :: nat

section \<open>Operations\<close>

abbreviation (input) uint32_modulus :: nat where "uint32_modulus \<equiv> 4294967296"

text \<open>\<^verbatim>\<open>(uint32_t)(((int)i - 1) / 2)\<close>, where division truncates.\<close>

definition parent_index :: "nat \<Rightarrow> nat" where
  "parent_index i =
     (let k = sint (word_of_nat i :: 32 word) - 1
      in nat ((if k < 0 then - (- k div 2) else k div 2) mod int uint32_modulus))"

definition slot :: "timer_array \<Rightarrow> nat \<Rightarrow> nat option" where
  "slot a i = (if i < length a then a ! i else None)"

definition store_slot :: "nat \<Rightarrow> nat \<Rightarrow> timer_array \<Rightarrow> timer_array option" where
  "store_slot i t a = (if i < length a then Some (a[i := Some t]) else None)"

definition set_index :: "nat \<Rightarrow> nat \<Rightarrow> timer_store \<Rightarrow> timer_store" where
  "set_index t i tm = tm(t := (tm t)\<lparr>heap_index := i\<rparr>)"

partial_function (option) adjust_upwards :: "timer_array \<Rightarrow> nat \<Rightarrow> nat \<Rightarrow> timer_store \<Rightarrow> (timer_array \<times> timer_store) option" where
  "adjust_upwards first i t tm =
     (if i > 0 then
        let parent = parent_index i
        in Option.bind (slot first parent) (\<lambda>p.
             if deadline (tm p) \<le> deadline (tm t) then
               Option.bind (store_slot i t first) (\<lambda>first. Some (first, set_index t i tm))
             else Option.bind (store_slot i p first) (\<lambda>first. adjust_upwards first parent t (set_index p i tm)))
      else Option.bind (store_slot i t first) (\<lambda>first. Some (first, set_index t i tm)))"

partial_function (option) adjust_downwards :: "timer_array \<Rightarrow> nat \<Rightarrow> nat \<Rightarrow> nat \<Rightarrow> timer_store \<Rightarrow> (timer_array \<times> timer_store) option" where
  "adjust_downwards first i len t tm =
     (let left_child = (1 + 2 * i) mod uint32_modulus
      in if left_child \<ge> len then Option.bind (store_slot i t first) (\<lambda>first. Some (first, set_index t i tm))
         else
           let right_child = (left_child + 1) mod uint32_modulus
           in Option.bind (slot first left_child) (\<lambda>l.
              Option.bind (if right_child < len then Option.bind (slot first right_child) (\<lambda>r. Some (deadline (tm l) > deadline (tm r)))
                           else Some False) (\<lambda>right.
                let next_i = (if right then right_child else left_child)
                in Option.bind (slot first next_i) (\<lambda>n.
                     if deadline (tm t) \<le> deadline (tm n) then
                       Option.bind (store_slot i t first) (\<lambda>first. Some (first, set_index t i tm))
                     else Option.bind (store_slot i n first) (\<lambda>first. adjust_downwards first next_i len t (set_index n i tm))))))"

definition SHRINK_FULLNESS_FACTOR :: nat where "SHRINK_FULLNESS_FACTOR = 2"

definition gpr_realloc_timers :: "timer_array \<Rightarrow> nat \<Rightarrow> timer_array" where
  "gpr_realloc_timers a n = take n a @ replicate (n - length a) None"

definition maybe_shrink :: "grpc_timer_heap \<Rightarrow> grpc_timer_heap" where
  "maybe_shrink heap =
     (if timer_count heap \<ge> 8 \<and> timer_count heap \<le> timer_capacity heap div SHRINK_FULLNESS_FACTOR div 2 then
        let cap = timer_count heap * SHRINK_FULLNESS_FACTOR mod uint32_modulus
        in heap\<lparr>timer_capacity := cap, timers := gpr_realloc_timers (timers heap) cap\<rparr>
      else heap)"

definition note_changed_priority :: "grpc_timer_heap \<Rightarrow> nat \<Rightarrow> timer_store \<Rightarrow> (grpc_timer_heap \<times> timer_store) option" where
  "note_changed_priority heap timer tm = do {
     let i = heap_index (tm timer);
     p \<leftarrow> slot (timers heap) (parent_index i);
     (a, tm) \<leftarrow> (if deadline (tm p) > deadline (tm timer) then adjust_upwards (timers heap) i timer tm
                 else adjust_downwards (timers heap) i (timer_count heap) timer tm);
     Some (heap\<lparr>timers := a\<rparr>, tm)
   }"

definition grpc_timer_heap_init :: grpc_timer_heap where
  "grpc_timer_heap_init = \<lparr>timers = [], timer_count = 0, timer_capacity = 0\<rparr>"

definition grpc_timer_heap_add :: "grpc_timer_heap \<Rightarrow> nat \<Rightarrow> timer_store \<Rightarrow> (bool \<times> grpc_timer_heap \<times> timer_store) option" where
  "grpc_timer_heap_add heap timer tm = do {
     let heap =
       (if timer_count heap = timer_capacity heap then
          let cap = max ((timer_capacity heap + 1) mod uint32_modulus) (timer_capacity heap * 3 mod uint32_modulus div 2)
          in heap\<lparr>timer_capacity := cap, timers := gpr_realloc_timers (timers heap) cap\<rparr>
        else heap);
     let tm = set_index timer (timer_count heap) tm;
     (a, tm) \<leftarrow> adjust_upwards (timers heap) (timer_count heap) timer tm;
     let heap = heap\<lparr>timers := a, timer_count := (timer_count heap + 1) mod uint32_modulus\<rparr>;
     Some (heap_index (tm timer) = 0, heap, tm)
   }"

definition grpc_timer_heap_remove :: "grpc_timer_heap \<Rightarrow> nat \<Rightarrow> timer_store \<Rightarrow> (grpc_timer_heap \<times> timer_store) option" where
  "grpc_timer_heap_remove heap timer tm = do {
     let i = heap_index (tm timer);
     let last_i = (timer_count heap + uint32_modulus - 1) mod uint32_modulus;
     if i = last_i then Some (maybe_shrink (heap\<lparr>timer_count := last_i\<rparr>), tm)
     else do {
       l \<leftarrow> slot (timers heap) last_i;
       a \<leftarrow> store_slot i l (timers heap);
       let tm = set_index l i tm;
       let heap = maybe_shrink (heap\<lparr>timers := a, timer_count := last_i\<rparr>);
       l \<leftarrow> slot (timers heap) i;
       note_changed_priority heap l tm
     }
   }"

definition grpc_timer_heap_is_empty :: "grpc_timer_heap \<Rightarrow> bool" where
  "grpc_timer_heap_is_empty heap \<longleftrightarrow> timer_count heap = 0"

definition grpc_timer_heap_top :: "grpc_timer_heap \<Rightarrow> nat option" where
  "grpc_timer_heap_top heap = slot (timers heap) 0"

definition grpc_timer_heap_pop :: "grpc_timer_heap \<Rightarrow> timer_store \<Rightarrow> (grpc_timer_heap \<times> timer_store) option" where
  "grpc_timer_heap_pop heap tm = do { t \<leftarrow> grpc_timer_heap_top heap; grpc_timer_heap_remove heap t tm }"

section \<open>The order of the heap\<close>

abbreviation (input) par :: "nat \<Rightarrow> nat" where "par k \<equiv> (k - 1) div 2"

lemma parent_index: "i < 2 ^ 31 \<Longrightarrow> parent_index i = par i"
proof -
  assume i: "i < 2 ^ 31"
  then have "sint (word_of_nat i :: 32 word) = int i" by (simp add: signed_of_nat signed_take_bit_int_eq_self)
  moreover have "nat (int j div 2 mod int uint32_modulus) = j div 2" if "j < 2 ^ 31" for j
  proof -
    have "int j div 2 = int (j div 2)" "j div 2 < uint32_modulus" using that by (simp_all add: zdiv_int)
    then show ?thesis by (simp add: nat_mod_distrib)
  qed
  from this [of "i - 1"] have "nat (int (i - 1) div 2 mod int uint32_modulus) = (i - 1) div 2" using i by simp
  ultimately show ?thesis
    by (cases i) (simp_all add: parent_index_def Let_def)
qed

lemma par_less: "0 < k \<Longrightarrow> par k < k"
  by linarith

lemma par_children: "par k = i \<and> 0 < k \<longleftrightarrow> k = 1 + 2 * i \<or> k = 2 + 2 * i"
  by linarith

text \<open>Every element but the one at \<open>i\<close> is not before its parent; what is below \<open>i\<close> is not before the parent of \<open>i\<close>.\<close>

definition rising :: "(nat \<Rightarrow> int) \<Rightarrow> nat list \<Rightarrow> nat \<Rightarrow> bool" where
  "rising d xs i \<longleftrightarrow> (\<forall>k. 0 < k \<and> k < length xs \<and> k \<noteq> i \<longrightarrow> d (xs ! par k) \<le> d (xs ! k)) \<and>
     (0 < i \<longrightarrow> (\<forall>k. 0 < k \<and> k < length xs \<and> par k = i \<longrightarrow> d (xs ! par i) \<le> d (xs ! k)))"

definition sinking :: "(nat \<Rightarrow> int) \<Rightarrow> nat list \<Rightarrow> nat \<Rightarrow> bool" where
  "sinking d xs i \<longleftrightarrow> (\<forall>k. 0 < k \<and> k < length xs \<and> par k \<noteq> i \<longrightarrow> d (xs ! par k) \<le> d (xs ! k)) \<and>
     (0 < i \<longrightarrow> (\<forall>k. 0 < k \<and> k < length xs \<and> par k = i \<longrightarrow> d (xs ! par i) \<le> d (xs ! k)))"

definition heap_order :: "(nat \<Rightarrow> int) \<Rightarrow> nat list \<Rightarrow> bool" where
  "heap_order d xs \<longleftrightarrow> (\<forall>k. 0 < k \<and> k < length xs \<longrightarrow> d (xs ! par k) \<le> d (xs ! k))"

abbreviation (input) swap :: "nat \<Rightarrow> nat \<Rightarrow> nat list \<Rightarrow> nat list" where
  "swap i j xs \<equiv> xs[i := xs ! j, j := xs ! i]"

lemma swap_nth: "i < length xs \<Longrightarrow> j < length xs \<Longrightarrow> k < length xs \<Longrightarrow> swap i j xs ! k = (if k = j then xs ! i else if k = i then xs ! j else xs ! k)"
  by (simp add: nth_list_update)

lemma rising_done: "rising d xs i \<Longrightarrow> (0 < i \<Longrightarrow> d (xs ! par i) \<le> d (xs ! i)) \<Longrightarrow> heap_order d xs"
  by (auto simp: rising_def heap_order_def)

lemma rising_step:
  assumes "rising d xs i" "0 < i" "i < length xs" "d (xs ! i) < d (xs ! par i)"
  shows "rising d (swap i (par i) xs) (par i)"
proof -
  let ?p = "par i"
  define ys where "ys = swap i (par i) xs"
  have p: "?p < i" "?p < length xs" using assms(2,3) by auto
  have nth: "k < length xs \<Longrightarrow> ys ! k = (if k = ?p then xs ! i else if k = i then xs ! ?p else xs ! k)" for k
    using swap_nth [OF assms(3) p(2)] by (simp add: ys_def)
  have len: "length ys = length xs" by (simp add: ys_def)
  have e: "d (xs ! par k) \<le> d (xs ! k)" if "0 < k" "k < length xs" "k \<noteq> i" for k
    using assms(1) that by (auto simp: rising_def)
  have c: "d (xs ! ?p) \<le> d (xs ! k)" if "0 < k" "k < length xs" "par k = i" for k
    using assms(1,2) that by (auto simp: rising_def)
  have "d (ys ! par k) \<le> d (ys ! k)" if k: "0 < k" "k < length xs" "k \<noteq> ?p" for k
  proof -
    have pk: "par k < k" "par k < length xs" using k by auto
    consider "k = i" | "k \<noteq> i" "par k = i" | "k \<noteq> i" "par k = ?p" | "k \<noteq> i" "par k \<noteq> i" "par k \<noteq> ?p" by blast
    then show ?thesis
    proof cases
      case 1
      then show ?thesis using assms(3,4) p by (simp add: nth)
    next
      case 2
      then show ?thesis using c [of k] k p assms(3) by (simp add: nth)
    next
      case 3
      then show ?thesis using e [of k] k p assms(3,4) by (simp add: nth)
    next
      case 4
      then show ?thesis using e [of k] k pk by (simp add: nth)
    qed
  qed
  moreover have "d (ys ! par ?p) \<le> d (ys ! k)" if k: "0 < ?p" "0 < k" "k < length xs" "par k = ?p" for k
  proof -
    have pp: "par ?p < ?p" "par ?p < length xs" "par ?p \<noteq> i" "par ?p \<noteq> ?p" using par_less [OF k(1)] p by linarith+
    have up: "d (xs ! par ?p) \<le> d (xs ! ?p)" using e [of ?p] k(1) p by auto
    have "k \<noteq> ?p" using k by linarith
    then have at: "ys ! par ?p = xs ! par ?p" "ys ! k = (if k = i then xs ! ?p else xs ! k)"
      unfolding nth [OF pp(2)] nth [OF k(3)] using pp(3,4) by presburger+
    show ?thesis
    proof (cases "k = i")
      case True
      then show ?thesis unfolding at if_P [OF True] using up by blast
    next
      case False
      have "d (xs ! ?p) \<le> d (xs ! k)" using e [of k] k False by auto
      then show ?thesis unfolding at if_not_P [OF False] by (rule order_trans [OF up])
    qed
  qed
  ultimately show ?thesis unfolding ys_def [symmetric] rising_def len by blast
qed

lemma sinking_done:
  assumes "sinking d xs i" "\<And>k. 0 < k \<Longrightarrow> k < length xs \<Longrightarrow> par k = i \<Longrightarrow> d (xs ! i) \<le> d (xs ! k)"
  shows "heap_order d xs"
  unfolding heap_order_def
proof (intro allI impI)
  fix k assume k: "0 < k \<and> k < length xs"
  show "d (xs ! par k) \<le> d (xs ! k)"
  proof (cases "par k = i")
    case True
    then show ?thesis using assms(2) [of k] k by blast
  next
    case False
    then show ?thesis using assms(1) k unfolding sinking_def by blast
  qed
qed

lemma sinking_step:
  assumes "sinking d xs i" "0 < j" "par j = i" "j < length xs" "d (xs ! j) < d (xs ! i)"
    and "\<And>k. 0 < k \<Longrightarrow> k < length xs \<Longrightarrow> par k = i \<Longrightarrow> d (xs ! j) \<le> d (xs ! k)"
  shows "sinking d (swap i j xs) j"
proof -
  define ys where "ys = swap i j xs"
  have ij: "i < j" "i < length xs" using assms(2-4) by auto
  have nth: "k < length xs \<Longrightarrow> ys ! k = (if k = j then xs ! i else if k = i then xs ! j else xs ! k)" for k
    using swap_nth [OF ij(2) assms(4)] by (simp add: ys_def)
  have len: "length ys = length xs" by (simp add: ys_def)
  have e: "d (xs ! par k) \<le> d (xs ! k)" if "0 < k" "k < length xs" "par k \<noteq> i" for k
    using assms(1) that by (auto simp: sinking_def)
  have c: "d (xs ! par i) \<le> d (xs ! k)" if "0 < i" "0 < k" "k < length xs" "par k = i" for k
    using assms(1) that by (auto simp: sinking_def)
  have "d (ys ! par k) \<le> d (ys ! k)" if k: "0 < k" "k < length xs" "par k \<noteq> j" for k
  proof -
    have pk: "par k < k" "par k < length xs" using k by auto
    consider "k = j" | "k \<noteq> j" "par k = i" | "k = i" "0 < i" | "k \<noteq> j" "k \<noteq> i" "par k \<noteq> i" using k(1) by metis
    then show ?thesis
    proof cases
      case 1
      then show ?thesis using assms(3,4,5) ij by (simp add: nth)
    next
      case 2
      then show ?thesis using assms(6) [of k] k ij by (auto simp: nth)
    next
      case 3
      then show ?thesis using c [of j] assms(2-4) ij pk k by (simp add: nth)
    next
      case 4
      then show ?thesis using e [of k] k pk by (simp add: nth)
    qed
  qed
  moreover have "d (ys ! par j) \<le> d (ys ! k)" if k: "0 < k" "k < length xs" "par k = j" for k
  proof -
    have "k \<noteq> i" "k \<noteq> j" using k ij by linarith+
    moreover have "d (xs ! j) \<le> d (xs ! k)" using e [of k] k ij by auto
    ultimately show ?thesis using k ij assms(3) by (simp add: nth)
  qed
  ultimately show ?thesis unfolding ys_def [symmetric] sinking_def len by blast
qed

text \<open>The root is minimal.\<close>

lemma heap_order_root: "heap_order d xs \<Longrightarrow> k < length xs \<Longrightarrow> d (xs ! 0) \<le> d (xs ! k)"
proof (induction k rule: less_induct)
  case (less k)
  show ?case
  proof (cases "k = 0")
    case False
    then have "d (xs ! 0) \<le> d (xs ! par k)" using less by (intro less.IH) auto
    moreover have "d (xs ! par k) \<le> d (xs ! k)" using less.prems False by (auto simp: heap_order_def)
    ultimately show ?thesis by simp
  qed simp
qed

section \<open>Correctness of the operations\<close>

lemma swap_view:
  assumes "first[i := Some t] = map Some xs @ rest" "i < length xs" "j < length xs" "xs ! i = t" "i \<noteq> j"
  shows "first[i := Some (xs ! j), j := Some t] = map Some (swap i j xs) @ rest" "slot first j = Some (xs ! j)"
    "store_slot i q first = Some (first[i := Some q])"
proof -
  have len: "length first = length xs + length rest"
    using arg_cong [OF assms(1), of length] by simp
  have "first[i := Some (xs ! j)] = (first[i := Some t])[i := Some (xs ! j)]" by simp
  then show "first[i := Some (xs ! j), j := Some t] = map Some (swap i j xs) @ rest"
    using assms(2-4) unfolding assms(1) by (simp add: list_update_append1 map_update)
  have "first ! j = (first[i := Some t]) ! j" using assms(5) by simp
  then show "slot first j = Some (xs ! j)" using assms(3) len unfolding assms(1) by (simp add: slot_def nth_append)
  show "store_slot i q first = Some (first[i := Some q])" using assms(2) len by (simp add: store_slot_def)
qed

definition indexed :: "timer_store \<Rightarrow> nat list \<Rightarrow> nat \<Rightarrow> bool" where
  "indexed tm xs i \<longleftrightarrow> (\<forall>k < length xs. k \<noteq> i \<longrightarrow> heap_index (tm (xs ! k)) = k)"

lemma deadline_set_index [simp]: "deadline (set_index p i tm q) = deadline (tm q)"
  by (simp add: set_index_def)

lemma indexed_swap:
  assumes "indexed tm xs i" "distinct xs" "i < length xs" "j < length xs"
  shows "indexed (set_index (xs ! j) i tm) (swap i j xs) j"
proof -
  define ys where "ys = swap i j xs"
  have nth: "k < length xs \<Longrightarrow> ys ! k = (if k = j then xs ! i else if k = i then xs ! j else xs ! k)" for k
    using swap_nth [OF assms(3,4)] by (simp add: ys_def)
  have "length ys = length xs" by (simp add: ys_def)
  then show ?thesis unfolding ys_def [symmetric]
    using assms by (auto simp: indexed_def set_index_def nth nth_eq_iff_index_eq)
qed

lemma indexed_done:
  assumes "indexed tm xs i" "distinct xs" "i < length xs"
  shows "\<forall>k < length xs. heap_index (set_index (xs ! i) i tm (xs ! k)) = k"
  using assms by (auto simp: indexed_def set_index_def nth_eq_iff_index_eq)

text \<open>What both loops achieve.\<close>

definition settled :: "(nat \<Rightarrow> int) \<Rightarrow> nat list \<Rightarrow> timer_store \<Rightarrow> nat list \<Rightarrow> timer_store \<Rightarrow> bool" where
  "settled d xs tm xs' tm' \<longleftrightarrow> mset xs' = mset xs \<and> heap_order d xs' \<and> (\<forall>q. deadline (tm' q) = d q) \<and>
     (\<forall>k < length xs'. heap_index (tm' (xs' ! k)) = k) \<and> (\<forall>q. q \<notin> set xs \<longrightarrow> tm' q = tm q)"

lemma settled_stop:
  assumes "heap_order d xs" "\<And>q. deadline (tm q) = d q" "indexed tm xs i" "distinct xs" "i < length xs"
  shows "settled d xs tm xs (set_index (xs ! i) i tm)"
  using assms(1,2) indexed_done [OF assms(3-5)] nth_mem [OF assms(5)] by (auto simp: settled_def set_index_def)

lemma settled_swap:
  assumes "settled d (swap i j xs) (set_index (xs ! j) i tm) xs' tm'" "i < length xs" "j < length xs"
  shows "settled d xs tm xs' tm'"
proof -
  have "set (swap i j xs) = set xs" "mset (swap i j xs) = mset xs"
    using assms(2,3) by (simp_all add: set_swap mset_swap)
  moreover have "xs ! j \<in> set xs" using assms(3) by simp
  ultimately show ?thesis using assms(1) unfolding settled_def by (auto simp: set_index_def)
qed

lemma adjust_upwards_ok:
  assumes "first[i := Some t] = map Some xs @ rest" "i < length xs" "xs ! i = t" "length xs \<le> 2 ^ 31" "distinct xs"
    and "rising d xs i" "\<And>q. deadline (tm q) = d q" "indexed tm xs i"
  shows "\<exists>xs' tm'. adjust_upwards first i t tm = Some (map Some xs' @ rest, tm') \<and> settled d xs tm xs' tm' \<and>
    (xs' ! 0 = t \<and> 0 < i \<longrightarrow> d t < d (xs ! 0))"
  using assms
proof (induction i arbitrary: first xs tm rule: less_induct)
  case (less i)
  note prems = less.prems
  have len: "length first = length xs + length rest" using arg_cong [OF prems(1), of length] by simp
  have store: "store_slot i q first = Some (first[i := Some q])" for q using prems(2) len by (simp add: store_slot_def)
  have stop: "settled d xs tm xs (set_index t i tm)" if "0 < i \<Longrightarrow> d (xs ! par i) \<le> d (xs ! i)"
    using settled_stop [OF rising_done [OF prems(6) that] prems(7,8,5,2)] prems(3) by simp
  show ?case
  proof (cases "i = 0")
    case True
    then show ?thesis using stop store prems(1) by (subst adjust_upwards.simps) auto
  next
    case False
    let ?p = "par i"
    have p: "?p < i" "?p < length xs" "i \<noteq> ?p" "parent_index i = ?p" using False prems(2,4) by (auto simp: parent_index)
    note view = swap_view [OF prems(1,2) p(2) prems(3) p(3)]
    show ?thesis
    proof (cases "d (xs ! ?p) \<le> d t")
      case True
      have "xs ! 0 \<noteq> xs ! i" using nth_eq_iff_index_eq [OF prems(5) _ prems(2), of 0] prems(2) False by linarith
      then have "xs ! 0 \<noteq> t" using prems(3) by simp
      then show ?thesis using True False stop store prems(1,3,7) p view(2) by (subst adjust_upwards.simps) auto
    next
      case less_t: False
      let ?ys = "swap i ?p xs" and ?tm = "set_index (xs ! ?p) i tm"
      have ys: "?p < length ?ys" "?ys ! ?p = t" "length ?ys \<le> 2 ^ 31" "distinct ?ys" "length ?ys = length xs"
        using p prems(2-5) by (auto simp: swap_nth distinct_swap)
      have r: "rising d ?ys ?p" using rising_step [OF prems(6) _ prems(2)] False less_t prems(3) by auto
      obtain xs' tm' where *: "adjust_upwards (first[i := Some (xs ! ?p)]) ?p t ?tm = Some (map Some xs' @ rest, tm')"
        "settled d ?ys ?tm xs' tm'" "xs' ! 0 = t \<and> 0 < ?p \<longrightarrow> d t < d (?ys ! 0)"
        using less.IH [OF p(1) view(1) ys(1-4) r _ indexed_swap [OF prems(8,5,2) p(2)]] prems(7) by auto
      have "d t < d (xs ! 0)" if "xs' ! 0 = t"
        using *(3) that less_t False p prems(2) by (cases "?p = 0") (auto simp: swap_nth)
      then show ?thesis
        using * settled_swap [OF *(2) prems(2) p(2)] False less_t store view(2) p(4) prems(3,7)
        by (subst adjust_upwards.simps) (auto simp: Let_def)
    qed
  qed
qed

lemma adjust_downwards_ok:
  assumes "first[i := Some t] = map Some xs @ rest" "i < length xs" "xs ! i = t" "length xs \<le> 2 ^ 31" "distinct xs"
    and "sinking d xs i" "\<And>q. deadline (tm q) = d q" "indexed tm xs i"
  shows "\<exists>xs' tm'. adjust_downwards first i (length xs) t tm = Some (map Some xs' @ rest, tm') \<and> settled d xs tm xs' tm'"
  using assms
proof (induction "length xs - i" arbitrary: i first xs tm rule: less_induct)
  case less
  note prems = less.prems
  have len: "length first = length xs + length rest" using arg_cong [OF prems(1), of length] by simp
  have store: "store_slot i q first = Some (first[i := Some q])" for q using prems(2) len by (simp add: store_slot_def)
  have stop: "settled d xs tm xs (set_index t i tm)" if "\<And>k. 0 < k \<Longrightarrow> k < length xs \<Longrightarrow> par k = i \<Longrightarrow> d (xs ! i) \<le> d (xs ! k)"
    using settled_stop [OF sinking_done [OF prems(6) that] prems(7,8,5,2)] prems(3) by simp
  have lc: "(1 + 2 * i) mod uint32_modulus = 1 + 2 * i" "(1 + 2 * i + 1) mod uint32_modulus = 2 + 2 * i" if "1 + 2 * i < length xs"
    using that prems(4) by simp_all
  have no_child: "(1 + 2 * i) mod uint32_modulus = 1 + 2 * i" using prems(2,4) by simp
  show ?case
  proof (cases "1 + 2 * i < length xs")
    case False
    have "settled d xs tm xs (set_index t i tm)" by (rule stop) (use False in linarith)
    then show ?thesis using False store prems(1) no_child by (subst adjust_downwards.simps) auto
  next
    case True
    define right where "right \<longleftrightarrow> 2 + 2 * i < length xs \<and> d (xs ! (1 + 2 * i)) > d (xs ! (2 + 2 * i))"
    define j where "j = (if right then 2 + 2 * i else 1 + 2 * i)"
    have j: "i < j" "j < length xs" "0 < j" "par j = i" "i \<noteq> j" using True by (auto simp: j_def right_def)
    have least: "d (xs ! j) \<le> d (xs ! k)" if "0 < k" "k < length xs" "par k = i" for k
    proof -
      have "k = 1 + 2 * i \<or> k = 2 + 2 * i" using that par_children [of k i] by blast
      then show ?thesis using that(2) by (auto simp: j_def right_def)
    qed
    note view = swap_view [OF prems(1,2) j(2) prems(3) j(5)]
    have slots: "slot first k = Some (xs ! k)" if "k < length xs" "i \<noteq> k" for k
      using swap_view(2) [OF prems(1,2) that(1) prems(3) that(2)] .
    have step: "adjust_downwards first i (length xs) t tm =
        (if d t \<le> d (xs ! j) then Some (first[i := Some t], set_index t i tm)
         else adjust_downwards (first[i := Some (xs ! j)]) j (length xs) t (set_index (xs ! j) i tm))"
    proof -
      define lc rc where "lc = 1 + 2 * i" and "rc = 2 + 2 * i"
      have eq: "(1 + 2 * i) mod uint32_modulus = lc" "Suc lc mod uint32_modulus = rc" "lc < length xs" "i \<noteq> lc" "i \<noteq> rc"
        using lc True by (simp_all add: lc_def rc_def)
      have j': "j = (if rc < length xs \<and> d (xs ! lc) > d (xs ! rc) then rc else lc)"
        by (simp only: j_def right_def lc_def rc_def)
      show ?thesis
        unfolding adjust_downwards.simps [of first] eq(1) using eq(2-5) slots
        by (cases "rc < length xs") (simp_all add: j' store prems(7))
    qed
    show ?thesis
    proof (cases "d t \<le> d (xs ! j)")
      case True
      have "settled d xs tm xs (set_index t i tm)"
      proof (rule stop)
        fix k assume "0 < k" "k < length xs" "par k = i"
        from least [OF this] show "d (xs ! i) \<le> d (xs ! k)" using True prems(3) by simp
      qed
      then show ?thesis using True prems(1) by (auto simp: step)
    next
      case False
      let ?ys = "swap i j xs" and ?tm = "set_index (xs ! j) i tm"
      have ys: "j < length ?ys" "?ys ! j = t" "length ?ys \<le> 2 ^ 31" "distinct ?ys" "length ?ys = length xs"
        using j prems(2-5) by (auto simp: swap_nth distinct_swap)
      have sk: "sinking d ?ys j" using sinking_step [OF prems(6) j(3,4,2) _ least] False prems(3) by auto
      have "length ?ys - j < length xs - i" using j by simp
      from less.hyps [OF this view(1) ys(1-4) sk _ indexed_swap [OF prems(8,5,2) j(2)]] prems(7)
      obtain xs' tm' where *: "adjust_downwards (first[i := Some (xs ! j)]) j (length xs) t ?tm = Some (map Some xs' @ rest, tm')"
        "settled d ?ys ?tm xs' tm'" by auto
      then show ?thesis using settled_swap [OF *(2) prems(2) j(2)] False by (auto simp: step)
    qed
  qed
qed

section \<open>The heap as a priority queue\<close>

text \<open>A well-formed heap: the timers in the used slots are distinct, ordered by deadline, and know their index.\<close>

definition timer_heap_ok :: "grpc_timer_heap \<Rightarrow> timer_store \<Rightarrow> bool" where
  "timer_heap_ok h tm \<longleftrightarrow> (\<exists>xs rest. timers h = map Some xs @ rest \<and> length xs = timer_count h \<and> length (timers h) = timer_capacity h \<and>
     timer_capacity h < 2 ^ 31 \<and> distinct xs \<and> heap_order (deadline \<circ> tm) xs \<and> (\<forall>k < length xs. heap_index (tm (xs ! k)) = k))"

definition pending :: "grpc_timer_heap \<Rightarrow> nat set" where
  "pending h = set (map the (take (timer_count h) (timers h)))"

lemma timer_heap_okI:
  assumes "timers h = map Some xs @ rest" "length xs = timer_count h" "length (timers h) = timer_capacity h" "timer_capacity h < 2 ^ 31"
    and "mset xs = mset ys" "distinct ys" "settled d ys tm0 xs tm"
  shows "timer_heap_ok h tm \<and> pending h = set ys \<and> (\<forall>q. deadline (tm q) = d q)"
proof -
  have "distinct xs" "set xs = set ys" using assms(5,6) by (metis mset_eq_imp_distinct_iff) (metis assms(5) set_mset_mset)
  moreover have "deadline \<circ> tm = d" using assms(7) by (auto simp: settled_def)
  ultimately show ?thesis using assms unfolding timer_heap_ok_def pending_def by (auto simp: settled_def)
qed

lemma timer_heap_okD:
  assumes "timer_heap_ok h tm"
  obtains xs rest where "timers h = map Some xs @ rest" "length xs = timer_count h" "length (timers h) = timer_capacity h"
    "timer_capacity h < 2 ^ 31" "distinct xs" "heap_order (\<lambda>q. deadline (tm q)) xs" "\<And>k. k < length xs \<Longrightarrow> heap_index (tm (xs ! k)) = k"
    "pending h = set xs"
proof -
  obtain xs rest where *: "timers h = map Some xs @ rest" "length xs = timer_count h" "length (timers h) = timer_capacity h"
    "timer_capacity h < 2 ^ 31" "distinct xs" "heap_order (deadline \<circ> tm) xs" "\<forall>k < length xs. heap_index (tm (xs ! k)) = k"
    using assms unfolding timer_heap_ok_def by blast
  have "deadline \<circ> tm = (\<lambda>q. deadline (tm q))" by auto
  with * that [of xs rest] show thesis by (simp add: pending_def)
qed

lemma heap_order_front: "heap_order d (xs @ ys) \<Longrightarrow> heap_order d xs"
proof -
  assume h: "heap_order d (xs @ ys)"
  have "d (xs ! par k) \<le> d (xs ! k)" if k: "0 < k" "k < length xs" for k
  proof -
    have "par k < length xs" "k < length (xs @ ys)" using k by auto
    moreover have "d ((xs @ ys) ! par k) \<le> d ((xs @ ys) ! k)" using h k(1) calculation(2) unfolding heap_order_def by blast
    ultimately show ?thesis using k(2) by (simp only: nth_append if_True)
  qed
  then show ?thesis by (simp add: heap_order_def)
qed

lemma add_ok:
  assumes "timer_heap_ok h tm" "t \<notin> pending h" "timer_capacity h * 3 < 2 ^ 31"
  shows "\<exists>r h' tm'. grpc_timer_heap_add h t tm = Some (r, h', tm') \<and> timer_heap_ok h' tm' \<and> pending h' = insert t (pending h) \<and>
    (\<forall>q. deadline (tm' q) = deadline (tm q)) \<and> (r \<longleftrightarrow> (\<forall>q \<in> pending h. deadline (tm t) < deadline (tm q)))"
proof -
  let ?d = "\<lambda>q. deadline (tm q)"
  obtain xs rest where h: "timers h = map Some xs @ rest" "length xs = timer_count h" "length (timers h) = timer_capacity h"
    "timer_capacity h < 2 ^ 31" "distinct xs" "heap_order ?d xs" "\<And>k. k < length xs \<Longrightarrow> heap_index (tm (xs ! k)) = k"
    "pending h = set xs" using timer_heap_okD [OF assms(1)] by metis
  define cap where "cap = (if timer_count h = timer_capacity h then max (timer_capacity h + 1) (timer_capacity h * 3 div 2) else timer_capacity h)"
  define h1 where "h1 = (if timer_count h = timer_capacity h then h\<lparr>timer_capacity := cap, timers := gpr_realloc_timers (timers h) cap\<rparr> else h)"
  have cap: "timer_count h < cap" "timer_capacity h \<le> cap" "cap < 2 ^ 31" using h(1-4) assms(3) by (auto simp: cap_def)
  have grown: "(if timer_count h = timer_capacity h then
      let c = max ((timer_capacity h + 1) mod uint32_modulus) (timer_capacity h * 3 mod uint32_modulus div 2)
      in h\<lparr>timer_capacity := c, timers := gpr_realloc_timers (timers h) c\<rparr> else h) = h1"
    using assms(3) by (simp add: h1_def cap_def Let_def)
  have h1: "timer_count h1 = length xs" "timer_capacity h1 = cap" "length (timers h1) = cap" "\<exists>rest1. timers h1 = map Some xs @ rest1"
    using h(1-3) cap by (auto simp: h1_def cap_def gpr_realloc_timers_def)
  then obtain r0 rest1 where rest1: "timers h1 = map Some xs @ r0 # rest1"
    using cap(1) h(2) by (metis append.right_neutral length_map list.exhaust nat_neq_iff)
  define i where "i = length xs"
  let ?ys = "xs @ [t]" and ?tm = "set_index t i tm"
  have view: "(timers h1)[i := Some t] = map Some ?ys @ rest1" by (simp add: rest1 i_def list_update_append)
  have fresh: "t \<notin> set xs" using assms(2) h(8) by simp
  have ys: "i < length ?ys" "?ys ! i = t" "length ?ys \<le> 2 ^ 31" "distinct ?ys" using cap h(2,5) fresh by (auto simp: i_def nth_append)
  have r: "rising ?d ?ys i"
  proof -
    have "?d (?ys ! par k) \<le> ?d (?ys ! k)" if "0 < k" "k < length ?ys" "k \<noteq> i" for k
    proof -
      have "k < length xs" "par k < length xs" using that par_less [OF that(1)] by (auto simp: i_def)
      then show ?thesis using h(6) that(1) by (simp add: heap_order_def nth_append)
    qed
    moreover have "par k \<noteq> i" if "0 < k" "k < length ?ys" for k using that par_less [OF that(1)] by (auto simp: i_def)
    ultimately show ?thesis unfolding rising_def by blast
  qed
  have ix: "indexed ?tm ?ys i"
    unfolding indexed_def
  proof (intro allI impI)
    fix k assume "k < length ?ys" "k \<noteq> i"
    then have k: "k < length xs" by (simp add: i_def)
    then have "xs ! k \<noteq> t" using fresh nth_mem by metis
    then show "heap_index (?tm (?ys ! k)) = k" using h(7) [OF k] k by (simp add: set_index_def nth_append)
  qed
  obtain zs tm' where up: "adjust_upwards (timers h1) i t ?tm = Some (map Some zs @ rest1, tm')" "settled ?d ?ys ?tm zs tm'"
    "zs ! 0 = t \<and> 0 < i \<longrightarrow> ?d t < ?d (?ys ! 0)"
    using adjust_upwards_ok [OF view ys r _ ix] by auto
  define h2 where "h2 = h1\<lparr>timers := map Some zs @ rest1, timer_count := Suc i\<rparr>"
  have zs: "mset zs = mset ?ys" "heap_order ?d zs" "\<And>k. k < length zs \<Longrightarrow> heap_index (tm' (zs ! k)) = k"
    using up(2) by (auto simp: settled_def)
  have lz: "length zs = Suc i" using mset_eq_length [OF zs(1)] by (simp add: i_def)
  have len1: "length (timers h1) = length xs + Suc (length rest1)" unfolding rest1 by simp
  have add: "grpc_timer_heap_add h t tm = Some (heap_index (tm' t) = 0, h2, tm')"
    unfolding grpc_timer_heap_add_def unfolding grown unfolding Let_def
    using up(1) h1(1) cap h(2) by (simp add: i_def [symmetric] h2_def)
  have ok: "timer_heap_ok h2 tm' \<and> pending h2 = set ?ys \<and> (\<forall>q. deadline (tm' q) = ?d q)"
    by (rule timer_heap_okI [OF _ _ _ _ zs(1) ys(4) up(2), of _ rest1])
      (use lz h1(2,3) cap(3) len1 in \<open>simp_all add: h2_def i_def\<close>)
  obtain j where j: "j < length zs" "zs ! j = t" using zs(1) by (metis in_set_conv_nth mset_eq_setD in_set_conv_decomp)
  have root: "heap_index (tm' t) = 0 \<longleftrightarrow> zs ! 0 = t" using zs(3) [OF j(1)] zs(3) [of 0] lz j by auto
  have "zs ! 0 = t \<longleftrightarrow> (\<forall>q \<in> set xs. ?d t < ?d q)"
  proof
    assume t: "zs ! 0 = t"
    show "\<forall>q \<in> set xs. ?d t < ?d q"
    proof
      fix q assume "q \<in> set xs"
      then obtain k where k: "k < length xs" "xs ! k = q" by (auto simp: in_set_conv_nth)
      have "?d (xs ! 0) \<le> ?d q" using heap_order_root [OF h(6) k(1)] k(2) by simp
      moreover have "0 < i" using k(1) unfolding i_def by linarith
      ultimately show "?d t < ?d q" using up(3) t k(1) by (auto simp: nth_append i_def)
    qed
  next
    assume a: "\<forall>q \<in> set xs. ?d t < ?d q"
    have "zs ! 0 \<in> set ?ys" using lz zs(1) by (metis mset_eq_setD nth_mem zero_less_Suc)
    moreover have "?d (zs ! 0) \<le> ?d t" using heap_order_root [OF zs(2) j(1)] j(2) by simp
    ultimately show "zs ! 0 = t" using a by force
  qed
  then show ?thesis using add ok root h(8) by auto
qed

lemma shrink_ok:
  assumes "timers h = map Some xs @ rest" "length xs = timer_count h" "length (timers h) = timer_capacity h" "timer_capacity h < 2 ^ 31"
  shows "\<exists>rest'. timers (maybe_shrink h) = map Some xs @ rest' \<and> timer_count (maybe_shrink h) = timer_count h \<and>
    length (timers (maybe_shrink h)) = timer_capacity (maybe_shrink h) \<and> timer_capacity (maybe_shrink h) \<le> timer_capacity h"
proof (cases "timer_count h \<ge> 8 \<and> timer_count h \<le> timer_capacity h div SHRINK_FULLNESS_FACTOR div 2")
  case True
  then have "timer_count h * 4 \<le> timer_capacity h" unfolding SHRINK_FULLNESS_FACTOR_def by linarith
  then have c: "timer_count h * 2 mod uint32_modulus = timer_count h * 2" "timer_count h * 2 \<le> timer_capacity h"
    using assms(4) by (simp_all add: SHRINK_FULLNESS_FACTOR_def)
  have "take (timer_count h * 2) (map Some xs @ rest) = map Some xs @ take (timer_count h) rest" using assms(2) by simp
  moreover have "length rest = timer_capacity h - timer_count h" using assms(1-3) arg_cong [OF assms(1), of length] by simp
  ultimately show ?thesis
    using True c assms(1-3) by (simp add: maybe_shrink_def gpr_realloc_timers_def SHRINK_FULLNESS_FACTOR_def)
next
  case False
  then show ?thesis using assms by (auto simp: maybe_shrink_def)
qed

lemma note_changed_ok:
  assumes "timers h = map Some xs @ rest" "length xs = timer_count h" "length xs \<le> 2 ^ 31" "distinct xs" "i < length xs"
    and "\<And>k. k < length xs \<Longrightarrow> heap_index (tm (xs ! k)) = k" "\<And>q. deadline (tm q) = d q" "rising d xs i \<or> sinking d xs i"
    and "0 < i \<Longrightarrow> d (xs ! par i) > d (xs ! i) \<Longrightarrow> rising d xs i" "(0 < i \<Longrightarrow> d (xs ! par i) \<le> d (xs ! i)) \<Longrightarrow> sinking d xs i"
  shows "\<exists>xs' tm'. note_changed_priority h (xs ! i) tm = Some (h\<lparr>timers := map Some xs' @ rest\<rparr>, tm') \<and> settled d xs tm xs' tm'"
proof -
  have p: "par i < length xs" "parent_index i = par i" using assms(3,5) by (auto simp: parent_index)
  have at: "slot (timers h) (par i) = Some (xs ! par i)" "heap_index (tm (xs ! i)) = i"
    using p(1) assms(1,5,6) by (auto simp: slot_def nth_append)
  have view: "(timers h)[i := Some (xs ! i)] = map Some xs @ rest"
    using assms(5) by (simp add: assms(1) list_update_append1 map_update [symmetric])
  have ix: "indexed tm xs i" using assms(6) by (auto simp: indexed_def)
  show ?thesis
  proof (cases "d (xs ! par i) > d (xs ! i)")
    case True
    then have "0 < i" by (cases i) auto
    from adjust_upwards_ok [OF view assms(5) refl assms(3,4) assms(9) [OF this True] assms(7) ix]
    show ?thesis using True at p(2) assms(7) by (auto simp: note_changed_priority_def Let_def)
  next
    case False
    have "sinking d xs i" using assms(10) False by auto
    from adjust_downwards_ok [OF view assms(5) refl assms(3,4) this assms(7) ix]
    show ?thesis using False at p(2) assms(2,7) by (auto simp: note_changed_priority_def Let_def)
  qed
qed

text \<open>Replacing the element at \<open>i\<close> of a heap breaks the order at \<open>i\<close> only.\<close>

lemma heap_order_update:
  assumes "heap_order d xs" "i < length xs"
  shows "0 < i \<Longrightarrow> d (xs[i := t] ! par i) > d (xs[i := t] ! i) \<Longrightarrow> rising d (xs[i := t]) i"
    "(0 < i \<Longrightarrow> d (xs[i := t] ! par i) \<le> d (xs[i := t] ! i)) \<Longrightarrow> sinking d (xs[i := t]) i"
proof -
  let ?ys = "xs[i := t]"
  have e: "d (xs ! par k) \<le> d (xs ! k)" if "0 < k" "k < length xs" for k using assms(1) that by (simp add: heap_order_def)
  have other: "?ys ! k = xs ! k" if "k \<noteq> i" for k using that by simp
  have grand: "d (?ys ! par i) \<le> d (?ys ! k)" if i: "0 < i" and k: "0 < k" "k < length xs" "par k = i" for k
  proof -
    have "par i \<noteq> i" "k \<noteq> i" using par_less [OF i] par_less [OF k(1)] k(3) by linarith+
    moreover have "d (xs ! par i) \<le> d (xs ! i)" "d (xs ! i) \<le> d (xs ! k)" using e [of i] e [of k] i k assms(2) by auto
    ultimately show ?thesis using other by (metis order_trans)
  qed
  have far: "d (?ys ! par k) \<le> d (?ys ! k)" if "0 < k" "k < length xs" "k \<noteq> i" "par k \<noteq> i" for k
    using e [of k] that other by metis
  {
    assume i: "0 < i" "d (?ys ! par i) > d (?ys ! i)"
    have "d (?ys ! par k) \<le> d (?ys ! k)" if "0 < k" "k < length xs" "k \<noteq> i" for k
    proof (cases "par k = i")
      case True
      then show ?thesis using grand [OF i(1) that(1,2) True] i(2) by (metis less_imp_le order_trans)
    next
      case False
      then show ?thesis using far that by blast
    qed
    then show "rising d ?ys i" using grand by (simp only: rising_def length_list_update) blast
  next
    assume i: "0 < i \<Longrightarrow> d (?ys ! par i) \<le> d (?ys ! i)"
    have "d (?ys ! par k) \<le> d (?ys ! k)" if "0 < k" "k < length xs" "par k \<noteq> i" for k
      using far i that by blast
    then show "sinking d ?ys i" using grand by (simp only: sinking_def length_list_update) blast
  }
qed

lemma remove_ok:
  assumes "timer_heap_ok h tm" "t \<in> pending h"
  shows "\<exists>h' tm'. grpc_timer_heap_remove h t tm = Some (h', tm') \<and> timer_heap_ok h' tm' \<and> pending h' = pending h - {t} \<and>
    (\<forall>q. deadline (tm' q) = deadline (tm q))"
proof -
  let ?d = "\<lambda>q. deadline (tm q)"
  obtain xs rest where h: "timers h = map Some xs @ rest" "length xs = timer_count h" "length (timers h) = timer_capacity h"
    "timer_capacity h < 2 ^ 31" "distinct xs" "heap_order ?d xs" "\<And>k. k < length xs \<Longrightarrow> heap_index (tm (xs ! k)) = k"
    "pending h = set xs" using timer_heap_okD [OF assms(1)] by metis
  obtain i where i: "i < length xs" "xs ! i = t" "heap_index (tm t) = i" using assms(2) h(7,8) by (auto simp: in_set_conv_nth)
  define n where "n = length xs - 1"
  obtain ys l where ys: "xs = ys @ [l]" using i(1) by (cases xs rule: rev_cases) auto
  have n: "n = length ys" "timer_count h = Suc n" using ys h(2) by (simp_all add: n_def)
  have cnt: "(timer_count h + uint32_modulus - 1) mod uint32_modulus = n"
  proof -
    have "n < uint32_modulus" using h(2-4) arg_cong [OF h(1), of length] n(2) by simp
    then show ?thesis using n(2) by simp
  qed
  have front: "heap_order ?d ys" "distinct ys" "l \<notin> set ys" using h(5,6) heap_order_front unfolding ys by auto
  have capn: "length ys \<le> timer_capacity h" "length ys \<le> 2 ^ 31"
    using h(2-4) arg_cong [OF h(1), of length] n by auto
  show ?thesis
  proof (cases "i = n")
    case True
    have t: "t = l" using i True n ys by (simp add: nth_append)
    define h1 where "h1 = h\<lparr>timer_count := n\<rparr>"
    have h1: "timers h1 = map Some ys @ Some l # rest" "length ys = timer_count h1" "length (timers h1) = timer_capacity h1"
      "timer_capacity h1 < 2 ^ 31" using h(1,3,4) n by (simp_all add: h1_def ys)
    obtain rest' where sh: "timers (maybe_shrink h1) = map Some ys @ rest'" "timer_count (maybe_shrink h1) = length ys"
      "length (timers (maybe_shrink h1)) = timer_capacity (maybe_shrink h1)" "timer_capacity (maybe_shrink h1) < 2 ^ 31"
      using shrink_ok [OF h1] h1(2,4) by auto
    have "heap_index (tm (ys ! k)) = k" if "k < length ys" for k using h(7) [of k] that by (simp add: ys nth_append)
    then have "settled ?d ys tm ys tm" using front(1) by (auto simp: settled_def)
    from timer_heap_okI [OF sh(1) sh(2) [symmetric] sh(3,4) refl front(2) this]
    have "timer_heap_ok (maybe_shrink h1) tm \<and> pending (maybe_shrink h1) = set ys" by simp
    moreover have "grpc_timer_heap_remove h t tm = Some (maybe_shrink h1, tm)"
      using True i(3) cnt unfolding grpc_timer_heap_remove_def by (simp add: h1_def)
    ultimately show ?thesis using h(8) ys t front(3) by auto
  next
    case False
    then have i': "i < length ys" "ys ! i = t" using i n ys by (auto simp: nth_append)
    let ?zs = "ys[i := l]" and ?tm = "set_index l i tm"
    define h1 where "h1 = h\<lparr>timers := (timers h)[i := Some l], timer_count := n\<rparr>"
    have h1: "timers h1 = map Some ?zs @ Some l # rest" "length ?zs = timer_count h1" "length (timers h1) = timer_capacity h1"
      "timer_capacity h1 < 2 ^ 31"
      using h(1,3,4) n i' by (simp_all add: h1_def ys list_update_append1 map_update)
    obtain rest' where sh: "timers (maybe_shrink h1) = map Some ?zs @ rest'" "timer_count (maybe_shrink h1) = length ?zs"
      "length (timers (maybe_shrink h1)) = timer_capacity (maybe_shrink h1)" "timer_capacity (maybe_shrink h1) < 2 ^ 31"
      using shrink_ok [OF h1] h1(2,4) by auto
    have z: "distinct ?zs" "length ?zs \<le> 2 ^ 31" "i < length ?zs" "?zs ! i = l" "set ?zs = set xs - {t}"
      using front(2,3) capn(2) i' h(5) by (auto simp: distinct_list_update set_update_distinct ys)
    have ix: "heap_index (?tm (?zs ! k)) = k" if "k < length ?zs" for k
      using that h(7) [of k] front(3) i' by (auto simp: ys nth_append nth_list_update set_index_def)
    have dl: "deadline (?tm q) = ?d q" for q by simp
    note upd = heap_order_update [OF front(1) i'(1), of l]
    have either: "rising ?d ?zs i \<or> sinking ?d ?zs i"
      using upd by (meson not_le)
    obtain zs' tm' where nc: "note_changed_priority (maybe_shrink h1) (?zs ! i) ?tm =
        Some ((maybe_shrink h1)\<lparr>timers := map Some zs' @ rest'\<rparr>, tm')" "settled ?d ?zs ?tm zs' tm'"
      using note_changed_ok [OF sh(1) sh(2) [symmetric] z(2,1,3) ix dl either upd] by blast
    have mz: "mset zs' = mset ?zs" using nc(2) by (simp add: settled_def)
    have lz: "length zs' = length ?zs" using mset_eq_length [OF mz] by simp
    define h2 where "h2 = (maybe_shrink h1)\<lparr>timers := map Some zs' @ rest'\<rparr>"
    have h2: "timers h2 = map Some zs' @ rest'" "length zs' = timer_count h2" "length (timers h2) = timer_capacity h2" "timer_capacity h2 < 2 ^ 31"
      using sh lz arg_cong [OF sh(1), of length] by (simp_all add: h2_def)
    from timer_heap_okI [OF h2 mz z(1) nc(2)]
    have ok: "timer_heap_ok h2 tm' \<and> pending h2 = set ?zs \<and> (\<forall>q. deadline (tm' q) = ?d q)" .
    have s: "slot (timers h) n = Some l" "store_slot i l (timers h) = Some ((timers h)[i := Some l])"
      "slot (timers (maybe_shrink h1)) i = Some l"
      using h(1) n i' z(3,4) sh(1) by (auto simp: slot_def store_slot_def ys nth_append)
    have "grpc_timer_heap_remove h t tm = Some (h2, tm')"
      using False i(3) s nc(1) z(4) unfolding grpc_timer_heap_remove_def cnt Let_def h1_def h2_def by simp
    then show ?thesis using ok z(5) h(8) by auto
  qed
qed

section \<open>Properties\<close>

lemma timer_heap_top:
  assumes "timer_heap_ok h tm" "pending h \<noteq> {}"
  shows "\<exists>t. grpc_timer_heap_top h = Some t \<and> t \<in> pending h \<and> (\<forall>q \<in> pending h. deadline (tm t) \<le> deadline (tm q))"
proof -
  obtain xs rest where h: "timers h = map Some xs @ rest" "heap_order (\<lambda>q. deadline (tm q)) xs" "pending h = set xs"
    using timer_heap_okD [OF assms(1)] by metis
  have "0 < length xs" using assms(2) h(3) by auto
  then have "grpc_timer_heap_top h = Some (xs ! 0)" "xs ! 0 \<in> set xs" using h(1) by (auto simp: grpc_timer_heap_top_def slot_def nth_append)
  then show ?thesis using heap_order_root [OF h(2)] h(3) by (auto simp: in_set_conv_nth)
qed

lemma pop_ok:
  assumes "timer_heap_ok h tm" "pending h \<noteq> {}"
  shows "\<exists>t h' tm'. grpc_timer_heap_top h = Some t \<and> t \<in> pending h \<and> (\<forall>q \<in> pending h. deadline (tm t) \<le> deadline (tm q)) \<and>
    grpc_timer_heap_pop h tm = Some (h', tm') \<and> timer_heap_ok h' tm' \<and> pending h' = pending h - {t} \<and>
    (\<forall>q. deadline (tm' q) = deadline (tm q))"
proof -
  obtain t where t: "grpc_timer_heap_top h = Some t" "t \<in> pending h" "\<forall>q \<in> pending h. deadline (tm t) \<le> deadline (tm q)"
    using timer_heap_top [OF assms] by blast
  from remove_ok [OF assms(1) t(2)] t show ?thesis by (auto simp: grpc_timer_heap_pop_def)
qed

text \<open>The steps of a heap: adding a timer that is not pending, removing one that is, and taking the first one.\<close>

inductive timer_step :: "grpc_timer_heap \<times> timer_store \<Rightarrow> grpc_timer_heap \<times> timer_store \<Rightarrow> bool" where
  add_step: "t \<notin> pending h \<Longrightarrow> timer_capacity h * 3 < 2 ^ 31 \<Longrightarrow> grpc_timer_heap_add h t tm = Some (r, h', tm') \<Longrightarrow>
    timer_step (h, tm) (h', tm')"
| remove_step: "t \<in> pending h \<Longrightarrow> grpc_timer_heap_remove h t tm = Some s \<Longrightarrow> timer_step (h, tm) s"
| pop_step: "\<not> grpc_timer_heap_is_empty h \<Longrightarrow> grpc_timer_heap_pop h tm = Some s \<Longrightarrow> timer_step (h, tm) s"

lemma empty_pending: "timer_heap_ok h tm \<Longrightarrow> grpc_timer_heap_is_empty h \<longleftrightarrow> pending h = {}"
  by (auto simp: timer_heap_ok_def grpc_timer_heap_is_empty_def pending_def)

lemma timer_step_ok: "timer_step s s' \<Longrightarrow> timer_heap_ok (fst s) (snd s) \<Longrightarrow> timer_heap_ok (fst s') (snd s')"
proof (induction rule: timer_step.induct)
  case (add_step t h tm r h' tm')
  then show ?case using add_ok [of h tm t] by auto
next
  case (remove_step t h tm s)
  then show ?case using remove_ok [of h tm t] by auto
next
  case (pop_step h tm s)
  then show ?case using pop_ok [of h tm] empty_pending [of h tm] by auto
qed

text \<open>C13: The timer heap is a priority queue in every state that operations reach from an empty heap: the next operation does not
  fault, it adds or removes one timer and keeps the deadlines of all, \<^verbatim>\<open>grpc_timer_heap_add\<close> says whether the new timer is now the
  earliest one, and the top is a timer with the least deadline.\<close>

theorem timer_heap_is_priority_queue:
  assumes "timer_step\<^sup>*\<^sup>* (grpc_timer_heap_init, tm0) (h, tm)"
  shows "(t \<notin> pending h \<and> timer_capacity h * 3 < 2 ^ 31 \<longrightarrow>
      (\<exists>r h' tm'. grpc_timer_heap_add h t tm = Some (r, h', tm') \<and> pending h' = insert t (pending h) \<and>
        (\<forall>q. deadline (tm' q) = deadline (tm q)) \<and> (r \<longleftrightarrow> (\<forall>q \<in> pending h. deadline (tm t) < deadline (tm q))))) \<and>
    (t \<in> pending h \<longrightarrow>
      (\<exists>h' tm'. grpc_timer_heap_remove h t tm = Some (h', tm') \<and> pending h' = pending h - {t} \<and> (\<forall>q. deadline (tm' q) = deadline (tm q)))) \<and>
    (\<not> grpc_timer_heap_is_empty h \<longrightarrow>
      (\<exists>u. grpc_timer_heap_top h = Some u \<and> u \<in> pending h \<and> (\<forall>q \<in> pending h. deadline (tm u) \<le> deadline (tm q))))"
proof -
  have ok: "timer_heap_ok h tm"
    using assms
  proof (induction rule: rtranclp_induct2)
    case refl
    show ?case by (simp add: timer_heap_ok_def grpc_timer_heap_init_def heap_order_def)
  next
    case (step h1 tm1 h2 tm2)
    then show ?case using timer_step_ok by fastforce
  qed
  show ?thesis
  proof (intro conjI impI)
    assume t: "t \<notin> pending h \<and> timer_capacity h * 3 < 2 ^ 31"
    show "\<exists>r h' tm'. grpc_timer_heap_add h t tm = Some (r, h', tm') \<and> pending h' = insert t (pending h) \<and>
        (\<forall>q. deadline (tm' q) = deadline (tm q)) \<and> (r \<longleftrightarrow> (\<forall>q \<in> pending h. deadline (tm t) < deadline (tm q)))"
      using add_ok [OF ok conjunct1 [OF t] conjunct2 [OF t]] by blast
  next
    assume "t \<in> pending h"
    from remove_ok [OF ok this]
    show "\<exists>h' tm'. grpc_timer_heap_remove h t tm = Some (h', tm') \<and> pending h' = pending h - {t} \<and>
        (\<forall>q. deadline (tm' q) = deadline (tm q))" by blast
  next
    assume "\<not> grpc_timer_heap_is_empty h"
    then show "\<exists>u. grpc_timer_heap_top h = Some u \<and> u \<in> pending h \<and> (\<forall>q \<in> pending h. deadline (tm u) \<le> deadline (tm q))"
      using timer_heap_top [OF ok] empty_pending [OF ok] by blast
  qed
qed

theorem timer_heap_is_priority_queue_witness:
  "\<exists>r h' tm'. grpc_timer_heap_add grpc_timer_heap_init 5 (\<lambda>t. \<lparr>deadline = int t, heap_index = 7\<rparr>) = Some (r, h', tm') \<and> pending h' = {5} \<and> r"
  using timer_heap_is_priority_queue [of "\<lambda>t. \<lparr>deadline = int t, heap_index = 7\<rparr>" grpc_timer_heap_init
      "\<lambda>t. \<lparr>deadline = int t, heap_index = 7\<rparr>" 5, OF rtranclp.rtrancl_refl]
  by (auto simp: grpc_timer_heap_init_def pending_def)

text \<open>The deadlines of the timers in the order in which popping delivers them.\<close>

primrec pop_all :: "nat \<Rightarrow> grpc_timer_heap \<Rightarrow> timer_store \<Rightarrow> nat list option" where
  "pop_all 0 h tm = Some []"
| "pop_all (Suc n) h tm = do {
     t \<leftarrow> grpc_timer_heap_top h;
     (h, tm) \<leftarrow> grpc_timer_heap_pop h tm;
     ts \<leftarrow> pop_all n h tm;
     Some (t # ts)
   }"

lemma card_pending: "timer_heap_ok h tm \<Longrightarrow> card (pending h) = timer_count h"
proof (erule timer_heap_okD)
  fix xs :: "nat list"
  assume "length xs = timer_count h" "distinct xs" "pending h = set xs"
  then show "card (pending h) = timer_count h" by (simp add: distinct_card)
qed

text \<open>C29: Popping a heap until it is empty delivers every pending timer exactly once, in order of deadline.\<close>

theorem timers_fire_in_order:
  assumes "timer_heap_ok h tm"
  shows "\<exists>ts. pop_all (timer_count h) h tm = Some ts \<and> set ts = pending h \<and> distinct ts \<and>
    sorted_wrt (\<lambda>p q. deadline (tm p) \<le> deadline (tm q)) ts"
  using assms
proof (induction "timer_count h" arbitrary: h tm)
  case 0
  then show ?case using card_pending [OF 0(2)] by (auto simp: pending_def)
next
  case (Suc n)
  have "pending h \<noteq> {}" using card_pending [OF Suc(3)] Suc(2) by auto
  from pop_ok [OF Suc(3) this] obtain t h' tm' where t: "grpc_timer_heap_top h = Some t" "t \<in> pending h"
    "\<forall>q \<in> pending h. deadline (tm t) \<le> deadline (tm q)" "grpc_timer_heap_pop h tm = Some (h', tm')" "timer_heap_ok h' tm'"
    "pending h' = pending h - {t}" "\<And>q. deadline (tm' q) = deadline (tm q)" by blast
  have "finite (pending h)" by (simp add: pending_def)
  then have "timer_count h' = n"
    using card_pending [OF Suc(3)] card_pending [OF t(5)] Suc(2) t(2,6) by (metis card_Diff_singleton diff_Suc_1)
  with Suc(1) [of h' tm'] t(5) obtain ts where ts: "pop_all n h' tm' = Some ts" "set ts = pending h'" "distinct ts"
    "sorted_wrt (\<lambda>p q. deadline (tm' p) \<le> deadline (tm' q)) ts" by blast
  have "pop_all (timer_count h) h tm = Some (t # ts)" using Suc(2) [symmetric] t(1,4) ts(1) by simp
  moreover have "sorted_wrt (\<lambda>p q. deadline (tm p) \<le> deadline (tm q)) (t # ts)" using ts(2,4) t(3,6,7) by auto
  ultimately show ?case using ts(2,3) t(2,6) by auto
qed

theorem timers_fire_in_order_witness:
  "pop_all 3 \<lparr>timers = [Some 4, Some 9, Some 6, None], timer_count = 3, timer_capacity = 4\<rparr>
     (\<lambda>t. \<lparr>deadline = int t, heap_index = (if t = 9 then 1 else if t = 6 then 2 else 0)\<rparr>) = Some [4, 6, 9]"
proof -
  let ?h = "\<lparr>timers = [Some 4, Some 9, Some 6, None], timer_count = 3, timer_capacity = 4\<rparr>"
    and ?tm = "\<lambda>t :: nat. \<lparr>deadline = int t, heap_index = (if t = 9 then 1 else if t = 6 then 2 else 0)\<rparr>"
  have "timer_heap_ok ?h ?tm"
    unfolding timer_heap_ok_def
    by (rule exI [of _ "[4, 9, 6]"], rule exI [of _ "[None]"])
      (auto simp: heap_order_def less_Suc_eq numeral_3_eq_3)
  from timers_fire_in_order [OF this] obtain ts where ts: "pop_all 3 ?h ?tm = Some ts" "set ts = {4, 6, 9}" "distinct ts"
    "sorted_wrt (\<lambda>p q. int p \<le> int q) ts" by (auto simp: pending_def numeral_3_eq_3)
  have "sorted ts" using ts(4) by (simp add: sorted_wrt_iff_nth_less)
  then have "ts = [4, 6, 9]" using ts(2,3) by (intro sorted_distinct_set_unique) auto
  then show ?thesis using ts(1) by simp
qed

end
