(* ===== verification/Nanopb.thy ===== *)
theory Nanopb
  imports Mem
begin

text \<open>
  The wire format of protocol buffers (nanopb, \<^verbatim>\<open>pb_decode.c\<close> and \<^verbatim>\<open>pb_encode.c\<close>): streams, variable-length integers, tags,
  strings, and the functions that move one scalar field between a message structure and a stream.

  \<^item> An input stream from a buffer is the memory from its read pointer on and the number of bytes that may still be read. An output
    stream is the memory it writes to with the write pointer, or no memory for a stream that only counts (\<^verbatim>\<open>callback == NULL\<close>).
    Streams with other callbacks and the error messages are not modelled.
  \<^item> The configuration is that of the project: \<^verbatim>\<open>PB_FIELD_32BIT\<close> and \<^verbatim>\<open>PB_ENABLE_MALLOC\<close>. \<^verbatim>\<open>uint_fast8_t\<close> has 8 bits on the target.
  \<^item> A member of a message structure is its bytes in memory, least significant first.
\<close>

section \<open>Input streams\<close>

record pb_istream =
  is_state :: "byte list"
  bytes_left :: nat

definition pb_istream_from_buffer :: "byte list \<Rightarrow> nat \<Rightarrow> pb_istream" where
  "pb_istream_from_buffer buf bufsize = \<lparr>is_state = buf, bytes_left = bufsize\<rparr>"

definition buf_read :: "nat \<Rightarrow> (pb_istream, byte list) act" where
  "buf_read count stream = (Some (take count (is_state stream)), stream\<lparr>is_state := drop count (is_state stream)\<rparr>)"

definition pb_read :: "nat \<Rightarrow> (pb_istream, byte list) act" where
  "pb_read count stream =
     (if count = 0 then (Some [], stream)
      else if bytes_left stream < count then (None, stream)
      else bind_act (buf_read count) (\<lambda>buf stream. (Some buf, stream\<lparr>bytes_left := bytes_left stream - count\<rparr>)) stream)"

definition pb_readbyte :: "(pb_istream, byte) act" where
  "pb_readbyte stream =
     (if bytes_left stream = 0 then (None, stream)
      else bind_act (buf_read 1) (\<lambda>buf stream. (Some (buf ! 0), stream\<lparr>bytes_left := bytes_left stream - 1\<rparr>)) stream)"

lemma pb_readbyte_less: "pb_readbyte s = (Some b, s') \<Longrightarrow> bytes_left s' < bytes_left s"
  by (auto simp: pb_readbyte_def buf_read_def bind_act_def split: if_splits)

lemma pb_read_less: "pb_read (Suc 0) s = (Some b, s') \<Longrightarrow> bytes_left s' < bytes_left s"
  by (auto simp: pb_read_def buf_read_def bind_act_def split: if_splits)

text \<open>The loop of \<^verbatim>\<open>pb_decode_varint32_eof\<close>: the result, the bit position and the last byte when it ends.\<close>

function varint32_loop :: "nat \<Rightarrow> u32 \<Rightarrow> (pb_istream, u32 \<times> nat \<times> byte) act" where
  "varint32_loop bitpos result stream =
     (case pb_readbyte stream of
        (None, stream) \<Rightarrow> (None, stream)
      | (Some byte, stream) \<Rightarrow>
          let sign_extension = (if bitpos < 63 then 0xff else 0x01 :: byte)
          in if bitpos \<ge> 32 \<and> byte AND 0x7f \<noteq> 0 \<and> (drop_bit 31 result = 0 \<or> byte \<noteq> sign_extension) then (None, stream)
             else
               let result = (if bitpos \<ge> 32 then result else result OR push_bit bitpos (ucast (byte AND 0x7f)));
                   bitpos = (bitpos + 7) mod 256
               in if byte AND 0x80 \<noteq> 0 then varint32_loop bitpos result stream else (Some (result, bitpos, byte), stream))"
  by pat_completeness auto
termination
  by (relation "measure (\<lambda>(_, _, s). bytes_left s)") (auto dest: pb_readbyte_less [OF sym] pb_readbyte_less)

text \<open>The second component says whether \<^verbatim>\<open>eof\<close> is set.\<close>

definition pb_decode_varint32_eof :: "pb_istream \<Rightarrow> (u32 option \<times> bool) \<times> pb_istream" where
  "pb_decode_varint32_eof stream =
     (case pb_readbyte stream of
        (None, stream) \<Rightarrow> ((None, bytes_left stream = 0), stream)
      | (Some byte, stream) \<Rightarrow>
          if byte AND 0x80 = 0 then ((Some (ucast byte), False), stream)
          else
            (case varint32_loop 7 (ucast (byte AND 0x7f)) stream of
               (None, stream) \<Rightarrow> ((None, False), stream)
             | (Some (result, bitpos, byte), stream) \<Rightarrow>
                 if bitpos = 35 \<and> byte AND 0x70 \<noteq> 0 then ((None, False), stream)
                 else ((Some result, False), stream)))"

definition pb_decode_varint32 :: "(pb_istream, u32) act" where
  "pb_decode_varint32 stream = (case pb_decode_varint32_eof stream of ((r, _), stream) \<Rightarrow> (r, stream))"

function varint_loop :: "nat \<Rightarrow> u64 \<Rightarrow> (pb_istream, u64) act" where
  "varint_loop bitpos result stream =
     (if bitpos \<ge> 64 then (None, stream)
      else
        case pb_readbyte stream of
          (None, stream) \<Rightarrow> (None, stream)
        | (Some byte, stream) \<Rightarrow>
            let result = result OR push_bit bitpos (ucast (byte AND 0x7f));
                bitpos = (bitpos + 7) mod 256
            in if byte AND 0x80 \<noteq> 0 then varint_loop bitpos result stream else (Some result, stream))"
  by pat_completeness auto
termination
  by (relation "measure (\<lambda>(_, _, s). bytes_left s)") (auto dest: pb_readbyte_less [OF sym] pb_readbyte_less)

declare varint32_loop.simps [simp del] varint_loop.simps [simp del]

definition pb_decode_varint :: "(pb_istream, u64) act" where
  "pb_decode_varint = varint_loop 0 0"

function pb_skip_varint :: "(pb_istream, unit) act" where
  "pb_skip_varint stream =
     (case pb_read 1 stream of
        (None, stream) \<Rightarrow> (None, stream)
      | (Some buf, stream) \<Rightarrow> if buf ! 0 AND 0x80 \<noteq> 0 then pb_skip_varint stream else (Some (), stream))"
  by pat_completeness auto
termination
  by (relation "measure bytes_left") (auto dest: pb_read_less [OF sym] pb_read_less)

declare pb_skip_varint.simps [simp del]

definition pb_skip_string :: "(pb_istream, unit) act" where
  "pb_skip_string = bind_act pb_decode_varint32 (\<lambda>len. bind_act (pb_read (unat len)) (\<lambda>_. ret_act ()))"

definition PB_WT_VARINT :: nat where "PB_WT_VARINT = 0"
definition PB_WT_64BIT :: nat where "PB_WT_64BIT = 1"
definition PB_WT_STRING :: nat where "PB_WT_STRING = 2"
definition PB_WT_32BIT :: nat where "PB_WT_32BIT = 5"

lemmas wire_types = PB_WT_VARINT_def PB_WT_64BIT_def PB_WT_STRING_def PB_WT_32BIT_def

text \<open>The wire type, the tag, and whether \<^verbatim>\<open>eof\<close> is set.\<close>

definition pb_decode_tag :: "pb_istream \<Rightarrow> ((nat \<times> u32) option \<times> bool) \<times> pb_istream" where
  "pb_decode_tag stream =
     (case pb_decode_varint32_eof stream of
        ((None, eof), stream) \<Rightarrow> ((None, eof), stream)
      | ((Some temp, eof), stream) \<Rightarrow>
          if temp = 0 then ((None, True), stream)
          else ((Some (unat (temp AND 7), drop_bit 3 temp), eof), stream))"

definition pb_skip_field :: "nat \<Rightarrow> (pb_istream, unit) act" where
  "pb_skip_field wire_type =
     (if wire_type = PB_WT_VARINT then pb_skip_varint
      else if wire_type = PB_WT_64BIT then bind_act (pb_read 8) (\<lambda>_. ret_act ())
      else if wire_type = PB_WT_STRING then pb_skip_string
      else if wire_type = PB_WT_32BIT then bind_act (pb_read 4) (\<lambda>_. ret_act ())
      else fail_act)"

text \<open>The bytes of a varint, which the caller's buffer of \<open>max_size\<close> bytes has to hold.\<close>

function raw_varint :: "nat \<Rightarrow> nat \<Rightarrow> (pb_istream, byte list) act" where
  "raw_varint max_size n stream =
     (if n + 1 > max_size then (None, stream)
      else
        case pb_read 1 stream of
          (None, stream) \<Rightarrow> (None, stream)
        | (Some buf, stream) \<Rightarrow>
            if buf ! 0 AND 0x80 \<noteq> 0 then
              (case raw_varint max_size (n + 1) stream of
                 (None, stream) \<Rightarrow> (None, stream)
               | (Some rest, stream) \<Rightarrow> (Some (buf @ rest), stream))
            else (Some buf, stream))"
  by pat_completeness auto
termination
  by (relation "measure (\<lambda>(_, _, s). bytes_left s)") (auto dest: pb_read_less [OF sym] pb_read_less)

declare raw_varint.simps [simp del]

definition read_raw_value :: "nat \<Rightarrow> nat \<Rightarrow> (pb_istream, byte list) act" where
  "read_raw_value wire_type max_size =
     (if wire_type = PB_WT_VARINT then raw_varint max_size 0
      else if wire_type = PB_WT_64BIT then pb_read 8
      else if wire_type = PB_WT_32BIT then pb_read 4
      else fail_act)"

text \<open>The substream and, as the new state, the parent stream; the parent has given up the bytes of the substream but its pointer
  still stands before them until the substream is closed.\<close>

definition pb_make_string_substream :: "(pb_istream, pb_istream) act" where
  "pb_make_string_substream =
     bind_act pb_decode_varint32 (\<lambda>len stream.
       if bytes_left stream < unat len then (None, stream)
       else (Some (stream\<lparr>bytes_left := unat len\<rparr>), stream\<lparr>bytes_left := bytes_left stream - unat len\<rparr>))"

definition pb_close_string_substream :: "pb_istream \<Rightarrow> (pb_istream, unit) act" where
  "pb_close_string_substream substream stream =
     (if bytes_left substream \<noteq> 0 then
        (case pb_read (bytes_left substream) substream of
           (None, _) \<Rightarrow> (None, stream)
         | (Some _, substream) \<Rightarrow> (Some (), stream\<lparr>is_state := is_state substream\<rparr>))
      else (Some (), stream\<lparr>is_state := is_state substream\<rparr>))"

text \<open>The value is cast to \<^verbatim>\<open>int64_t\<close>, which keeps its bits.\<close>

definition pb_decode_svarint :: "(pb_istream, u64) act" where
  "pb_decode_svarint =
     bind_act pb_decode_varint (\<lambda>value.
       ret_act (if value AND 1 \<noteq> 0 then NOT (drop_bit 1 value) else drop_bit 1 value))"

definition pb_decode_fixed32 :: "(pb_istream, u32) act" where
  "pb_decode_fixed32 =
     bind_act (pb_read 4) (\<lambda>bytes.
       ret_act (push_bit 0 (ucast (bytes ! 0)) OR push_bit 8 (ucast (bytes ! 1)) OR
         push_bit 16 (ucast (bytes ! 2)) OR push_bit 24 (ucast (bytes ! 3))))"

definition pb_decode_fixed64 :: "(pb_istream, u64) act" where
  "pb_decode_fixed64 =
     bind_act (pb_read 8) (\<lambda>bytes.
       ret_act (push_bit 0 (ucast (bytes ! 0)) OR push_bit 8 (ucast (bytes ! 1)) OR
         push_bit 16 (ucast (bytes ! 2)) OR push_bit 24 (ucast (bytes ! 3)) OR
         push_bit 32 (ucast (bytes ! 4)) OR push_bit 40 (ucast (bytes ! 5)) OR
         push_bit 48 (ucast (bytes ! 6)) OR push_bit 56 (ucast (bytes ! 7))))"

section \<open>Output streams\<close>

text \<open>\<open>os_state\<close> is the memory with the index of the write pointer.\<close>

record pb_ostream =
  os_state :: "(byte list \<times> nat) option"
  max_size :: nat
  bytes_written :: nat

definition pb_ostream_from_buffer :: "byte list \<Rightarrow> nat \<Rightarrow> pb_ostream" where
  "pb_ostream_from_buffer buf bufsize = \<lparr>os_state = Some (buf, 0), max_size = bufsize, bytes_written = 0\<rparr>"

definition PB_OSTREAM_SIZING :: pb_ostream where
  "PB_OSTREAM_SIZING = \<lparr>os_state = None, max_size = 0, bytes_written = 0\<rparr>"

definition buf_write :: "byte list \<Rightarrow> pb_ostream \<Rightarrow> pb_ostream" where
  "buf_write buf stream = stream\<lparr>os_state := map_option (\<lambda>(mem, i). (blit i buf mem, i + length buf)) (os_state stream)\<rparr>"

definition pb_write :: "byte list \<Rightarrow> (pb_ostream, unit) act" where
  "pb_write buf stream =
     (if length buf > 0 \<and> os_state stream \<noteq> None \<and> (bytes_written stream + length buf) mod size_modulus > max_size stream then
        (None, stream)
      else
        let stream = (if length buf > 0 \<and> os_state stream \<noteq> None then buf_write buf stream else stream)
        in (Some (), stream\<lparr>bytes_written := (bytes_written stream + length buf) mod size_modulus\<rparr>))"

text \<open>The bytes that the loop of \<^verbatim>\<open>pb_encode_varint\<close> stores in \<^verbatim>\<open>buffer\<close>.\<close>

function varint_groups :: "u64 \<Rightarrow> byte list" where
  "varint_groups value = (if value = 0 then [] else (ucast (value AND 0x7f) OR 0x80) # varint_groups (drop_bit 7 value))"
  by pat_completeness auto
termination
  by (relation "measure unat") (auto simp: unat_drop_bit unat_gt_0)

declare varint_groups.simps [simp del]

definition pb_encode_varint :: "u64 \<Rightarrow> (pb_ostream, unit) act" where
  "pb_encode_varint value =
     (if value \<le> 0x7f then pb_write [ucast value]
      else
        let buffer = varint_groups value;
            i = length buffer
        in pb_write (buffer[i - 1 := buffer ! (i - 1) AND 0x7f]))"

definition pb_encode_svarint :: "u64 \<Rightarrow> (pb_ostream, unit) act" where
  "pb_encode_svarint value =
     (let zigzagged = (if sint value < 0 then NOT (push_bit 1 value) else push_bit 1 value)
      in pb_encode_varint zigzagged)"

definition pb_encode_fixed32 :: "u32 \<Rightarrow> (pb_ostream, unit) act" where
  "pb_encode_fixed32 val =
     pb_write [ucast (val AND 0xff), ucast (drop_bit 8 val AND 0xff), ucast (drop_bit 16 val AND 0xff), ucast (drop_bit 24 val AND 0xff)]"

definition pb_encode_fixed64 :: "u64 \<Rightarrow> (pb_ostream, unit) act" where
  "pb_encode_fixed64 val =
     pb_write [ucast (val AND 0xff), ucast (drop_bit 8 val AND 0xff), ucast (drop_bit 16 val AND 0xff), ucast (drop_bit 24 val AND 0xff),
       ucast (drop_bit 32 val AND 0xff), ucast (drop_bit 40 val AND 0xff), ucast (drop_bit 48 val AND 0xff), ucast (drop_bit 56 val AND 0xff)]"

definition pb_encode_tag :: "nat \<Rightarrow> u32 \<Rightarrow> (pb_ostream, unit) act" where
  "pb_encode_tag wiretype field_number =
     pb_encode_varint (push_bit 3 (ucast field_number) OR word_of_nat wiretype)"

definition pb_encode_string :: "byte list \<Rightarrow> (pb_ostream, unit) act" where
  "pb_encode_string buffer = then_act (pb_encode_varint (word_of_nat (length buffer))) (pb_write buffer)"

section \<open>Fields\<close>

record pb_field =
  field_tag :: u32
  field_type :: byte
  data_size :: nat

definition PB_LTYPE :: "byte \<Rightarrow> byte" where "PB_LTYPE x = x AND 0x0f"
definition PB_ATYPE :: "byte \<Rightarrow> byte" where "PB_ATYPE x = x AND 0xc0"

definition PB_ATYPE_STATIC :: byte where "PB_ATYPE_STATIC = 0x00"
definition PB_ATYPE_POINTER :: byte where "PB_ATYPE_POINTER = 0x80"

definition PB_SIZE_MAX :: u32 where "PB_SIZE_MAX = - 1"

definition PB_BYTES_ARRAY_T_ALLOCSIZE :: "nat \<Rightarrow> nat" where
  "PB_BYTES_ARRAY_T_ALLOCSIZE n = (n + 4) mod size_modulus"

text \<open>Integers of \<open>n\<close> bytes in memory, unsigned, signed (extended to 64 bits), and the bytes that a store of the low bytes of a value
  leaves.\<close>

definition load_unsigned :: "byte list \<Rightarrow> u64" where
  "load_unsigned mem = foldr (\<lambda>b r. push_bit 8 r OR ucast b) mem 0"

definition load_signed :: "byte list \<Rightarrow> u64" where
  "load_signed mem = signed_take_bit (8 * length mem - 1) (load_unsigned mem)"

definition store_bytes :: "nat \<Rightarrow> u64 \<Rightarrow> byte list" where
  "store_bytes n v = map (\<lambda>i. ucast (drop_bit (8 * i) v)) [0..<n]"

definition pb_dec_bool :: "(pb_istream, bool) act" where
  "pb_dec_bool = bind_act pb_decode_varint32 (\<lambda>value. ret_act (value \<noteq> 0))"

text \<open>The three integer decoders return what they store in the field; on an overflow they fail, but the truncated value has
  been stored.\<close>

definition is_int_size :: "nat \<Rightarrow> bool" where
  "is_int_size n \<longleftrightarrow> n = 8 \<or> n = 4 \<or> n = 2 \<or> n = 1"

definition pb_dec_varint :: "pb_field \<Rightarrow> (pb_istream, byte list) act" where
  "pb_dec_varint field =
     bind_act pb_decode_varint (\<lambda>value.
       let svalue = (if data_size field = 8 then value else signed_take_bit 31 value);
           dest = store_bytes (data_size field) svalue
       in if \<not> is_int_size (data_size field) then fail_act
          else if load_signed dest \<noteq> svalue then fail_act
          else ret_act dest)"

definition pb_dec_uvarint :: "pb_field \<Rightarrow> (pb_istream, byte list) act" where
  "pb_dec_uvarint field =
     bind_act pb_decode_varint (\<lambda>value.
       let dest = store_bytes (data_size field) value
       in if \<not> is_int_size (data_size field) then fail_act
          else if load_unsigned dest \<noteq> value then fail_act
          else ret_act dest)"

definition pb_dec_svarint :: "pb_field \<Rightarrow> (pb_istream, byte list) act" where
  "pb_dec_svarint field =
     bind_act pb_decode_svarint (\<lambda>value.
       let dest = store_bytes (data_size field) value
       in if \<not> is_int_size (data_size field) then fail_act
          else if load_signed dest \<noteq> value then fail_act
          else ret_act dest)"

text \<open>\<^verbatim>\<open>allocate_field\<close>: the block that the field points to, grown from what it pointed to before.\<close>

definition allocate_field :: "libc_malloc \<Rightarrow> byte list option \<Rightarrow> nat \<Rightarrow> nat \<Rightarrow> byte list option" where
  "allocate_field m old item_size array_size =
     (if item_size = 0 \<or> array_size = 0 then None
      else if (item_size \<ge> 2 ^ 32 \<or> array_size \<ge> 2 ^ 32) \<and> (size_modulus - 1) div array_size < item_size then None
      else
        let n = array_size * item_size mod size_modulus
        in case m n of
             None \<Rightarrow> None
           | Some ptr \<Rightarrow> Some (case old of None \<Rightarrow> ptr | Some old \<Rightarrow> blit 0 (take n old) ptr))"

text \<open>
  A store into a block of memory: \<open>None\<close> if it would not stay inside the block. The next two functions return what they leave in the memory of the
  field, or in the block that the field points to: if they fail that is not modelled, and the value \<open>None\<close> says that they stored outside of it, which
  they may do before they fail. \<open>dest\<close> is that memory before: \<open>None\<close> is a null pointer. In \<^verbatim>\<open>pb_dec_string\<close> the addition \<^verbatim>\<open>size + 1\<close> has 32 bits,
  and the terminator is stored even if the characters cannot be read.
\<close>

definition store_at :: "nat \<Rightarrow> byte list \<Rightarrow> byte list \<Rightarrow> byte list option" where
  "store_at i bytes mem = (if i + length bytes \<le> length mem then Some (blit i bytes mem) else None)"

definition field_room :: "libc_malloc \<Rightarrow> pb_field \<Rightarrow> byte list option \<Rightarrow> nat \<Rightarrow> byte list option" where
  "field_room m field dest alloc_size =
     (if PB_ATYPE (field_type field) = PB_ATYPE_POINTER then allocate_field m dest alloc_size 1
      else if alloc_size > data_size field then None
      else dest)"

definition pb_dec_bytes :: "libc_malloc \<Rightarrow> pb_field \<Rightarrow> byte list option \<Rightarrow> (pb_istream, byte list option) act" where
  "pb_dec_bytes m field dest =
     bind_act pb_decode_varint32 (\<lambda>len.
       let alloc_size = PB_BYTES_ARRAY_T_ALLOCSIZE (unat len)
       in if len > PB_SIZE_MAX \<or> unat len > alloc_size then fail_act
          else case field_room m field dest alloc_size of
                 None \<Rightarrow> fail_act
               | Some mem \<Rightarrow>
                   (case store_at 0 (store_bytes 4 (ucast len)) mem of
                      None \<Rightarrow> ret_act None
                    | Some mem \<Rightarrow> bind_act (pb_read (unat len)) (\<lambda>bytes. ret_act (store_at 4 bytes mem))))"

definition read_string :: "nat \<Rightarrow> byte list \<Rightarrow> (pb_istream, byte list option) act" where
  "read_string n mem stream =
     (case pb_read n stream of
        (None, stream) \<Rightarrow> (if n < length mem then None else Some None, stream)
      | (Some bytes, stream) \<Rightarrow> (Some (Option.bind (store_at 0 bytes mem) (store_at n [0])), stream))"

definition pb_dec_string :: "libc_malloc \<Rightarrow> pb_field \<Rightarrow> byte list option \<Rightarrow> (pb_istream, byte list option) act" where
  "pb_dec_string m field dest =
     bind_act pb_decode_varint32 (\<lambda>len.
       let alloc_size = unat (len + 1)
       in if alloc_size < unat len then fail_act
          else case field_room m field dest alloc_size of
                 None \<Rightarrow> fail_act
               | Some mem \<Rightarrow> read_string (unat len) mem)"

definition pb_dec_fixed_length_bytes :: "pb_field \<Rightarrow> (pb_istream, byte list) act" where
  "pb_dec_fixed_length_bytes field =
     bind_act pb_decode_varint32 (\<lambda>len.
       if len > PB_SIZE_MAX then fail_act
       else if len = 0 then ret_act (replicate (data_size field) 0)
       else if unat len \<noteq> data_size field then fail_act
       else pb_read (data_size field))"

text \<open>The types of fields.\<close>

definition PB_LTYPE_BOOL :: byte where "PB_LTYPE_BOOL = 0x00"
definition PB_LTYPE_VARINT :: byte where "PB_LTYPE_VARINT = 0x01"
definition PB_LTYPE_UVARINT :: byte where "PB_LTYPE_UVARINT = 0x02"
definition PB_LTYPE_SVARINT :: byte where "PB_LTYPE_SVARINT = 0x03"
definition PB_LTYPE_FIXED32 :: byte where "PB_LTYPE_FIXED32 = 0x04"
definition PB_LTYPE_FIXED64 :: byte where "PB_LTYPE_FIXED64 = 0x05"
definition PB_LTYPE_BYTES :: byte where "PB_LTYPE_BYTES = 0x06"
definition PB_LTYPE_STRING :: byte where "PB_LTYPE_STRING = 0x07"
definition PB_LTYPE_SUBMESSAGE :: byte where "PB_LTYPE_SUBMESSAGE = 0x08"
definition PB_LTYPE_FIXED_LENGTH_BYTES :: byte where "PB_LTYPE_FIXED_LENGTH_BYTES = 0x0a"

lemmas pb_ltypes = PB_LTYPE_BOOL_def PB_LTYPE_VARINT_def PB_LTYPE_UVARINT_def PB_LTYPE_SVARINT_def PB_LTYPE_FIXED32_def
  PB_LTYPE_FIXED64_def PB_LTYPE_BYTES_def PB_LTYPE_STRING_def PB_LTYPE_SUBMESSAGE_def PB_LTYPE_FIXED_LENGTH_BYTES_def

definition pb_encode_tag_for_field :: "pb_field \<Rightarrow> (pb_ostream, unit) act" where
  "pb_encode_tag_for_field field =
     (let ltype = PB_LTYPE (field_type field)
      in if ltype \<in> {PB_LTYPE_BOOL, PB_LTYPE_VARINT, PB_LTYPE_UVARINT, PB_LTYPE_SVARINT} then pb_encode_tag PB_WT_VARINT (field_tag field)
         else if ltype = PB_LTYPE_FIXED32 then pb_encode_tag PB_WT_32BIT (field_tag field)
         else if ltype = PB_LTYPE_FIXED64 then pb_encode_tag PB_WT_64BIT (field_tag field)
         else if ltype \<in> {PB_LTYPE_BYTES, PB_LTYPE_STRING, PB_LTYPE_SUBMESSAGE, PB_LTYPE_FIXED_LENGTH_BYTES} then
           pb_encode_tag PB_WT_STRING (field_tag field)
         else fail_act)"

definition safe_read_bool :: "byte list \<Rightarrow> bool" where
  "safe_read_bool p \<longleftrightarrow> list_ex (\<lambda>b. b \<noteq> 0) p"

definition pb_enc_bool :: "byte list \<Rightarrow> (pb_ostream, unit) act" where
  "pb_enc_bool src = pb_encode_varint (if safe_read_bool src then 1 else 0)"

definition pb_enc_varint :: "pb_field \<Rightarrow> byte list \<Rightarrow> (pb_ostream, unit) act" where
  "pb_enc_varint field src = (if is_int_size (data_size field) then pb_encode_varint (load_signed src) else fail_act)"

definition pb_enc_uvarint :: "pb_field \<Rightarrow> byte list \<Rightarrow> (pb_ostream, unit) act" where
  "pb_enc_uvarint field src = (if is_int_size (data_size field) then pb_encode_varint (load_unsigned src) else fail_act)"

definition pb_enc_svarint :: "pb_field \<Rightarrow> byte list \<Rightarrow> (pb_ostream, unit) act" where
  "pb_enc_svarint field src = (if is_int_size (data_size field) then pb_encode_svarint (load_signed src) else fail_act)"

definition pb_enc_bytes :: "pb_field \<Rightarrow> byte list option \<Rightarrow> (pb_ostream, unit) act" where
  "pb_enc_bytes field src =
     (case src of
        None \<Rightarrow> pb_encode_string []
      | Some mem \<Rightarrow>
          let n = unat (load_unsigned (take 4 mem))
          in if PB_ATYPE (field_type field) = PB_ATYPE_STATIC \<and> PB_BYTES_ARRAY_T_ALLOCSIZE n > data_size field then fail_act
             else pb_encode_string (take n (drop 4 mem)))"

definition pb_enc_string :: "pb_field \<Rightarrow> byte list option \<Rightarrow> (pb_ostream, unit) act" where
  "pb_enc_string field src =
     (let max_size = (if PB_ATYPE (field_type field) = PB_ATYPE_POINTER then size_modulus - 1 else data_size field)
      in case src of
           None \<Rightarrow> pb_encode_string []
         | Some mem \<Rightarrow> pb_encode_string (takeWhile (\<lambda>b. b \<noteq> 0) (take max_size mem)))"

definition pb_enc_fixed_length_bytes :: "pb_field \<Rightarrow> byte list \<Rightarrow> (pb_ostream, unit) act" where
  "pb_enc_fixed_length_bytes field src = pb_encode_string (take (data_size field) src)"

end
