(* ===== verification/Octets.thy ===== *)
theory Octets
  imports Prelude
begin

text \<open>
  Reference encodings of integers as octets that the formats of nanopb and LevelDB share: variable-length groups of seven bits, and
  little-endian integers.
\<close>

section \<open>Reference encodings\<close>

function varint_octets :: "nat \<Rightarrow> byte list" where
  "varint_octets n = (if n < 128 then [word_of_nat n] else word_of_nat (128 + n mod 128) # varint_octets (n div 128))"
  by pat_completeness auto
termination by (relation "measure id") auto

declare varint_octets.simps [simp del]

lemma varint_octets_small: "n < 128 \<Longrightarrow> varint_octets n = [word_of_nat n]"
  by (subst varint_octets.simps) simp

lemma varint_octets_step: "128 \<le> n \<Longrightarrow> varint_octets n = word_of_nat (128 + n mod 128) # varint_octets (n div 128)"
  by (subst varint_octets.simps) simp

lemma varint_octets_not_Nil [simp]: "varint_octets n \<noteq> []"
  by (subst varint_octets.simps) simp

lemma length_varint_octets: "n < 128 ^ k \<Longrightarrow> 0 < k \<Longrightarrow> length (varint_octets n) \<le> k"
proof (induction k arbitrary: n)
  case (Suc k)
  show ?case
  proof (cases "n < 128")
    case False
    then have "0 < k" using Suc.prems(1) by (cases k) auto
    moreover have "n div 128 < 128 ^ k" using Suc.prems(1) by (simp add: less_mult_imp_div_less mult.commute)
    ultimately show ?thesis using False Suc.IH by (simp add: varint_octets_step)
  qed (simp add: varint_octets_small)
qed simp

text \<open>The number that the lower seven bits of the octets stand for, and octets of which only the last has a clear top bit.\<close>

primrec groups_value :: "byte list \<Rightarrow> nat" where
  "groups_value [] = 0"
| "groups_value (b # bs) = unat b mod 128 + 128 * groups_value bs"

definition varint_shape :: "byte list \<Rightarrow> bool" where
  "varint_shape bs \<longleftrightarrow> bs \<noteq> [] \<and> (\<forall>b \<in> set (butlast bs). b AND 0x80 \<noteq> 0) \<and> last bs AND 0x80 = 0"

lemma varint_shape_Cons:
  "varint_shape (b # bs) \<longleftrightarrow> (if b AND 0x80 = 0 then bs = [] else varint_shape bs)"
  by (cases bs) (auto simp: varint_shape_def)

lemma varint_shape_Nil [simp]: "\<not> varint_shape []"
  by (simp add: varint_shape_def)

lemma octet_parts:
  assumes "m < 128"
  shows "unat (word_of_nat m :: byte) = m" "unat (word_of_nat (128 + m) :: byte) = 128 + m"
    "(word_of_nat m :: byte) AND 0x80 = 0" "(word_of_nat (128 + m) :: byte) AND 0x80 \<noteq> 0"
proof -
  show u: "unat (word_of_nat m :: byte) = m" "unat (word_of_nat (128 + m) :: byte) = 128 + m"
    unfolding unat_of_nat_byte using assms by simp_all
  show "(word_of_nat m :: byte) AND 0x80 = 0" "(word_of_nat (128 + m) :: byte) AND 0x80 \<noteq> 0"
    unfolding byte_and_80_eq_0 u using assms by simp_all
qed

lemma varint_octets_value: "groups_value (varint_octets n) = n" "varint_shape (varint_octets n)"
proof (induction n rule: varint_octets.induct)
  case (1 n)
  { case 1
    show ?case using "1.IH" by (cases "n < 128") (simp_all add: varint_octets_small varint_octets_step octet_parts del: of_nat_add)
  next
    case 2
    show ?case using "1.IH" octet_parts(3) [of n] octet_parts(4) [of "n mod 128"]
      by (cases "n < 128") (simp_all add: varint_octets_small varint_octets_step varint_shape_Cons del: of_nat_add) }
qed

lemma push_bit_or_high:
  assumes "unat r < 2 ^ p" "8 \<le> LENGTH('a)"
  shows "r OR push_bit p (ucast (b AND 0x7f :: byte)) = (word_of_nat (unat r + unat b mod 128 * 2 ^ p) :: 'a :: len word)"
proof -
  have "unat (ucast (b AND 0x7f) :: 'a word) = unat b mod 128"
    using unat_ucast_le [of "b AND 0x7f", where 'b = 'a] assms(2) by (simp add: byte_and_7f)
  then have "ucast (b AND 0x7f) = (word_of_nat (unat b mod 128) :: 'a word)" by (metis of_nat_unat ucast_id)
  then show ?thesis
    using push_bit_or_eq_plus [OF assms(1), of "ucast (b AND 0x7f)"] by (simp add: or.commute push_bit_eq_mult algebra_simps)
qed

text \<open>Reading groups up to a greatest shift \<open>last_shift\<close>, and what that accepts: sequences of the right shape, whose value wraps at the width of the
  word.\<close>

fun groups_loop :: "nat \<Rightarrow> nat \<Rightarrow> 'a :: len word \<Rightarrow> byte list \<Rightarrow> ('a word \<times> byte list) option" where
  "groups_loop last_shift shift result [] = None"
| "groups_loop last_shift shift result (b # bs) =
     (if shift > last_shift then None
      else if b AND 0x80 \<noteq> 0 then groups_loop last_shift (shift + 7) (result OR push_bit shift (ucast (b AND 0x7f))) bs
      else Some (result OR push_bit shift (ucast b), bs))"

lemma groups_loop_exact:
  assumes "8 \<le> LENGTH('a)" "0 < N" "p \<le> N" "unat r < 2 ^ (7 * p)"
  shows "groups_loop (7 * N - 7) (7 * p) (r :: 'a :: len word) bs = Some (v, rest) \<longleftrightarrow>
    (\<exists>cs. bs = cs @ rest \<and> varint_shape cs \<and> length cs + p \<le> N \<and> v = word_of_nat (unat r + groups_value cs * 2 ^ (7 * p)))"
  using assms(3,4)
proof (induction bs arbitrary: p r)
  case Nil
  then show ?case by simp
next
  case (Cons b bs)
  let ?r = "r OR push_bit (7 * p) (ucast (b AND 0x7f)) :: 'a word"
  have r: "?r = word_of_nat (unat r + unat b mod 128 * 2 ^ (7 * p))" by (rule push_bit_or_high [OF Cons.prems(2) assms(1)])
  show ?case
  proof (cases "p < N")
    case False
    then have "p = N" using Cons.prems(1) by simp
    moreover have "\<not> (varint_shape cs \<and> length cs + N \<le> N)" for cs by (cases cs) auto
    ultimately show ?thesis using assms(2) by auto
  next
    case True
    then have le: "\<not> 7 * p > 7 * N - 7" by simp
    show ?thesis
    proof (cases "b AND 0x80 = 0")
      case True
      have small: "b AND 0x7f = b" using True
        by (intro word_unat_eq_iff [THEN iffD2]) (simp add: byte_and_7f byte_and_80_eq_0)
      have "groups_loop (7 * N - 7) (7 * p) r (b # bs) = Some (?r, bs)" using True le small by simp
      moreover have "(\<exists>cs. b # bs = cs @ rest \<and> varint_shape cs \<and> length cs + p \<le> N \<and> v = word_of_nat (unat r + groups_value cs * 2 ^ (7 * p)))
          \<longleftrightarrow> rest = bs \<and> v = ?r" (is "?L \<longleftrightarrow> ?R")
      proof
        assume ?L
        then obtain cs where cs: "b # bs = cs @ rest" "varint_shape cs" "v = word_of_nat (unat r + groups_value cs * 2 ^ (7 * p))" by blast
        then have "cs = [b]" using True by (cases cs) (auto simp: varint_shape_Cons)
        then show ?R using cs r by simp
      next
        assume ?R
        then show ?L using True \<open>p < N\<close> r by (intro exI [of _ "[b]"]) (simp add: varint_shape_Cons)
      qed
      ultimately show ?thesis by auto
    next
      case False
      have "unat ?r \<le> unat r + unat b mod 128 * 2 ^ (7 * p)" unfolding r unat_of_nat by (rule mod_less_eq_dividend)
      also have "unat b mod 128 * 2 ^ (7 * p) \<le> 127 * 2 ^ (7 * p)" by (rule mult_le_mono1) simp
      finally have "unat ?r \<le> unat r + 127 * 2 ^ (7 * p)" by simp
      then have bnd: "unat ?r < 2 ^ (7 * Suc p)" using Cons.prems(2) by (simp add: power_add)
      have val: "word_of_nat (unat ?r + groups_value cs * 2 ^ (7 * Suc p)) = (word_of_nat (unat r + groups_value (b # cs) * 2 ^ (7 * p)) :: 'a word)" for cs
        unfolding of_nat_add of_nat_unat ucast_id r by (simp add: algebra_simps power_add)
      have "groups_loop (7 * N - 7) (7 * p) r (b # bs) = groups_loop (7 * N - 7) (7 * Suc p) ?r bs" using False le by (simp add: algebra_simps)
      moreover note Cons.IH [OF _ bnd, unfolded val]
      moreover have "(\<exists>cs. bs = cs @ rest \<and> varint_shape cs \<and> length cs + Suc p \<le> N \<and> v = word_of_nat (unat r + groups_value (b # cs) * 2 ^ (7 * p)))
          \<longleftrightarrow> (\<exists>cs. b # bs = cs @ rest \<and> varint_shape cs \<and> length cs + p \<le> N \<and> v = word_of_nat (unat r + groups_value cs * 2 ^ (7 * p)))" (is "?L \<longleftrightarrow> ?R")
      proof
        assume ?L
        then obtain cs where "bs = cs @ rest" "varint_shape cs" "length cs + Suc p \<le> N" "v = word_of_nat (unat r + groups_value (b # cs) * 2 ^ (7 * p))"
          by blast
        then show ?R using False by (intro exI [of _ "b # cs"]) (simp add: varint_shape_Cons)
      next
        assume ?R
        then obtain cs where cs: "b # bs = cs @ rest" "varint_shape cs" "length cs + p \<le> N" "v = word_of_nat (unat r + groups_value cs * 2 ^ (7 * p))"
          by blast
        then obtain ds where "cs = b # ds" by (cases cs) auto
        then show ?L using cs False by (intro exI [of _ ds]) (simp add: varint_shape_Cons)
      qed
      ultimately show ?thesis using True by simp
    qed
  qed
qed

lemma groups_loop_length: "groups_loop last_shift shift r bs = Some (v, rest) \<Longrightarrow> length rest < length bs"
  by (induction last_shift shift r bs rule: groups_loop.induct) (auto split: if_splits intro: less_SucI)

lemma groups_loop_octets:
  assumes "8 \<le> LENGTH('a)" "0 < N" "length (varint_octets n) \<le> N"
  shows "groups_loop (7 * N - 7) 0 (0 :: 'a :: len word) (varint_octets n @ rest) = Some (word_of_nat n, rest)"
proof -
  have "groups_loop (7 * N - 7) (7 * 0) (0 :: 'a word) (varint_octets n @ rest) = Some (word_of_nat n, rest)"
    by (rule groups_loop_exact [OF assms(1,2) le0, THEN iffD2])
      (use assms(3) varint_octets_value [of n] in \<open>auto intro!: exI [of _ "varint_octets n"]\<close>)
  then show ?thesis by simp
qed

section \<open>Little-endian integers\<close>

definition le32 :: "u32 \<Rightarrow> byte list" where
  "le32 v = map (\<lambda>i. ucast (drop_bit (8 * i) v)) [0..<4]"

definition le64 :: "u64 \<Rightarrow> byte list" where
  "le64 v = map (\<lambda>i. ucast (drop_bit (8 * i) v)) [0..<8]"

lemma byte_indices: "[0..<4] = [0, 1, 2, 3 :: nat]" "[0..<8] = [0, 1, 2, 3, 4, 5, 6, 7 :: nat]"
  by code_simp+

lemma fixed32_bytes:
  "push_bit 0 (ucast (le32 v ! 0)) OR push_bit 8 (ucast (le32 v ! 1)) OR push_bit 16 (ucast (le32 v ! 2)) OR
    push_bit 24 (ucast (le32 v ! 3)) = v"
  apply (rule bit_word_eqI)
  apply (auto simp: le32_def byte_indices bit_simps)
  subgoal for n by (cases "24 \<le> n") auto
  done

end
