(* ===== verification/Nanopb_Wire.thy ===== *)
theory Nanopb_Wire
  imports Nanopb Octets Codec
begin

text \<open>
  Correctness of the wire format: what the writers write, that the readers read it back, and how far they read.
\<close>

section \<open>Input streams\<close>

definition stream_ok :: "pb_istream \<Rightarrow> bool" where
  "stream_ok s \<longleftrightarrow> bytes_left s \<le> length (is_state s)"

definition advance :: "nat \<Rightarrow> pb_istream \<Rightarrow> pb_istream" where
  "advance k s = s\<lparr>is_state := drop k (is_state s), bytes_left := bytes_left s - k\<rparr>"

lemma advance_simps [simp]:
  "is_state (advance k s) = drop k (is_state s)" "bytes_left (advance k s) = bytes_left s - k"
  "advance 0 s = s" "advance j (advance k s) = advance (k + j) s"
  by (simp_all add: advance_def add.commute)

lemma advance_ok: "stream_ok s \<Longrightarrow> stream_ok (advance k s)"
  by (auto simp: stream_ok_def)

lemma pb_read_eq:
  "pb_read n s = (if n \<le> bytes_left s then (Some (take n (is_state s)), advance n s) else (None, s))"
  by (auto simp: pb_read_def buf_read_def bind_act_def advance_def)

lemma pb_readbyte_eq:
  "stream_ok s \<Longrightarrow> pb_readbyte s = (if bytes_left s = 0 then (None, s) else (Some (is_state s ! 0), advance 1 s))"
  by (cases "is_state s") (auto simp: pb_readbyte_def buf_read_def bind_act_def advance_def stream_ok_def)

text \<open>An action that reads exactly \<open>enc\<close> and returns \<open>x\<close>.\<close>

definition reads :: "(pb_istream, 'a) act \<Rightarrow> byte list \<Rightarrow> 'a \<Rightarrow> bool" where
  "reads f enc x \<longleftrightarrow> (\<forall>s rest. stream_ok s \<and> is_state s = enc @ rest \<and> length enc \<le> bytes_left s \<longrightarrow> f s = (Some x, advance (length enc) s))"

lemma readsD: "reads f enc x \<Longrightarrow> stream_ok s \<Longrightarrow> is_state s = enc @ rest \<Longrightarrow> length enc \<le> bytes_left s \<Longrightarrow>
    f s = (Some x, advance (length enc) s)"
  by (simp add: reads_def)

lemma reads_ret: "reads (ret_act x) [] x"
  by (simp add: reads_def)

lemma reads_bind:
  assumes "reads f xs x" "reads (g x) ys y"
  shows "reads (bind_act f g) (xs @ ys) y"
  unfolding reads_def
proof (intro allI impI)
  fix s rest
  assume s: "stream_ok s \<and> is_state s = (xs @ ys) @ rest \<and> length (xs @ ys) \<le> bytes_left s"
  have "f s = (Some x, advance (length xs) s)" using readsD [OF assms(1), of s "ys @ rest"] s by simp
  moreover have "g x (advance (length xs) s) = (Some y, advance (length ys) (advance (length xs) s))"
    using readsD [OF assms(2) advance_ok, of s "length xs" rest] s by auto
  ultimately show "bind_act f g s = (Some y, advance (length (xs @ ys)) s)" by simp
qed

lemma reads_map: "reads f xs x \<Longrightarrow> reads (bind_act f (\<lambda>x. ret_act (h x))) xs (h x)"
  using reads_bind [of f xs x "\<lambda>x. ret_act (h x)" "[]" "h x"] reads_ret by fastforce

lemma reads_pb_read: "reads (pb_read (length xs)) xs xs"
  by (simp add: reads_def pb_read_eq)

lemma reads_times:
  "(\<And>x. x \<in> set xs \<Longrightarrow> reads f (enc x) x) \<Longrightarrow> reads (times_act (length xs) f) (concat (map enc xs)) xs"
proof (induction xs)
  case (Cons x xs)
  then have "reads (bind_act (times_act (length xs) f) (\<lambda>ys. ret_act (x # ys))) (concat (map enc xs)) (x # xs)"
    by (intro reads_map [where h = "\<lambda>ys. x # ys"]) auto
  then show ?case using reads_bind [of f "enc x" x "\<lambda>x. bind_act (times_act (length xs) f) (\<lambda>ys. ret_act (x # ys))"] Cons.prems by simp
qed (simp add: reads_ret)

section \<open>Reading varints\<close>

lemma varint_loop_eq:
  assumes "bitpos < 64" "stream_ok s"
  shows "varint_loop bitpos result s =
    (if bytes_left s = 0 then (None, s)
     else let b = is_state s ! 0; result = result OR push_bit bitpos (ucast (b AND 0x7f))
          in if b AND 0x80 \<noteq> 0 then varint_loop (bitpos + 7) result (advance 1 s) else (Some result, advance 1 s))"
  using assms by (subst varint_loop.simps) (simp add: pb_readbyte_eq Let_def)

lemma varint_loop_overflow: "64 \<le> bitpos \<Longrightarrow> varint_loop bitpos result s = (None, s)"
  by (subst varint_loop.simps) simp

text \<open>The loop reads the groups of the bytes that the stream has left.\<close>

lemma varint_loop_groups:
  assumes "stream_ok s" "p \<le> 10"
  shows "varint_loop (7 * p) r s = (Some v, s') \<longleftrightarrow>
    (\<exists>rest. groups_loop 63 (7 * p) r (take (bytes_left s) (is_state s)) = Some (v, rest) \<and> s' = advance (bytes_left s - length rest) s)"
  using assms
proof (induction "bytes_left s" arbitrary: s p r)
  case 0
  have "varint_loop (7 * p) r s = (None, s)"
    using 0 by (cases "p < 10") (simp_all add: varint_loop_eq varint_loop_overflow)
  then show ?case using 0(1) by simp
next
  case (Suc n)
  obtain b xs where xs: "is_state s = b # xs" using Suc(2,3) by (cases "is_state s") (auto simp: stream_ok_def)
  have take: "take (bytes_left s) (is_state s) = b # take n xs" using Suc(2) by (simp add: xs Suc(2) [symmetric])
  show ?case
  proof (cases "p < 10")
    case False
    then show ?thesis using Suc(4) by (simp add: take varint_loop_overflow)
  next
    case True
    let ?r = "r OR push_bit (7 * p) (ucast (b AND 0x7f))"
    have step: "varint_loop (7 * p) r s = (if b AND 0x80 \<noteq> 0 then varint_loop (7 * Suc p) ?r (advance 1 s) else (Some ?r, advance 1 s))"
      using True Suc(2) varint_loop_eq [of "7 * p" s r] Suc(3) by (simp add: xs Let_def add.commute)
    have n: "n = bytes_left (advance 1 s)" "is_state (advance 1 s) = xs" "length (take n xs) = n"
      using Suc(2,3) by (auto simp: xs stream_ok_def)
    show ?thesis
    proof (cases "b AND 0x80 = 0")
      case True
      have small: "b AND 0x7f = b" using True
        by (intro word_unat_eq_iff [THEN iffD2]) (simp add: byte_and_7f byte_and_80_eq_0)
      have gl: "groups_loop 63 (7 * p) r (b # take n xs) = Some (?r, take n xs)" using True \<open>p < 10\<close> by (simp add: small)
      show ?thesis unfolding take step gl using True n(3) Suc(2) by (auto simp: Suc_diff_le simp flip: Suc(2))
    next
      case False
      have IH: "varint_loop (7 * Suc p) ?r (advance 1 s) = (Some v, s') \<longleftrightarrow>
          (\<exists>rest. groups_loop 63 (7 * Suc p) ?r (take n xs) = Some (v, rest) \<and> s' = advance (n - length rest) (advance 1 s))"
        using Suc(1) [OF n(1) advance_ok [OF Suc(3)], of "Suc p" ?r] True n(1,2) by simp
      have len: "length rest \<le> n" if "groups_loop 63 (7 * Suc p) ?r (take n xs) = Some (v, rest)" for rest
        using groups_loop_length [OF that] n(3) by simp
      have "groups_loop 63 (7 * p) r (take (bytes_left s) (is_state s)) = groups_loop 63 (7 * Suc p) ?r (take n xs)"
        using False True by (simp add: take algebra_simps)
      moreover have "advance (n - length rest) (advance 1 s) = advance (bytes_left s - length rest) s" if "length rest \<le> n" for rest
        using that by (simp add: Suc_diff_le flip: Suc(2))
      ultimately show ?thesis using IH step False len by (auto simp del: mult_Suc_right)
    qed
  qed
qed

lemma decode_varint_iff:
  assumes "stream_ok s"
  shows "pb_decode_varint s = (Some v, s') \<longleftrightarrow>
    (\<exists>bs rest. is_state s = bs @ rest \<and> varint_shape bs \<and> length bs \<le> bytes_left s \<and> length bs \<le> 10 \<and>
      v = word_of_nat (groups_value bs) \<and> s' = advance (length bs) s)"
proof -
  let ?bs = "take (bytes_left s) (is_state s)"
  have len: "length ?bs = bytes_left s" using assms by (simp add: stream_ok_def)
  have "groups_loop 63 0 (0 :: u64) ?bs = Some (v, rest) \<longleftrightarrow>
      (\<exists>cs. ?bs = cs @ rest \<and> varint_shape cs \<and> length cs \<le> 10 \<and> v = word_of_nat (groups_value cs))" for rest
    using groups_loop_exact [of 10 0 "0 :: u64" ?bs v rest] by simp
  then have "pb_decode_varint s = (Some v, s') \<longleftrightarrow>
      (\<exists>rest cs. ?bs = cs @ rest \<and> varint_shape cs \<and> length cs \<le> 10 \<and> v = word_of_nat (groups_value cs) \<and> s' = advance (bytes_left s - length rest) s)"
    using varint_loop_groups [OF assms, of 0 0 v s'] by (auto simp: pb_decode_varint_def)
  also have "\<dots> \<longleftrightarrow> (\<exists>bs rest. is_state s = bs @ rest \<and> varint_shape bs \<and> length bs \<le> bytes_left s \<and> length bs \<le> 10 \<and>
      v = word_of_nat (groups_value bs) \<and> s' = advance (length bs) s)" (is "?L \<longleftrightarrow> ?R")
  proof
    assume ?L
    then obtain rest cs where cs: "?bs = cs @ rest" "varint_shape cs" "length cs \<le> 10" "v = word_of_nat (groups_value cs)"
      "s' = advance (bytes_left s - length rest) s" by blast
    have "bytes_left s = length cs + length rest" using len arg_cong [OF cs(1), of length] by simp
    moreover have "is_state s = cs @ rest @ drop (bytes_left s) (is_state s)" using cs(1) by (metis append.assoc append_take_drop_id)
    ultimately show ?R using cs by (intro exI [of _ cs] exI [of _ "rest @ drop (bytes_left s) (is_state s)"]) simp
  next
    assume ?R
    then obtain bs rest where bs: "is_state s = bs @ rest" "varint_shape bs" "length bs \<le> bytes_left s" "length bs \<le> 10"
      "v = word_of_nat (groups_value bs)" "s' = advance (length bs) s" by blast
    then have "?bs = bs @ take (bytes_left s - length bs) rest" "bytes_left s - length (take (bytes_left s - length bs) rest) = length bs"
      using len by (auto simp: min_def)
    then show ?L
      by (intro exI [of _ "take (bytes_left s - length bs) rest"] exI [of _ bs] conjI) (use bs in \<open>simp_all only: bs\<close>)
  qed
  finally show ?thesis .
qed

lemma reads_varint: "reads pb_decode_varint (varint_octets (unat v)) v"
  unfolding reads_def
proof (intro allI impI)
  fix s rest
  assume s: "stream_ok s \<and> is_state s = varint_octets (unat v) @ rest \<and> length (varint_octets (unat v)) \<le> bytes_left s"
  have "unat v < 2 ^ 64" using unsigned_less [of v, where ?'a = nat] by simp
  then have "unat v < 128 ^ 10" by simp
  then have "length (varint_octets (unat v)) \<le> 10" by (intro length_varint_octets) auto
  then show "pb_decode_varint s = (Some v, advance (length (varint_octets (unat v))) s)"
    using s varint_octets_value [of "unat v"] by (subst decode_varint_iff) auto
qed

lemma skip_varint_exact:
  assumes "stream_ok s"
  shows "pb_skip_varint s = (Some (), s') \<longleftrightarrow>
    (\<exists>bs rest. is_state s = bs @ rest \<and> varint_shape bs \<and> length bs \<le> bytes_left s \<and> s' = advance (length bs) s)"
  using assms
proof (induction "bytes_left s" arbitrary: s)
  case 0
  then have "pb_skip_varint s = (None, s)" by (subst pb_skip_varint.simps) (simp add: pb_read_eq)
  then show ?case using 0(1) by auto
next
  case (Suc n)
  obtain b xs where xs: "is_state s = b # xs" using Suc(2,3) by (cases "is_state s") (auto simp: stream_ok_def)
  have step: "pb_skip_varint s = (if b AND 0x80 \<noteq> 0 then pb_skip_varint (advance 1 s) else (Some (), advance 1 s))"
    using Suc(2) by (subst pb_skip_varint.simps) (simp add: pb_read_eq xs)
  show ?case
  proof (cases "b AND 0x80 = 0")
    case True
    have "(\<exists>bs rest. is_state s = bs @ rest \<and> varint_shape bs \<and> length bs \<le> bytes_left s \<and> s' = advance (length bs) s) \<longleftrightarrow> s' = advance 1 s"
    proof (intro iffI; (elim exE conjE)?)
      fix bs rest
      assume "is_state s = bs @ rest" "varint_shape bs" "s' = advance (length bs) s"
      moreover from this have "bs = [b]" using True by (cases bs) (auto simp: xs varint_shape_Cons)
      ultimately show "s' = advance 1 s" by simp
    next
      assume "s' = advance 1 s"
      then show "\<exists>bs rest. is_state s = bs @ rest \<and> varint_shape bs \<and> length bs \<le> bytes_left s \<and> s' = advance (length bs) s"
        using True Suc(2) by (intro exI [of _ "[b]"] exI [of _ xs]) (auto simp: xs varint_shape_Cons)
    qed
    then show ?thesis using step True by auto
  next
    case False
    have ok: "stream_ok (advance 1 s)" "n = bytes_left (advance 1 s)" using Suc(2,3) advance_ok by auto
    show ?thesis unfolding step if_P [OF False] Suc(1) [OF ok(2,1)]
    proof (intro iffI; elim exE conjE)
      fix bs rest
      assume "is_state (advance 1 s) = bs @ rest" "varint_shape bs" "length bs \<le> bytes_left (advance 1 s)" "s' = advance (length bs) (advance 1 s)"
      then show "\<exists>bs rest. is_state s = bs @ rest \<and> varint_shape bs \<and> length bs \<le> bytes_left s \<and> s' = advance (length bs) s"
        using False Suc(2) by (intro exI [of _ "b # bs"] exI [of _ rest]) (auto simp: xs varint_shape_Cons)
    next
      fix bs rest
      assume "is_state s = bs @ rest" "varint_shape bs" "length bs \<le> bytes_left s" "s' = advance (length bs) s"
      moreover from this obtain cs where "bs = b # cs" using xs by (cases bs) auto
      ultimately show "\<exists>bs rest. is_state (advance 1 s) = bs @ rest \<and> varint_shape bs \<and> length bs \<le> bytes_left (advance 1 s) \<and>
          s' = advance (length bs) (advance 1 s)"
        using False Suc(2) by (intro exI [of _ cs] exI [of _ rest]) (auto simp: xs varint_shape_Cons)
    qed
  qed
qed

lemma reads_skip_varint: "reads pb_skip_varint (varint_octets n) ()"
  unfolding reads_def using skip_varint_exact varint_octets_value(2) [of n] by fastforce

section \<open>Reading 32-bit varints\<close>

lemma push_bit_or_high32:
  assumes "unat r < 2 ^ p" "unat r + unat b mod 128 * 2 ^ p < 2 ^ 32"
  shows "unat (r OR push_bit p (ucast (b AND 0x7f :: byte)) :: u32) = unat r + unat b mod 128 * 2 ^ p"
proof -
  have u: "unat (ucast (b AND 0x7f) :: u32) = unat b mod 128" by (simp add: unat_ucast_le byte_and_7f)
  then show ?thesis
    using unat_push_bit_or [of r p "ucast (b AND 0x7f)"] assms by (simp add: or.commute)
qed

lemma varint32_loop_reads:
  assumes "p \<in> {1, 2, 3, 4}" "0 < n" "unat r + n * 2 ^ (7 * p) < 2 ^ 32" "unat r < 2 ^ (7 * p)"
    and "stream_ok s" "is_state s = varint_octets n @ rest" "length (varint_octets n) \<le> bytes_left s"
  shows "\<exists>bitpos b. varint32_loop (7 * p) r s = (Some (word_of_nat (unat r + n * 2 ^ (7 * p)), bitpos, b), advance (length (varint_octets n)) s) \<and>
    (bitpos = 35 \<longrightarrow> b AND 0x70 = 0)"
  using assms
proof (induction n arbitrary: p r s rule: varint_octets.induct)
  case (1 n)
  note prems = "1.prems"
  have p: "7 * p < 32" "(7 * p + 7) mod 256 = 7 * p + 7" using prems(1) by auto
  obtain b xs where xs: "is_state s = b # xs" "varint_octets n = b # tl (varint_octets n)"
    using prems(6) by (cases "varint_octets n") auto
  have left: "bytes_left s \<noteq> 0" using prems(7) by (cases "varint_octets n") auto
  define r1 :: u32 where "r1 = r OR push_bit (7 * p) (ucast (b AND 0x7f))"
  have step: "varint32_loop (7 * p) r s =
      (if b AND 0x80 \<noteq> 0 then varint32_loop (7 * Suc p) r1 (advance 1 s) else (Some (r1, 7 * Suc p, b), advance 1 s))"
    using p prems(5) left by (subst varint32_loop.simps) (simp add: pb_readbyte_eq xs(1) r1_def Let_def add.commute)
  show ?case
  proof (cases "n < 128")
    case True
    then have b: "b = word_of_nat n" "unat b = n" "b AND 0x80 = 0"
      using xs(2) octet_parts(1,3) [of n] by (simp_all add: varint_octets_small)
    have "unat r1 = unat r + n * 2 ^ (7 * p)"
      unfolding r1_def using push_bit_or_high32 [OF prems(4), of b] prems(3) b(2) True by simp
    then have "r1 = word_of_nat (unat r + n * 2 ^ (7 * p))" by (metis of_nat_unat ucast_id)
    moreover have "b AND 0x70 = 0" if "7 * Suc p = 35"
    proof -
      have "n < 16" using prems(3) that by simp
      then have "take_bit 4 b = b" using b(2) by (intro word_unat_eq_iff [THEN iffD2]) (simp add: unsigned_take_bit_eq take_bit_nat_eq_self)
      then have "b AND 0x70 = (b AND mask 4) AND 0x70" by (simp add: take_bit_eq_mask)
      also have "\<dots> = 0" by (simp add: and.assoc mask_numeral)
      finally show ?thesis .
    qed
    moreover have "length (varint_octets n) = 1" using True by (simp add: varint_octets_small)
    ultimately show ?thesis using step b(3) by auto
  next
    case False
    then have b: "b = word_of_nat (128 + n mod 128)" "unat b mod 128 = n mod 128" "b AND 0x80 \<noteq> 0"
      using xs(2) octet_parts(2,4) [of "n mod 128"] by (simp_all add: varint_octets_step del: of_nat_add)
    have le: "n mod 128 * 2 ^ (7 * p) \<le> n * 2 ^ (7 * p)" by (intro mult_le_mono1) simp
    have r1: "unat r1 = unat r + n mod 128 * 2 ^ (7 * p)"
    proof -
      have "unat r + unat b mod 128 * 2 ^ (7 * p) < 2 ^ 32" unfolding b(2) using prems(3) le by linarith
      from push_bit_or_high32 [OF prems(4) this] show ?thesis unfolding r1_def b(2) .
    qed
    have small: "unat r1 < 2 ^ (7 * Suc p)"
    proof -
      have "n mod 128 * 2 ^ (7 * p) \<le> 127 * 2 ^ (7 * p)" by (intro mult_le_mono1) simp
      then have "unat r1 < 128 * 2 ^ (7 * p)" using r1 prems(4) by linarith
      then show ?thesis by (simp add: power_add)
    qed
    have sum: "unat r1 + n div 128 * 2 ^ (7 * Suc p) = unat r + n * 2 ^ (7 * p)"
    proof -
      have "n mod 128 * q + n div 128 * (128 * q) = n * q" for q :: nat
      proof -
        have "n mod 128 * q + n div 128 * (128 * q) = (n div 128 * 128 + n mod 128) * q" by (simp only: algebra_simps)
        then show ?thesis by (simp only: div_mult_mod_eq)
      qed
      then show ?thesis unfolding r1 by (simp add: power_add)
    qed
    have "p \<noteq> 4"
    proof
      assume "p = 4"
      then have "n * 2 ^ 28 < 2 ^ 32" using prems(3) by simp
      then show False using False by simp
    qed
    then have p': "Suc p \<in> {1, 2, 3, 4}" using prems(1) by auto
    have oct: "varint_octets n = b # varint_octets (n div 128)" using False b(1) by (simp add: varint_octets_step del: of_nat_add)
    have nd: "0 < n div 128" using False by (simp add: div_greater_zero_iff)
    have st: "is_state (advance 1 s) = varint_octets (n div 128) @ rest" "length (varint_octets (n div 128)) \<le> bytes_left (advance 1 s)"
      using prems(6,7) by (simp_all add: oct)
    have bnd: "unat r1 + n div 128 * 2 ^ (7 * Suc p) < 2 ^ 32" unfolding sum by (rule prems(3))
    obtain bitpos c where "varint32_loop (7 * Suc p) r1 (advance 1 s) =
        (Some (word_of_nat (unat r1 + n div 128 * 2 ^ (7 * Suc p)), bitpos, c), advance (length (varint_octets (n div 128))) (advance 1 s))"
      "bitpos = 35 \<longrightarrow> c AND 0x70 = 0"
      using "1.IH" [OF False p' nd bnd small advance_ok [OF prems(5)] st] by blast
    then show ?thesis using step b(3) unfolding sum by (simp add: oct)
  qed
qed

lemma varint32_eof_reads:
  assumes "n < 2 ^ 32" "stream_ok s" "is_state s = varint_octets n @ rest" "length (varint_octets n) \<le> bytes_left s"
  shows "pb_decode_varint32_eof s = ((Some (word_of_nat n), False), advance (length (varint_octets n)) s)"
proof -
  obtain b xs where xs: "is_state s = b # xs" "varint_octets n = b # tl (varint_octets n)"
    using assms(3) by (cases "varint_octets n") auto
  have left: "bytes_left s \<noteq> 0" using assms(4) by (cases "varint_octets n") auto
  show ?thesis
  proof (cases "n < 128")
    case True
    then have b: "b = word_of_nat n" "unat b = n" "b AND 0x80 = 0"
      using xs(2) octet_parts(1,3) [of n] by (simp_all add: varint_octets_small)
    have "ucast b = (word_of_nat n :: u32)" using b(2) by (metis of_nat_unat unat_ucast_le [where 'a = 8 and 'b = 32, simplified] ucast_id)
    then show ?thesis using True b(3) left assms(2)
      by (simp add: pb_decode_varint32_eof_def pb_readbyte_eq xs(1) varint_octets_small)
  next
    case False
    then have b: "b = word_of_nat (128 + n mod 128)" "unat b mod 128 = n mod 128" "b AND 0x80 \<noteq> 0"
      using xs(2) octet_parts(2,4) [of "n mod 128"] by (simp_all add: varint_octets_step del: of_nat_add)
    have u: "unat (ucast (b AND 0x7f) :: u32) = n mod 128" using b(2) by (simp add: unat_ucast_le byte_and_7f)
    have oct: "varint_octets n = b # varint_octets (n div 128)" using False b(1) by (simp add: varint_octets_step del: of_nat_add)
    have sum: "n mod 128 + n div 128 * 2 ^ (7 * 1) = n" by simp
    have nd: "0 < n div 128" using False by (simp add: div_greater_zero_iff)
    have ln: "length (varint_octets (n div 128)) \<le> bytes_left (advance 1 s)" using assms(4) oct by simp
    obtain bitpos c where "varint32_loop (7 * 1) (ucast (b AND 0x7f)) (advance 1 s) =
        (Some (word_of_nat (unat (ucast (b AND 0x7f) :: u32) + n div 128 * 2 ^ (7 * 1)), bitpos, c), advance (length (varint_octets (n div 128))) (advance 1 s))"
      "bitpos = 35 \<longrightarrow> c AND 0x70 = 0"
      using varint32_loop_reads [of 1 "n div 128" "ucast (b AND 0x7f)" "advance 1 s" rest, OF _ nd _ _ _ _ ln] assms u sum advance_ok [OF assms(2)]
      by (auto simp: oct)
    then show ?thesis unfolding u sum using b(3) left assms(2)
      by (auto simp: pb_decode_varint32_eof_def pb_readbyte_eq xs(1) oct)
  qed
qed

lemma reads_varint32: "reads pb_decode_varint32 (varint_octets (unat v)) v"
  unfolding reads_def pb_decode_varint32_def
  using varint32_eof_reads [of "unat v"] unsigned_less [of v, where ?'a = nat] by auto

lemma reads_string:
  assumes "length xs < 2 ^ 32"
  shows "reads pb_skip_string (varint_octets (length xs) @ xs) ()"
    "reads (bind_act pb_decode_varint32 (\<lambda>len. pb_read (unat len))) (varint_octets (length xs) @ xs) xs"
proof -
  have u: "unat (word_of_nat (length xs) :: u32) = length xs" using assms by (simp add: unat_of_nat)
  note len = reads_varint32 [of "word_of_nat (length xs)", unfolded u]
  show "reads pb_skip_string (varint_octets (length xs) @ xs) ()"
    using reads_bind [OF len, of "\<lambda>len. bind_act (pb_read (unat len)) (\<lambda>_. ret_act ())" xs "()"]
      reads_map [OF reads_pb_read [of xs], of "\<lambda>_. ()"] u by (simp add: pb_skip_string_def)
  show "reads (bind_act pb_decode_varint32 (\<lambda>len. pb_read (unat len))) (varint_octets (length xs) @ xs) xs"
    using reads_bind [OF len, of "\<lambda>len. pb_read (unat len)" xs xs] reads_pb_read [of xs] u by simp
qed

section \<open>Reading tags and fixed-size values\<close>

lemma tag_parts:
  assumes "wt < 8" "unat tag < 2 ^ 29"
  shows "unat (word_of_nat (unat tag * 8 + wt) :: u32) = unat tag * 8 + wt"
    "unat ((word_of_nat (unat tag * 8 + wt) :: u32) AND 7) = wt" "drop_bit 3 (word_of_nat (unat tag * 8 + wt)) = (tag :: u32)"
proof -
  let ?w = "word_of_nat (unat tag * 8 + wt) :: u32"
  show u: "unat ?w = unat tag * 8 + wt" using assms unfolding unat_of_nat by simp
  show "unat (?w AND 7) = wt" using unat_and_mask [of ?w 3] assms(1) unfolding u by (simp add: mask_numeral)
  show "drop_bit 3 ?w = tag" using assms(1) by (intro word_unat_eq_iff [THEN iffD2]) (simp only: unat_drop_bit u, simp)
qed

lemma decode_tag_reads:
  assumes "wt < 8" "0 < tag" "unat tag < 2 ^ 29" "stream_ok s" "is_state s = varint_octets (unat tag * 8 + wt) @ rest"
    and "length (varint_octets (unat tag * 8 + wt)) \<le> bytes_left s"
  shows "pb_decode_tag s = ((Some (wt, tag), False), advance (length (varint_octets (unat tag * 8 + wt))) s)"
proof -
  have "unat tag * 8 + wt < 2 ^ 32" using assms(1,3) by simp
  from varint32_eof_reads [OF this assms(4-6)]
  have "pb_decode_varint32_eof s = ((Some (word_of_nat (unat tag * 8 + wt)), False), advance (length (varint_octets (unat tag * 8 + wt))) s)" .
  moreover have "(word_of_nat (unat tag * 8 + wt) :: u32) \<noteq> 0"
  proof
    assume "(word_of_nat (unat tag * 8 + wt) :: u32) = 0"
    then have "unat tag * 8 + wt = 0" using tag_parts(1) [OF assms(1,3)] by (simp only: unsigned_0)
    then show False using assms(2) unat_gt_0 [of tag] by simp
  qed
  ultimately show ?thesis using tag_parts(2,3) [OF assms(1,3)] by (simp add: pb_decode_tag_def)
qed

text \<open>The bytes of a 32-bit and of a 64-bit value, least significant first.\<close>

lemma bit_load: "bit (load_unsigned bs) i \<longleftrightarrow> i < 8 * length bs \<and> i < 64 \<and> bit (bs ! (i div 8)) (i mod 8)"
proof (induction bs arbitrary: i)
  case Nil
  show ?case by (simp add: load_unsigned_def)
next
  case (Cons b bs)
  have eq: "load_unsigned (b # bs) = push_bit 8 (load_unsigned bs) OR ucast b" by (simp add: load_unsigned_def)
  show ?case
  proof (cases "i < 8")
    case True
    then show ?thesis by (simp add: eq bit_simps)
  next
    case False
    then obtain j where j: "i = 8 + j" by (metis le_add_diff_inverse not_less)
    have "\<not> bit b i" using False bit_imp_le_length [of b i] by auto
    moreover have "i div 8 = Suc (j div 8)" "i mod 8 = j mod 8" unfolding j by simp_all
    ultimately show ?thesis using Cons.IH [of j] by (auto simp: eq bit_simps j)
  qed
qed

lemma bit_store: "i < n \<Longrightarrow> bit (store_bytes n v ! i) k \<longleftrightarrow> k < 8 \<and> bit v (8 * i + k)"
  by (auto simp: store_bytes_def bit_simps)

lemma length_store [simp]: "length (store_bytes n v) = n"
  by (simp add: store_bytes_def)

lemma load_store: "load_unsigned (store_bytes n v) = take_bit (8 * n) v"
proof (rule bit_word_eqI)
  fix i :: nat
  have "8 * (i div 8) + i mod 8 = (i :: nat)" by simp
  then show "bit (load_unsigned (store_bytes n v)) i = bit (take_bit (8 * n) v) i"
    using bit_store [of "i div 8" n v "i mod 8"] bit_imp_le_length [of v i] by (auto simp: bit_load bit_simps)
qed

lemma store_load: "length bs \<le> 8 \<Longrightarrow> store_bytes (length bs) (load_unsigned bs) = bs"
proof (rule nth_equalityI)
  fix i assume i: "length bs \<le> 8" "i < length (store_bytes (length bs) (load_unsigned bs))"
  show "store_bytes (length bs) (load_unsigned bs) ! i = bs ! i"
  proof (rule bit_word_eqI)
    fix k assume k: "k < LENGTH(8)"
    have "(8 * i + k) div 8 = i" "(8 * i + k) mod 8 = k" "8 * i + k < 8 * length bs" "8 * i + k < 64" using i k by auto
    then show "bit (store_bytes (length bs) (load_unsigned bs) ! i) k = bit (bs ! i) k"
      using bit_store [of i "length bs" "load_unsigned bs" k] i k by (simp add: bit_load)
  qed
qed simp

lemma fixed64_bytes:
  "push_bit 0 (ucast (le64 v ! 0)) OR push_bit 8 (ucast (le64 v ! 1)) OR push_bit 16 (ucast (le64 v ! 2)) OR
    push_bit 24 (ucast (le64 v ! 3)) OR push_bit 32 (ucast (le64 v ! 4)) OR push_bit 40 (ucast (le64 v ! 5)) OR
    push_bit 48 (ucast (le64 v ! 6)) OR push_bit 56 (ucast (le64 v ! 7)) = v"
proof -
  have "load_unsigned (store_bytes 8 v) = v" unfolding load_store by (simp add: take_bit_word_eq_self)
  moreover have "le64 v = store_bytes 8 v" by (simp add: le64_def store_bytes_def)
  moreover have "load_unsigned [a, b, c, d, e, f, g, h] = push_bit 0 (ucast a) OR push_bit 8 (ucast b) OR push_bit 16 (ucast c) OR
    push_bit 24 (ucast d) OR push_bit 32 (ucast e) OR push_bit 40 (ucast f) OR push_bit 48 (ucast g) OR push_bit 56 (ucast h)" for a b c d e f g h
    by (simp add: load_unsigned_def push_bit_or ac_simps)
  ultimately show ?thesis by (simp add: store_bytes_def byte_indices)
qed

lemma reads_fixed32: "reads pb_decode_fixed32 (le32 v) v"
proof -
  let ?h = "\<lambda>bytes :: byte list. push_bit 0 (ucast (bytes ! 0)) OR push_bit 8 (ucast (bytes ! 1)) OR push_bit 16 (ucast (bytes ! 2)) OR
    push_bit 24 (ucast (bytes ! 3)) :: u32"
  have "length (le32 v) = 4" by (simp add: le32_def)
  then show ?thesis
    using reads_map [OF reads_pb_read [of "le32 v"], of ?h] unfolding fixed32_bytes by (simp add: pb_decode_fixed32_def)
qed

lemma reads_fixed64: "reads pb_decode_fixed64 (le64 v) v"
proof -
  let ?h = "\<lambda>bytes :: byte list. push_bit 0 (ucast (bytes ! 0)) OR push_bit 8 (ucast (bytes ! 1)) OR push_bit 16 (ucast (bytes ! 2)) OR
    push_bit 24 (ucast (bytes ! 3)) OR push_bit 32 (ucast (bytes ! 4)) OR push_bit 40 (ucast (bytes ! 5)) OR
    push_bit 48 (ucast (bytes ! 6)) OR push_bit 56 (ucast (bytes ! 7)) :: u64"
  have "length (le64 v) = 8" by (simp add: le64_def)
  then show ?thesis
    using reads_map [OF reads_pb_read [of "le64 v"], of ?h] unfolding fixed64_bytes by (simp add: pb_decode_fixed64_def)
qed

text \<open>The zigzag transformation and its inverse.\<close>

definition zigzag :: "u64 \<Rightarrow> u64" where
  "zigzag v = (if sint v < 0 then NOT (push_bit 1 v) else push_bit 1 v)"

lemma unzigzag:
  "(if zigzag v AND 1 \<noteq> 0 then NOT (drop_bit 1 (zigzag v)) else drop_bit 1 (zigzag v)) = v"
proof -
  have sgn: "sint v < 0 \<longleftrightarrow> bit v 63" using bit_last_iff [of v] by simp
  have odd: "zigzag v AND 1 \<noteq> 0 \<longleftrightarrow> bit v 63"
  proof -
    have "zigzag v AND 1 \<noteq> 0 \<longleftrightarrow> bit (zigzag v) 0" by (simp add: and_one_eq bit_0 odd_iff_mod_2_eq_one)
    also have "\<dots> \<longleftrightarrow> sint v < 0" unfolding zigzag_def by (auto simp only: bit_not_iff_eq bit_push_bit_iff split: if_splits, simp_all)
    finally show ?thesis using sgn by simp
  qed
  show ?thesis
  proof (cases "bit v 63")
    case True
    have "NOT (drop_bit k (NOT (push_bit k v))) = v" if k: "0 < k" "k < 2" for k
    proof (rule bit_word_eqI)
      fix n assume n: "n < LENGTH(64)"
      have "n = 63" if "\<not> n + k < 64" using that n k by simp
      then show "bit (NOT (drop_bit k (NOT (push_bit k v)))) n = bit v n" using n True by (cases "n + k < 64") (auto simp: bit_simps)
    qed
    from this [of 1] have "NOT (drop_bit 1 (NOT (push_bit 1 v))) = v" by linarith
    then show ?thesis using True odd sgn by (simp add: zigzag_def)
  next
    case False
    have "drop_bit k (push_bit k v) = v" if k: "0 < k" "k < 2" for k
    proof (rule bit_word_eqI)
      fix n assume n: "n < LENGTH(64)"
      have "n = 63" if "\<not> n + k < 64" using that n k by simp
      then show "bit (drop_bit k (push_bit k v)) n = bit v n" using n False by (cases "n + k < 64") (auto simp: bit_simps)
    qed
    from this [of 1] have "drop_bit 1 (push_bit 1 v) = v" by linarith
    then show ?thesis using False odd sgn by (simp add: zigzag_def)
  qed
qed

lemma reads_svarint: "reads pb_decode_svarint (varint_octets (unat (zigzag v))) v"
  using reads_map [OF reads_varint [of "zigzag v"], of "\<lambda>value. if value AND 1 \<noteq> 0 then NOT (drop_bit 1 value) else drop_bit 1 value"]
  unfolding unzigzag pb_decode_svarint_def .

section \<open>Output streams\<close>

text \<open>The memory behind the write pointer holds what may still be written; a counting stream has no memory.\<close>

definition ostream_ok :: "pb_ostream \<Rightarrow> bool" where
  "ostream_ok s \<longleftrightarrow> (case os_state s of None \<Rightarrow> True
     | Some (mem, i) \<Rightarrow> bytes_written s \<le> max_size s \<and> i + (max_size s - bytes_written s) \<le> length mem)"

definition room :: "nat \<Rightarrow> pb_ostream \<Rightarrow> bool" where
  "room n s \<longleftrightarrow> os_state s = None \<or> bytes_written s + n \<le> max_size s"

definition put :: "byte list \<Rightarrow> pb_ostream \<Rightarrow> pb_ostream" where
  "put xs s = s\<lparr>os_state := map_option (\<lambda>(mem, i). (blit i xs mem, i + length xs)) (os_state s), bytes_written := bytes_written s + length xs\<rparr>"

lemma put_Nil: "ostream_ok s \<Longrightarrow> put [] s = s"
  by (cases s, cases "os_state s") (auto simp: put_def ostream_ok_def)

lemma blit_blit:
  "i + length xs + length ys \<le> length mem \<Longrightarrow> blit (i + length xs) ys (blit i xs mem) = blit i (xs @ ys) mem"
  by (simp add: blit_def ac_simps)

lemma put_put: "ostream_ok s \<Longrightarrow> room (length xs + length ys) s \<Longrightarrow> put ys (put xs s) = put (xs @ ys) s"
  by (auto simp: put_def ostream_ok_def room_def blit_blit split: option.splits prod.splits)

lemma put_stream_ok: "ostream_ok s \<Longrightarrow> room (length xs) s \<Longrightarrow> ostream_ok (put xs s)"
  by (auto simp: put_def ostream_ok_def room_def split: option.splits prod.splits)

lemma room_put: "room n (put xs s) \<longleftrightarrow> room (length xs + n) s"
  by (auto simp: room_def put_def)

text \<open>An action that writes exactly \<open>enc\<close>, or fails when there is no room for it.\<close>

definition writes :: "(pb_ostream, unit) act \<Rightarrow> byte list \<Rightarrow> bool" where
  "writes e enc \<longleftrightarrow> (\<forall>s. ostream_ok s \<and> bytes_written s + length enc < size_modulus \<longrightarrow>
     (if room (length enc) s then e s = (Some (), put enc s) else fst (e s) = None))"

lemma writesD:
  assumes "writes e enc" "ostream_ok s" "bytes_written s + length enc < size_modulus"
  shows "room (length enc) s \<Longrightarrow> e s = (Some (), put enc s)" "\<not> room (length enc) s \<Longrightarrow> fst (e s) = None"
  using assms by (auto simp: writes_def)

lemma writes_write: "writes (pb_write xs) xs"
  unfolding writes_def
proof (intro allI impI)
  fix s
  assume s: "ostream_ok s \<and> bytes_written s + length xs < size_modulus"
  show "if room (length xs) s then pb_write xs s = (Some (), put xs s) else fst (pb_write xs s) = None"
  proof (cases "xs = [] \<or> os_state s = None")
    case True
    then show ?thesis using s put_Nil [of s]
      by (cases "os_state s") (auto simp: pb_write_def room_def put_def ostream_ok_def)
  next
    case False
    then show ?thesis using s by (auto simp: pb_write_def room_def put_def buf_write_def)
  qed
qed

lemma writes_then:
  assumes "writes a xs" "writes b ys"
  shows "writes (then_act a b) (xs @ ys)"
  unfolding writes_def
proof (intro allI impI)
  fix s
  assume "ostream_ok s \<and> bytes_written s + length (xs @ ys) < size_modulus"
  then have s: "ostream_ok s" "bytes_written s + length xs < size_modulus" "bytes_written s + length xs + length ys < size_modulus" by auto
  note a = writesD [OF assms(1) s(1,2)]
  show "if room (length (xs @ ys)) s then then_act a b s = (Some (), put (xs @ ys) s) else fst (then_act a b s) = None"
  proof (cases "room (length xs) s")
    case True
    have "bytes_written (put xs s) + length ys < size_modulus" using s(3) by (simp add: put_def)
    note b = writesD [OF assms(2) put_stream_ok [OF s(1) True] this]
    show ?thesis
    proof (cases "room (length xs + length ys) s")
      case r: True
      then show ?thesis using a(1) [OF True] b(1) put_put [OF s(1) r] by (simp add: room_put)
    next
      case False
      then show ?thesis using a(1) [OF True] b(2) by (simp add: room_put)
    qed
  next
    case False
    then obtain s' where "a s = (None, s')" using a(2) by (metis prod.collapse)
    moreover have "\<not> room (length (xs @ ys)) s" using False by (auto simp: room_def)
    ultimately show ?thesis by simp
  qed
qed

lemma writes_ret: "writes (ret_act ()) []"
  by (simp add: writes_def put_Nil room_def ostream_ok_def split: option.splits)

section \<open>Writing values\<close>

lemma update_last:
  "g \<noteq> [] \<Longrightarrow> (x # g)[length (x # g) - 1 := f ((x # g) ! (length (x # g) - 1))] = x # g[length g - 1 := f (g ! (length g - 1))]"
  by (cases g) auto

lemma varint_groups_octets:
  "v \<noteq> 0 \<Longrightarrow> (varint_groups v)[length (varint_groups v) - 1 := varint_groups v ! (length (varint_groups v) - 1) AND 0x7f] = varint_octets (unat v)"
proof (induction v rule: varint_groups.induct)
  case (1 v)
  have low: "unat (v AND 0x7f) = unat v mod 128" using unat_and_mask [of v 7] by (simp add: mask_numeral)
  have high: "unat (drop_bit 7 v) = unat v div 128" by (simp add: unat_drop_bit)
  have step: "varint_groups v = (ucast (v AND 0x7f) OR 0x80) # varint_groups (drop_bit 7 v)"
    using "1.prems" by (subst varint_groups.simps) simp
  have "unat (ucast (v AND 0x7f) :: byte) = unat v mod 128"
    using low by (simp add: unsigned_ucast_eq take_bit_nat_eq_self_iff)
  then have g: "unat (ucast (v AND 0x7f) OR 0x80 :: byte) = 128 + unat v mod 128"
    using unat_push_bit_or [of "ucast (v AND 0x7f) :: byte" 7 1] by (simp add: or.commute)
  show ?case
  proof (cases "unat v < 128")
    case True
    then have "drop_bit 7 v = 0" using high by (simp add: unat_eq_0 [symmetric])
    then have "varint_groups (drop_bit 7 v) = []" by (subst varint_groups.simps) simp
    moreover have "(ucast (v AND 0x7f) OR 0x80) AND 0x7f = (word_of_nat (unat v) :: byte)"
      using True by (intro word_unat_eq_iff [THEN iffD2]) (simp add: byte_and_7f g octet_parts(1) del: of_nat_unat)
    ultimately show ?thesis using True by (simp add: step varint_octets_small)
  next
    case False
    then have nz: "drop_bit 7 v \<noteq> 0" using high by (metis div_greater_zero_iff not_less order.irrefl unsigned_0 zero_less_numeral)
    have m: "unat v mod 128 < 128" by simp
    have ne: "varint_groups (drop_bit 7 v) \<noteq> []" using nz by (subst varint_groups.simps) simp
    have head: "ucast (v AND 0x7f) OR 0x80 = (word_of_nat (128 + unat v mod 128) :: byte)"
      by (intro word_unat_eq_iff [THEN iffD2]) (simp only: g octet_parts(2) [OF m])
    have ge: "128 \<le> unat v" using False by simp
    show ?thesis
      unfolding step update_last [OF ne, of _ "\<lambda>b. b AND 0x7f"] "1.IH" [OF "1.prems" nz] high head varint_octets_step [OF ge] by (rule refl)
  qed
qed

lemma writes_varint: "writes (pb_encode_varint v) (varint_octets (unat v))"
proof (cases "v \<le> 0x7f")
  case True
  then have "unat v < 128" by (simp add: word_le_nat_alt)
  moreover from this have "ucast v = (word_of_nat (unat v) :: byte)" by (simp only: of_nat_unat)
  ultimately show ?thesis using True writes_write by (simp add: pb_encode_varint_def varint_octets_small)
next
  case False
  then have "v \<noteq> 0" by auto
  then show ?thesis using False writes_write varint_groups_octets by (simp add: pb_encode_varint_def Let_def)
qed

lemma writes_svarint: "writes (pb_encode_svarint v) (varint_octets (unat (zigzag v)))"
  using writes_varint [of "zigzag v"] unfolding pb_encode_svarint_def Let_def zigzag_def .

lemma writes_fixed32: "writes (pb_encode_fixed32 v) (le32 v)"
proof -
  have "ucast (w AND mask 8) = (ucast w :: byte)" for w :: u32
    by (rule bit_word_eqI) (auto simp: bit_simps)
  then have "ucast (w AND 0xff) = (ucast w :: byte)" for w :: u32 by (simp add: mask_numeral)
  then have "pb_encode_fixed32 v = pb_write (le32 v)"
    unfolding pb_encode_fixed32_def le32_def byte_indices by simp
  then show ?thesis using writes_write by simp
qed

lemma writes_fixed64: "writes (pb_encode_fixed64 v) (le64 v)"
proof -
  have "ucast (w AND mask 8) = (ucast w :: byte)" for w :: u64
    by (rule bit_word_eqI) (auto simp: bit_simps)
  then have "ucast (w AND 0xff) = (ucast w :: byte)" for w :: u64 by (simp add: mask_numeral)
  then have "pb_encode_fixed64 v = pb_write (le64 v)"
    unfolding pb_encode_fixed64_def le64_def byte_indices by simp
  then show ?thesis using writes_write by simp
qed

lemma writes_string: "length xs < size_modulus \<Longrightarrow> writes (pb_encode_string xs) (varint_octets (length xs) @ xs)"
  using writes_then [OF writes_varint [of "word_of_nat (length xs)"] writes_write [of xs]]
  by (simp add: pb_encode_string_def unat_of_nat)

lemma writes_tag:
  assumes "wt < 8"
  shows "writes (pb_encode_tag wt tag) (varint_octets (unat tag * 8 + wt))"
proof -
  have u: "unat (word_of_nat wt :: u64) = wt" using assms by (simp add: unat_of_nat)
  have "unat tag < 2 ^ 32" using unsigned_less [of tag, where ?'a = nat] by simp
  then have "unat (push_bit 3 (ucast tag) OR word_of_nat wt :: u64) = unat tag * 8 + wt"
    using unat_push_bit_or [of "word_of_nat wt :: u64" 3 "ucast tag"] assms u by (simp add: unat_ucast_le)
  then show ?thesis using writes_varint [of "push_bit 3 (ucast tag) OR word_of_nat wt"] by (simp add: pb_encode_tag_def)
qed

end
