(* ===== verification/Nanopb_Props.thy ===== *)
theory Nanopb_Props
  imports Nanopb_Wire
begin

text \<open>
  What holds of messages on the wire: reading and skipping fields, sizes, the scalar fields of a structure, and the bounds of every reader.
\<close>

section \<open>All readers stay inside their stream\<close>

definition bounded :: "(pb_istream, 'a) act \<Rightarrow> bool" where
  "bounded f \<longleftrightarrow> (\<forall>s. stream_ok s \<longrightarrow> (\<exists>k \<le> bytes_left s. snd (f s) = advance k s))"

named_theorems bounded_intros \<open>readers that stay inside their stream\<close>

lemma boundedD: "bounded f \<Longrightarrow> stream_ok s \<Longrightarrow> \<exists>k \<le> bytes_left s. snd (f s) = advance k s"
  by (simp add: bounded_def)

lemma bounded_ret [bounded_intros]: "bounded (ret_act x)"
  and bounded_fail [bounded_intros]: "bounded fail_act"
  by (auto simp: bounded_def intro: exI [of _ 0])

lemma bounded_bind [bounded_intros]:
  assumes "bounded f" "\<And>x. bounded (g x)"
  shows "bounded (bind_act f g)"
  unfolding bounded_def
proof (intro allI impI)
  fix s assume s: "stream_ok s"
  obtain k where k: "k \<le> bytes_left s" "snd (f s) = advance k s" using boundedD [OF assms(1) s] by blast
  show "\<exists>k \<le> bytes_left s. snd (bind_act f g s) = advance k s"
  proof (cases "fst (f s)")
    case None
    then show ?thesis using k by (auto simp: bind_act_def split: prod.splits)
  next
    case (Some x)
    obtain j where "j \<le> bytes_left (advance k s)" "snd (g x (advance k s)) = advance j (advance k s)"
      using boundedD [OF assms(2) advance_ok [OF s]] by blast
    then have "k + j \<le> bytes_left s" "snd (g x (advance k s)) = advance (k + j) s" using k(1) by simp_all
    moreover have "bind_act f g s = g x (advance k s)" using Some k(2) by (auto simp: bind_act_def split: prod.splits)
    ultimately show ?thesis by metis
  qed
qed

lemma bounded_if [bounded_intros]: "(b \<Longrightarrow> bounded f) \<Longrightarrow> (\<not> b \<Longrightarrow> bounded g) \<Longrightarrow> bounded (if b then f else g)"
  by simp

lemma bounded_option [bounded_intros]: "bounded f \<Longrightarrow> (\<And>y. bounded (g y)) \<Longrightarrow> bounded (case x of None \<Rightarrow> f | Some y \<Rightarrow> g y)"
  by (cases x) auto

lemma bounded_read [bounded_intros]: "bounded (pb_read n)"
  by (auto simp: bounded_def pb_read_eq intro: exI [of _ 0])

lemma bounded_after_byte:
  assumes "stream_ok s" "bytes_left s \<noteq> 0" "\<exists>k \<le> bytes_left (advance 1 s). t = advance k (advance 1 s)"
  shows "\<exists>k \<le> bytes_left s. t = advance k s"
proof -
  obtain k where "k \<le> bytes_left s - 1" "t = advance (1 + k) s" using assms(3) by auto
  then show ?thesis using assms(2) by (intro exI [of _ "1 + k"]) auto
qed

lemma bounded_varint_loop: "stream_ok s \<Longrightarrow> \<exists>k \<le> bytes_left s. snd (varint_loop p r s) = advance k s"
proof (induction "bytes_left s" arbitrary: s p r rule: less_induct)
  case less
  show ?case
  proof (cases "p \<ge> 64 \<or> bytes_left s = 0")
    case True
    then show ?thesis using less.prems by (subst varint_loop.simps) (auto simp: pb_readbyte_eq intro: exI [of _ 0])
  next
    case False
    have "\<exists>k \<le> bytes_left s. snd (varint_loop p' r' (advance 1 s)) = advance k s" for p' r'
      by (rule bounded_after_byte [OF less.prems _ less.hyps [OF _ advance_ok [OF less.prems]]]) (use False in auto)
    moreover have "\<exists>k \<le> bytes_left s. advance 1 s = advance k s" using False by (intro exI [of _ 1]) auto
    ultimately show ?thesis using False less.prems
      by (subst varint_loop.simps) (simp add: pb_readbyte_eq Let_def)
  qed
qed

lemma bounded_varint32_loop: "stream_ok s \<Longrightarrow> \<exists>k \<le> bytes_left s. snd (varint32_loop p r s) = advance k s"
proof (induction "bytes_left s" arbitrary: s p r rule: less_induct)
  case less
  show ?case
  proof (cases "bytes_left s = 0")
    case True
    then show ?thesis using less.prems by (subst varint32_loop.simps) (auto simp: pb_readbyte_eq intro: exI [of _ 0])
  next
    case False
    have "\<exists>k \<le> bytes_left s. snd (varint32_loop p' r' (advance 1 s)) = advance k s" for p' r'
      by (rule bounded_after_byte [OF less.prems _ less.hyps [OF _ advance_ok [OF less.prems]]]) (use False in auto)
    moreover have "\<exists>k \<le> bytes_left s. advance 1 s = advance k s" using False by (intro exI [of _ 1]) auto
    ultimately show ?thesis using False less.prems
      by (subst varint32_loop.simps) (simp add: pb_readbyte_eq Let_def)
  qed
qed

lemma bounded_eof: "stream_ok s \<Longrightarrow> \<exists>k \<le> bytes_left s. snd (pb_decode_varint32_eof s) = advance k s"
proof (cases "bytes_left s = 0")
  case True
  assume s: "stream_ok s"
  show ?thesis using True s by (auto simp: pb_decode_varint32_eof_def pb_readbyte_eq intro: exI [of _ 0])
next
  case False
  assume s: "stream_ok s"
  have *: "\<exists>k \<le> bytes_left s. snd (varint32_loop 7 r (advance 1 s)) = advance k s" for r
    using bounded_after_byte [OF s False bounded_varint32_loop [OF advance_ok [OF s]]] .
  have "\<exists>k \<le> bytes_left s. advance 1 s = advance k s" using False by (intro exI [of _ 1]) auto
  then show ?thesis using False s * [of "ucast (is_state s ! 0 AND 0x7f)"]
    by (auto simp: pb_decode_varint32_eof_def pb_readbyte_eq split: prod.splits option.splits)
qed

lemma bounded_varints [bounded_intros]: "bounded pb_decode_varint" "bounded pb_decode_varint32"
  using bounded_varint_loop bounded_eof
  by (auto simp: bounded_def pb_decode_varint_def pb_decode_varint32_def split: prod.splits) (metis snd_conv)

lemma bounded_skip_varint [bounded_intros]: "bounded pb_skip_varint"
proof -
  have "stream_ok s \<Longrightarrow> \<exists>k \<le> bytes_left s. snd (pb_skip_varint s) = advance k s" for s
  proof (induction "bytes_left s" arbitrary: s rule: less_induct)
    case less
    show ?case
    proof (cases "bytes_left s = 0")
      case True
      then show ?thesis by (subst pb_skip_varint.simps) (auto simp: pb_read_eq intro: exI [of _ 0])
    next
      case False
      have "\<exists>k \<le> bytes_left s. snd (pb_skip_varint (advance 1 s)) = advance k s"
        by (rule bounded_after_byte [OF less.prems _ less.hyps [OF _ advance_ok [OF less.prems]]]) (use False in auto)
      moreover have "\<exists>k \<le> bytes_left s. advance 1 s = advance k s" using False by (intro exI [of _ 1]) auto
      ultimately show ?thesis using False by (subst pb_skip_varint.simps) (simp add: pb_read_eq)
    qed
  qed
  then show ?thesis by (simp add: bounded_def)
qed

lemma bounded_raw_varint [bounded_intros]: "bounded (raw_varint m n)"
proof -
  have "stream_ok s \<Longrightarrow> \<exists>k \<le> bytes_left s. snd (raw_varint m n s) = advance k s" for s
  proof (induction "bytes_left s" arbitrary: s n rule: less_induct)
    case less
    show ?case
    proof (cases "bytes_left s = 0 \<or> n + 1 > m")
      case True
      then show ?thesis by (subst raw_varint.simps) (auto simp: pb_read_eq intro: exI [of _ 0])
    next
      case False
      have "\<exists>k \<le> bytes_left s. snd (raw_varint m (n + 1) (advance 1 s)) = advance k s"
        by (rule bounded_after_byte [OF less.prems _ less.hyps [OF _ advance_ok [OF less.prems]]]) (use False in auto)
      moreover have "\<exists>k \<le> bytes_left s. advance 1 s = advance k s" using False by (intro exI [of _ 1]) auto
      ultimately show ?thesis using False by (subst raw_varint.simps) (auto simp: pb_read_eq split: prod.splits option.splits)
    qed
  qed
  then show ?thesis by (simp add: bounded_def)
qed

lemma bounded_svarint [bounded_intros]: "bounded pb_decode_svarint"
  unfolding pb_decode_svarint_def by (intro bounded_intros)

lemma bounded_read_string [bounded_intros]: "bounded (read_string n mem)"
proof -
  have "snd (read_string n mem s) = snd (pb_read n s)" for s
    by (simp add: read_string_def split: prod.splits option.splits)
  then show ?thesis using bounded_read [of n] by (simp add: bounded_def)
qed

text \<open>C28: Every reader of the wire format and of scalar fields, whether it succeeds or fails, moves the read pointer by at most the bytes that are
  left and counts them: it never reads outside the buffer, nor past the end of a submessage.\<close>

theorem nanopb_readers_in_bounds:
  "(stream_ok s \<longrightarrow> (\<exists>k \<le> bytes_left s. snd (pb_decode_tag s) = advance k s)) \<and>
    bounded (pb_skip_field wt) \<and> bounded (read_raw_value wt n) \<and> bounded pb_decode_fixed32 \<and> bounded pb_decode_fixed64 \<and>
    bounded pb_dec_bool \<and> bounded (pb_dec_varint field) \<and> bounded (pb_dec_uvarint field) \<and> bounded (pb_dec_svarint field) \<and>
    bounded (pb_dec_bytes m field dest) \<and> bounded (pb_dec_string m field dest) \<and> bounded (pb_dec_fixed_length_bytes field)"
proof (intro conjI impI)
  assume "stream_ok s"
  then show "\<exists>k \<le> bytes_left s. snd (pb_decode_tag s) = advance k s"
    using bounded_eof [of s] by (auto simp: pb_decode_tag_def split: prod.splits option.splits)
qed (unfold pb_skip_field_def pb_skip_string_def read_raw_value_def pb_dec_bool_def pb_dec_varint_def pb_dec_uvarint_def pb_dec_svarint_def
    pb_decode_fixed32_def pb_decode_fixed64_def pb_dec_bytes_def pb_dec_string_def pb_dec_fixed_length_bytes_def Let_def,
    (intro bounded_intros)+)

theorem nanopb_readers_in_bounds_witness:
  "\<exists>k \<le> 3. snd (pb_decode_tag \<lparr>is_state = [0x82, 0x83, 0x84, 0], bytes_left = 3\<rparr>) = advance k \<lparr>is_state = [0x82, 0x83, 0x84, 0], bytes_left = 3\<rparr>"
  using nanopb_readers_in_bounds [of "\<lparr>is_state = [0x82, 0x83, 0x84, 0], bytes_left = 3\<rparr>"] by (simp add: stream_ok_def)

section \<open>Messages\<close>

text \<open>A field on the wire: its number and a value of one of the four wire types. Writing and reading it with the functions of the library, the way
  \<^verbatim>\<open>pb_encode\<close> and \<^verbatim>\<open>pb_decode\<close> do for every field; a string is read through a substream.\<close>

datatype wire_value = Varint u64 | Fixed64 u64 | Octets "byte list" | Fixed32 u32

primrec wire_type :: "wire_value \<Rightarrow> nat" where
  "wire_type (Varint v) = PB_WT_VARINT"
| "wire_type (Fixed64 v) = PB_WT_64BIT"
| "wire_type (Octets xs) = PB_WT_STRING"
| "wire_type (Fixed32 v) = PB_WT_32BIT"

primrec write_value :: "wire_value \<Rightarrow> (pb_ostream, unit) act" where
  "write_value (Varint v) = pb_encode_varint v"
| "write_value (Fixed64 v) = pb_encode_fixed64 v"
| "write_value (Octets xs) = pb_encode_string xs"
| "write_value (Fixed32 v) = pb_encode_fixed32 v"

primrec write_message :: "(u32 \<times> wire_value) list \<Rightarrow> (pb_ostream, unit) act" where
  "write_message [] = ret_act ()"
| "write_message (f # fs) = then_act (then_act (pb_encode_tag (wire_type (snd f)) (fst f)) (write_value (snd f))) (write_message fs)"

definition read_octets :: "(pb_istream, byte list) act" where
  "read_octets =
     bind_act pb_make_string_substream (\<lambda>substream stream.
       case pb_read (bytes_left substream) substream of
         (None, _) \<Rightarrow> (None, stream)
       | (Some xs, substream) \<Rightarrow> then_act (pb_close_string_substream substream) (ret_act xs) stream)"

definition read_value :: "nat \<Rightarrow> (pb_istream, wire_value) act" where
  "read_value wt =
     (if wt = PB_WT_VARINT then bind_act pb_decode_varint (\<lambda>v. ret_act (Varint v))
      else if wt = PB_WT_64BIT then bind_act pb_decode_fixed64 (\<lambda>v. ret_act (Fixed64 v))
      else if wt = PB_WT_STRING then bind_act read_octets (\<lambda>v. ret_act (Octets v))
      else if wt = PB_WT_32BIT then bind_act pb_decode_fixed32 (\<lambda>v. ret_act (Fixed32 v))
      else fail_act)"

text \<open>The tag and then what \<open>f\<close> makes of the field.\<close>

definition with_tag :: "(nat \<Rightarrow> u32 \<Rightarrow> (pb_istream, 'a) act) \<Rightarrow> (pb_istream, 'a) act" where
  "with_tag f s =
     (case pb_decode_tag s of
        ((None, _), s) \<Rightarrow> (None, s)
      | ((Some (wt, tag), _), s) \<Rightarrow> f wt tag s)"

definition read_field :: "(pb_istream, u32 \<times> wire_value) act" where
  "read_field = with_tag (\<lambda>wt tag. bind_act (read_value wt) (\<lambda>v. ret_act (tag, v)))"

definition skip_field :: "(pb_istream, unit) act" where
  "skip_field = with_tag (\<lambda>wt tag. pb_skip_field wt)"

primrec value_octets :: "wire_value \<Rightarrow> byte list" where
  "value_octets (Varint v) = varint_octets (unat v)"
| "value_octets (Fixed64 v) = le64 v"
| "value_octets (Octets xs) = varint_octets (length xs) @ xs"
| "value_octets (Fixed32 v) = le32 v"

definition field_octets :: "u32 \<times> wire_value \<Rightarrow> byte list" where
  "field_octets f = varint_octets (unat (fst f) * 8 + wire_type (snd f)) @ value_octets (snd f)"

text \<open>Field numbers have 29 bits and are positive, lengths have 32 bits.\<close>

definition field_ok :: "u32 \<times> wire_value \<Rightarrow> bool" where
  "field_ok f \<longleftrightarrow> 0 < fst f \<and> unat (fst f) < 2 ^ 29 \<and> (case snd f of Octets xs \<Rightarrow> length xs < 2 ^ 32 | _ \<Rightarrow> True)"

lemma wire_type_less: "wire_type v < 8"
  by (cases v) (simp_all add: wire_types)

lemma writes_message: "list_all field_ok fs \<Longrightarrow> writes (write_message fs) (concat (map field_octets fs))"
proof (induction fs)
  case Nil
  show ?case unfolding write_message.simps list.map concat.simps by (rule writes_ret)
next
  case (Cons f fs)
  have "writes (write_value (snd f)) (value_octets (snd f))"
    using Cons.prems writes_varint writes_fixed64 writes_fixed32 writes_string
    by (cases "snd f") (auto simp: field_ok_def)
  then show ?case
    using writes_then [OF writes_then [OF writes_tag [OF wire_type_less]] Cons.IH] Cons.prems by (simp add: field_octets_def)
qed

lemma reads_octets:
  assumes "length xs < 2 ^ 32"
  shows "reads read_octets (varint_octets (length xs) @ xs) xs"
  unfolding reads_def
proof (intro allI impI)
  fix s rest
  let ?n = "length (varint_octets (length xs))"
  assume s: "stream_ok s \<and> is_state s = (varint_octets (length xs) @ xs) @ rest \<and> length (varint_octets (length xs) @ xs) \<le> bytes_left s"
  have u: "unat (word_of_nat (length xs) :: u32) = length xs" using assms by (simp add: unat_of_nat)
  have "pb_decode_varint32 s = (Some (word_of_nat (length xs)), advance ?n s)"
    using readsD [OF reads_varint32 [of "word_of_nat (length xs)", unfolded u], of s "xs @ rest"] s by simp
  moreover have "?n + length xs \<le> bytes_left s" using s by simp
  then have "length xs \<le> bytes_left s - ?n" by linarith
  ultimately have mk: "pb_make_string_substream s =
      (Some ((advance ?n s)\<lparr>bytes_left := length xs\<rparr>), (advance ?n s)\<lparr>bytes_left := bytes_left s - ?n - length xs\<rparr>)"
    using s u by (simp add: pb_make_string_substream_def)
  show "read_octets s = (Some xs, advance (length (varint_octets (length xs) @ xs)) s)"
    using s mk by (simp add: read_octets_def pb_read_eq pb_close_string_substream_def advance_def)
qed

lemma reads_value: "field_ok (tag, v) \<Longrightarrow> reads (read_value (wire_type v)) (value_octets v) v"
  using reads_map [OF reads_varint, of Varint] reads_map [OF reads_fixed64, of Fixed64] reads_map [OF reads_fixed32, of Fixed32]
    reads_map [OF reads_octets, of _ Octets]
  by (cases v) (auto simp: read_value_def wire_types field_ok_def)

lemma reads_skip: "field_ok (tag, v) \<Longrightarrow> reads (pb_skip_field (wire_type v)) (value_octets v) ()"
proof (cases v)
  case (Fixed64 w)
  have "length (le64 w) = 8" by (simp add: le64_def)
  then show ?thesis using Fixed64 reads_map [OF reads_pb_read [of "le64 w"], of "\<lambda>_. ()"] by (simp add: pb_skip_field_def wire_types)
next
  case (Fixed32 w)
  have "length (le32 w) = 4" by (simp add: le32_def)
  then show ?thesis using Fixed32 reads_map [OF reads_pb_read [of "le32 w"], of "\<lambda>_. ()"] by (simp add: pb_skip_field_def wire_types)
qed (auto simp: pb_skip_field_def wire_types field_ok_def reads_skip_varint reads_string(1))

lemma reads_with_tag:
  assumes "0 < tag" "unat tag < 2 ^ 29" "wt < 8" "reads (f wt tag) ys y"
  shows "reads (with_tag f) (varint_octets (unat tag * 8 + wt) @ ys) y"
  unfolding reads_def
proof (intro allI impI)
  fix s rest
  let ?n = "length (varint_octets (unat tag * 8 + wt))"
  assume s: "stream_ok s \<and> is_state s = (varint_octets (unat tag * 8 + wt) @ ys) @ rest \<and> length (varint_octets (unat tag * 8 + wt) @ ys) \<le> bytes_left s"
  then have "pb_decode_tag s = ((Some (wt, tag), False), advance ?n s)"
    using decode_tag_reads [OF assms(3,1,2), of s "ys @ rest"] by simp
  moreover have "f wt tag (advance ?n s) = (Some y, advance (length ys) (advance ?n s))"
    using readsD [OF assms(4) advance_ok, of s ?n rest] s by auto
  ultimately show "with_tag f s = (Some y, advance (length (varint_octets (unat tag * 8 + wt) @ ys)) s)"
    by (simp add: with_tag_def)
qed

lemma reads_field: "field_ok f \<Longrightarrow> reads read_field (field_octets f) f"
  and reads_skip_field: "field_ok f \<Longrightarrow> reads skip_field (field_octets f) ()"
proof -
  assume f: "field_ok f"
  obtain tag v where tv: "f = (tag, v)" by (cases f)
  have t: "0 < tag" "unat tag < 2 ^ 29" using f by (auto simp: field_ok_def tv)
  show "reads read_field (field_octets f) f"
    unfolding read_field_def tv field_octets_def fst_conv snd_conv
    by (rule reads_with_tag [OF t wire_type_less]) (rule reads_map [OF reads_value [OF f [unfolded tv]], where h = "\<lambda>v. (tag, v)"])
  show "reads skip_field (field_octets f) ()"
    unfolding skip_field_def tv field_octets_def fst_conv snd_conv
    by (rule reads_with_tag [OF t wire_type_less]) (rule reads_skip [OF f [unfolded tv]])
qed

text \<open>Skipping every field of a message.\<close>

lemma reads_skip_all:
  "list_all field_ok fs \<Longrightarrow> reads (times_act (length fs) skip_field) (concat (map field_octets fs)) (replicate (length fs) ())"
proof (induction fs)
  case (Cons f fs)
  then have IH: "reads (bind_act (times_act (length fs) skip_field) (\<lambda>ys. ret_act (() # ys))) (concat (map field_octets fs)) (() # replicate (length fs) ())"
    by (intro reads_map [where h = "\<lambda>ys. () # ys"]) auto
  have "reads skip_field (field_octets f) ()" using Cons.prems reads_skip_field by simp
  from reads_bind [OF this, of "\<lambda>x. bind_act (times_act (length fs) skip_field) (\<lambda>ys. ret_act (x # ys))"] IH show ?case by simp
qed (simp add: reads_ret)

text \<open>C14: A message that is written to a buffer is read back field by field, and reading or skipping its fields ends exactly where the message ends.
  A counting stream predicts the size, and the writer succeeds exactly if that size fits.\<close>

theorem nanopb_message_round_trip:
  assumes "list_all field_ok fs" "length (concat (map field_octets fs)) < size_modulus" "n \<le> length buf"
  shows "\<exists>size. write_message fs PB_OSTREAM_SIZING = (Some (), PB_OSTREAM_SIZING\<lparr>bytes_written := size\<rparr>) \<and>
    (if size \<le> n then
       \<exists>mem. write_message fs (pb_ostream_from_buffer buf n) =
           (Some (), \<lparr>os_state = Some (mem, size), max_size = n, bytes_written = size\<rparr>) \<and> length mem = length buf \<and>
         times_act (length fs) read_field (pb_istream_from_buffer mem size) = (Some fs, \<lparr>is_state = drop size mem, bytes_left = 0\<rparr>) \<and>
         snd (times_act (length fs) skip_field (pb_istream_from_buffer mem size)) = \<lparr>is_state = drop size mem, bytes_left = 0\<rparr>
     else fst (write_message fs (pb_ostream_from_buffer buf n)) = None)"
proof -
  define enc where "enc = concat (map field_octets fs)"
  note w = writes_message [OF assms(1), folded enc_def]
  have size: "write_message fs PB_OSTREAM_SIZING = (Some (), PB_OSTREAM_SIZING\<lparr>bytes_written := length enc\<rparr>)"
    using writesD [OF w, of PB_OSTREAM_SIZING] assms(2)
    by (simp add: enc_def PB_OSTREAM_SIZING_def ostream_ok_def room_def put_def)
  let ?s = "pb_ostream_from_buffer buf n"
  have s: "ostream_ok ?s" "bytes_written ?s + length enc < size_modulus" "room (length enc) ?s \<longleftrightarrow> length enc \<le> n"
    using assms(2,3) by (auto simp: pb_ostream_from_buffer_def ostream_ok_def enc_def room_def)
  show ?thesis
  proof (cases "length enc \<le> n")
    case True
    define mem where "mem = blit 0 enc buf"
    have mem: "length mem = length buf" "mem = enc @ drop (length enc) mem" using True assms(3) by (simp_all add: mem_def blit_def)
    have out: "write_message fs ?s = (Some (), \<lparr>os_state = Some (mem, length enc), max_size = n, bytes_written = length enc\<rparr>)"
      using writesD(1) [OF w s(1,2)] s(3) True by (simp add: put_def pb_ostream_from_buffer_def mem_def)
    let ?i = "pb_istream_from_buffer mem (length enc)"
    have i: "stream_ok ?i" "is_state ?i = enc @ drop (length enc) mem" "length enc \<le> bytes_left ?i"
      using mem True assms(3) by (simp_all add: pb_istream_from_buffer_def stream_ok_def)
    have adv: "advance (length enc) ?i = \<lparr>is_state = drop (length enc) mem, bytes_left = 0\<rparr>"
      by (simp add: pb_istream_from_buffer_def advance_def)
    have "reads (times_act (length fs) read_field) enc fs"
      unfolding enc_def by (rule reads_times) (use assms(1) reads_field in \<open>auto simp: list_all_iff\<close>)
    from readsD [OF this i] readsD [OF reads_skip_all [OF assms(1), folded enc_def] i]
    show ?thesis using size out mem(1) True unfolding adv by (intro exI [of _ "length enc"]) simp
  next
    case False
    then show ?thesis using size writesD(2) [OF w s(1,2)] s(3) by (intro exI [of _ "length enc"]) simp
  qed
qed

theorem nanopb_message_round_trip_witness:
  "\<exists>mem. write_message [(1, Varint 300), (2, Octets [1, 2])] (pb_ostream_from_buffer (replicate 20 0) 20) =
      (Some (), \<lparr>os_state = Some (mem, 7), max_size = 20, bytes_written = 7\<rparr>) \<and>
    fst (times_act 2 read_field (pb_istream_from_buffer mem 7)) = Some [(1, Varint 300), (2, Octets [1, 2])]"
proof -
  let ?fs = "[(1, Varint 300), (2, Octets [1, 2])] :: (u32 \<times> wire_value) list"
  have a: "varint_octets 8 = [8]" "varint_octets 18 = [18]" "varint_octets 2 = [2]" "varint_octets (Suc (Suc 0)) = [2]"
    by (simp_all add: varint_octets_small)
  have b: "varint_octets 300 = [0xac, 2]" by (simp add: varint_octets_step varint_octets_small)
  have enc: "length (concat (map field_octets ?fs)) = 7" by (simp add: field_octets_def wire_types a b)
  have ok: "list_all field_ok ?fs" by (simp add: field_ok_def)
  have "write_message ?fs PB_OSTREAM_SIZING = (Some (), PB_OSTREAM_SIZING\<lparr>bytes_written := 7\<rparr>)"
    using writesD [OF writes_message [OF ok], of PB_OSTREAM_SIZING] enc
    by (simp add: PB_OSTREAM_SIZING_def ostream_ok_def room_def put_def)
  note sizing = this
  have "length (concat (map field_octets ?fs)) < size_modulus" "20 \<le> length (replicate 20 (0 :: byte))" using enc by simp_all
  from nanopb_message_round_trip [OF ok this] obtain size where
    size: "write_message ?fs PB_OSTREAM_SIZING = (Some (), PB_OSTREAM_SIZING\<lparr>bytes_written := size\<rparr>)" and
    rest: "if size \<le> 20 then
       \<exists>mem. write_message ?fs (pb_ostream_from_buffer (replicate 20 0) 20) =
           (Some (), \<lparr>os_state = Some (mem, size), max_size = 20, bytes_written = size\<rparr>) \<and>
         length mem = length (replicate 20 (0 :: byte)) \<and>
         times_act (length ?fs) read_field (pb_istream_from_buffer mem size) = (Some ?fs, \<lparr>is_state = drop size mem, bytes_left = 0\<rparr>) \<and>
         snd (times_act (length ?fs) skip_field (pb_istream_from_buffer mem size)) = \<lparr>is_state = drop size mem, bytes_left = 0\<rparr>
     else fst (write_message ?fs (pb_ostream_from_buffer (replicate 20 0) 20)) = None"
    by (elim exE conjE)
  from size sizing have "(Some (), PB_OSTREAM_SIZING\<lparr>bytes_written := size\<rparr>) = (Some (), PB_OSTREAM_SIZING\<lparr>bytes_written := 7\<rparr>)"
    by (rule trans [OF sym])
  then have "size = 7" by (simp add: PB_OSTREAM_SIZING_def)
  have two: "length ?fs = 2" and seven: "(7 :: nat) \<le> 20" by simp_all
  from rest have "\<exists>mem. write_message ?fs (pb_ostream_from_buffer (replicate 20 0) 20) =
      (Some (), \<lparr>os_state = Some (mem, 7), max_size = 20, bytes_written = 7\<rparr>) \<and>
    times_act 2 read_field (pb_istream_from_buffer mem 7) = (Some ?fs, \<lparr>is_state = drop 7 mem, bytes_left = 0\<rparr>)"
    unfolding \<open>size = 7\<close> two if_P [OF seven] by blast
  then show ?thesis by (elim exE conjE) (rule exI, rule conjI, assumption, rule trans [OF arg_cong [of _ _ fst]], assumption, rule fst_conv)
qed

section \<open>Scalar fields of a structure\<close>

lemma store_signed: "store_bytes n (signed_take_bit (8 * n - 1) v) = store_bytes n (v :: u64)" if "0 < n"
proof (rule nth_equalityI)
  fix i assume i: "i < length (store_bytes n (signed_take_bit (8 * n - 1) v))"
  show "store_bytes n (signed_take_bit (8 * n - 1) v) ! i = store_bytes n v ! i"
  proof (rule bit_word_eqI)
    fix k assume k: "k < LENGTH(8)"
    have "8 * i + k \<le> 8 * n - 1" using i k by simp
    then show "bit (store_bytes n (signed_take_bit (8 * n - 1) v) ! i) k = bit (store_bytes n v ! i) k"
      using i k bit_imp_le_length [of v "8 * i + k"] by (auto simp: bit_store bit_signed_take_bit_iff min_def)
  qed
qed simp

text \<open>The types of the code: members of one, two, four or eight bytes.\<close>

lemma int_sizes: "is_int_size n \<Longrightarrow> 0 < n \<and> n \<le> 8 \<and> (n \<noteq> 8 \<longrightarrow> n \<le> 4)"
  by (auto simp: is_int_size_def)

text \<open>An integer member of a structure, of any of the four sizes and three wire encodings, is decoded from what was encoded from it, bit for
  bit: narrow members are sign-extended on the way out and truncated on the way in without loss.\<close>

theorem nanopb_scalars_round_trip:
  assumes "is_int_size (data_size field)" "length src = data_size field"
  shows "(\<exists>xs. writes (pb_enc_varint field src) xs \<and> reads (pb_dec_varint field) xs src) \<and>
    (\<exists>xs. writes (pb_enc_uvarint field src) xs \<and> reads (pb_dec_uvarint field) xs src) \<and>
    (\<exists>xs. writes (pb_enc_svarint field src) xs \<and> reads (pb_dec_svarint field) xs src)"
proof (intro conjI exI)
  let ?n = "data_size field" and ?s = "load_signed src" and ?u = "load_unsigned src"
  note n = int_sizes [OF assms(1)]
  have u: "store_bytes ?n ?u = src" using store_load [of src] assms(2) n by simp
  have s: "store_bytes ?n ?s = src" using u n store_signed [of ?n ?u] by (simp add: load_signed_def assms(2))
  show "writes (pb_enc_varint field src) (varint_octets (unat ?s))" using assms(1) writes_varint by (simp add: pb_enc_varint_def)
  show "writes (pb_enc_uvarint field src) (varint_octets (unat ?u))" using assms(1) writes_varint by (simp add: pb_enc_uvarint_def)
  show "writes (pb_enc_svarint field src) (varint_octets (unat (zigzag ?s)))" using assms(1) writes_svarint by (simp add: pb_enc_svarint_def)
  have narrow: "(if ?n = 8 then ?s else signed_take_bit 31 ?s) = ?s"
  proof (cases "?n = 8")
    case False
    then have "8 * ?n - 1 \<le> 31" using n by linarith
    then show ?thesis using False by (simp add: load_signed_def assms(2) min_absorb2)
  qed simp
  have "reads (pb_dec_varint field) (varint_octets (unat ?s) @ []) src"
    unfolding pb_dec_varint_def
    by (rule reads_bind [OF reads_varint]) (simp add: narrow s assms(1) reads_ret [of src, simplified] Let_def)
  then show "reads (pb_dec_varint field) (varint_octets (unat ?s)) src" by simp
  have "reads (pb_dec_uvarint field) (varint_octets (unat ?u) @ []) src"
    unfolding pb_dec_uvarint_def
    by (rule reads_bind [OF reads_varint]) (simp add: u assms(1) reads_ret [of src, simplified] Let_def)
  then show "reads (pb_dec_uvarint field) (varint_octets (unat ?u)) src" by simp
  have "reads (pb_dec_svarint field) (varint_octets (unat (zigzag ?s)) @ []) src"
    unfolding pb_dec_svarint_def
    by (rule reads_bind [OF reads_svarint]) (simp add: s assms(1) reads_ret [of src, simplified] Let_def)
  then show "reads (pb_dec_svarint field) (varint_octets (unat (zigzag ?s))) src" by simp
qed

theorem nanopb_scalars_round_trip_witness:
  "\<exists>xs. writes (pb_enc_svarint \<lparr>field_tag = 1, field_type = 3, data_size = 2\<rparr> [0xfe, 0xff]) xs \<and>
    reads (pb_dec_svarint \<lparr>field_tag = 1, field_type = 3, data_size = 2\<rparr>) xs [0xfe, 0xff]"
  using nanopb_scalars_round_trip [of "\<lparr>field_tag = 1, field_type = 3, data_size = 2\<rparr>" "[0xfe, 0xff]"]
  by (simp add: is_int_size_def)

section \<open>Long varints\<close>

text \<open>C26: \<^verbatim>\<open>pb_decode_varint\<close> accepts exactly the sequences of at most ten octets in which all but the last have the top bit set, and returns the
  value of their groups modulo 2 to the 64.\<close>

theorem nanopb_varint_exact:
  assumes "stream_ok s"
  shows "pb_decode_varint s = (Some v, s') \<longleftrightarrow>
    (\<exists>bs rest. is_state s = bs @ rest \<and> varint_shape bs \<and> length bs \<le> bytes_left s \<and> length bs \<le> 10 \<and>
      v = word_of_nat (groups_value bs) \<and> s' = advance (length bs) s)"
  by (rule decode_varint_iff [OF assms])

theorem nanopb_varint_exact_witness:
  "pb_decode_varint \<lparr>is_state = [0x80, 0, 7], bytes_left = 3\<rparr> = (Some 0, \<lparr>is_state = [7], bytes_left = 1\<rparr>)"
proof -
  let ?s = "\<lparr>is_state = [0x80, 0, 7], bytes_left = 3\<rparr> :: pb_istream"
  have "is_state ?s = [0x80, 0] @ [7] \<and> varint_shape [0x80, 0] \<and> length [0x80, 0 :: byte] \<le> bytes_left ?s \<and> length [0x80, 0 :: byte] \<le> 10 \<and>
      (0 :: u64) = word_of_nat (groups_value [0x80, 0]) \<and> \<lparr>is_state = [7], bytes_left = 1\<rparr> = advance (length [0x80, 0 :: byte]) ?s"
    by (simp add: varint_shape_def advance_def)
  moreover have "stream_ok ?s" by (simp add: stream_ok_def)
  ultimately show ?thesis using nanopb_varint_exact by blast
qed

text \<open>\<^verbatim>\<open>pb_decode_varint32\<close> drops bits 32 to 34 of a varint without reporting an overflow, if the fifth octet is not the last one: this
  encoding of 2 to the 32 is read as 0.\<close>

theorem nanopb_varint32_drops_bits:
  "pb_decode_varint32 (pb_istream_from_buffer [0x80, 0x80, 0x80, 0x80, 0x90, 0] 6) = (Some 0, \<lparr>is_state = [], bytes_left = 0\<rparr>) \<and>
    pb_decode_varint (pb_istream_from_buffer [0x80, 0x80, 0x80, 0x80, 0x90, 0] 6) = (Some (2 ^ 32), \<lparr>is_state = [], bytes_left = 0\<rparr>)"
proof
  show "pb_decode_varint32 (pb_istream_from_buffer [0x80, 0x80, 0x80, 0x80, 0x90, 0] 6) = (Some 0, \<lparr>is_state = [], bytes_left = 0\<rparr>)"
    by code_simp
  show "pb_decode_varint (pb_istream_from_buffer [0x80, 0x80, 0x80, 0x80, 0x90, 0] 6) = (Some (2 ^ 32), \<lparr>is_state = [], bytes_left = 0\<rparr>)"
    by code_simp
qed

end
