(* ===== verification/Nanopb_Fields.thy ===== *)
theory Nanopb_Fields
  imports Nanopb_Props
begin








lemma store_at_fits: "i + length xs \<le> length mem \<Longrightarrow> store_at i xs mem = Some (blit i xs mem)"
  by (simp add: store_at_def)








text \<open>A static byte array or string that fits its member.\<close>

lemma reads_bytes:
  assumes "PB_ATYPE (field_type field) = PB_ATYPE_STATIC" "length bytes + 4 \<le> data_size field" "length bytes < 2 ^ 32"
    "length dest = data_size field"
  shows "reads (pb_dec_bytes m field (Some dest)) (varint_octets (length bytes) @ bytes)
    (Some (blit 4 bytes (blit 0 (store_bytes 4 (word_of_nat (length bytes))) dest)))"
proof -
  let ?len = "word_of_nat (length bytes) :: u32"
  have u: "unat ?len = length bytes" using assms(3) by (simp add: unat_of_nat)
  have c: "ucast ?len = (word_of_nat (length bytes) :: u64)" by (metis u of_nat_unat)
  have n: "PB_BYTES_ARRAY_T_ALLOCSIZE (length bytes) = length bytes + 4" using assms(3) by (simp add: PB_BYTES_ARRAY_T_ALLOCSIZE_def)
  have r: "field_room m field (Some dest) (length bytes + 4) = Some dest"
    using assms(1,2) by (simp add: field_room_def PB_ATYPE_STATIC_def PB_ATYPE_POINTER_def)
  define mem where "mem = blit 0 (store_bytes 4 (ucast ?len)) dest"
  have mem: "store_at 0 (store_bytes 4 (ucast ?len)) dest = Some mem" "store_at 4 bytes mem = Some (blit 4 bytes mem)"
    using assms(2,4) by (simp_all add: mem_def store_at_fits)
  have "\<not> PB_SIZE_MAX < ?len" by (simp add: PB_SIZE_MAX_def not_less)
  then have "reads (pb_dec_bytes m field (Some dest)) (varint_octets (length bytes) @ bytes) (Some (blit 4 bytes mem))"
    unfolding pb_dec_bytes_def
    by (intro reads_bind [OF reads_varint32 [of ?len, unfolded u]])
      (use reads_map [OF reads_pb_read [of bytes], of "\<lambda>bytes. store_at 4 bytes mem"] mem in \<open>simp add: u n r Let_def\<close>)
  then show ?thesis by (simp add: mem_def c)
qed

lemma reads_string_field:
  assumes "PB_ATYPE (field_type field) = PB_ATYPE_STATIC" "length bytes + 1 \<le> data_size field" "length bytes + 1 < 2 ^ 32"
    "length dest = data_size field"
  shows "reads (pb_dec_string m field (Some dest)) (varint_octets (length bytes) @ bytes) (Some ((blit 0 bytes dest)[length bytes := 0]))"
proof -
  let ?len = "word_of_nat (length bytes) :: u32"
  have u: "unat ?len = length bytes" using assms(3) by (simp add: unat_of_nat)
  have u1: "unat (?len + 1) = length bytes + 1" using assms(3) by (simp add: unat_word_ariths u)
  have r: "field_room m field (Some dest) (Suc (length bytes)) = Some dest"
    using assms(1,2) by (simp add: field_room_def PB_ATYPE_STATIC_def PB_ATYPE_POINTER_def)
  have mem: "Option.bind (store_at 0 bytes dest) (store_at (length bytes) [0]) = Some ((blit 0 bytes dest)[length bytes := 0])"
    using assms(2,4) by (simp add: store_at_fits blit_def list_update_append upd_conv_take_nth_drop)
  have "reads (read_string (length bytes) dest) bytes (Some ((blit 0 bytes dest)[length bytes := 0]))"
    using reads_pb_read [of bytes] mem by (auto simp: reads_def read_string_def)
  then show ?thesis
    unfolding pb_dec_string_def by (intro reads_bind [OF reads_varint32 [of ?len, unfolded u]]) (simp add: u u1 r Let_def)
qed

text \<open>A byte array or string in a static member is decoded into another such member as it was encoded: the size and the bytes of an array that
  fits its member, or the characters up to the end of a string.\<close>

theorem nanopb_strings_round_trip:
  assumes "PB_ATYPE (field_type field) = PB_ATYPE_STATIC" "length src = data_size field" "length dest = data_size field" "data_size field < 2 ^ 32"
  shows "(4 \<le> length src \<and> unat (load_unsigned (take 4 src)) + 4 \<le> length src \<longrightarrow>
      (\<exists>xs mem. writes (pb_enc_bytes field (Some src)) xs \<and> reads (pb_dec_bytes m field (Some dest)) xs (Some mem) \<and>
        take (4 + unat (load_unsigned (take 4 src))) mem = take (4 + unat (load_unsigned (take 4 src))) src)) \<and>
    (0 \<in> set src \<longrightarrow>
      (\<exists>xs mem. writes (pb_enc_string field (Some src)) xs \<and> reads (pb_dec_string m field (Some dest)) xs (Some mem) \<and>
        takeWhile (\<lambda>b. b \<noteq> 0) mem = takeWhile (\<lambda>b. b \<noteq> 0) src))"
proof (intro conjI impI)
  let ?n = "unat (load_unsigned (take 4 src))" and ?bs = "take (unat (load_unsigned (take 4 src))) (drop 4 src)"
  assume n: "4 \<le> length src \<and> ?n + 4 \<le> length src"
  have len: "length ?bs = ?n" using n by (auto simp: min_def)
  have "\<not> PB_BYTES_ARRAY_T_ALLOCSIZE ?n > data_size field" using n assms(2,4) by (simp add: PB_BYTES_ARRAY_T_ALLOCSIZE_def)
  then have w: "writes (pb_enc_bytes field (Some src)) (varint_octets ?n @ ?bs)"
    using writes_string [of ?bs] len assms(2,4) n by (simp add: pb_enc_bytes_def Let_def)
  have r: "reads (pb_dec_bytes m field (Some dest)) (varint_octets ?n @ ?bs) (Some (blit 4 ?bs (blit 0 (store_bytes 4 (word_of_nat ?n)) dest)))"
    using reads_bytes [OF assms(1) _ _ assms(3), of ?bs m] len n assms(2,4) by simp
  have "store_bytes 4 (word_of_nat ?n) = take 4 src" using store_load [of "take 4 src"] n by simp
  then have "take (4 + ?n) (blit 4 ?bs (blit 0 (store_bytes 4 (word_of_nat ?n)) dest)) = take (4 + ?n) src"
    using n assms(2,3) len by (simp add: blit_def take_add)
  then show "\<exists>xs mem. writes (pb_enc_bytes field (Some src)) xs \<and> reads (pb_dec_bytes m field (Some dest)) xs (Some mem) \<and>
      take (4 + ?n) mem = take (4 + ?n) src"
    using w r by blast
next
  let ?bs = "takeWhile (\<lambda>b. b \<noteq> 0) src"
  assume "0 \<in> set src"
  then obtain ys zs where "src = ys @ 0 # zs" "0 \<notin> set ys" by (meson split_list_first)
  then have "?bs = ys" "length ys < length src" by (force simp: takeWhile_append)+
  then have len: "length ?bs < data_size field" using assms(2) by simp
  have w: "writes (pb_enc_string field (Some src)) (varint_octets (length ?bs) @ ?bs)"
    using writes_string [of ?bs] len assms(1,2,4)
    by (simp add: pb_enc_string_def PB_ATYPE_STATIC_def PB_ATYPE_POINTER_def)
  have r: "reads (pb_dec_string m field (Some dest)) (varint_octets (length ?bs) @ ?bs) (Some ((blit 0 ?bs dest)[length ?bs := 0]))"
    using reads_string_field [OF assms(1) _ _ assms(3), of ?bs m] len assms(4) by simp
  have "(blit 0 ?bs dest)[length ?bs := 0] = ?bs @ 0 # drop (Suc (length ?bs)) dest"
    using len assms(3) by (simp add: blit_def list_update_append upd_conv_take_nth_drop)
  moreover have "takeWhile (\<lambda>b. b \<noteq> 0) (?bs @ 0 # ys) = ?bs" for ys
    by (subst takeWhile_append2) (auto dest: set_takeWhileD)
  ultimately have "takeWhile (\<lambda>b. b \<noteq> 0) ((blit 0 ?bs dest)[length ?bs := 0]) = ?bs" by simp
  then show "\<exists>xs mem. writes (pb_enc_string field (Some src)) xs \<and> reads (pb_dec_string m field (Some dest)) xs (Some mem) \<and>
      takeWhile (\<lambda>b. b \<noteq> 0) mem = ?bs"
    using w r by blast
qed

theorem nanopb_strings_round_trip_witness:
  "\<exists>xs mem. writes (pb_enc_string \<lparr>field_tag = 1, field_type = PB_LTYPE_STRING, data_size = 4\<rparr> (Some [65, 66, 0, 9])) xs \<and>
    reads (pb_dec_string (\<lambda>_. None) \<lparr>field_tag = 1, field_type = PB_LTYPE_STRING, data_size = 4\<rparr> (Some [7, 7, 7, 7])) xs (Some mem) \<and>
    takeWhile (\<lambda>b. b \<noteq> 0) mem = [65, 66]"
proof -
  let ?f = "\<lparr>field_tag = 1, field_type = PB_LTYPE_STRING, data_size = 4\<rparr>"
  have "PB_ATYPE (field_type ?f) = PB_ATYPE_STATIC" "length [65, 66, 0, 9 :: byte] = data_size ?f" "length [7, 7, 7, 7 :: byte] = data_size ?f"
    "data_size ?f < 2 ^ 32"
    by (simp_all add: PB_ATYPE_def PB_ATYPE_STATIC_def PB_LTYPE_STRING_def)
  from nanopb_strings_round_trip [OF this, of "\<lambda>_. None"] show ?thesis by simp
qed

end
