(* ===== verification/Leveldb_Coding.thy ===== *)
theory Leveldb_Coding
  imports Octets Codec
begin

text \<open>
  \<^verbatim>\<open>leveldb-library/util/coding.cc\<close> and \<^verbatim>\<open>coding.h\<close>: little-endian integers, variable-length integers and length-prefixed strings, on which
  all files of LevelDB are built.

  A \<^verbatim>\<open>Slice\<close> and a \<^verbatim>\<open>std::string\<close> are lists of bytes. A function that appends to \<^verbatim>\<open>*dst\<close> takes and returns the string, a function that
  writes at \<^verbatim>\<open>dst\<close> returns the bytes that it writes. A pointer \<^verbatim>\<open>p\<close> with its \<^verbatim>\<open>limit\<close> is the list of the bytes between them, and
  \<^verbatim>\<open>nullptr\<close> is \<open>None\<close>. A function that advances a slice and returns a \<^verbatim>\<open>bool\<close> is an action on the slice.
\<close>

section \<open>Writing\<close>

definition EncodeFixed32 :: "u32 \<Rightarrow> byte list" where
  "EncodeFixed32 value = [ucast value, ucast (drop_bit 8 value), ucast (drop_bit 16 value), ucast (drop_bit 24 value)]"

definition EncodeFixed64 :: "u64 \<Rightarrow> byte list" where
  "EncodeFixed64 value =
     [ucast value, ucast (drop_bit 8 value), ucast (drop_bit 16 value), ucast (drop_bit 24 value),
      ucast (drop_bit 32 value), ucast (drop_bit 40 value), ucast (drop_bit 48 value), ucast (drop_bit 56 value)]"

definition PutFixed32 :: "byte list \<Rightarrow> u32 \<Rightarrow> byte list" where
  "PutFixed32 dst value = dst @ EncodeFixed32 value"

definition PutFixed64 :: "byte list \<Rightarrow> u64 \<Rightarrow> byte list" where
  "PutFixed64 dst value = dst @ EncodeFixed64 value"

definition EncodeVarint32 :: "u32 \<Rightarrow> byte list" where
  "EncodeVarint32 v =
     (if v < 2 ^ 7 then [ucast v]
      else if v < 2 ^ 14 then [ucast (v OR 128), ucast (drop_bit 7 v)]
      else if v < 2 ^ 21 then [ucast (v OR 128), ucast (drop_bit 7 v OR 128), ucast (drop_bit 14 v)]
      else if v < 2 ^ 28 then [ucast (v OR 128), ucast (drop_bit 7 v OR 128), ucast (drop_bit 14 v OR 128), ucast (drop_bit 21 v)]
      else [ucast (v OR 128), ucast (drop_bit 7 v OR 128), ucast (drop_bit 14 v OR 128), ucast (drop_bit 21 v OR 128), ucast (drop_bit 28 v)])"

definition PutVarint32 :: "byte list \<Rightarrow> u32 \<Rightarrow> byte list" where
  "PutVarint32 dst v = dst @ EncodeVarint32 v"

function EncodeVarint64 :: "u64 \<Rightarrow> byte list" where
  "EncodeVarint64 v = (if v \<ge> 128 then ucast (v OR 128) # EncodeVarint64 (drop_bit 7 v) else [ucast v])"
  by pat_completeness auto
termination
  by (relation "measure unat") (auto simp: unat_drop_bit word_le_nat_alt)

declare EncodeVarint64.simps [simp del]

definition PutVarint64 :: "byte list \<Rightarrow> u64 \<Rightarrow> byte list" where
  "PutVarint64 dst v = dst @ EncodeVarint64 v"

text \<open>The size is a \<^verbatim>\<open>size_t\<close>, of which \<^verbatim>\<open>PutVarint32\<close> takes the low 32 bits.\<close>

definition PutLengthPrefixedSlice :: "byte list \<Rightarrow> byte list \<Rightarrow> byte list" where
  "PutLengthPrefixedSlice dst value = PutVarint32 dst (word_of_nat (length value)) @ value"

function VarintLength :: "u64 \<Rightarrow> nat" where
  "VarintLength v = (if v \<ge> 128 then Suc (VarintLength (drop_bit 7 v)) else 1)"
  by pat_completeness auto
termination
  by (relation "measure unat") (auto simp: unat_drop_bit word_le_nat_alt)

declare VarintLength.simps [simp del]

section \<open>Reading\<close>

text \<open>\<^verbatim>\<open>DecodeFixed32\<close> and \<^verbatim>\<open>DecodeFixed64\<close> read the first four or eight bytes behind the pointer.\<close>

definition DecodeFixed32 :: "byte list \<Rightarrow> u32" where
  "DecodeFixed32 ptr =
     (ucast (ptr ! 0) OR push_bit 8 (ucast (ptr ! 1)) OR push_bit 16 (ucast (ptr ! 2)) OR push_bit 24 (ucast (ptr ! 3)))"

definition DecodeFixed64 :: "byte list \<Rightarrow> u64" where
  "DecodeFixed64 ptr =
     (let lo = ucast (DecodeFixed32 ptr);
          hi = ucast (DecodeFixed32 (drop 4 ptr))
      in push_bit 32 hi OR lo)"

fun varint32_fallback_loop :: "nat \<Rightarrow> u32 \<Rightarrow> byte list \<Rightarrow> (u32 \<times> byte list) option" where
  "varint32_fallback_loop shift result [] = None"
| "varint32_fallback_loop shift result (byte # p) =
     (if shift \<le> 28 then
        if byte AND 128 \<noteq> 0 then varint32_fallback_loop (shift + 7) (result OR push_bit shift (ucast (byte AND 127))) p
        else Some (result OR push_bit shift (ucast byte), p)
      else None)"

definition GetVarint32PtrFallback :: "byte list \<Rightarrow> (u32 \<times> byte list) option" where
  "GetVarint32PtrFallback p = varint32_fallback_loop 0 0 p"

definition GetVarint32Ptr :: "byte list \<Rightarrow> (u32 \<times> byte list) option" where
  "GetVarint32Ptr p =
     (case p of
        [] \<Rightarrow> GetVarint32PtrFallback p
      | byte # q \<Rightarrow>
          let result = ucast byte
          in if result AND 128 = 0 then Some (result, q) else GetVarint32PtrFallback p)"

definition GetVarint32 :: "(byte list, u32) act" where
  "GetVarint32 input = (case GetVarint32Ptr input of None \<Rightarrow> (None, input) | Some (value, q) \<Rightarrow> (Some value, q))"

fun varint64_loop :: "nat \<Rightarrow> u64 \<Rightarrow> byte list \<Rightarrow> (u64 \<times> byte list) option" where
  "varint64_loop shift result [] = None"
| "varint64_loop shift result (byte # p) =
     (if shift \<le> 63 then
        if byte AND 128 \<noteq> 0 then varint64_loop (shift + 7) (result OR push_bit shift (ucast (byte AND 127))) p
        else Some (result OR push_bit shift (ucast byte), p)
      else None)"

definition GetVarint64Ptr :: "byte list \<Rightarrow> (u64 \<times> byte list) option" where
  "GetVarint64Ptr p = varint64_loop 0 0 p"

definition GetVarint64 :: "(byte list, u64) act" where
  "GetVarint64 input = (case GetVarint64Ptr input of None \<Rightarrow> (None, input) | Some (value, q) \<Rightarrow> (Some value, q))"

definition GetLengthPrefixedSlicePtr :: "byte list \<Rightarrow> (byte list \<times> byte list) option" where
  "GetLengthPrefixedSlicePtr p =
     (case GetVarint32Ptr p of
        None \<Rightarrow> None
      | Some (len, p) \<Rightarrow> if unat len > length p then None else Some (take (unat len) p, drop (unat len) p))"

text \<open>If the string is cut off, the length has already been taken from the slice.\<close>

definition GetLengthPrefixedSlice :: "(byte list, byte list) act" where
  "GetLengthPrefixedSlice =
     bind_act GetVarint32 (\<lambda>len input.
       if length input \<ge> unat len then (Some (take (unat len) input), drop (unat len) input) else (None, input))"

section \<open>Correctness\<close>

lemma length_EncodeFixed [simp]: "length (EncodeFixed32 v) = 4" "length (EncodeFixed64 w) = 8"
  by (simp_all add: EncodeFixed32_def EncodeFixed64_def)

lemma Encode_le: "EncodeFixed32 v = le32 v" "EncodeFixed64 w = le64 w"
  by (simp_all add: EncodeFixed32_def EncodeFixed64_def le32_def le64_def byte_indices)

lemma DecodeFixed32_Encode [simp]: "DecodeFixed32 (EncodeFixed32 v @ rest) = v"
proof -
  have "DecodeFixed32 (EncodeFixed32 v @ rest) = DecodeFixed32 (EncodeFixed32 v)"
    by (simp add: DecodeFixed32_def EncodeFixed32_def)
  then show ?thesis using fixed32_bytes [of v] by (simp add: DecodeFixed32_def Encode_le)
qed

lemma fixed64_halves: "EncodeFixed64 v = EncodeFixed32 (ucast v) @ EncodeFixed32 (ucast (drop_bit 32 v))"
proof -
  have lo: "ucast (drop_bit n (ucast v :: u32)) = (ucast (drop_bit n v) :: byte)" if "n \<le> 24" for n
    by (rule bit_word_eqI) (use that in \<open>auto simp: bit_simps\<close>)
  have hi: "ucast (drop_bit n (ucast (drop_bit 32 v) :: u32)) = (ucast (drop_bit (32 + n) v) :: byte)" if "n \<le> 24" for n
    by (rule bit_word_eqI) (use that in \<open>auto simp: bit_simps add.assoc\<close>)
  show ?thesis
    using lo [of 0] lo [of 8] lo [of 16] lo [of 24] hi [of 0] hi [of 8] hi [of 16] hi [of 24]
    by (simp add: EncodeFixed32_def EncodeFixed64_def)
qed

lemma DecodeFixed64_Encode [simp]: "DecodeFixed64 (EncodeFixed64 v @ rest) = v"
proof -
  have "DecodeFixed64 (EncodeFixed64 v @ rest) = push_bit 32 (ucast (ucast (drop_bit 32 v) :: u32)) OR ucast (ucast v :: u32)"
    by (simp add: DecodeFixed64_def Let_def fixed64_halves)
  also have "\<dots> = v"
    by (rule bit_word_eqI) (auto simp: bit_simps)
  finally show ?thesis .
qed

lemma octet_low: "unat (ucast (v :: 'a :: len word) :: byte) = unat v mod 256" if "8 \<le> LENGTH('a)"
  by (simp add: unsigned_ucast_eq take_bit_eq_mod)

lemma bit_128: "bit (128 :: nat) n \<longleftrightarrow> n = 7" "bit (128 :: int) n \<longleftrightarrow> n = 7" "n < LENGTH('a) \<Longrightarrow> bit (128 :: 'a :: len word) n \<longleftrightarrow> n = 7"
  using bit_exp_iff [of 7 n, where ?'a = nat] bit_exp_iff [of 7 n, where ?'a = int] bit_exp_iff [of 7 n, where ?'a = "'a word"]
  by (auto simp: possible_bit_def)

lemma continued_octet:
  assumes "8 \<le> LENGTH('a)"
  shows "(ucast ((v :: 'a :: len word) OR 128) :: byte) = word_of_nat (128 + unat v mod 128)"
proof -
  have "(ucast (v OR 128) :: byte) = ucast v OR 0x80"
    by (rule bit_word_eqI) (use assms in \<open>auto simp: bit_simps bit_128\<close>)
  also have "\<dots> = (ucast v AND mask 7) OR push_bit 7 1"
    by (rule bit_word_eqI) (auto simp: bit_simps bit_128)
  also have "unat \<dots> = 128 + unat v mod 128"
    using unat_push_bit_or [of "ucast v AND mask 7 :: byte" 7 1] octet_low [OF assms, of v]
    by (simp add: unat_and_mask or.commute mod_mod_cancel)
  finally have "unat (ucast (v OR 128) :: byte) = 128 + unat v mod 128" .
  then show ?thesis by (metis of_nat_unat ucast_id)
qed

lemma EncodeVarint64_octets: "EncodeVarint64 v = varint_octets (unat v)"
proof (induction v rule: EncodeVarint64.induct)
  case (1 v)
  show ?case
  proof (cases "v \<ge> 128")
    case True
    then have "128 \<le> unat v" by (simp add: word_le_nat_alt)
    then show ?thesis using 1 [OF True] True
      by (subst EncodeVarint64.simps) (simp add: continued_octet varint_octets_step unat_drop_bit del: of_nat_add)
  next
    case False
    then have "unat v < 128" by (simp add: word_le_nat_alt)
    then show ?thesis using False by (subst EncodeVarint64.simps) (simp add: varint_octets_small)
  qed
qed

lemma EncodeVarint32_octets: "EncodeVarint32 v = varint_octets (unat v)"
proof -
  have lt: "v < 2 ^ 7 \<longleftrightarrow> unat v < 2 ^ 7" "v < 2 ^ 14 \<longleftrightarrow> unat v < 2 ^ 14" "v < 2 ^ 21 \<longleftrightarrow> unat v < 2 ^ 21" "v < 2 ^ 28 \<longleftrightarrow> unat v < 2 ^ 28"
    by (simp_all add: word_less_nat_alt)
  have c: "(ucast (drop_bit k v OR 128) :: byte) = word_of_nat (128 + unat v div 2 ^ k mod 128)" for k
    by (simp add: continued_octet unat_drop_bit del: of_nat_add)
  have l: "(ucast (drop_bit k v) :: byte) = word_of_nat (unat v div 2 ^ k)" for k
    by (simp flip: unat_drop_bit)
  have step: "varint_octets (unat v div 2 ^ k) = word_of_nat (128 + unat v div 2 ^ k mod 128) # varint_octets (unat v div 2 ^ (k + 7))"
    if "2 ^ (k + 7) \<le> unat v" for k
  proof -
    have "128 * 2 ^ k \<le> unat v" using that by (simp add: power_add mult.commute)
    then have "128 \<le> unat v div 2 ^ k" by (simp add: less_eq_div_iff_mult_less_eq)
    then show ?thesis by (simp add: varint_octets_step power_add div_mult2_eq del: of_nat_add)
  qed
  have small: "unat v div 2 ^ k < 128" if "unat v < 2 ^ (k + 7)" for k
    using that by (simp add: less_mult_imp_div_less power_add mult.commute)
  have top: "unat v < 2 ^ (28 + 7)" using unsigned_less [of v, where ?'a = nat] by simp
  have tail: "varint_octets (unat v div 2 ^ k) =
      (if unat v < 2 ^ (k + 7) then [ucast (drop_bit k v)] else ucast (drop_bit k v OR 128) # varint_octets (unat v div 2 ^ (k + 7)))" for k
    using step [of k] small [of k] by (auto simp: c l varint_octets_small)
  show ?thesis
    unfolding EncodeVarint32_def lt using tail [of 0] tail [of 7] tail [of 14] tail [of 21] tail [of 28] top by simp
qed

lemma varint32_fallback_groups: "varint32_fallback_loop shift r bs = groups_loop 28 shift r bs"
  by (induction shift r bs rule: varint32_fallback_loop.induct) auto

lemma varint64_groups: "varint64_loop shift r bs = groups_loop 63 shift r bs"
  by (induction shift r bs rule: varint64_loop.induct) auto

lemma GetVarint32Ptr_groups: "GetVarint32Ptr p = groups_loop 28 0 0 p"
proof (cases p)
  case (Cons b q)
  have "(ucast b :: u32) AND 128 = 0 \<longleftrightarrow> b AND 0x80 = 0"
  proof -
    have "(ucast b :: u32) AND 128 = ucast (b AND 0x80)" by (rule bit_word_eqI) (auto simp: bit_simps bit_128)
    moreover have "(ucast w :: u32) = 0 \<longleftrightarrow> w = 0" for w :: byte
      using unat_ucast_le [of w, where 'b = 32] by (simp add: word_unat_eq_iff)
    ultimately show ?thesis by simp
  qed
  then show ?thesis using Cons by (simp add: GetVarint32Ptr_def GetVarint32PtrFallback_def varint32_fallback_groups Let_def)
qed (simp add: GetVarint32Ptr_def GetVarint32PtrFallback_def)


text \<open>What the readers accept, and that they read what the writers wrote.\<close>

lemma GetVarint32_iff:
  "GetVarint32 input = (Some v, rest) \<longleftrightarrow>
    (\<exists>bs. input = bs @ rest \<and> varint_shape bs \<and> length bs \<le> 5 \<and> v = word_of_nat (groups_value bs))"
  using groups_loop_exact [of 5 0 "0 :: u32" input v rest]
  by (auto simp: GetVarint32_def GetVarint32Ptr_groups split: option.splits)

lemma GetVarint64_iff:
  "GetVarint64 input = (Some v, rest) \<longleftrightarrow>
    (\<exists>bs. input = bs @ rest \<and> varint_shape bs \<and> length bs \<le> 10 \<and> v = word_of_nat (groups_value bs))"
  using groups_loop_exact [of 10 0 "0 :: u64" input v rest]
  by (auto simp: GetVarint64_def GetVarint64Ptr_def varint64_groups split: option.splits)

lemma GetVarint_Encode [simp]:
  "GetVarint32 (EncodeVarint32 v @ rest) = (Some v, rest)" "GetVarint64 (EncodeVarint64 w @ rest) = (Some w, rest)"
proof -
  have "length (varint_octets (unat v)) \<le> 5" using unsigned_less [of v, where ?'a = nat] by (intro length_varint_octets) auto
  then show "GetVarint32 (EncodeVarint32 v @ rest) = (Some v, rest)"
    unfolding GetVarint32_iff EncodeVarint32_octets using varint_octets_value [of "unat v"] by (intro exI [of _ "varint_octets (unat v)"]) simp
  have "length (varint_octets (unat w)) \<le> 10" using unsigned_less [of w, where ?'a = nat] by (intro length_varint_octets) auto
  then show "GetVarint64 (EncodeVarint64 w @ rest) = (Some w, rest)"
    unfolding GetVarint64_iff EncodeVarint64_octets using varint_octets_value [of "unat w"] by (intro exI [of _ "varint_octets (unat w)"]) simp
qed

interpretation ldb_varint32: prefix_codec GetVarint32 EncodeVarint32 "\<lambda>_. True"
  by unfold_locales simp

interpretation ldb_varint64: prefix_codec GetVarint64 EncodeVarint64 "\<lambda>_. True"
  by unfold_locales simp

definition slice_octets :: "byte list \<Rightarrow> byte list" where
  "slice_octets xs = EncodeVarint32 (word_of_nat (length xs)) @ xs"

lemma PutLengthPrefixedSlice_eq: "PutLengthPrefixedSlice dst xs = dst @ slice_octets xs"
  by (simp add: PutLengthPrefixedSlice_def PutVarint32_def slice_octets_def)

lemma GetLengthPrefixedSlice_octets [simp]:
  "length xs < 2 ^ 32 \<Longrightarrow> GetLengthPrefixedSlice (slice_octets xs @ rest) = (Some xs, rest)"
  by (simp add: GetLengthPrefixedSlice_def slice_octets_def unat_of_nat)

interpretation ldb_slice: prefix_codec GetLengthPrefixedSlice slice_octets "\<lambda>xs. length xs < 2 ^ 32"
  by unfold_locales simp

lemma consumes:
  "GetVarint32 s = (r, s') \<Longrightarrow> length s' \<le> length s" "GetVarint32 s = (Some v, s') \<Longrightarrow> length s' < length s"
  "GetVarint64 s = (r64, s') \<Longrightarrow> length s' \<le> length s"
  "GetLengthPrefixedSlice s = (xs, s') \<Longrightarrow> length s' \<le> length s"
proof -
  show v: "length s' < length s" if "GetVarint32 s = (Some v, s')" for s s' v
    using that groups_loop_length by (auto simp: GetVarint32_def GetVarint32Ptr_groups split: option.splits)
  show v2: "length s' \<le> length s" if "GetVarint32 s = (r, s')" for s s' r
    using that groups_loop_length by (fastforce simp: GetVarint32_def GetVarint32Ptr_groups split: option.splits)
  show "length s' \<le> length s" if "GetVarint64 s = (r, s')" for s s' r
    using that groups_loop_length by (fastforce simp: GetVarint64_def GetVarint64Ptr_def varint64_groups split: option.splits)
  show "length s' \<le> length s" if "GetLengthPrefixedSlice s = (r, s')" for s s' r
    using that v v2 by (fastforce simp: GetLengthPrefixedSlice_def bind_act_def split: prod.splits option.splits if_splits)
qed

lemma VarintLength_octets: "VarintLength v = length (varint_octets (unat v))"
proof (induction v rule: VarintLength.induct)
  case (1 v)
  show ?case
  proof (cases "v \<ge> 128")
    case True
    then have "128 \<le> unat v" by (simp add: word_le_nat_alt)
    then show ?thesis using 1 [OF True] True by (subst VarintLength.simps) (simp add: varint_octets_step unat_drop_bit)
  next
    case False
    then have "unat v < 128" by (simp add: word_le_nat_alt)
    then show ?thesis using False by (subst VarintLength.simps) (simp add: varint_octets_small)
  qed
qed

text \<open>C32: The variable-length integers of LevelDB: what \<^verbatim>\<open>PutVarint32\<close> and \<^verbatim>\<open>PutVarint64\<close> append is the shortest sequence of groups of seven
  bits, of the announced length, and the readers accept exactly the sequences of at most five or ten groups, of which they return the value
  modulo the width of the integer.\<close>

theorem ldb_varints_exact:
  "PutVarint32 dst v = dst @ varint_octets (unat v) \<and> PutVarint64 dst w = dst @ varint_octets (unat w) \<and>
    VarintLength w = length (varint_octets (unat w)) \<and>
    (GetVarint32 input = (Some v, rest) \<longleftrightarrow>
      (\<exists>bs. input = bs @ rest \<and> varint_shape bs \<and> length bs \<le> 5 \<and> v = word_of_nat (groups_value bs))) \<and>
    (GetVarint64 input = (Some w, rest) \<longleftrightarrow>
      (\<exists>bs. input = bs @ rest \<and> varint_shape bs \<and> length bs \<le> 10 \<and> w = word_of_nat (groups_value bs)))"
  by (intro conjI GetVarint32_iff GetVarint64_iff)
    (simp_all only: PutVarint32_def PutVarint64_def EncodeVarint32_octets EncodeVarint64_octets VarintLength_octets)

end
