(* ===== verification/Leveldb_Key.thy ===== *)
theory Leveldb_Key
  imports Leveldb_Coding Comparator "HOL-Library.Monad_Syntax"
begin

text \<open>
  The keys of LevelDB: the order of slices (\<^verbatim>\<open>include/leveldb/slice.h\<close>), the comparator that follows it (\<^verbatim>\<open>util/comparator.cc\<close>), and internal
  keys, a user key with a sequence number and a type (\<^verbatim>\<open>db/dbformat.cc\<close>, \<^verbatim>\<open>db/dbformat.h\<close>).

  The methods of a user's comparator are arguments of the operations that call them. An assertion that fails is \<open>None\<close>.
\<close>

section \<open>Slices and the default comparator\<close>

text \<open>libc's \<^verbatim>\<open>memcmp\<close> on two arrays of the same length.\<close>

fun slice_memcmp :: "byte list \<Rightarrow> byte list \<Rightarrow> int" where
  "slice_memcmp (x # a) (y # b) = (if x < y then -1 else if y < x then 1 else slice_memcmp a b)"
| "slice_memcmp _ _ = 0"

definition Slice_compare :: "byte list \<Rightarrow> byte list \<Rightarrow> int" where
  "Slice_compare a b =
     (let min_len = (if length a < length b then length a else length b);
          r = slice_memcmp (take min_len a) (take min_len b)
      in if r = 0 then (if length a < length b then -1 else if length a > length b then 1 else r) else r)"

fun diff_index :: "byte list \<Rightarrow> byte list \<Rightarrow> nat" where
  "diff_index (x # a) (y # b) = (if x = y then Suc (diff_index a b) else 0)"
| "diff_index _ _ = 0"

definition Bytewise_FindShortestSeparator :: "byte list \<Rightarrow> byte list \<Rightarrow> byte list option" where
  "Bytewise_FindShortestSeparator start limit =
     (let min_length = min (length start) (length limit);
          i = diff_index start limit
      in if i \<ge> min_length then Some start
         else if start ! i < 0xff \<and> unat (start ! i) + 1 < unat (limit ! i) then
           let start = take (i + 1) (start[i := start ! i + 1])
           in if Slice_compare start limit < 0 then Some start else None
         else Some start)"

fun Bytewise_FindShortSuccessor :: "byte list \<Rightarrow> byte list" where
  "Bytewise_FindShortSuccessor [] = []"
| "Bytewise_FindShortSuccessor (x # key) = (if x \<noteq> 0xff then [x + 1] else x # Bytewise_FindShortSuccessor key)"

section \<open>Internal keys\<close>

definition kTypeDeletion :: byte where "kTypeDeletion = 0"
definition kTypeValue :: byte where "kTypeValue = 1"
definition kValueTypeForSeek :: byte where "kValueTypeForSeek = kTypeValue"
definition kMaxSequenceNumber :: u64 where "kMaxSequenceNumber = push_bit 56 1 - 1"

record ParsedInternalKey =
  user_key :: "byte list"
  key_sequence :: u64
  key_type :: byte

definition PackSequenceAndType :: "u64 \<Rightarrow> byte \<Rightarrow> u64 option" where
  "PackSequenceAndType seq t =
     (if seq \<le> kMaxSequenceNumber \<and> t \<le> kValueTypeForSeek then Some (push_bit 8 seq OR ucast t) else None)"

definition InternalKeyEncodingLength :: "ParsedInternalKey \<Rightarrow> nat" where
  "InternalKeyEncodingLength key = length (user_key key) + 8"

definition AppendInternalKey :: "byte list \<Rightarrow> ParsedInternalKey \<Rightarrow> byte list option" where
  "AppendInternalKey result key =
     do { tag \<leftarrow> PackSequenceAndType (key_sequence key) (key_type key); Some (PutFixed64 (result @ user_key key) tag) }"

definition ParseInternalKey :: "byte list \<Rightarrow> ParsedInternalKey option" where
  "ParseInternalKey internal_key =
     (let n = length internal_key
      in if n < 8 then None
         else let num = DecodeFixed64 (drop (n - 8) internal_key);
                  c = ucast (num AND 0xff) :: byte
              in if c \<le> kTypeValue
                 then Some \<lparr>user_key = take (n - 8) internal_key, key_sequence = drop_bit 8 num, key_type = c\<rparr> else None)"

definition ExtractUserKey :: "byte list \<Rightarrow> byte list option" where
  "ExtractUserKey internal_key =
     (if length internal_key \<ge> 8 then Some (take (length internal_key - 8) internal_key) else None)"

definition InternalKey_Compare :: "(byte list \<Rightarrow> byte list \<Rightarrow> int) \<Rightarrow> byte list \<Rightarrow> byte list \<Rightarrow> int option" where
  "InternalKey_Compare user akey bkey =
     do {
       a \<leftarrow> ExtractUserKey akey;
       b \<leftarrow> ExtractUserKey bkey;
       let r = user a b;
           anum = DecodeFixed64 (drop (length akey - 8) akey);
           bnum = DecodeFixed64 (drop (length bkey - 8) bkey)
       in Some (if r = 0 then (if anum > bnum then -1 else if anum < bnum then 1 else r) else r)
     }"

definition InternalKey_FindShortestSeparator ::
  "(byte list \<Rightarrow> byte list \<Rightarrow> int) \<Rightarrow> (byte list \<Rightarrow> byte list \<Rightarrow> byte list option) \<Rightarrow> byte list \<Rightarrow> byte list \<Rightarrow> byte list option" where
  "InternalKey_FindShortestSeparator user separator start limit =
     do {
       user_start \<leftarrow> ExtractUserKey start;
       user_limit \<leftarrow> ExtractUserKey limit;
       tmp \<leftarrow> separator user_start user_limit;
       if length tmp < length user_start \<and> user user_start tmp < 0 then do {
         tag \<leftarrow> PackSequenceAndType kMaxSequenceNumber kValueTypeForSeek;
         tmp \<leftarrow> Some (PutFixed64 tmp tag);
         r1 \<leftarrow> InternalKey_Compare user start tmp;
         r2 \<leftarrow> InternalKey_Compare user tmp limit;
         if r1 < 0 \<and> r2 < 0 then Some tmp else None }
       else Some start
     }"

definition InternalKey_FindShortSuccessor ::
  "(byte list \<Rightarrow> byte list \<Rightarrow> int) \<Rightarrow> (byte list \<Rightarrow> byte list) \<Rightarrow> byte list \<Rightarrow> byte list option" where
  "InternalKey_FindShortSuccessor user successor key =
     do {
       k \<leftarrow> ExtractUserKey key;
       tmp \<leftarrow> Some (successor k);
       if length tmp < length k \<and> user k tmp < 0 then do {
         tag \<leftarrow> PackSequenceAndType kMaxSequenceNumber kValueTypeForSeek;
         tmp \<leftarrow> Some (PutFixed64 tmp tag);
         r \<leftarrow> InternalKey_Compare user key tmp;
         if r < 0 then Some tmp else None }
       else Some key
     }"

text \<open>A key for a lookup in a memory table: its three parts.\<close>

record LookupKey =
  memtable_key :: "byte list"
  internal_key :: "byte list"
  lookup_user_key :: "byte list"

definition new_LookupKey :: "byte list \<Rightarrow> u64 \<Rightarrow> LookupKey option" where
  "new_LookupKey k s =
     do {
       tag \<leftarrow> PackSequenceAndType s kValueTypeForSeek;
       kstart \<leftarrow> Some (k @ EncodeFixed64 tag);
       Some \<lparr>memtable_key = EncodeVarint32 (word_of_nat (length k + 8)) @ kstart, internal_key = kstart,
         lookup_user_key = take (length kstart - 8) kstart\<rparr>
     }"

section \<open>The order of slices\<close>

lemma Slice_compare_simps [simp]:
  "Slice_compare [] [] = 0" "Slice_compare [] (y # b) = -1" "Slice_compare (x # a) [] = 1"
  "Slice_compare (x # a) (y # b) = (if x < y then -1 else if y < x then 1 else Slice_compare a b)"
  by (auto simp: Slice_compare_def Let_def)

lemma Slice_compare_flip: "Slice_compare a b < 0 \<longleftrightarrow> 0 < Slice_compare b a"
proof (induction a arbitrary: b)
  case Nil
  then show ?case by (cases b) auto
next
  case (Cons x a)
  then show ?case by (cases b) auto
qed

lemma Slice_compare_trans: "Slice_compare a b \<le> 0 \<Longrightarrow> Slice_compare b d \<le> 0 \<Longrightarrow> Slice_compare a d \<le> 0"
proof (induction a arbitrary: b d)
  case Nil
  then show ?case by (cases d) auto
next
  case (Cons x a)
  then obtain y b' where b: "b = y # b'" by (cases b) auto
  with Cons.prems(2) obtain z d' where "d = z # d'" by (cases d) auto
  then show ?case using Cons b by (auto split: if_splits)
qed

lemma Slice_compare_eq: "Slice_compare a b = 0 \<longleftrightarrow> a = b"
proof (induction a arbitrary: b)
  case Nil
  then show ?case by (cases b) auto
next
  case (Cons x a)
  then show ?case by (cases b) auto
qed

interpretation slice_order: comparator Slice_compare
  by unfold_locales (use Slice_compare_flip Slice_compare_trans in \<open>auto simp: cmp_ok_def\<close>)

end
