(* ===== verification/Skiplist.thy ===== *)
theory Skiplist
  imports Prelude Comparator "HOL-Library.Monad_Syntax"
begin

text \<open>
  \<^verbatim>\<open>leveldb-library/db/skiplist.h\<close> and \<^verbatim>\<open>util/random.h\<close>: the skip list that holds the entries of a memory table.

  \<^item> A node is an index of the list of all nodes ever allocated; the head is node 0. A link is \<open>None\<close> until it is stored to, and then an optional
    node: \<open>Some None\<close> is a null pointer.
  \<^item> An operation is \<open>None\<close> if an assertion fails, a link that was never stored or a level above the node is read, the comparison
    function gives no answer, or a search does not end.
  \<^item> The comparison function is an argument, as it is a template parameter in the code. The state is that of one thread; the memory order of
    the links is not modelled.
\<close>

section \<open>Random numbers\<close>

definition Random_new :: "u32 \<Rightarrow> u32" where
  "Random_new s = (let seed = s AND 0x7fffffff in if seed = 0 \<or> seed = 2147483647 then 1 else seed)"

definition Random_Next :: "u32 \<Rightarrow> u32" where
  "Random_Next seed =
     (let product = ucast seed * 16807 :: u64;
          seed = ucast (drop_bit 31 product + (product AND 2147483647)) :: u32
      in if seed > 2147483647 then seed - 2147483647 else seed)"

section \<open>Nodes\<close>

definition kMaxHeight :: nat where "kMaxHeight = 12"

record 'k skip_node =
  node_key :: 'k
  links :: "nat option option list"

record 'k skiplist =
  nodes :: "'k skip_node list"
  max_height :: nat
  rnd :: u32

definition skip_Next :: "'k skiplist \<Rightarrow> nat \<Rightarrow> nat \<Rightarrow> nat option option" where
  "skip_Next s x level =
     (if x < length (nodes s) \<and> level < length (links (nodes s ! x)) then links (nodes s ! x) ! level else None)"

definition skip_SetNext :: "'k skiplist \<Rightarrow> nat \<Rightarrow> nat \<Rightarrow> nat option \<Rightarrow> 'k skiplist option" where
  "skip_SetNext s x level n =
     (if x < length (nodes s) \<and> level < length (links (nodes s ! x))
      then Some (s\<lparr>nodes := (nodes s)[x := (nodes s ! x)\<lparr>links := (links (nodes s ! x))[level := Some n]\<rparr>]\<rparr>)
      else None)"

definition NewNode :: "'k \<Rightarrow> nat \<Rightarrow> 'k skiplist \<Rightarrow> nat \<times> 'k skiplist" where
  "NewNode key height s =
     (length (nodes s), s\<lparr>nodes := nodes s @ [\<lparr>node_key = key, links = replicate height None\<rparr>]\<rparr>)"

function RandomHeight_loop :: "nat \<Rightarrow> u32 \<Rightarrow> nat \<times> u32" where
  "RandomHeight_loop height seed =
     (if height < kMaxHeight then
        let seed = Random_Next seed
        in if seed mod 4 = 0 then RandomHeight_loop (height + 1) seed else (height, seed)
      else (height, seed))"
  by pat_completeness auto
termination by (relation "measure (\<lambda>(height, _). kMaxHeight - height)") auto

declare RandomHeight_loop.simps [simp del]

definition RandomHeight :: "'k skiplist \<Rightarrow> nat \<times> 'k skiplist" where
  "RandomHeight s = (let (height, seed) = RandomHeight_loop 1 (rnd s) in (height, s\<lparr>rnd := seed\<rparr>))"

section \<open>Searching\<close>

definition node_key_at :: "'k skiplist \<Rightarrow> nat \<Rightarrow> 'k option" where
  "node_key_at s x = (if x < length (nodes s) then Some (node_key (nodes s ! x)) else None)"

definition KeyIsAfterNode :: "('k \<Rightarrow> 'k \<Rightarrow> int option) \<Rightarrow> 'k skiplist \<Rightarrow> 'k \<Rightarrow> nat option \<Rightarrow> bool option" where
  "KeyIsAfterNode cmp s key n =
     (case n of
        None \<Rightarrow> Some False
      | Some x \<Rightarrow> do { k \<leftarrow> node_key_at s x; r \<leftarrow> cmp k key; Some (r < 0) })"

text \<open>\<open>prev\<close> is the array that the caller passes; the empty list is the null pointer, and a store to it has no effect.\<close>

partial_function (option) FindGreaterOrEqual_loop ::
  "('k \<Rightarrow> 'k \<Rightarrow> int option) \<Rightarrow> 'k skiplist \<Rightarrow> 'k \<Rightarrow> nat option list \<Rightarrow> nat \<Rightarrow> nat \<Rightarrow> (nat option \<times> nat option list) option" where
  "FindGreaterOrEqual_loop cmp s key prev x level =
     do {
       n \<leftarrow> skip_Next s x level;
       after \<leftarrow> KeyIsAfterNode cmp s key n;
       if after then FindGreaterOrEqual_loop cmp s key prev (the n) level
       else let prev = prev[level := Some x]
            in if level = 0 then Some (n, prev) else FindGreaterOrEqual_loop cmp s key prev x (level - 1)
     }"

definition FindGreaterOrEqual ::
  "('k \<Rightarrow> 'k \<Rightarrow> int option) \<Rightarrow> 'k skiplist \<Rightarrow> 'k \<Rightarrow> nat option list \<Rightarrow> (nat option \<times> nat option list) option" where
  "FindGreaterOrEqual cmp s key prev = FindGreaterOrEqual_loop cmp s key prev 0 (max_height s - 1)"

partial_function (option) FindLessThan_loop ::
  "('k \<Rightarrow> 'k \<Rightarrow> int option) \<Rightarrow> 'k skiplist \<Rightarrow> 'k \<Rightarrow> nat \<Rightarrow> nat \<Rightarrow> nat option" where
  "FindLessThan_loop cmp s key x level =
     do {
       ok \<leftarrow> (if x = 0 then Some True else KeyIsAfterNode cmp s key (Some x));
       if ok then do {
         n \<leftarrow> skip_Next s x level;
         before \<leftarrow> KeyIsAfterNode cmp s key n;
         if \<not> before then (if level = 0 then Some x else FindLessThan_loop cmp s key x (level - 1))
         else FindLessThan_loop cmp s key (the n) level }
       else None
     }"

definition FindLessThan :: "('k \<Rightarrow> 'k \<Rightarrow> int option) \<Rightarrow> 'k skiplist \<Rightarrow> 'k \<Rightarrow> nat option" where
  "FindLessThan cmp s key = FindLessThan_loop cmp s key 0 (max_height s - 1)"

partial_function (option) FindLast_loop :: "'k skiplist \<Rightarrow> nat \<Rightarrow> nat \<Rightarrow> nat option" where
  "FindLast_loop s x level =
     do {
       n \<leftarrow> skip_Next s x level;
       case n of
         None \<Rightarrow> if level = 0 then Some x else FindLast_loop s x (level - 1)
       | Some y \<Rightarrow> FindLast_loop s y level
     }"

definition FindLast :: "'k skiplist \<Rightarrow> nat option" where
  "FindLast s = FindLast_loop s 0 (max_height s - 1)"

section \<open>The list\<close>

text \<open>The key of the head is any value; it is never looked at.\<close>

definition SkipList :: "'k \<Rightarrow> 'k skiplist" where
  "SkipList any_key =
     \<lparr>nodes = [\<lparr>node_key = any_key, links = replicate kMaxHeight (Some None)\<rparr>], max_height = 1, rnd = Random_new 0xdeadbeef\<rparr>"

text \<open>The last loop of \<^verbatim>\<open>Insert\<close>: \<open>x\<close> is put behind \<open>prev ! i\<close> on each of its levels.\<close>

fun link_levels :: "nat list \<Rightarrow> nat option list \<Rightarrow> nat \<Rightarrow> 'k skiplist \<Rightarrow> 'k skiplist option" where
  "link_levels [] prev x s = Some s"
| "link_levels (i # is) prev x s =
     do {
       p \<leftarrow> prev ! i;
       n \<leftarrow> skip_Next s p i;
       s \<leftarrow> skip_SetNext s x i n;
       s \<leftarrow> skip_SetNext s p i (Some x);
       link_levels is prev x s
     }"

definition skip_Insert :: "('k \<Rightarrow> 'k \<Rightarrow> int option) \<Rightarrow> 'k \<Rightarrow> 'k skiplist \<Rightarrow> 'k skiplist option" where
  "skip_Insert cmp key s =
     do {
       (x, prev) \<leftarrow> FindGreaterOrEqual cmp s key (replicate kMaxHeight None);
       differs \<leftarrow> (case x of None \<Rightarrow> Some True | Some y \<Rightarrow> do { k \<leftarrow> node_key_at s y; r \<leftarrow> cmp key k; Some (r \<noteq> 0) });
       if differs then
         let (height, s) = RandomHeight s;
             prev = (if height > max_height s then fold (\<lambda>i prev. prev[i := Some 0]) [max_height s..<height] prev else prev);
             s = (if height > max_height s then s\<lparr>max_height := height\<rparr> else s);
             (x, s) = NewNode key height s
         in link_levels [0..<height] prev x s
       else None
     }"

definition skip_Contains :: "('k \<Rightarrow> 'k \<Rightarrow> int option) \<Rightarrow> 'k skiplist \<Rightarrow> 'k \<Rightarrow> bool option" where
  "skip_Contains cmp s key =
     do {
       (x, _) \<leftarrow> FindGreaterOrEqual cmp s key [];
       case x of None \<Rightarrow> Some False | Some y \<Rightarrow> do { k \<leftarrow> node_key_at s y; r \<leftarrow> cmp key k; Some (r = 0) }
     }"

section \<open>Iterators\<close>

text \<open>The state of an iterator is its node. A new one has none.\<close>

definition iter_Valid :: "nat option \<Rightarrow> bool" where
  "iter_Valid it \<longleftrightarrow> it \<noteq> None"

definition iter_key :: "'k skiplist \<Rightarrow> nat option \<Rightarrow> 'k option" where
  "iter_key s it = (if iter_Valid it then node_key_at s (the it) else None)"

definition iter_Next :: "'k skiplist \<Rightarrow> nat option \<Rightarrow> nat option option" where
  "iter_Next s it = (if iter_Valid it then skip_Next s (the it) 0 else None)"

definition iter_Prev :: "('k \<Rightarrow> 'k \<Rightarrow> int option) \<Rightarrow> 'k skiplist \<Rightarrow> nat option \<Rightarrow> nat option option" where
  "iter_Prev cmp s it =
     (if iter_Valid it then do {
        k \<leftarrow> node_key_at s (the it);
        x \<leftarrow> FindLessThan cmp s k;
        Some (if x = 0 then None else Some x) }
      else None)"

definition iter_Seek :: "('k \<Rightarrow> 'k \<Rightarrow> int option) \<Rightarrow> 'k skiplist \<Rightarrow> 'k \<Rightarrow> nat option option" where
  "iter_Seek cmp s target = do { (x, _) \<leftarrow> FindGreaterOrEqual cmp s target []; Some x }"

definition iter_SeekToFirst :: "'k skiplist \<Rightarrow> nat option option" where
  "iter_SeekToFirst s = skip_Next s 0 0"

definition iter_SeekToLast :: "'k skiplist \<Rightarrow> nat option option" where
  "iter_SeekToLast s = do { x \<leftarrow> FindLast s; Some (if x = 0 then None else Some x) }"

section \<open>Heights are within bounds\<close>

lemma RandomHeight_loop_range: "1 \<le> h \<Longrightarrow> h \<le> 12 \<Longrightarrow> fst (RandomHeight_loop h seed) \<in> {1..12}"
proof (induction h seed rule: RandomHeight_loop.induct)
  case (1 h seed)
  then show ?case by (subst RandomHeight_loop.simps) (auto simp: kMaxHeight_def Let_def)
qed

lemma RandomHeight_range:
  assumes "RandomHeight s = (h, s')"
  shows "1 \<le> h" "h \<le> 12" "nodes s' = nodes s" "max_height s' = max_height s"
  using assms RandomHeight_loop_range [of 1 "rnd s"] by (auto simp: RandomHeight_def split: prod.splits)

text \<open>The generator stays away from 0, and multiplies by 16807 modulo the prime 2147483647.\<close>

lemma Random_Next_exact:
  assumes "0 < seed" "seed < 2147483647"
  shows "unat (Random_Next seed) = unat seed * 16807 mod 2147483647"
proof -
  define p where "p = unat seed * 16807"
  have s: "0 < unat seed" "unat seed < 2147483647" using assms by (simp_all add: word_less_nat_alt unat_gt_0)
  have "unat (ucast seed * 16807 :: u64) = p"
    using s(2) by (simp add: unat_word_ariths unat_ucast_le p_def)
  then have "unat (drop_bit 31 (ucast seed * 16807 :: u64)) = p div 2 ^ 31"
    "unat (ucast seed * 16807 AND 2147483647 :: u64) = p mod 2 ^ 31"
    using unat_and_mask [of "ucast seed * 16807 :: u64" 31] by (simp_all add: unat_drop_bit mask_numeral)
  moreover define q where "q = p div 2 ^ 31 + p mod 2 ^ 31"
  moreover have "p div 2 ^ 31 < 16807" using s(2) by (simp add: p_def less_mult_imp_div_less)
  moreover have "p mod 2 ^ 31 < 2 ^ 31" by simp
  ultimately have sum: "unat (ucast (drop_bit 31 (ucast seed * 16807 :: u64) + (ucast seed * 16807 AND 2147483647)) :: u32) = q"
    by (simp add: unat_word_ariths unsigned_ucast_eq take_bit_eq_mod)
  have "p = q + 2147483647 * (p div 2 ^ 31)" using div_mult_mod_eq [of p "2 ^ 31"] by (simp add: q_def)
  then have pq: "p mod 2147483647 = q mod 2147483647" by (metis mod_mult_self2)
  have "p div 2 ^ 31 < 16807" using s(2) by (simp add: p_def less_mult_imp_div_less)
  then have q: "q < 2 * 2147483647" using mod_less_divisor [of "2 ^ 31" p] by (simp add: q_def)
  have "coprime (2147483647 :: nat) 16807" by (simp add: coprime_iff_gcd_eq_1 gcd_nat.simps) 
  then have "\<not> 2147483647 dvd p" using s by (auto simp: p_def coprime_dvd_mult_left_iff dest: dvd_imp_le)
  then have "q \<noteq> 2147483647" using pq by (auto simp: dvd_eq_mod_eq_0)
  then show ?thesis
    using q sum unfolding p_def [symmetric] pq
    by (auto simp: Random_Next_def Let_def word_less_nat_alt unat_sub_if_size q_def [symmetric] word_size mod_if)
qed

end
