(* ===== verification/Leveldb_Log.thy ===== *)
theory Leveldb_Log
  imports Crc32c
begin

text \<open>
  \<^verbatim>\<open>leveldb-library/db/log_format.h\<close>, \<^verbatim>\<open>log_writer.cc\<close> and \<^verbatim>\<open>log_reader.cc\<close>: the log that LevelDB writes before it changes
  its memory table, and that it reads after a crash.

  \<^item> A \<^verbatim>\<open>Status\<close> is a constructor for its code, with the message.
  \<^item> The files are the interfaces \<^verbatim>\<open>WritableFile\<close> and \<^verbatim>\<open>SequentialFile\<close> of \<^verbatim>\<open>leveldb/env.h\<close>: the bytes of the file, and the
    outcomes of the calls to come, as the operating system decides them. A write that fails may have written a part of its bytes. When the list of
    outcomes is empty, calls succeed.
  \<^item> The reader and the writer are records of their fields. An assertion that fails is \<open>None\<close>.
  \<^item> The value of a checksum does not depend on the address of the data (\<open>crc32c_Extend_exact\<close>); the address is 0 here.
\<close>

section \<open>Status and files\<close>

datatype status = OK | NotFound string | Corruption string | NotSupported string | InvalidArgument string | IOError string

record writable_file =
  wf_contents :: "byte list"
  wf_faults :: "(nat \<times> string) option list"

definition wf_Append :: "writable_file \<Rightarrow> byte list \<Rightarrow> status \<times> writable_file" where
  "wf_Append f data =
     (case wf_faults f of
        Some (k, msg) # fs \<Rightarrow> (IOError msg, f\<lparr>wf_contents := wf_contents f @ take k data, wf_faults := fs\<rparr>)
      | fs \<Rightarrow> (OK, f\<lparr>wf_contents := wf_contents f @ data, wf_faults := tl fs\<rparr>))"

definition wf_Flush :: "writable_file \<Rightarrow> status \<times> writable_file" where
  "wf_Flush f = wf_Append f []"

record sequential_file =
  sf_rest :: "byte list"
  sf_faults :: "string option list"

definition sf_Read :: "sequential_file \<Rightarrow> nat \<Rightarrow> status \<times> byte list \<times> sequential_file" where
  "sf_Read f n =
     (case sf_faults f of
        Some msg # fs \<Rightarrow> (IOError msg, [], f\<lparr>sf_faults := fs\<rparr>)
      | fs \<Rightarrow> (OK, take n (sf_rest f), f\<lparr>sf_rest := drop n (sf_rest f), sf_faults := tl fs\<rparr>))"

definition sf_Skip :: "sequential_file \<Rightarrow> nat \<Rightarrow> status \<times> sequential_file" where
  "sf_Skip f n =
     (case sf_faults f of
        Some msg # fs \<Rightarrow> (IOError msg, f\<lparr>sf_faults := fs\<rparr>)
      | fs \<Rightarrow> (OK, f\<lparr>sf_rest := drop n (sf_rest f), sf_faults := tl fs\<rparr>))"

section \<open>The format\<close>

definition kZeroType :: u32 where "kZeroType = 0"
definition kFullType :: u32 where "kFullType = 1"
definition kFirstType :: u32 where "kFirstType = 2"
definition kMiddleType :: u32 where "kMiddleType = 3"
definition kLastType :: u32 where "kLastType = 4"
definition kMaxRecordType :: u32 where "kMaxRecordType = kLastType"
definition kBlockSize :: nat where "kBlockSize = 32768"
definition kHeaderSize :: nat where "kHeaderSize = 4 + 2 + 1"

lemmas record_types = kZeroType_def kFullType_def kFirstType_def kMiddleType_def kLastType_def kMaxRecordType_def
lemmas log_sizes [simp] = kBlockSize_def kHeaderSize_def

section \<open>Writer\<close>

record log_writer =
  dest :: writable_file
  block_offset :: int
  type_crc :: "u32 list"

definition InitTypeCrc :: "u32 list" where
  "InitTypeCrc = map (\<lambda>i. crc32c_Value 0 [word_of_nat i]) [0..<Suc (unat kMaxRecordType)]"

definition log_Writer :: "writable_file \<Rightarrow> log_writer" where
  "log_Writer f = \<lparr>dest = f, block_offset = 0, type_crc = InitTypeCrc\<rparr>"

definition log_Writer_at :: "writable_file \<Rightarrow> u64 \<Rightarrow> log_writer" where
  "log_Writer_at f dest_length = \<lparr>dest = f, block_offset = int (unat dest_length mod kBlockSize), type_crc = InitTypeCrc\<rparr>"

definition EmitPhysicalRecord :: "log_writer \<Rightarrow> u32 \<Rightarrow> byte list \<Rightarrow> (status \<times> log_writer) option" where
  "EmitPhysicalRecord w t payload =
     (let n = length payload
      in if n \<le> 0xffff \<and> block_offset w + int kHeaderSize + int n \<le> int kBlockSize then
           let crc = crc32c_Mask (crc32c_Extend 0 (type_crc w ! unat t) payload);
               buf = EncodeFixed32 crc @ [word_of_nat (n mod 256), word_of_nat (n div 256), ucast t];
               (s, f) = wf_Append (dest w) buf;
               (s, f) = (if s = OK then
                           let (s, f) = wf_Append f payload in if s = OK then wf_Flush f else (s, f)
                         else (s, f))
           in Some (s, w\<lparr>dest := f, block_offset := block_offset w + int kHeaderSize + int n\<rparr>)
         else None)"

text \<open>The start of an iteration: the end of a block without room for a header is filled with zeros, whatever the file says to that.\<close>

definition log_new_block :: "log_writer \<Rightarrow> log_writer" where
  "log_new_block w =
     (let leftover = int kBlockSize - block_offset w
      in if leftover < int kHeaderSize then
           (if leftover > 0 then w\<lparr>dest := snd (wf_Append (dest w) (replicate (nat leftover) 0))\<rparr> else w)\<lparr>block_offset := 0\<rparr>
         else w)"

definition fragment_type :: "bool \<Rightarrow> bool \<Rightarrow> u32" where
  "fragment_type begins ends =
     (if begins \<and> ends then kFullType else if begins then kFirstType else if ends then kLastType else kMiddleType)"

lemma block_offset_Emit:
  "EmitPhysicalRecord w t payload = Some (s, w') \<Longrightarrow> block_offset w' = block_offset w + 7 + int (length payload)"
  by (auto simp: EmitPhysicalRecord_def Let_def split: if_splits prod.splits)

function AddRecord_loop :: "bool \<Rightarrow> byte list \<Rightarrow> log_writer \<Rightarrow> (status \<times> log_writer) option" where
  "AddRecord_loop begins ptr w =
     (if int kBlockSize - block_offset w \<ge> 0 then
        let w = log_new_block w
        in if int kBlockSize - block_offset w - int kHeaderSize \<ge> 0 then
             let avail = nat (int kBlockSize - block_offset w - int kHeaderSize);
                 fragment_length = (if length ptr < avail then length ptr else avail);
                 ends = (length ptr = fragment_length)
             in case EmitPhysicalRecord w (fragment_type begins ends) (take fragment_length ptr) of
                  None \<Rightarrow> None
                | Some (s, w) \<Rightarrow>
                    if s = OK \<and> length ptr - fragment_length > 0 then AddRecord_loop False (drop fragment_length ptr) w
                    else Some (s, w)
           else None
      else None)"
  by pat_completeness auto
termination
  by (relation "measures [\<lambda>(_, ptr, _). length ptr, \<lambda>(_, _, w). if block_offset w = 32761 then 1 else 0]")
    (auto dest!: block_offset_Emit simp: log_new_block_def Let_def split: if_splits)

declare AddRecord_loop.simps [simp del]

definition AddRecord :: "log_writer \<Rightarrow> byte list \<Rightarrow> (status \<times> log_writer) option" where
  "AddRecord w data = AddRecord_loop True data w"

section \<open>Reader\<close>

definition kEof :: u32 where "kEof = kMaxRecordType + 1"
definition kBadRecord :: u32 where "kBadRecord = kMaxRecordType + 2"

lemmas reader_types = record_types kEof_def kBadRecord_def

record log_reader =
  reader_file :: sequential_file
  has_reporter :: bool
  verify_checksum :: bool
  initial_offset :: u64
  buffer :: "byte list"
  at_eof :: bool
  last_record_offset :: u64
  end_of_buffer_offset :: u64
  resyncing :: bool
  reports :: "(u64 \<times> status) list"

definition log_Reader :: "sequential_file \<Rightarrow> bool \<Rightarrow> bool \<Rightarrow> u64 \<Rightarrow> log_reader" where
  "log_Reader f reporter verify initial =
     \<lparr>reader_file = f, has_reporter = reporter, verify_checksum = verify, initial_offset = initial, buffer = [], at_eof = False,
      last_record_offset = 0, end_of_buffer_offset = 0, resyncing = (initial > 0), reports = []\<rparr>"

definition ReportDrop :: "u64 \<Rightarrow> status \<Rightarrow> log_reader \<Rightarrow> log_reader" where
  "ReportDrop bytes reason r =
     (if has_reporter r \<and> end_of_buffer_offset r - word_of_nat (length (buffer r)) - bytes \<ge> initial_offset r
      then r\<lparr>reports := reports r @ [(bytes, reason)]\<rparr> else r)"

definition ReportCorruption :: "nat \<Rightarrow> string \<Rightarrow> log_reader \<Rightarrow> log_reader" where
  "ReportCorruption bytes reason r = ReportDrop (word_of_nat bytes) (Corruption reason) r"

definition SkipToInitialBlock :: "log_reader \<Rightarrow> bool \<times> log_reader" where
  "SkipToInitialBlock r =
     (let offset_in_block = initial_offset r mod word_of_nat kBlockSize;
          block_start_location = initial_offset r - offset_in_block;
          block_start_location =
            (if offset_in_block > word_of_nat kBlockSize - 6 then block_start_location + word_of_nat kBlockSize else block_start_location);
          r = r\<lparr>end_of_buffer_offset := block_start_location\<rparr>
      in if block_start_location > 0 then
           let (s, f) = sf_Skip (reader_file r) (unat block_start_location); r = r\<lparr>reader_file := f\<rparr>
           in if s \<noteq> OK then (False, ReportDrop block_start_location s r) else (True, r)
         else (True, r))"

text \<open>The part of \<^verbatim>\<open>ReadPhysicalRecord\<close> behind the loop: a header is in the buffer. \<open>result\<close> is the slice that the caller passed.\<close>

definition ParsePhysicalRecord :: "byte list \<Rightarrow> log_reader \<Rightarrow> u32 \<times> byte list \<times> log_reader" where
  "ParsePhysicalRecord result r =
     (let header = buffer r;
          a = unat (header ! 4);
          b = unat (header ! 5);
          type = scast (header ! 6) :: u32;
          len = a + b * 256
      in if kHeaderSize + len > length (buffer r) then
           let drop_size = length (buffer r); r = r\<lparr>buffer := []\<rparr>
           in if \<not> at_eof r then (kBadRecord, result, ReportCorruption drop_size ''bad record length'' r) else (kEof, result, r)
         else if type = kZeroType \<and> len = 0 then (kBadRecord, result, r\<lparr>buffer := []\<rparr>)
         else if verify_checksum r \<and> crc32c_Value 0 (take (1 + len) (drop 6 header)) \<noteq> crc32c_Unmask (DecodeFixed32 header) then
           let drop_size = length (buffer r); r = r\<lparr>buffer := []\<rparr>
           in (kBadRecord, result, ReportCorruption drop_size ''checksum mismatch'' r)
         else
           let r = r\<lparr>buffer := drop (kHeaderSize + len) (buffer r)\<rparr>
           in if end_of_buffer_offset r - word_of_nat (length (buffer r)) - word_of_nat kHeaderSize - word_of_nat len < initial_offset r
              then (kBadRecord, [], r)
              else (type, take len (drop kHeaderSize header), r))"

function ReadPhysicalRecord :: "byte list \<Rightarrow> log_reader \<Rightarrow> u32 \<times> byte list \<times> log_reader" where
  "ReadPhysicalRecord result r =
     (if length (buffer r) < kHeaderSize then
        if \<not> at_eof r then
          let (s, buf, f) = sf_Read (reader_file r) kBlockSize;
              r = r\<lparr>buffer := buf, reader_file := f, end_of_buffer_offset := end_of_buffer_offset r + word_of_nat (length buf)\<rparr>
          in if s \<noteq> OK then (kEof, result, (ReportDrop (word_of_nat kBlockSize) s (r\<lparr>buffer := []\<rparr>))\<lparr>at_eof := True\<rparr>)
             else if length buf < kBlockSize then ReadPhysicalRecord result (r\<lparr>at_eof := True\<rparr>)
             else ReadPhysicalRecord result r
        else (kEof, result, r\<lparr>buffer := []\<rparr>)
      else ParsePhysicalRecord result r)"
  by pat_completeness auto
termination
  by (relation "measure (\<lambda>(_, r). (if at_eof r then 0 else 1) + (if length (buffer r) < 7 then 1 else 0))") auto

declare ReadPhysicalRecord.simps [simp del]

text \<open>The bytes that the reader has not used. Only the end of the input leaves their number unchanged.\<close>

definition bytes_left :: "log_reader \<Rightarrow> nat" where
  "bytes_left r = length (buffer r) + length (sf_rest (reader_file r))"

lemma ReportDrop_fields [simp]:
  "buffer (ReportDrop n s r) = buffer r" "reader_file (ReportDrop n s r) = reader_file r"
  "buffer (ReportCorruption m t r) = buffer r" "reader_file (ReportCorruption m t r) = reader_file r"
  by (simp_all add: ReportDrop_def ReportCorruption_def)

lemma bytes_left_Report [simp]: "bytes_left (ReportDrop n s r) = bytes_left r" "bytes_left (ReportCorruption m t r) = bytes_left r"
  by (simp_all add: bytes_left_def)

lemma ParsePhysicalRecord_less:
  "ParsePhysicalRecord result r = (t, f, r') \<Longrightarrow> length (buffer r) \<ge> 7 \<Longrightarrow> bytes_left r' < bytes_left r"
  by (auto simp: ParsePhysicalRecord_def Let_def bytes_left_def split: if_splits)

lemma ReadPhysicalRecord_less:
  "ReadPhysicalRecord result r = (t, f, r') \<Longrightarrow> t \<noteq> kEof \<Longrightarrow> bytes_left r' < bytes_left r"
proof (induction result r rule: ReadPhysicalRecord.induct)
  case (1 result r)
  show ?case
  proof (cases "length (buffer r) < 7")
    case False
    then show ?thesis using 1(3) by (auto simp: ReadPhysicalRecord.simps [of result r] dest: ParsePhysicalRecord_less)
  next
    case True
    with 1(3,4) have eof: "\<not> at_eof r" by (auto simp: ReadPhysicalRecord.simps [of result r])
    obtain s buf g where g: "sf_Read (reader_file r) 32768 = (s, buf, g)" by (metis prod.exhaust)
    then have len: "s = OK \<Longrightarrow> length buf + length (sf_rest g) = length (sf_rest (reader_file r))"
      by (auto simp: sf_Read_def split: list.splits option.splits prod.splits)
    show ?thesis
      using 1(1) [of "(s, buf, g)" s "(buf, g)" buf g] 1(2) [of "(s, buf, g)" s "(buf, g)" buf g] 1(3,4) True eof g len
      by (auto simp: ReadPhysicalRecord.simps [of result r] bytes_left_def Let_def split: if_splits)
  qed
qed

function decimal :: "nat \<Rightarrow> string" where
  "decimal n = (if n < 10 then [char_of (n + 48)] else decimal (n div 10) @ [char_of (n mod 10 + 48)])"
  by pat_completeness auto
termination by (relation "measure id") auto

declare decimal.simps [simp del]

text \<open>
  The loop of \<^verbatim>\<open>ReadRecord\<close>. Its variables are \<^verbatim>\<open>in_fragmented_record\<close>, \<^verbatim>\<open>prospective_record_offset\<close>, \<^verbatim>\<open>*scratch\<close> and
  \<^verbatim>\<open>fragment\<close>.
\<close>

function ReadRecord_loop :: "bool \<Rightarrow> u64 \<Rightarrow> byte list \<Rightarrow> byte list \<Rightarrow> log_reader \<Rightarrow> byte list option \<times> log_reader" where
  "ReadRecord_loop fragmented prospective scratch fragment r =
     (let (record_type, fragment, r) = ReadPhysicalRecord fragment r;
          physical_record_offset =
            end_of_buffer_offset r - word_of_nat (length (buffer r)) - word_of_nat kHeaderSize - word_of_nat (length fragment)
      in if resyncing r \<and> record_type = kMiddleType then ReadRecord_loop fragmented prospective scratch fragment r
         else if resyncing r \<and> record_type = kLastType then
           ReadRecord_loop fragmented prospective scratch fragment (r\<lparr>resyncing := False\<rparr>)
         else
           let r = r\<lparr>resyncing := False\<rparr>
           in if record_type = kFullType then
                let r = (if fragmented \<and> scratch \<noteq> [] then ReportCorruption (length scratch) ''partial record without end(1)'' r else r)
                in (Some fragment, r\<lparr>last_record_offset := physical_record_offset\<rparr>)
              else if record_type = kFirstType then
                let r = (if fragmented \<and> scratch \<noteq> [] then ReportCorruption (length scratch) ''partial record without end(2)'' r else r)
                in ReadRecord_loop True physical_record_offset fragment fragment r
              else if record_type = kMiddleType then
                if \<not> fragmented then
                  ReadRecord_loop fragmented prospective scratch fragment
                    (ReportCorruption (length fragment) ''missing start of fragmented record(1)'' r)
                else ReadRecord_loop fragmented prospective (scratch @ fragment) fragment r
              else if record_type = kLastType then
                if \<not> fragmented then
                  ReadRecord_loop fragmented prospective scratch fragment
                    (ReportCorruption (length fragment) ''missing start of fragmented record(2)'' r)
                else (Some (scratch @ fragment), r\<lparr>last_record_offset := prospective\<rparr>)
              else if record_type = kEof then (None, r)
              else if record_type = kBadRecord then
                if fragmented then
                  ReadRecord_loop False prospective [] fragment (ReportCorruption (length scratch) ''error in middle of record'' r)
                else ReadRecord_loop fragmented prospective scratch fragment r
              else
                ReadRecord_loop False prospective [] fragment
                  (ReportCorruption (length fragment + (if fragmented then length scratch else 0))
                     (''unknown record type '' @ decimal (unat record_type)) r))"
  by pat_completeness auto
termination
  by (relation "measure (\<lambda>(_, _, _, _, r). bytes_left r)")
    (auto dest!: ReadPhysicalRecord_less [OF sym] simp: bytes_left_def reader_types)

declare ReadRecord_loop.simps [simp del]

definition ReadRecord :: "log_reader \<Rightarrow> byte list option \<times> log_reader" where
  "ReadRecord r =
     (let (ok, r) = (if last_record_offset r < initial_offset r then SkipToInitialBlock r else (True, r))
      in if ok then ReadRecord_loop False 0 [] [] r else (None, r))"

definition LastRecordOffset :: "log_reader \<Rightarrow> u64" where
  "LastRecordOffset = last_record_offset"

end
