(* ===== verification/Leveldb_Memtable.thy ===== *)
theory Leveldb_Memtable
  imports Leveldb_Key Skiplist Leveldb_Log
begin

text \<open>
  \<^verbatim>\<open>leveldb-library/db/memtable.cc\<close>: the table in memory that holds the newest entries, and \<^verbatim>\<open>db/write_batch.cc\<close>: the updates that are applied to it
  together.

  \<^item> An entry is the bytes from its address on; the skip list compares two entries by the internal keys in them. Reading behind the end of the
    bytes is \<open>None\<close>, like an assertion that fails.
  \<^item> A batch is its \<^verbatim>\<open>rep_\<close>. A \<^verbatim>\<open>Handler\<close> is a state and two functions that change it.
  \<^item> Counts are of type \<^verbatim>\<open>int\<close> and stored as 32 bits; they are words here.
\<close>

section \<open>Memory tables\<close>

text \<open>The length-prefixed slice at an address, and the bytes behind it. The prefix is read with a limit of five bytes.\<close>

definition memtable_slice :: "byte list \<Rightarrow> (byte list \<times> byte list) option" where
  "memtable_slice data =
     do {
       (len, q) \<leftarrow> GetVarint32Ptr (take 5 data);
       let p = drop (min 5 (length data) - length q) data
       in if unat len \<le> length p then Some (take (unat len) p, drop (unat len) p) else None
     }"

definition KeyComparator :: "(byte list \<Rightarrow> byte list \<Rightarrow> int) \<Rightarrow> byte list \<Rightarrow> byte list \<Rightarrow> int option" where
  "KeyComparator user aptr bptr =
     do { (a, _) \<leftarrow> memtable_slice aptr; (b, _) \<leftarrow> memtable_slice bptr; InternalKey_Compare user a b }"

definition EncodeKey :: "byte list \<Rightarrow> byte list" where
  "EncodeKey target = PutVarint32 [] (word_of_nat (length target)) @ target"

type_synonym memtable = "byte list skiplist"

text \<open>The head of the list has the null pointer as its key, which is never read.\<close>

definition new_MemTable :: memtable where
  "new_MemTable = SkipList []"

definition MemTable_Add :: "(byte list \<Rightarrow> byte list \<Rightarrow> int) \<Rightarrow> u64 \<Rightarrow> byte \<Rightarrow> byte list \<Rightarrow> byte list \<Rightarrow> memtable \<Rightarrow> memtable option" where
  "MemTable_Add user s type key v m =
     (let internal_key_size = word_of_nat (length key + 8) :: u64;
          val_size = word_of_nat (length v) :: u64;
          encoded_len = VarintLength internal_key_size + (length key + 8) + VarintLength val_size + length v;
          buf = EncodeVarint32 (ucast internal_key_size) @ key @ EncodeFixed64 (push_bit 8 s OR ucast type) @
                EncodeVarint32 (ucast val_size) @ v
      in if length buf = encoded_len then skip_Insert (KeyComparator user) buf m else None)"

text \<open>The results are the returned flag, \<^verbatim>\<open>*value\<close> and \<^verbatim>\<open>*s\<close>.\<close>

definition MemTable_Get ::
  "(byte list \<Rightarrow> byte list \<Rightarrow> int) \<Rightarrow> memtable \<Rightarrow> LookupKey \<Rightarrow> byte list \<Rightarrow> status \<Rightarrow> (bool \<times> byte list \<times> status) option" where
  "MemTable_Get user m key v s =
     do {
       it \<leftarrow> iter_Seek (KeyComparator user) m (memtable_key key);
       if iter_Valid it then do {
         entry \<leftarrow> iter_key m it;
         (ikey, rest) \<leftarrow> memtable_slice entry;
         ukey \<leftarrow> ExtractUserKey ikey;
         if user ukey (lookup_user_key key) = 0 then
           let tag = DecodeFixed64 (drop (length ikey - 8) ikey);
               type = ucast (tag AND 0xff) :: byte
           in if type = kTypeValue then do { (w, _) \<leftarrow> memtable_slice rest; Some (True, w, s) }
              else if type = kTypeDeletion then Some (True, v, NotFound [])
              else Some (False, v, s)
         else Some (False, v, s) }
       else Some (False, v, s)
     }"

text \<open>\<^verbatim>\<open>MemTableIterator\<close>: an iterator over the list whose keys and values are slices of the entry.\<close>

definition mem_iter_Seek :: "(byte list \<Rightarrow> byte list \<Rightarrow> int) \<Rightarrow> memtable \<Rightarrow> byte list \<Rightarrow> nat option option" where
  "mem_iter_Seek user m k = iter_Seek (KeyComparator user) m (EncodeKey k)"

definition mem_iter_key :: "memtable \<Rightarrow> nat option \<Rightarrow> byte list option" where
  "mem_iter_key m it = do { entry \<leftarrow> iter_key m it; (k, _) \<leftarrow> memtable_slice entry; Some k }"

definition mem_iter_value :: "memtable \<Rightarrow> nat option \<Rightarrow> byte list option" where
  "mem_iter_value m it = do { entry \<leftarrow> iter_key m it; (_, rest) \<leftarrow> memtable_slice entry; (v, _) \<leftarrow> memtable_slice rest; Some v }"

section \<open>Batches\<close>

definition kHeader :: nat where "kHeader = 12"

definition WriteBatch_Clear :: "byte list" where
  "WriteBatch_Clear = replicate kHeader 0"

definition ApproximateSize :: "byte list \<Rightarrow> nat" where
  "ApproximateSize rep = length rep"

definition WB_Count :: "byte list \<Rightarrow> u32" where
  "WB_Count rep = DecodeFixed32 (drop 8 rep)"

definition WB_SetCount :: "u32 \<Rightarrow> byte list \<Rightarrow> byte list" where
  "WB_SetCount n rep = take 8 rep @ EncodeFixed32 n @ drop 12 rep"

definition WB_Sequence :: "byte list \<Rightarrow> u64" where
  "WB_Sequence rep = DecodeFixed64 rep"

definition WB_SetSequence :: "u64 \<Rightarrow> byte list \<Rightarrow> byte list" where
  "WB_SetSequence seq rep = EncodeFixed64 seq @ drop 8 rep"

definition WriteBatch_Put :: "byte list \<Rightarrow> byte list \<Rightarrow> byte list \<Rightarrow> byte list" where
  "WriteBatch_Put key v rep =
     (let rep = WB_SetCount (WB_Count rep + 1) rep;
          rep = rep @ [kTypeValue];
          rep = PutLengthPrefixedSlice rep key
      in PutLengthPrefixedSlice rep v)"

definition WriteBatch_Delete :: "byte list \<Rightarrow> byte list \<Rightarrow> byte list" where
  "WriteBatch_Delete key rep =
     (let rep = WB_SetCount (WB_Count rep + 1) rep;
          rep = rep @ [kTypeDeletion]
      in PutLengthPrefixedSlice rep key)"

definition WB_SetContents :: "byte list \<Rightarrow> byte list option" where
  "WB_SetContents contents = (if length contents \<ge> kHeader then Some contents else None)"

definition WriteBatch_Append :: "byte list \<Rightarrow> byte list \<Rightarrow> byte list option" where
  "WriteBatch_Append dst src =
     (let dst = WB_SetCount (WB_Count dst + WB_Count src) dst
      in if length src \<ge> kHeader then Some (dst @ drop kHeader src) else None)"

text \<open>The loop of \<^verbatim>\<open>Iterate\<close>. A handler may fail an assertion.\<close>

function Iterate_loop ::
  "(byte list \<Rightarrow> byte list \<Rightarrow> 'h \<Rightarrow> 'h option) \<Rightarrow> (byte list \<Rightarrow> 'h \<Rightarrow> 'h option) \<Rightarrow> byte list \<Rightarrow> u32 \<Rightarrow> u32 \<Rightarrow> 'h \<Rightarrow>
    (status \<times> 'h) option" where
  "Iterate_loop put delete [] found expected h =
     Some (if found \<noteq> expected then (Corruption ''WriteBatch has wrong count'', h) else (OK, h))"
| "Iterate_loop put delete (tag # input) found expected h =
     (let found = found + 1
      in if tag = kTypeValue then
           case GetLengthPrefixedSlice input of
             (None, _) \<Rightarrow> Some (Corruption ''bad WriteBatch Put'', h)
           | (Some key, input') \<Rightarrow>
               (case GetLengthPrefixedSlice input' of
                  (None, _) \<Rightarrow> Some (Corruption ''bad WriteBatch Put'', h)
                | (Some v, input'') \<Rightarrow>
                    (case put key v h of None \<Rightarrow> None | Some h \<Rightarrow> Iterate_loop put delete input'' found expected h))
         else if tag = kTypeDeletion then
           case GetLengthPrefixedSlice input of
             (None, _) \<Rightarrow> Some (Corruption ''bad WriteBatch Delete'', h)
           | (Some key, input') \<Rightarrow> (case delete key h of None \<Rightarrow> None | Some h \<Rightarrow> Iterate_loop put delete input' found expected h)
         else Some (Corruption ''unknown WriteBatch tag'', h))"
  by pat_completeness auto
termination
  by (relation "measure (\<lambda>(_, _, input, _). length input)") (auto dest!: consumes [OF sym])

definition WriteBatch_Iterate ::
  "(byte list \<Rightarrow> byte list \<Rightarrow> 'h \<Rightarrow> 'h option) \<Rightarrow> (byte list \<Rightarrow> 'h \<Rightarrow> 'h option) \<Rightarrow> byte list \<Rightarrow> 'h \<Rightarrow> (status \<times> 'h) option" where
  "WriteBatch_Iterate put delete rep h =
     (if length rep < kHeader then Some (Corruption ''malformed WriteBatch (too small)'', h)
      else Iterate_loop put delete (drop kHeader rep) 0 (WB_Count rep) h)"

text \<open>\<^verbatim>\<open>MemTableInserter\<close>: the next sequence number and the table.\<close>

record inserter =
  ins_sequence :: u64
  ins_mem :: memtable

definition inserter_Put :: "(byte list \<Rightarrow> byte list \<Rightarrow> int) \<Rightarrow> byte list \<Rightarrow> byte list \<Rightarrow> inserter \<Rightarrow> inserter option" where
  "inserter_Put user key v i =
     do { m \<leftarrow> MemTable_Add user (ins_sequence i) kTypeValue key v (ins_mem i); Some \<lparr>ins_sequence = ins_sequence i + 1, ins_mem = m\<rparr> }"

definition inserter_Delete :: "(byte list \<Rightarrow> byte list \<Rightarrow> int) \<Rightarrow> byte list \<Rightarrow> inserter \<Rightarrow> inserter option" where
  "inserter_Delete user key i =
     do { m \<leftarrow> MemTable_Add user (ins_sequence i) kTypeDeletion key [] (ins_mem i); Some \<lparr>ins_sequence = ins_sequence i + 1, ins_mem = m\<rparr> }"

definition InsertInto :: "(byte list \<Rightarrow> byte list \<Rightarrow> int) \<Rightarrow> byte list \<Rightarrow> memtable \<Rightarrow> (status \<times> memtable) option" where
  "InsertInto user rep m =
     do {
       (s, i) \<leftarrow> WriteBatch_Iterate (inserter_Put user) (inserter_Delete user) rep \<lparr>ins_sequence = WB_Sequence rep, ins_mem = m\<rparr>;
       Some (s, ins_mem i)
     }"

end
