(* ===== verification/Leveldb_Db.thy ===== *)
theory Leveldb_Db
  imports Leveldb_Memtable
begin

text \<open>
  \<^verbatim>\<open>leveldb-library/db/db_impl.cc\<close>: how writes reach the log and the memory table, how the newest entries are read, and how a log is replayed
  after a restart.

  \<^item> The state is the part of \<^verbatim>\<open>DBImpl\<close> that these functions change. The code of \<^verbatim>\<open>Write\<close> runs for the writer at the front of the queue; the
    mutex is released while it appends to the log, but then other threads only append to the queue, so \<open>DBImpl_Write\<close> is one step.
  \<^item> Not modelled here: the room that is made for a write, the level-0 tables and the files of versions. Their results are arguments: the status
    of \<^verbatim>\<open>MakeRoomForWrite\<close> and of \<^verbatim>\<open>Sync\<close>, the function that writes a table, the lookup in the current version, the size of a table in memory.
\<close>

section \<open>Writing\<close>

record db_writer =
  w_batch :: "byte list option"
  w_sync :: bool
  w_status :: status
  w_done :: bool

record db =
  db_writers :: "db_writer list"
  db_log :: log_writer
  db_mem :: memtable
  db_imm :: "memtable option"
  tmp_batch :: "byte list"
  last_sequence :: u64
  bg_error :: status

text \<open>
  The loop of \<^verbatim>\<open>BuildBatchGroup\<close>. The result is \<^verbatim>\<open>first->batch\<close> (\<open>None\<close>) or the contents of \<^verbatim>\<open>tmp_batch_\<close>; \<open>last_writer\<close> is the index of
  \<^verbatim>\<open>*last_writer\<close> in the queue.
\<close>

fun BuildBatchGroup_loop ::
  "db_writer \<Rightarrow> byte list \<Rightarrow> nat \<Rightarrow> nat \<Rightarrow> byte list option \<Rightarrow> nat \<Rightarrow> nat \<Rightarrow> db_writer list \<Rightarrow> (byte list option \<times> nat) option" where
  "BuildBatchGroup_loop front tmp max_size bytes result last_writer i [] = Some (result, last_writer)"
| "BuildBatchGroup_loop front tmp max_size bytes result last_writer i (w # ws) =
     (if w_sync w \<and> \<not> w_sync front then Some (result, last_writer)
      else case w_batch w of
             None \<Rightarrow> BuildBatchGroup_loop front tmp max_size bytes result i (Suc i) ws
           | Some b \<Rightarrow>
               let bytes = bytes + length b
               in if bytes > max_size then Some (result, last_writer)
                  else do {
                    r \<leftarrow> (case result of
                            None \<Rightarrow> if WB_Count tmp = 0 then do { f \<leftarrow> w_batch front; WriteBatch_Append tmp f } else None
                          | Some r \<Rightarrow> Some r);
                    r \<leftarrow> WriteBatch_Append r b;
                    BuildBatchGroup_loop front tmp max_size bytes (Some r) i (Suc i) ws
                  })"

definition BuildBatchGroup :: "byte list \<Rightarrow> db_writer list \<Rightarrow> (byte list option \<times> nat) option" where
  "BuildBatchGroup tmp writers =
     (case writers of
        [] \<Rightarrow> None
      | front # ws \<Rightarrow>
          do {
            b \<leftarrow> w_batch front;
            let bytes = length b;
                max_size = (if bytes \<le> 128 * 1024 then bytes + 128 * 1024 else 1024 * 1024)
            in BuildBatchGroup_loop front tmp max_size bytes None 0 1 ws
          })"

definition RecordBackgroundError :: "status \<Rightarrow> db \<Rightarrow> db" where
  "RecordBackgroundError s db = (if bg_error db = OK then db\<lparr>bg_error := s\<rparr> else db)"

text \<open>
  The part of \<^verbatim>\<open>Write\<close> between \<^verbatim>\<open>MakeRoomForWrite\<close>, which returned \<open>status\<close>, and the loop at its end. \<open>synced\<close> is what \<^verbatim>\<open>Sync\<close> returns. The
  result has the index of the last writer of the group.
\<close>

definition Write_apply :: "(byte list \<Rightarrow> byte list \<Rightarrow> int) \<Rightarrow> status \<Rightarrow> status \<Rightarrow> db \<Rightarrow> (status \<times> nat \<times> db) option" where
  "Write_apply user status synced db =
     (case db_writers db of
        [] \<Rightarrow> None
      | w # ws \<Rightarrow>
          (case w_batch w of
             None \<Rightarrow> Some (status, 0, db)
           | Some b \<Rightarrow>
               if status \<noteq> OK then Some (status, 0, db)
               else do {
                 (result, last) \<leftarrow> BuildBatchGroup (tmp_batch db) (w # ws);
                 let updates = WB_SetSequence (last_sequence db + 1) (case result of None \<Rightarrow> b | Some r \<Rightarrow> r);
                     last_seq = last_sequence db + scast (WB_Count updates)
                 in do {
                   (status, log) \<leftarrow> AddRecord (db_log db) updates;
                   let (status, sync_error) = (if status = OK \<and> w_sync w then (synced, synced \<noteq> OK) else (status, False))
                   in do {
                     (status, mem) \<leftarrow> (if status = OK then InsertInto user updates (db_mem db) else Some (status, db_mem db));
                     let db = db\<lparr>db_log := log, db_mem := mem\<rparr>;
                         db = (if sync_error then RecordBackgroundError status db else db);
                         db = (case result of
                                 None \<Rightarrow> db\<lparr>db_writers := w\<lparr>w_batch := Some updates\<rparr> # ws\<rparr>
                               | Some _ \<Rightarrow> db\<lparr>tmp_batch := WriteBatch_Clear\<rparr>)
                     in Some (status, last, db\<lparr>last_sequence := last_seq\<rparr>)
                   }
                 }
               }))"

text \<open>The loop at the end takes the writers up to the last one from the queue, and gives its status to those that are not the front.\<close>

fun Write_finish :: "status \<Rightarrow> nat \<Rightarrow> nat \<Rightarrow> db_writer list \<Rightarrow> (db_writer list \<times> db_writer list) option" where
  "Write_finish status i last_writer [] = None"
| "Write_finish status i last_writer (ready # ws) =
     (let ready = (if i \<noteq> 0 then ready\<lparr>w_status := status, w_done := True\<rparr> else ready)
      in if i = last_writer then Some ([ready], ws)
         else do { (finished, ws) \<leftarrow> Write_finish status (Suc i) last_writer ws; Some (ready # finished, ws) })"

definition DBImpl_Write ::
  "(byte list \<Rightarrow> byte list \<Rightarrow> int) \<Rightarrow> status \<Rightarrow> status \<Rightarrow> db \<Rightarrow> (status \<times> db_writer list \<times> db) option" where
  "DBImpl_Write user room synced db =
     do {
       (status, last, db) \<leftarrow> Write_apply user room synced db;
       (finished, ws) \<leftarrow> Write_finish status 0 last (db_writers db);
       Some (status, finished, db\<lparr>db_writers := ws\<rparr>)
     }"

section \<open>Reading\<close>

text \<open>\<open>current\<close> is the lookup in the files of the current version.\<close>

definition DBImpl_Get ::
  "(byte list \<Rightarrow> byte list \<Rightarrow> int) \<Rightarrow> (LookupKey \<Rightarrow> byte list \<Rightarrow> status \<times> byte list) \<Rightarrow> u64 option \<Rightarrow> byte list \<Rightarrow> byte list \<Rightarrow> db \<Rightarrow>
    (status \<times> byte list) option" where
  "DBImpl_Get user current snapshot_option key v db =
     do {
       let snapshot = (case snapshot_option of Some s \<Rightarrow> s | None \<Rightarrow> last_sequence db)
       in do {
         lkey \<leftarrow> new_LookupKey key snapshot;
         (found, v, s) \<leftarrow> MemTable_Get user (db_mem db) lkey v OK;
         (found, v, s) \<leftarrow> (if found then Some (found, v, s)
                          else case db_imm db of None \<Rightarrow> Some (found, v, s) | Some imm \<Rightarrow> MemTable_Get user imm lkey v s);
         Some (if found then (s, v) else current lkey v)
       }
     }"

section \<open>Recovery\<close>

definition MaybeIgnoreError :: "bool \<Rightarrow> status \<Rightarrow> status" where
  "MaybeIgnoreError paranoid_checks s = (if s = OK \<or> paranoid_checks then s else OK)"

text \<open>\<open>'e\<close> is the state that writing a table changes: the edit, the version set and the files.\<close>

record 'e recovery =
  rec_reader :: log_reader
  rec_status :: status
  rec_mem :: "memtable option"
  rec_max :: u64
  compactions :: nat
  save_manifest :: bool
  rec_env :: 'e

text \<open>\<^verbatim>\<open>LogReporter::Corruption\<close> has the status to set only with paranoid checks.\<close>

definition LogReporter_Corruption :: "bool \<Rightarrow> status \<Rightarrow> status \<Rightarrow> status" where
  "LogReporter_Corruption paranoid_checks s status = (if paranoid_checks \<and> status = OK then s else status)"

text \<open>A call of the reader: its new reports go to the reporter.\<close>

definition rec_ReadRecord :: "bool \<Rightarrow> 'e recovery \<Rightarrow> byte list option \<times> 'e recovery" where
  "rec_ReadRecord paranoid_checks r =
     (let (x, reader) = ReadRecord (rec_reader r);
          new_reports = drop (length (reports (rec_reader r))) (reports reader)
      in (x, r\<lparr>rec_reader := reader,
               rec_status := fold (\<lambda>(_, s). LogReporter_Corruption paranoid_checks s) new_reports (rec_status r)\<rparr>))"

partial_function (option) RecoverLogFile_loop ::
  "(byte list \<Rightarrow> byte list \<Rightarrow> int) \<Rightarrow> bool \<Rightarrow> nat \<Rightarrow> (memtable \<Rightarrow> nat) \<Rightarrow> (memtable \<Rightarrow> 'e \<Rightarrow> status \<times> 'e) \<Rightarrow> 'e recovery \<Rightarrow> 'e recovery option" where
  "RecoverLogFile_loop user paranoid_checks write_buffer_size usage WriteLevel0Table r =
     (let (x, r) = rec_ReadRecord paranoid_checks r
      in case x of
           None \<Rightarrow> Some r
         | Some rec \<Rightarrow>
             if rec_status r \<noteq> OK then Some r
             else if length rec < 12 then
               RecoverLogFile_loop user paranoid_checks write_buffer_size usage WriteLevel0Table
                 (r\<lparr>rec_status := LogReporter_Corruption paranoid_checks (Corruption ''log record too small'') (rec_status r)\<rparr>)
             else do {
               batch \<leftarrow> WB_SetContents rec;
               (s, mem) \<leftarrow> InsertInto user batch (case rec_mem r of None \<Rightarrow> new_MemTable | Some m \<Rightarrow> m);
               let r = r\<lparr>rec_status := MaybeIgnoreError paranoid_checks s, rec_mem := Some mem\<rparr>
               in if rec_status r \<noteq> OK then Some r
                  else
                    let last_seq = WB_Sequence batch + scast (WB_Count batch) - 1;
                        r = (if last_seq > rec_max r then r\<lparr>rec_max := last_seq\<rparr> else r)
                    in if usage mem > write_buffer_size then
                         let (s, e) = WriteLevel0Table mem (rec_env r);
                             r = r\<lparr>compactions := compactions r + 1, save_manifest := True, rec_status := s, rec_env := e, rec_mem := None\<rparr>
                         in if s \<noteq> OK then Some r
                            else RecoverLogFile_loop user paranoid_checks write_buffer_size usage WriteLevel0Table r
                       else RecoverLogFile_loop user paranoid_checks write_buffer_size usage WriteLevel0Table r
             })"

text \<open>
  The end of \<^verbatim>\<open>RecoverLogFile\<close>. \<open>appendable\<close> are the file opened for appending and its size, or \<open>None\<close> if one of the two calls fails;
  the results are the state, and the new \<^verbatim>\<open>log_\<close> and \<^verbatim>\<open>mem_\<close> if the log is used on.
\<close>

definition RecoverLogFile_end ::
  "bool \<Rightarrow> bool \<Rightarrow> (writable_file \<times> u64) option \<Rightarrow> (memtable \<Rightarrow> 'e \<Rightarrow> status \<times> 'e) \<Rightarrow> 'e recovery \<Rightarrow>
    'e recovery \<times> (log_writer \<times> memtable) option" where
  "RecoverLogFile_end reuse_logs last_log appendable WriteLevel0Table r =
     (let reused =
            (if rec_status r = OK \<and> reuse_logs \<and> last_log \<and> compactions r = 0 then
               case appendable of
                 None \<Rightarrow> None
               | Some (f, n) \<Rightarrow> Some (log_Writer_at f n, case rec_mem r of Some m \<Rightarrow> m | None \<Rightarrow> new_MemTable)
             else None);
          r = (if reused \<noteq> None then r\<lparr>rec_mem := None\<rparr> else r)
      in case rec_mem r of
           None \<Rightarrow> (r, reused)
         | Some mem \<Rightarrow>
             if rec_status r = OK then
               let (s, e) = WriteLevel0Table mem (rec_env r)
               in (r\<lparr>save_manifest := True, rec_status := s, rec_env := e\<rparr>, reused)
             else (r, reused))"

text \<open>
  \<open>opened\<close> is what \<^verbatim>\<open>NewSequentialFile\<close> returns and sets: if its status is not OK, the file is not looked at and no log is read.
\<close>

definition RecoverLogFile ::
  "(byte list \<Rightarrow> byte list \<Rightarrow> int) \<Rightarrow> bool \<Rightarrow> nat \<Rightarrow> bool \<Rightarrow> bool \<Rightarrow> (memtable \<Rightarrow> nat) \<Rightarrow> (memtable \<Rightarrow> 'e \<Rightarrow> status \<times> 'e) \<Rightarrow>
    status \<times> sequential_file \<Rightarrow> (writable_file \<times> u64) option \<Rightarrow> u64 \<Rightarrow> 'e \<Rightarrow> ('e recovery \<times> (log_writer \<times> memtable) option) option" where
  "RecoverLogFile user paranoid_checks write_buffer_size reuse_logs last_log usage WriteLevel0Table opened appendable max_sequence e =
     (let r = \<lparr>rec_reader = log_Reader (snd opened) True True 0, rec_status = fst opened, rec_mem = None, rec_max = max_sequence, compactions = 0,
            save_manifest = False, rec_env = e\<rparr>
      in if fst opened \<noteq> OK then Some (r\<lparr>rec_status := MaybeIgnoreError paranoid_checks (fst opened)\<rparr>, None)
         else do {
           r \<leftarrow> RecoverLogFile_loop user paranoid_checks write_buffer_size usage WriteLevel0Table r;
           Some (RecoverLogFile_end reuse_logs last_log appendable WriteLevel0Table r)
         })"

end
