(* ===== verification/Leveldb_Batch_Props.thy ===== *)
theory Leveldb_Batch_Props
  imports Leveldb_Memtable
begin

text \<open>
  What a batch stands for: a sequence number and a list of updates. Every operation that builds a batch keeps that reading, and iterating over
  it replays the updates.
\<close>

datatype batch_op = Put_op "byte list" "byte list" | Delete_op "byte list"

fun op_octets :: "batch_op \<Rightarrow> byte list" where
  "op_octets (Put_op k v) = kTypeValue # slice_octets k @ slice_octets v"
| "op_octets (Delete_op k) = kTypeDeletion # slice_octets k"

fun op_fits :: "batch_op \<Rightarrow> bool" where
  "op_fits (Put_op k v) \<longleftrightarrow> length k + 8 < 2 ^ 32 \<and> length v < 2 ^ 32"
| "op_fits (Delete_op k) \<longleftrightarrow> length k + 8 < 2 ^ 32"

definition is_batch :: "byte list \<Rightarrow> u64 \<Rightarrow> batch_op list \<Rightarrow> bool" where
  "is_batch rep seq ops \<longleftrightarrow>
     rep = EncodeFixed64 seq @ EncodeFixed32 (word_of_nat (length ops)) @ concat (map op_octets ops)"

lemma batch_header:
  assumes "is_batch rep seq ops"
  shows "WB_Sequence rep = seq" "WB_Count rep = word_of_nat (length ops)" "drop 12 rep = concat (map op_octets ops)" "length rep \<ge> 12"
    "WB_SetCount n rep = EncodeFixed64 seq @ EncodeFixed32 n @ concat (map op_octets ops)"
    "WB_SetSequence seq' rep = EncodeFixed64 seq' @ EncodeFixed32 (word_of_nat (length ops)) @ concat (map op_octets ops)"
  using assms by (simp_all add: is_batch_def WB_Sequence_def WB_Count_def WB_SetCount_def WB_SetSequence_def)

lemma batch_Clear: "is_batch WriteBatch_Clear 0 []"
  by (simp add: is_batch_def WriteBatch_Clear_def kHeader_def EncodeFixed64_def EncodeFixed32_def numeral_eq_Suc)

lemma batch_Put: "is_batch rep seq ops \<Longrightarrow> is_batch (WriteBatch_Put k v rep) seq (ops @ [Put_op k v])"
  by (simp add: WriteBatch_Put_def batch_header PutLengthPrefixedSlice_eq Let_def) (simp add: is_batch_def add.commute)

lemma batch_Delete: "is_batch rep seq ops \<Longrightarrow> is_batch (WriteBatch_Delete k rep) seq (ops @ [Delete_op k])"
  by (simp add: WriteBatch_Delete_def batch_header PutLengthPrefixedSlice_eq Let_def) (simp add: is_batch_def add.commute)

lemma batch_Append:
  "is_batch rep seq ops \<Longrightarrow> is_batch rep' seq' ops' \<Longrightarrow> \<exists>r. WriteBatch_Append rep rep' = Some r \<and> is_batch r seq (ops @ ops')"
  by (simp add: WriteBatch_Append_def batch_header kHeader_def Let_def) (simp add: is_batch_def)

lemma batch_SetSequence: "is_batch rep seq ops \<Longrightarrow> is_batch (WB_SetSequence seq' rep) seq' ops"
  by (simp add: batch_header) (simp add: is_batch_def)

text \<open>The updates, given to a handler one by one.\<close>

fun replay ::
  "(byte list \<Rightarrow> byte list \<Rightarrow> 'h \<Rightarrow> 'h option) \<Rightarrow> (byte list \<Rightarrow> 'h \<Rightarrow> 'h option) \<Rightarrow> batch_op list \<Rightarrow> 'h \<Rightarrow> 'h option" where
  "replay put delete [] h = Some h"
| "replay put delete (Put_op k v # ops) h = do { h \<leftarrow> put k v h; replay put delete ops h }"
| "replay put delete (Delete_op k # ops) h = do { h \<leftarrow> delete k h; replay put delete ops h }"

lemma Iterate_loop_replay:
  assumes "list_all op_fits ops"
  shows "Iterate_loop put delete (concat (map op_octets ops) @ rest) found expected h =
    (case replay put delete ops h of None \<Rightarrow> None | Some h \<Rightarrow> Iterate_loop put delete rest (found + word_of_nat (length ops)) expected h)"
  using assms
proof (induction ops arbitrary: found h)
  case (Cons oper ops)
  then have IH: "Iterate_loop put delete (concat (map op_octets ops) @ rest) (found + 1) expected h =
      (case replay put delete ops h of None \<Rightarrow> None
       | Some h \<Rightarrow> Iterate_loop put delete rest (found + (1 + word_of_nat (length ops))) expected h)" for h
    by (auto simp: add.assoc split: option.splits)
  show ?case
  proof (cases oper)
    case (Put_op k v)
    then show ?thesis using Cons.prems IH by (auto simp: Let_def split: option.splits)
  next
    case (Delete_op k)
    then show ?thesis using Cons.prems IH by (auto simp: Let_def kTypeDeletion_def kTypeValue_def split: option.splits)
  qed
qed simp

lemma Iterate_replays:
  assumes "is_batch rep seq ops" "list_all op_fits ops"
  shows "WriteBatch_Iterate put delete rep h = (case replay put delete ops h of None \<Rightarrow> None | Some h \<Rightarrow> Some (OK, h))"
  using Iterate_loop_replay [OF assms(2), of put delete "[]" 0] batch_header [OF assms(1)]
  by (auto simp: WriteBatch_Iterate_def kHeader_def split: option.splits)

text \<open>A batch that lost its end, or whose count is wrong, is an error; the updates before the damage have reached the handler.\<close>

lemma Iterate_wrong_count:
  assumes "is_batch rep seq ops" "list_all op_fits ops" "n \<noteq> word_of_nat (length ops)" "replay put delete ops h = Some h'"
  shows "WriteBatch_Iterate put delete (WB_SetCount n rep) h = Some (Corruption ''WriteBatch has wrong count'', h')"
  using Iterate_loop_replay [OF assms(2), of put delete "[]" 0 n h] batch_header [OF assms(1)] assms(3,4)
  by (auto simp: WriteBatch_Iterate_def kHeader_def WB_Count_def)

text \<open>The programs that build a batch.\<close>

datatype batch_call = Call_Put "byte list" "byte list" | Call_Delete "byte list" | Call_Append "batch_call list"

fun batch_updates :: "batch_call list \<Rightarrow> batch_op list" where
  "batch_updates [] = []"
| "batch_updates (Call_Put k v # cs) = Put_op k v # batch_updates cs"
| "batch_updates (Call_Delete k # cs) = Delete_op k # batch_updates cs"
| "batch_updates (Call_Append ds # cs) = batch_updates ds @ batch_updates cs"

fun run_batch :: "batch_call list \<Rightarrow> byte list \<Rightarrow> byte list option" where
  "run_batch [] rep = Some rep"
| "run_batch (Call_Put k v # cs) rep = run_batch cs (WriteBatch_Put k v rep)"
| "run_batch (Call_Delete k # cs) rep = run_batch cs (WriteBatch_Delete k rep)"
| "run_batch (Call_Append ds # cs) rep =
     do { src \<leftarrow> run_batch ds WriteBatch_Clear; rep \<leftarrow> WriteBatch_Append rep src; run_batch cs rep }"

lemma run_batch_is_batch: "is_batch rep seq ops \<Longrightarrow> \<exists>rep'. run_batch cs rep = Some rep' \<and> is_batch rep' seq (ops @ batch_updates cs)"
proof (induction cs rep arbitrary: seq ops rule: run_batch.induct)
  case (2 k v cs rep)
  then show ?case using batch_Put by fastforce
next
  case (3 k cs rep)
  then show ?case using batch_Delete by fastforce
next
  case (4 ds cs rep)
  obtain src where src: "run_batch ds WriteBatch_Clear = Some src" "is_batch src 0 (batch_updates ds)"
    using 4(1) [OF batch_Clear] by auto
  obtain rep' where "WriteBatch_Append rep src = Some rep'" "is_batch rep' seq (ops @ batch_updates ds)"
    using batch_Append [OF 4(3) src(2)] by auto
  then show ?case using 4(2) [OF src(1)] src(1) by fastforce
qed simp

text \<open>C18: A batch that any program of \<^verbatim>\<open>Put\<close>, \<^verbatim>\<open>Delete\<close> and \<^verbatim>\<open>Append\<close> builds, whatever sequence number it is given, is replayed by \<^verbatim>\<open>Iterate\<close>
  as exactly the updates of the program, in order, with the status OK; its count and sequence number are read back.\<close>

theorem batch_round_trip:
  assumes "list_all op_fits (batch_updates cs)"
  shows "\<exists>rep. run_batch cs WriteBatch_Clear = Some rep \<and> WB_Sequence (WB_SetSequence seq rep) = seq \<and>
    WB_Count rep = word_of_nat (length (batch_updates cs)) \<and>
    WriteBatch_Iterate put delete (WB_SetSequence seq rep) h =
      (case replay put delete (batch_updates cs) h of None \<Rightarrow> None | Some h' \<Rightarrow> Some (OK, h'))"
proof -
  obtain rep where rep: "run_batch cs WriteBatch_Clear = Some rep" "is_batch rep 0 (batch_updates cs)"
    using run_batch_is_batch [OF batch_Clear] by fastforce
  from batch_SetSequence [OF rep(2), of seq] have "is_batch (WB_SetSequence seq rep) seq (batch_updates cs)" .
  from rep(1) batch_header(1) [OF this] batch_header(2) [OF rep(2)] Iterate_replays [OF this assms, of put delete h]
  show ?thesis by (intro exI [of _ rep] conjI)
qed

theorem batch_round_trip_witness:
  "\<exists>rep. run_batch [Call_Put [1] [2, 3], Call_Append [Call_Delete [1]]] WriteBatch_Clear = Some rep \<and>
    WriteBatch_Iterate (\<lambda>k v h. Some (h @ [(k, Some v)])) (\<lambda>k h. Some (h @ [(k, None)])) (WB_SetSequence 7 rep) [] =
      Some (OK, [([1], Some [2, 3]), ([1], None)])"
proof -
  let ?cs = "[Call_Put [1] [2, 3], Call_Append [Call_Delete [1]]]"
  have "list_all op_fits (batch_updates ?cs)" by simp
  note b = batch_round_trip [OF this, of 7 "\<lambda>k v h. Some (h @ [(k, Some v)])" "\<lambda>k h. Some (h @ [(k, None)])" "[]"]
  obtain rep where rep: "run_batch ?cs WriteBatch_Clear = Some rep"
      "WriteBatch_Iterate (\<lambda>k v h. Some (h @ [(k, Some v)])) (\<lambda>k h. Some (h @ [(k, None)])) (WB_SetSequence 7 rep) [] =
        (case replay (\<lambda>k v h. Some (h @ [(k, Some v)])) (\<lambda>k h. Some (h @ [(k, None)])) (batch_updates ?cs) [] of
           None \<Rightarrow> None | Some h' \<Rightarrow> Some (OK, h'))" using b by (elim exE conjE) (rule that)
  have "WriteBatch_Iterate (\<lambda>k v h. Some (h @ [(k, Some v)])) (\<lambda>k h. Some (h @ [(k, None)])) (WB_SetSequence 7 rep) [] =
      Some (OK, [([1], Some [2, 3]), ([1], None)])" unfolding rep(2) by simp
  with rep(1) show ?thesis by (intro exI [of _ rep] conjI)
qed

end
