(* ===== verification/Leveldb_Key_Props.thy ===== *)
theory Leveldb_Key_Props
  imports Leveldb_Key
begin

text \<open>
  The order of internal keys, for every order of user keys: increasing user keys, and the newest entry of a user key first. What a
  comparator promises of shortened keys is a locale, which the default comparator satisfies; the internal comparator makes the same promise.
\<close>

section \<open>Shortened keys of the default comparator\<close>

lemma Slice_compare_prefix [simp]: "Slice_compare (p @ a) (p @ b) = Slice_compare a b"
  by (induction p) auto

lemma diff_index_split:
  "take (diff_index a b) a = take (diff_index a b) b"
  "diff_index a b < min (length a) (length b) \<Longrightarrow> a ! diff_index a b \<noteq> b ! diff_index a b"
  by (induction a b rule: diff_index.induct) auto

lemma byte_Suc: "b < 0xff \<Longrightarrow> unat (b + 1 :: byte) = unat b + 1"
  by (simp add: word_less_nat_alt unat_word_ariths)

lemma Bytewise_separator:
  shows "Slice_compare start limit < 0 \<Longrightarrow> \<exists>s. Bytewise_FindShortestSeparator start limit = Some s \<and>
      Slice_compare start s \<le> 0 \<and> Slice_compare s limit < 0 \<and> length s \<le> length start"
    "Slice_compare start limit \<ge> 0 \<Longrightarrow> Bytewise_FindShortestSeparator start limit = Some start"
proof -
  define i where "i = diff_index start limit"
  define p where "p = take i start"
  define changes where "changes \<longleftrightarrow> i < min (length start) (length limit) \<and> start ! i < 0xff \<and> unat (start ! i) + 1 < unat (limit ! i)"
  show "Slice_compare start limit < 0 \<Longrightarrow> \<exists>s. Bytewise_FindShortestSeparator start limit = Some s \<and>
      Slice_compare start s \<le> 0 \<and> Slice_compare s limit < 0 \<and> length s \<le> length start"
    "Slice_compare start limit \<ge> 0 \<Longrightarrow> Bytewise_FindShortestSeparator start limit = Some start"
  proof (atomize (full), cases changes)
    case False
    then have "Bytewise_FindShortestSeparator start limit = Some start"
      by (auto simp: Bytewise_FindShortestSeparator_def changes_def i_def Let_def)
    then show "(Slice_compare start limit < 0 \<longrightarrow> (\<exists>s. Bytewise_FindShortestSeparator start limit = Some s \<and>
        Slice_compare start s \<le> 0 \<and> Slice_compare s limit < 0 \<and> length s \<le> length start)) \<and>
      (Slice_compare start limit \<ge> 0 \<longrightarrow> Bytewise_FindShortestSeparator start limit = Some start)" by simp
  next
    case True
    then have i: "i < length start" "i < length limit" "start ! i < 0xff" "unat (start ! i) + 1 < unat (limit ! i)"
      by (simp_all add: changes_def)
    define s where "s = p @ [start ! i + 1]"
    have s: "take (i + 1) (start[i := start ! i + 1]) = s" using i(1) by (simp add: s_def p_def take_Suc_conv_app_nth)
    have start: "start = p @ start ! i # drop (Suc i) start" using i(1) by (simp add: p_def id_take_nth_drop [symmetric])
    have limit: "limit = p @ limit ! i # drop (Suc i) limit"
      using i(2) diff_index_split(1) [of start limit] by (simp add: p_def i_def id_take_nth_drop [symmetric])
    have less: "start ! i < start ! i + 1" "start ! i + 1 < limit ! i" using i(3,4) byte_Suc [OF i(3)] by (simp_all add: word_less_nat_alt)
    have "Slice_compare start s < 0" by (subst start) (simp add: s_def less(1))
    moreover have "Slice_compare s limit < 0" by (subst limit) (simp add: s_def less(2))
    moreover have "length s \<le> length start" using i(1) by (simp add: s_def p_def)
    moreover from \<open>Slice_compare s limit < 0\<close> have "Bytewise_FindShortestSeparator start limit = Some s"
    proof -
      have "\<not> min (length start) (length limit) \<le> i" using i(1,2) by simp
      then show ?thesis using i s \<open>Slice_compare s limit < 0\<close>
        by (simp add: Bytewise_FindShortestSeparator_def i_def [symmetric] Let_def)
    qed
    moreover have "Slice_compare start limit < 0"
      using calculation(1,2) slice_order.less_trans [of start s limit] by simp
    ultimately show "(Slice_compare start limit < 0 \<longrightarrow> (\<exists>s. Bytewise_FindShortestSeparator start limit = Some s \<and>
        Slice_compare start s \<le> 0 \<and> Slice_compare s limit < 0 \<and> length s \<le> length start)) \<and>
      (Slice_compare start limit \<ge> 0 \<longrightarrow> Bytewise_FindShortestSeparator start limit = Some start)" by auto
  qed
qed

lemma Bytewise_successor:
  "Slice_compare key (Bytewise_FindShortSuccessor key) \<le> 0" "length (Bytewise_FindShortSuccessor key) \<le> length key"
proof (induction key)
  case (Cons x key)
  have "x < x + 1" if "x \<noteq> 0xff"
  proof -
    have "unat x \<noteq> 255" using that by (simp add: word_unat_eq_iff)
    moreover have "unat x < 256" by simp
    ultimately have "unat x < 255" by linarith
    then have "x < 0xff" by (simp add: word_less_nat_alt)
    then show ?thesis using byte_Suc [of x] by (simp add: word_less_nat_alt)
  qed
  then show "Slice_compare (x # key) (Bytewise_FindShortSuccessor (x # key)) \<le> 0"
    "length (Bytewise_FindShortSuccessor (x # key)) \<le> length (x # key)" using Cons by auto
qed simp_all

section \<open>The promise of a comparator\<close>

locale key_shortening = comparator cmp for cmp :: "byte list \<Rightarrow> byte list \<Rightarrow> int" +
  fixes good :: "byte list \<Rightarrow> bool" and separator :: "byte list \<Rightarrow> byte list \<Rightarrow> byte list option"
    and successor :: "byte list \<Rightarrow> byte list option"
  assumes separates: "good start \<Longrightarrow> good limit \<Longrightarrow> cmp start limit < 0 \<Longrightarrow>
      \<exists>s. separator start limit = Some s \<and> good s \<and> cmp start s \<le> 0 \<and> cmp s limit < 0 \<and> length s \<le> length start"
    and unchanged: "good start \<Longrightarrow> good limit \<Longrightarrow> cmp start limit = 0 \<Longrightarrow> separator start limit = Some start"
    and succeeds: "good key \<Longrightarrow> \<exists>s. successor key = Some s \<and> good s \<and> cmp key s \<le> 0 \<and> length s \<le> length key"

interpretation bytewise: key_shortening Slice_compare "\<lambda>_. True" Bytewise_FindShortestSeparator "\<lambda>key. Some (Bytewise_FindShortSuccessor key)"
  by unfold_locales (use Bytewise_separator Bytewise_successor in auto)

section \<open>The order of internal keys\<close>

definition key_tag :: "byte list \<Rightarrow> u64" where
  "key_tag k = DecodeFixed64 (drop (length k - 8) k)"

definition key_user :: "byte list \<Rightarrow> byte list" where
  "key_user k = take (length k - 8) k"

definition ik_order :: "(byte list \<Rightarrow> byte list \<Rightarrow> int) \<Rightarrow> byte list \<Rightarrow> byte list \<Rightarrow> int" where
  "ik_order user a b =
     (let r = user (key_user a) (key_user b)
      in if r = 0 then (if key_tag a > key_tag b then -1 else if key_tag a < key_tag b then 1 else 0) else r)"

definition is_internal :: "byte list \<Rightarrow> bool" where
  "is_internal k \<longleftrightarrow> length k \<ge> 8"

lemma InternalKey_Compare_eq: "is_internal a \<Longrightarrow> is_internal b \<Longrightarrow> InternalKey_Compare user a b = Some (ik_order user a b)"
  by (simp add: InternalKey_Compare_def ExtractUserKey_def ik_order_def key_user_def key_tag_def is_internal_def Let_def)

lemma internal_parts [simp]:
  "key_user (k @ EncodeFixed64 tag) = k" "key_tag (k @ EncodeFixed64 tag) = tag" "is_internal (k @ EncodeFixed64 tag)"
  by (simp_all add: key_user_def key_tag_def is_internal_def DecodeFixed64_Encode [of tag "[]", simplified])

lemma ik_order_ok:
  assumes "cmp_ok user"
  shows "cmp_ok (ik_order user)"
proof -
  have c: "comparator user" using assms by unfold_locales
  note flip = comparator.flip [OF c] and eq_sym = comparator.eq_sym [OF c] and less_trans = comparator.less_trans [OF c]
    and le_trans = comparator.le_trans [OF c] and greater_trans = comparator.greater_trans [OF c] and eq_trans = comparator.eq_trans [OF c]
  have "ik_order user a b < 0 \<longleftrightarrow> 0 < ik_order user b a" for a b
    using flip [of "key_user a" "key_user b"] flip [of "key_user b" "key_user a"] eq_sym [of "key_user a" "key_user b"]
    by (auto simp: ik_order_def Let_def)
  moreover have "ik_order user a d \<le> 0" if "ik_order user a b \<le> 0" "ik_order user b d \<le> 0" for a b d
  proof -
    have "user (key_user a) (key_user b) \<le> 0" "user (key_user b) (key_user d) \<le> 0"
      using that by (auto simp: ik_order_def Let_def split: if_splits)
    note le = this le_trans [OF this]
    show ?thesis
    proof (cases "user (key_user a) (key_user d) = 0")
      case True
      then have "user (key_user a) (key_user b) = 0" using le(1,2) less_trans [of "key_user a" "key_user b" "key_user d"] by linarith
      then have "user (key_user b) (key_user d) = 0"
        using True eq_sym [of "key_user a" "key_user b"] eq_trans [of "key_user b" "key_user a" "key_user d"] by blast
      with \<open>user (key_user a) (key_user b) = 0\<close> show ?thesis using that True by (auto simp: ik_order_def Let_def split: if_splits)
    next
      case False
      then show ?thesis using le(3) by (auto simp: ik_order_def Let_def)
    qed
  qed
  ultimately show ?thesis by (auto simp: cmp_ok_def)
qed

lemma internal_shortening:
  assumes "key_shortening user (\<lambda>_. True) separator (\<lambda>k. Some (successor k))"
  shows "key_shortening (ik_order user) is_internal (InternalKey_FindShortestSeparator user separator)
    (InternalKey_FindShortSuccessor user successor)"
proof -
  note user = assms
  have c: "comparator user" using assms unfolding key_shortening_def by blast
  then have ok: "cmp_ok user" by (simp add: comparator_def)
  obtain tag where tag: "PackSequenceAndType kMaxSequenceNumber kValueTypeForSeek = Some tag"
    by (simp add: PackSequenceAndType_def)
  have less: "ik_order user a b < 0" if "user (key_user a) (key_user b) < 0" for a b using that by (simp add: ik_order_def Let_def)
  show ?thesis
  proof unfold_locales
    show "cmp_ok (ik_order user)" by (rule ik_order_ok [OF ok])
    fix start limit
    assume k: "is_internal start" "is_internal limit"
    have parts: "ExtractUserKey start = Some (key_user start)" "ExtractUserKey limit = Some (key_user limit)"
      using k by (simp_all add: ExtractUserKey_def key_user_def is_internal_def)
    have self: "ik_order user a a = 0" for a by (simp add: ik_order_def comparator.refl [OF c])
    have longer: "length start = length (key_user start) + 8" using k by (simp add: is_internal_def key_user_def)
    note unfold = InternalKey_FindShortestSeparator_def parts bind.bind_lunit tag
    show "InternalKey_FindShortestSeparator user separator start limit = Some start" if "ik_order user start limit = 0"
    proof -
      have "user (key_user start) (key_user limit) = 0" using that by (auto simp: ik_order_def Let_def split: if_splits)
      then have "separator (key_user start) (key_user limit) = Some (key_user start)"
        by (rule key_shortening.unchanged [OF user TrueI TrueI])
      then show ?thesis by (simp add: unfold)
    qed
    show "\<exists>s. InternalKey_FindShortestSeparator user separator start limit = Some s \<and>
        is_internal s \<and> ik_order user start s \<le> 0 \<and> ik_order user s limit < 0 \<and> length s \<le> length start"
      if "ik_order user start limit < 0"
    proof (cases "user (key_user start) (key_user limit) = 0")
      case True
      then have "separator (key_user start) (key_user limit) = Some (key_user start)"
        by (rule key_shortening.unchanged [OF user TrueI TrueI])
      then have "InternalKey_FindShortestSeparator user separator start limit = Some start" by (simp add: unfold)
      then show ?thesis using that k(1) self by simp
    next
      case False
      then have "user (key_user start) (key_user limit) < 0" using that by (auto simp: ik_order_def Let_def split: if_splits)
      from key_shortening.separates [OF user TrueI TrueI this] obtain t where
          t: "separator (key_user start) (key_user limit) = Some t" "user (key_user start) t \<le> 0" "user t (key_user limit) < 0" by auto
      show ?thesis
      proof (cases "length t < length (key_user start) \<and> user (key_user start) t < 0")
        case True
        define s where "s = PutFixed64 t tag"
        have s: "key_user s = t" "is_internal s" "length s = length t + 8" by (simp_all add: s_def PutFixed64_def)
        have "ik_order user start s < 0" "ik_order user s limit < 0" using True t(3) s(1) by (simp_all add: less)
        moreover from this have "InternalKey_FindShortestSeparator user separator start limit = Some s"
          using True t(1) k s(2) by (simp add: unfold s_def [symmetric] InternalKey_Compare_eq)
        ultimately show ?thesis using s True longer by auto
      next
        case False
        then have "InternalKey_FindShortestSeparator user separator start limit = Some start" using t(1) by (auto simp: unfold)
        then show ?thesis using that k(1) self by simp
      qed
    qed
  next
    fix key
    assume k: "is_internal key"
    then have parts: "ExtractUserKey key = Some (key_user key)" "length key = length (key_user key) + 8"
      by (simp_all add: ExtractUserKey_def key_user_def is_internal_def)
    have self: "ik_order user a a = 0" for a by (simp add: ik_order_def comparator.refl [OF c])
    show "\<exists>s. InternalKey_FindShortSuccessor user successor key = Some s \<and> is_internal s \<and> ik_order user key s \<le> 0 \<and> length s \<le> length key"
    proof (cases "length (successor (key_user key)) < length (key_user key) \<and> user (key_user key) (successor (key_user key)) < 0")
      case True
      define s where "s = PutFixed64 (successor (key_user key)) tag"
      have s: "key_user s = successor (key_user key)" "is_internal s" "length s = length (successor (key_user key)) + 8"
        by (simp_all add: s_def PutFixed64_def)
      have "ik_order user key s < 0" using True s(1) by (simp add: less)
      moreover from this have "InternalKey_FindShortSuccessor user successor key = Some s"
        using True k s(2) by (simp add: InternalKey_FindShortSuccessor_def parts(1) tag s_def [symmetric] InternalKey_Compare_eq)
      ultimately show ?thesis using s True parts(2) by auto
    next
      case False
      then have "InternalKey_FindShortSuccessor user successor key = Some key" by (auto simp: InternalKey_FindShortSuccessor_def parts(1))
      then show ?thesis using k self by simp
    qed
  qed
qed

interpretation internal: key_shortening "ik_order Slice_compare" is_internal
    "InternalKey_FindShortestSeparator Slice_compare Bytewise_FindShortestSeparator"
    "InternalKey_FindShortSuccessor Slice_compare Bytewise_FindShortSuccessor"
  by (rule internal_shortening) unfold_locales

section \<open>Packing\<close>

lemma key_tag_parts:
  assumes "PackSequenceAndType seq t = Some tag"
  shows "drop_bit 8 tag = seq" "ucast (tag AND 0xff) = t" "t \<le> 1"
proof -
  have le: "seq \<le> mask 56" "t \<le> 1" and tag: "tag = push_bit 8 seq OR ucast t"
    using assms by (auto simp: PackSequenceAndType_def kMaxSequenceNumber_def kValueTypeForSeek_def kTypeValue_def mask_eq_exp_minus_1 split: if_splits)
  show "t \<le> 1" by (rule le(2))
  have "unat seq < 2 ^ 56" using le(1) by (simp add: word_le_nat_alt mask_numeral)
  then have "drop_bit 56 seq = 0" by (simp add: drop_bit_eq_0_iff_unat)
  then have "\<not> bit seq (56 + n)" for n using bit_drop_bit_eq [of 56 seq] by (metis bit_0_eq bot_apply bot_bool_def comp_apply)
  then have low: "n < 56" if "bit seq n" for n using that by (metis le_Suc_ex not_less)
  have t: "n < 8" if "bit t n" for n using that bit_imp_le_length [of t n] by simp
  have m: "(0xff :: u64) = mask 8" by (simp add: mask_numeral)
  show "drop_bit 8 tag = seq" unfolding tag by (rule bit_word_eqI) (auto simp: bit_simps dest: low t)
  show "ucast (tag AND 0xff) = t" unfolding tag m by (rule bit_word_eqI) (auto simp: bit_simps dest: t)
qed

text \<open>Internal keys: a parsed key that is appended is parsed back from what was appended, and is ordered by its user key first, then by
  descending sequence numbers.\<close>

theorem internal_key_round_trip:
  assumes "AppendInternalKey r k = Some r'"
  shows "\<exists>ik. r' = r @ ik \<and> ParseInternalKey ik = Some k \<and> ExtractUserKey ik = Some (user_key k) \<and>
    length ik = InternalKeyEncodingLength k"
proof -
  obtain tag where tag: "PackSequenceAndType (key_sequence k) (key_type k) = Some tag" "r' = r @ user_key k @ EncodeFixed64 tag"
    using assms by (auto simp: AppendInternalKey_def PutFixed64_def split: bind_splits)
  have "ParseInternalKey (user_key k @ EncodeFixed64 tag) = Some k"
    using key_tag_parts [OF tag(1)] DecodeFixed64_Encode [of tag "[]"] by (simp add: ParseInternalKey_def kTypeValue_def Let_def)
  then show ?thesis using tag(2) by (intro exI) (auto simp: ExtractUserKey_def InternalKeyEncodingLength_def)
qed

theorem internal_key_round_trip_witness:
  "\<exists>ik. AppendInternalKey [9] \<lparr>user_key = [1, 2], key_sequence = 5, key_type = 1\<rparr> = Some ([9] @ ik) \<and>
    ParseInternalKey ik = Some \<lparr>user_key = [1, 2], key_sequence = 5, key_type = 1\<rparr>"
proof -
  obtain r' where r': "AppendInternalKey [9] \<lparr>user_key = [1, 2], key_sequence = 5, key_type = 1\<rparr> = Some r'"
    by (simp add: AppendInternalKey_def PackSequenceAndType_def kMaxSequenceNumber_def kValueTypeForSeek_def kTypeValue_def)
  from internal_key_round_trip [OF this] r' show ?thesis by auto
qed

text \<open>C19: Shortened keys separate: between two internal keys, \<^verbatim>\<open>FindShortestSeparator\<close> finds a key that is not longer than the first, from the
  first key on and below the second; and \<^verbatim>\<open>FindShortSuccessor\<close> a key from its argument on. The assertions in them hold.\<close>

theorem internal_keys_separated:
  assumes "is_internal start" "is_internal limit" "ik_order Slice_compare start limit < 0"
  shows "(\<exists>s. InternalKey_FindShortestSeparator Slice_compare Bytewise_FindShortestSeparator start limit = Some s \<and>
      is_internal s \<and> ik_order Slice_compare start s \<le> 0 \<and> ik_order Slice_compare s limit < 0 \<and> length s \<le> length start) \<and>
    (\<exists>s. InternalKey_FindShortSuccessor Slice_compare Bytewise_FindShortSuccessor start = Some s \<and>
      is_internal s \<and> ik_order Slice_compare start s \<le> 0 \<and> length s \<le> length start)"
  using internal.separates [OF assms] internal.succeeds [OF assms(1)] by (intro conjI)

theorem internal_keys_separated_witness:
  "\<exists>s. InternalKey_FindShortestSeparator Slice_compare Bytewise_FindShortestSeparator ([1, 2, 3] @ replicate 8 0) ([1, 5] @ replicate 8 0) = Some s \<and>
    ik_order Slice_compare s ([1, 5] @ replicate 8 0) < 0"
proof -
  have "is_internal ([1, 2, 3] @ replicate 8 0)" "is_internal ([1, 5] @ replicate 8 0)" by (simp_all add: is_internal_def)
  moreover have "ik_order Slice_compare ([1, 2, 3] @ replicate 8 0) ([1, 5] @ replicate 8 0) < 0"
    by (simp add: ik_order_def key_user_def Let_def)
  ultimately show ?thesis using internal_keys_separated by blast
qed

end
