(* ===== verification/Skiplist_Props.thy ===== *)
theory Skiplist_Props
  imports Skiplist
begin

text \<open>
  The skip list is a sorted list: on each level the links form the chain of the nodes that reach the level, in the order of all nodes. A
  search finds the place of a key among all nodes, and an insertion puts it there.
\<close>

section \<open>Chains\<close>

definition key_at :: "'k skiplist \<Rightarrow> nat \<Rightarrow> 'k" where
  "key_at s x = node_key (nodes s ! x)"

definition height_at :: "'k skiplist \<Rightarrow> nat \<Rightarrow> nat" where
  "height_at s x = length (links (nodes s ! x))"

primrec chain :: "'k skiplist \<Rightarrow> nat \<Rightarrow> nat \<Rightarrow> nat list \<Rightarrow> bool" where
  "chain s l x [] \<longleftrightarrow> skip_Next s x l = Some None"
| "chain s l x (y # ys) \<longleftrightarrow> skip_Next s x l = Some (Some y) \<and> chain s l y ys"

lemma chain_behind: "chain s l y ys \<Longrightarrow> y # ys = ps @ x # qs \<Longrightarrow> chain s l x qs"
proof (induction ps arbitrary: y ys)
  case (Cons p ps)
  then show ?case by (cases ys) auto
qed simp

lemma chain_cong:
  "chain s l x ys \<Longrightarrow> (\<And>y. y \<in> set (x # ys) \<Longrightarrow> skip_Next s' y l = skip_Next s y l) \<Longrightarrow> chain s' l x ys"
  by (induction ys arbitrary: x) auto

lemma chain_insert:
  assumes "chain s l x (bs @ as)" "distinct (x # bs @ as)"
    "\<And>y. y \<in> set (x # bs @ as) \<Longrightarrow> y \<noteq> last (x # bs) \<Longrightarrow> skip_Next s' y l = skip_Next s y l"
    "skip_Next s' (last (x # bs)) l = Some (Some n)" "skip_Next s' n l = skip_Next s (last (x # bs)) l"
  shows "chain s' l x (bs @ n # as)"
  using assms
proof (induction bs arbitrary: x)
  case Nil
  show ?case
  proof (cases as)
    case (Cons a as')
    have first: "chain s l a as'" "skip_Next s x l = Some (Some a)" using Nil.prems(1) Cons by simp_all
    have "skip_Next s' y l = skip_Next s y l" if "y \<in> set (a # as')" for y
    proof -
      have "y \<noteq> x" using Nil.prems(2) Cons that by auto
      then show ?thesis using Nil.prems(3) [of y] Cons that by simp
    qed
    from first(1) this have "chain s' l a as'" by (rule chain_cong)
    then show ?thesis using Nil.prems(4,5) Cons first(2) by simp
  qed (use Nil.prems in simp)
next
  case (Cons b bs)
  have "last (b # bs) \<in> set (b # bs)" by (rule last_in_set) simp
  then have "x \<noteq> last (x # b # bs)" using Cons.prems(2) by auto
  then have "skip_Next s' x l = skip_Next s x l" by (intro Cons.prems(3)) simp_all
  moreover have "chain s' l b (bs @ n # as)"
  proof (rule Cons.IH)
    show "chain s l b (bs @ as)" "distinct (b # bs @ as)" using Cons.prems(1,2) by simp_all
    show "skip_Next s' y l = skip_Next s y l" if "y \<in> set (b # bs @ as)" "y \<noteq> last (b # bs)" for y
      using Cons.prems(3) [of y] that by simp
    show "skip_Next s' (last (b # bs)) l = Some (Some n)" "skip_Next s' n l = skip_Next s (last (b # bs)) l"
      using Cons.prems(4,5) by simp_all
  qed
  ultimately show ?case using Cons.prems(1) by simp
qed

lemma SetNext_Some:
  assumes "x < length (nodes s)" "l < height_at s x"
  obtains s' where "skip_SetNext s x l n = Some s'" "length (nodes s') = length (nodes s)" "max_height s' = max_height s" "rnd s' = rnd s"
    "\<And>y. key_at s' y = key_at s y" "\<And>y. height_at s' y = height_at s y"
    "\<And>y m. skip_Next s' y m = (if y = x \<and> m = l then Some n else skip_Next s y m)"
proof -
  define s' where "s' = s\<lparr>nodes := (nodes s)[x := (nodes s ! x)\<lparr>links := (links (nodes s ! x))[l := Some n]\<rparr>]\<rparr>"
  have "key_at s' y = key_at s y" "height_at s' y = height_at s y" for y
    by (cases "y = x"; use assms in \<open>simp add: s'_def key_at_def height_at_def\<close>)+
  moreover have "skip_Next s' y m = (if y = x \<and> m = l then Some n else skip_Next s y m)" for y m
    using assms by (cases "y = x") (auto simp: s'_def skip_Next_def height_at_def nth_list_update)
  moreover have "skip_SetNext s x l n = Some s'" using assms by (simp add: skip_SetNext_def s'_def height_at_def)
  moreover have "length (nodes s') = length (nodes s)" "max_height s' = max_height s" "rnd s' = rnd s" by (simp_all add: s'_def)
  ultimately show ?thesis using that [of s'] by blast
qed

lemma chain_last:
  assumes "chain s l x (bs @ as)"
  obtains n where "skip_Next s (last (x # bs)) l = Some n"
  using assms
proof (induction bs arbitrary: x thesis)
  case Nil
  then show ?case by (cases as) auto
qed auto

lemma Next_Some: "skip_Next s x l = Some n \<Longrightarrow> x < length (nodes s) \<and> l < height_at s x"
  by (auto simp: skip_Next_def height_at_def split: if_splits)

text \<open>The last loop of an insertion, level by level: \<open>bs l\<close> and \<open>as l\<close> are the nodes of the level before and behind the new one.\<close>

lemma link_levels_links:
  assumes "i \<le> h" "h \<le> 12" "x < length (nodes s)" "height_at s x = h" "x \<noteq> 0"
    "\<And>l. l < 12 \<Longrightarrow> chain s l 0 (bs l @ (if l < i then [x] else []) @ as l)"
    "\<And>l. l < 12 \<Longrightarrow> distinct (0 # x # bs l @ as l)" "\<And>l. l < h \<Longrightarrow> prev ! l = Some (last (0 # bs l))"
  shows "\<exists>s'. link_levels [i..<h] prev x s = Some s' \<and> (\<forall>l < 12. chain s' l 0 (bs l @ (if l < h then [x] else []) @ as l)) \<and>
    length (nodes s') = length (nodes s) \<and> max_height s' = max_height s \<and> key_at s' = key_at s \<and> height_at s' = height_at s"
  using assms
proof (induction "h - i" arbitrary: i s)
  case 0
  then show ?case by auto
next
  case (Suc d)
  then have i: "i < h" "i < 12" "[i..<h] = i # [Suc i..<h]" by (simp_all add: upt_rec)
  define p where "p = last (0 # bs i)"
  have p: "p \<in> set (0 # bs i)" unfolding p_def by (rule last_in_set) simp
  have px: "p \<noteq> x" using p Suc.prems(7) [OF i(2)] Suc.prems(5) by auto
  have ch: "chain s i 0 (bs i @ as i)" using Suc.prems(6) [OF i(2)] by simp
  then obtain n where n: "skip_Next s p i = Some n" unfolding p_def by (rule chain_last)
  obtain s1 where s1: "skip_SetNext s x i n = Some s1" "length (nodes s1) = length (nodes s)" "max_height s1 = max_height s"
      "\<And>y. key_at s1 y = key_at s y" "\<And>y. height_at s1 y = height_at s y"
      "\<And>y m. skip_Next s1 y m = (if y = x \<and> m = i then Some n else skip_Next s y m)"
    using SetNext_Some [of x s i n] Suc.prems(3,4) i(1) by metis
  obtain s2 where s2: "skip_SetNext s1 p i (Some x) = Some s2" "length (nodes s2) = length (nodes s1)" "max_height s2 = max_height s1"
      "\<And>y. key_at s2 y = key_at s1 y" "\<And>y. height_at s2 y = height_at s1 y"
      "\<And>y m. skip_Next s2 y m = (if y = p \<and> m = i then Some (Some x) else skip_Next s1 y m)"
    using SetNext_Some [of p s1 i "Some x"] Next_Some [OF n] s1(2,5) by metis
  have chains: "chain s2 l 0 (bs l @ (if l < Suc i then [x] else []) @ as l)" if l: "l < 12" for l
  proof (cases "l = i")
    case True
    have "chain s2 i 0 (bs i @ x # as i)"
    proof (rule chain_insert [OF ch])
      show "distinct (0 # bs i @ as i)" using Suc.prems(7) [OF i(2)] by simp
      show "skip_Next s2 (last (0 # bs i)) i = Some (Some x)" using s2(6) by (simp add: p_def)
      show "skip_Next s2 x i = skip_Next s (last (0 # bs i)) i" using s2(6) s1(6) px n by (simp add: p_def)
      show "skip_Next s2 y i = skip_Next s y i" if "y \<in> set (0 # bs i @ as i)" "y \<noteq> last (0 # bs i)" for y
      proof -
        have "y \<noteq> x" using that(1) Suc.prems(7) [OF i(2)] Suc.prems(5) by auto
        then show ?thesis using that(2) s2(6) s1(6) by (simp add: p_def)
      qed
    qed
    then show ?thesis using True by simp
  next
    case False
    then have "(l < Suc i) = (l < i)" by linarith
    moreover have "chain s2 l 0 (bs l @ (if l < i then [x] else []) @ as l)"
    proof (rule chain_cong)
      show "chain s l 0 (bs l @ (if l < i then [x] else []) @ as l)" by (rule Suc.prems(6) [OF l])
      show "skip_Next s2 y l = skip_Next s y l" for y using False s2(6) s1(6) by simp
    qed
    ultimately show ?thesis by simp
  qed
  have "\<exists>s'. link_levels [Suc i..<h] prev x s2 = Some s' \<and> (\<forall>l < 12. chain s' l 0 (bs l @ (if l < h then [x] else []) @ as l)) \<and>
      length (nodes s') = length (nodes s2) \<and> max_height s' = max_height s2 \<and> key_at s' = key_at s2 \<and> height_at s' = height_at s2"
  proof (rule Suc.hyps(1))
    show "d = h - Suc i" "Suc i \<le> h" "h \<le> 12" "x \<noteq> 0" using Suc.hyps(2) Suc.prems(2,5) i(1) by simp_all
    show "x < length (nodes s2)" "height_at s2 x = h" using Suc.prems(3,4) s1 s2 by simp_all
    show "chain s2 l 0 (bs l @ (if l < Suc i then [x] else []) @ as l)" if "l < 12" for l using that by (rule chains)
    show "distinct (0 # x # bs l @ as l)" if "l < 12" for l using that by (rule Suc.prems(7))
    show "prev ! l = Some (last (0 # bs l))" if "l < h" for l using that by (rule Suc.prems(8))
  qed
  moreover have "key_at s2 = key_at s" "height_at s2 = height_at s" using s1(4,5) s2(4,5) by (simp_all add: fun_eq_iff)
  ultimately show ?case using i(3) Suc.prems(8) [OF i(1)] n s1 s2 by (auto simp: p_def)
qed

section \<open>The invariant\<close>

text \<open>\<open>ns\<close> are all nodes but the head, in order.\<close>

abbreviation on_level :: "'k skiplist \<Rightarrow> nat \<Rightarrow> nat list \<Rightarrow> nat list" where
  "on_level s l ns \<equiv> filter (\<lambda>n. l < height_at s n) ns"

definition skip_ok :: "('k \<Rightarrow> 'k \<Rightarrow> int) \<Rightarrow> ('k \<Rightarrow> bool) \<Rightarrow> 'k skiplist \<Rightarrow> nat list \<Rightarrow> bool" where
  "skip_ok c good s ns \<longleftrightarrow>
     distinct ns \<and> 0 < length (nodes s) \<and> set ns = {1..<length (nodes s)} \<and> 1 \<le> max_height s \<and> max_height s \<le> 12 \<and> height_at s 0 = 12 \<and>
     (\<forall>n \<in> set ns. 1 \<le> height_at s n \<and> height_at s n \<le> max_height s \<and> good (key_at s n)) \<and>
     sorted_wrt (\<lambda>m n. c (key_at s m) (key_at s n) < 0) ns \<and>
     (\<forall>l < 12. chain s l 0 (on_level s l ns))"

definition skip_keys :: "'k skiplist \<Rightarrow> nat list \<Rightarrow> 'k list" where
  "skip_keys s ns = map (key_at s) ns"

text \<open>The nodes before a key, and from it on.\<close>

definition nodes_before :: "('k \<Rightarrow> 'k \<Rightarrow> int) \<Rightarrow> 'k skiplist \<Rightarrow> 'k \<Rightarrow> nat list \<Rightarrow> nat list" where
  "nodes_before c s key ns = takeWhile (\<lambda>n. c (key_at s n) key < 0) ns"

definition nodes_from :: "('k \<Rightarrow> 'k \<Rightarrow> int) \<Rightarrow> 'k skiplist \<Rightarrow> 'k \<Rightarrow> nat list \<Rightarrow> nat list" where
  "nodes_from c s key ns = dropWhile (\<lambda>n. c (key_at s n) key < 0) ns"

text \<open>The comparison function of the list answers on good keys, and orders them.\<close>

locale skip_order = comparator c for c :: "'k \<Rightarrow> 'k \<Rightarrow> int" +
  fixes cmp :: "'k \<Rightarrow> 'k \<Rightarrow> int option" and good :: "'k \<Rightarrow> bool"
  assumes answers: "good a \<Longrightarrow> good b \<Longrightarrow> cmp a b = Some (c a b)"
begin

lemma before_from: "nodes_before c s key ns @ nodes_from c s key ns = ns"
  by (simp add: nodes_before_def nodes_from_def)

lemma beforeD: "n \<in> set (nodes_before c s key ns) \<Longrightarrow> n \<in> set ns \<and> c (key_at s n) key < 0"
  unfolding nodes_before_def by (meson set_takeWhileD)

lemma fromD:
  assumes "skip_ok c good s ns" "n \<in> set (nodes_from c s key ns)"
  shows "n \<in> set ns \<and> \<not> c (key_at s n) key < 0"
proof -
  define as where "as = nodes_from c s key ns"
  have sorted: "sorted_wrt (\<lambda>m n. c (key_at s m) (key_at s n) < 0) as"
    using assms(1) before_from [of s key ns] by (auto simp: skip_ok_def as_def sorted_wrt_append dest: arg_cong [of _ _ "sorted_wrt (\<lambda>m n. c (key_at s m) (key_at s n) < 0)"])
  have "as \<noteq> []" using assms(2) by (auto simp: as_def)
  then obtain a as' where as: "as = a # as'" by (cases as) auto
  then have a: "\<not> c (key_at s a) key < 0" unfolding as_def nodes_from_def by (metis hd_dropWhile list.sel(1) list.discI)
  have "\<not> c (key_at s n) key < 0" if "n \<in> set as'"
  proof
    assume "c (key_at s n) key < 0"
    moreover have "c (key_at s a) (key_at s n) < 0" using sorted as that by simp
    ultimately show False using a less_trans [of "key_at s a" "key_at s n" key] by simp
  qed
  then have "\<not> c (key_at s n) key < 0" using a as assms(2) by (auto simp: as_def [symmetric])
  moreover have "n \<in> set ns" using assms(2) before_from [of s key ns] by (metis UnCI set_append)
  ultimately show ?thesis by simp
qed

lemma okD:
  assumes "skip_ok c good s ns" "n \<in> set ns"
  shows "n < length (nodes s)" "n \<noteq> 0" "1 \<le> height_at s n" "height_at s n \<le> max_height s" "good (key_at s n)" "node_key_at s n = Some (key_at s n)"
  using assms by (auto simp: skip_ok_def node_key_at_def key_at_def)

lemma IsAfter:
  assumes "skip_ok c good s ns" "good key"
  shows "KeyIsAfterNode cmp s key None = Some False"
    "n \<in> set ns \<Longrightarrow> KeyIsAfterNode cmp s key (Some n) = Some (c (key_at s n) key < 0)"
  using assms okD [OF assms(1)] by (auto simp: KeyIsAfterNode_def answers)

lemma level_chain:
  assumes "skip_ok c good s ns" "l < 12" "0 # on_level s l ns = ps @ x # qs"
  shows "chain s l x qs"
  using assms by (intro chain_behind [OF _ assms(3)]) (auto simp: skip_ok_def)

text \<open>What the assertion of \<^verbatim>\<open>FindLessThan\<close> says of the node where the search stands.\<close>

lemma standing:
  assumes "skip_ok c good s ns" "good key" "0 # on_level s l (nodes_before c s key ns) = ps @ x # qs"
  shows "x \<noteq> 0 \<Longrightarrow> KeyIsAfterNode cmp s key (Some x) = Some True"
proof -
  assume "x \<noteq> 0"
  moreover have "x \<in> set (0 # on_level s l (nodes_before c s key ns))" unfolding assms(3) by simp
  ultimately have "x \<in> set (nodes_before c s key ns)" by simp
  then show ?thesis using IsAfter(2) [OF assms(1,2)] beforeD [of x s key ns] by auto
qed

text \<open>
  The search stands at \<open>x\<close> on a level, with \<open>qs\<close> the nodes of the level that are still before the key.
\<close>

lemma search_step:
  assumes ok: "skip_ok c good s ns" "good key" "l < 12"
    and at: "0 # on_level s l (nodes_before c s key ns) = ps @ x # qs"
  shows "qs = y # ys \<Longrightarrow> skip_Next s x l = Some (Some y) \<and> KeyIsAfterNode cmp s key (Some y) = Some True"
    "qs = [] \<Longrightarrow> skip_Next s x l = Some (case on_level s l (nodes_from c s key ns) of [] \<Rightarrow> None | y # _ \<Rightarrow> Some y)"
    "qs = [] \<Longrightarrow> skip_Next s x l = Some n \<Longrightarrow> KeyIsAfterNode cmp s key n = Some False"
proof -
  have "chain s l 0 (on_level s l (nodes_before c s key ns) @ on_level s l (nodes_from c s key ns))"
    using ok(1,3) before_from [of s key ns] by (simp add: skip_ok_def flip: filter_append)
  then have ch: "chain s l x (qs @ on_level s l (nodes_from c s key ns))"
    by (rule chain_behind [where ps = ps]) (use at in simp)
  show "qs = y # ys \<Longrightarrow> skip_Next s x l = Some (Some y) \<and> KeyIsAfterNode cmp s key (Some y) = Some True"
  proof -
    assume q: "qs = y # ys"
    then have "y \<in> set (on_level s l (nodes_before c s key ns))" using at by (cases ps) auto
    then show ?thesis using ch q IsAfter(2) [OF ok(1,2)] beforeD [of y s key ns] by auto
  qed
  show no_more: "qs = [] \<Longrightarrow> skip_Next s x l = Some (case on_level s l (nodes_from c s key ns) of [] \<Rightarrow> None | y # _ \<Rightarrow> Some y)"
    using ch by (cases "on_level s l (nodes_from c s key ns)") auto
  show "qs = [] \<Longrightarrow> skip_Next s x l = Some n \<Longrightarrow> KeyIsAfterNode cmp s key n = Some False"
  proof (cases "on_level s l (nodes_from c s key ns)")
    case (Cons y ys)
    assume "qs = []" "skip_Next s x l = Some n"
    moreover have "y \<in> set (on_level s l (nodes_from c s key ns))" unfolding Cons by simp
    then have "y \<in> set (nodes_from c s key ns)" by simp
    ultimately show ?thesis using no_more Cons IsAfter(2) [OF ok(1,2)] fromD [OF ok(1), of y key] by auto
  qed (use no_more IsAfter(1) [OF ok(1,2)] in auto)
qed

lemma level_below:
  assumes "0 # on_level s l bs = ps @ x # qs" "l' \<le> l"
  obtains ps' qs' where "0 # on_level s l' bs = ps' @ x # qs'"
proof -
  have "x \<in> set (0 # on_level s l bs)" unfolding assms(1) by simp
  then have "x \<in> set (0 # on_level s l' bs)" using assms(2) by auto
  then show ?thesis using that split_list by metis
qed

lemma FindGreaterOrEqual_loop_finds:
  assumes "skip_ok c good s ns" "good key" "l < 12" "0 # on_level s l (nodes_before c s key ns) = ps @ x # qs"
  shows "\<exists>prev'. FindGreaterOrEqual_loop cmp s key prev x l =
      Some (case nodes_from c s key ns of [] \<Rightarrow> None | y # _ \<Rightarrow> Some y, prev') \<and> length prev' = length prev \<and>
    (\<forall>i < length prev. prev' ! i = (if i \<le> l then Some (last (0 # on_level s i (nodes_before c s key ns))) else prev ! i))"
  using assms
proof (induction l arbitrary: ps x qs prev)
  case 0
  from this(4) show ?case
  proof (induction qs arbitrary: ps x)
    case Nil
    note step = search_step [OF \<open>skip_ok c good s ns\<close> \<open>good key\<close> \<open>0 < 12\<close> Nil]
    have all: "on_level s 0 (nodes_from c s key ns) = nodes_from c s key ns"
      using fromD [OF \<open>skip_ok c good s ns\<close>] okD(3) [OF \<open>skip_ok c good s ns\<close>] by (intro filter_True) fastforce
    have "last (0 # on_level s 0 (nodes_before c s key ns)) = x" unfolding Nil by simp
    then show ?case using step(2,3) all by (subst FindGreaterOrEqual_loop.simps) (auto simp: Let_def nth_list_update)
  next
    case (Cons y qs)
    note step = search_step(1) [OF \<open>skip_ok c good s ns\<close> \<open>good key\<close> \<open>0 < 12\<close> Cons(2) HOL.refl]
    have "0 # on_level s 0 (nodes_before c s key ns) = (ps @ [x]) @ y # qs" using Cons(2) by simp
    from Cons(1) [OF this] show ?case using step by (subst FindGreaterOrEqual_loop.simps) simp
  qed
next
  case (Suc l)
  from Suc.prems(4) show ?case
  proof (induction qs arbitrary: ps x)
    case Nil
    note step = search_step [OF Suc.prems(1,2,3) Nil]
    have last: "last (0 # on_level s (Suc l) (nodes_before c s key ns)) = x" unfolding Nil by simp
    obtain ps' qs' where "0 # on_level s l (nodes_before c s key ns) = ps' @ x # qs'"
      by (rule level_below [OF Nil, of l]) simp
    from Suc.IH [OF Suc.prems(1,2) _ this, of "prev[Suc l := Some x]"] Suc.prems(3) step(2,3) last show ?case
      by (subst FindGreaterOrEqual_loop.simps) (auto simp: Let_def nth_list_update le_Suc_eq)
  next
    case (Cons y qs)
    note step = search_step(1) [OF Suc.prems(1,2,3) Cons(2) HOL.refl]
    have "0 # on_level s (Suc l) (nodes_before c s key ns) = (ps @ [x]) @ y # qs" using Cons(2) by simp
    from Cons(1) [OF this] show ?case using step by (subst FindGreaterOrEqual_loop.simps) simp
  qed
qed

lemma all_on_bottom: "skip_ok c good s ns \<Longrightarrow> set bs \<subseteq> set ns \<Longrightarrow> on_level s 0 bs = bs"
  using okD(3) by (intro filter_True) fastforce

lemma FindLessThan_loop_finds:
  assumes "skip_ok c good s ns" "good key" "l < 12" "0 # on_level s l (nodes_before c s key ns) = ps @ x # qs"
  shows "FindLessThan_loop cmp s key x l = Some (last (0 # nodes_before c s key ns))"
  using assms
proof (induction l arbitrary: ps x qs)
  case 0
  then have bottom: "on_level s 0 (nodes_before c s key ns) = nodes_before c s key ns"
    using beforeD by (intro all_on_bottom) blast+
  from 0(4) show ?case
  proof (induction qs arbitrary: ps x)
    case Nil
    note step = search_step [OF \<open>skip_ok c good s ns\<close> \<open>good key\<close> \<open>0 < 12\<close> Nil]
    have "last (0 # nodes_before c s key ns) = x" using Nil bottom by (metis last_snoc)
    then show ?case using step(2,3) standing [OF \<open>skip_ok c good s ns\<close> \<open>good key\<close> Nil]
      by (subst FindLessThan_loop.simps) auto
  next
    case (Cons y qs)
    note step = search_step(1) [OF \<open>skip_ok c good s ns\<close> \<open>good key\<close> \<open>0 < 12\<close> Cons(2) HOL.refl]
    have "0 # on_level s 0 (nodes_before c s key ns) = (ps @ [x]) @ y # qs" using Cons(2) by simp
    from Cons(1) [OF this] show ?case using step standing [OF \<open>skip_ok c good s ns\<close> \<open>good key\<close> Cons(2)]
      by (subst FindLessThan_loop.simps) auto
  qed
next
  case (Suc l)
  from Suc.prems(4) show ?case
  proof (induction qs arbitrary: ps x)
    case Nil
    note step = search_step [OF Suc.prems(1,2,3) Nil]
    obtain ps' qs' where "0 # on_level s l (nodes_before c s key ns) = ps' @ x # qs'"
      by (rule level_below [OF Nil, of l]) simp
    from Suc.IH [OF Suc.prems(1,2) _ this] Suc.prems(3) step(2,3) standing [OF Suc.prems(1,2) Nil] show ?case
      by (subst FindLessThan_loop.simps) auto
  next
    case (Cons y qs)
    note step = search_step(1) [OF Suc.prems(1,2,3) Cons(2) HOL.refl]
    have "0 # on_level s (Suc l) (nodes_before c s key ns) = (ps @ [x]) @ y # qs" using Cons(2) by simp
    from Cons(1) [OF this] show ?case using step standing [OF Suc.prems(1,2) Cons(2)]
      by (subst FindLessThan_loop.simps) auto
  qed
qed

lemma FindLast_loop_finds:
  assumes "skip_ok c good s ns" "l < 12" "0 # on_level s l ns = ps @ x # qs"
  shows "FindLast_loop s x l = Some (last (0 # ns))"
  using assms
proof (induction l arbitrary: ps x qs)
  case 0
  then have bottom: "on_level s 0 ns = ns" by (intro all_on_bottom) auto
  from 0(3) show ?case
  proof (induction qs arbitrary: ps x)
    case Nil
    have "last (0 # ns) = x" using Nil bottom by (metis last_snoc)
    then show ?case using level_chain [OF \<open>skip_ok c good s ns\<close> _ Nil] by (subst FindLast_loop.simps) auto
  next
    case (Cons y qs)
    have "0 # on_level s 0 ns = (ps @ [x]) @ y # qs" using Cons(2) by simp
    from Cons(1) [OF this] show ?case using level_chain [OF \<open>skip_ok c good s ns\<close> _ Cons(2)]
      by (subst FindLast_loop.simps) auto
  qed
next
  case (Suc l)
  from Suc.prems(3) show ?case
  proof (induction qs arbitrary: ps x)
    case Nil
    obtain ps' qs' where "0 # on_level s l ns = ps' @ x # qs'"
      by (rule level_below [OF Nil, of l]) simp
    from Suc.IH [OF Suc.prems(1) _ this] level_chain [OF Suc.prems(1,2) Nil] Suc.prems(2) show ?case
      by (subst FindLast_loop.simps) auto
  next
    case (Cons y qs)
    have "0 # on_level s (Suc l) ns = (ps @ [x]) @ y # qs" using Cons(2) by simp
    from Cons(1) [OF this] show ?case using level_chain [OF Suc.prems(1,2) Cons(2)]
      by (subst FindLast_loop.simps) auto
  qed
qed

lemma FindGreaterOrEqual_finds:
  assumes "skip_ok c good s ns" "good key"
  shows "\<exists>prev'. FindGreaterOrEqual cmp s key prev = Some (case nodes_from c s key ns of [] \<Rightarrow> None | y # _ \<Rightarrow> Some y, prev') \<and>
    length prev' = length prev \<and>
    (\<forall>i < length prev. prev' ! i = (if i < max_height s then Some (last (0 # on_level s i (nodes_before c s key ns))) else prev ! i))"
proof -
  have h: "1 \<le> max_height s" "max_height s - 1 < 12" using assms(1) by (auto simp: skip_ok_def)
  have "0 # on_level s (max_height s - 1) (nodes_before c s key ns) = [] @ 0 # on_level s (max_height s - 1) (nodes_before c s key ns)" by simp
  moreover have "i \<le> max_height s - 1 \<longleftrightarrow> i < max_height s" for i using h(1) by linarith
  ultimately show ?thesis using FindGreaterOrEqual_loop_finds [OF assms h(2), of "[]" 0] unfolding FindGreaterOrEqual_def by simp
qed

lemma nth_fold_store:
  "l < length prev \<Longrightarrow> fold (\<lambda>i prev. prev[i := v]) [a..<b] prev ! l = (if a \<le> l \<and> l < b then v else prev ! l)"
proof (induction b)
  case (Suc b)
  have "length (fold (\<lambda>i prev. prev[i := v]) is prev) = length prev" for "is" by (induction "is" arbitrary: prev) auto
  then show ?case using Suc by (cases "a \<le> b"; cases "l = b") auto
qed simp

lemma before_less_from:
  assumes "skip_ok c good s ns" "n \<in> set (nodes_from c s key ns)" "\<not> (\<exists>m \<in> set ns. c (key_at s m) key = 0)"
  shows "c key (key_at s n) < 0"
proof -
  have "c (key_at s n) key > 0" using fromD [OF assms(1,2)] assms(3) by force
  then show ?thesis using flip [of key "key_at s n"] by simp
qed

lemma Insert_keeps:
  assumes ok: "skip_ok c good s ns" "good key" and new: "\<not> (\<exists>m \<in> set ns. c (key_at s m) key = 0)"
  shows "\<exists>s'. skip_Insert cmp key s = Some s' \<and>
    skip_ok c good s' (nodes_before c s key ns @ length (nodes s) # nodes_from c s key ns) \<and>
    length (nodes s') = Suc (length (nodes s)) \<and> key_at s' (length (nodes s)) = key \<and> (\<forall>n < length (nodes s). key_at s' n = key_at s n)"
proof -
  define bs as x where "bs = nodes_before c s key ns" and "as = nodes_from c s key ns" and "x = length (nodes s)"
  have ns: "ns = bs @ as" by (simp add: bs_def as_def before_from)
  obtain prev where find: "FindGreaterOrEqual cmp s key (replicate kMaxHeight None) = Some (case as of [] \<Rightarrow> None | y # _ \<Rightarrow> Some y, prev)"
      and prev: "length prev = 12" "\<And>i. i < 12 \<Longrightarrow> i < max_height s \<Longrightarrow> prev ! i = Some (last (0 # on_level s i bs))"
    using FindGreaterOrEqual_finds [OF ok, of "replicate kMaxHeight None"] by (auto simp: as_def bs_def kMaxHeight_def)
  obtain h s0 where h: "RandomHeight s = (h, s0)" by fastforce
  note hr = RandomHeight_range [OF h]
  define s1 where "s1 = (if h > max_height s then s0\<lparr>max_height := h\<rparr> else s0)"
  define s2 where "s2 = snd (NewNode key h s1)"
  define prev2 where "prev2 = (if h > max_height s then fold (\<lambda>i prev. prev[i := Some 0]) [max_height s..<h] prev else prev)"
  have nodes2: "nodes s2 = nodes s @ [\<lparr>node_key = key, links = replicate h None\<rparr>]" and x: "fst (NewNode key h s1) = x"
    using hr(3) by (simp_all add: s1_def s2_def NewNode_def x_def)
  have max2: "max_height s2 = max (max_height s) h" using hr(4) by (simp add: s1_def s2_def NewNode_def)
  have old: "key_at s2 n = key_at s n" "height_at s2 n = height_at s n" "skip_Next s2 n l = skip_Next s n l" if "n < x" for n l
    using that by (simp_all add: nodes2 key_at_def height_at_def skip_Next_def x_def nth_append)
  have new2: "key_at s2 x = key" "height_at s2 x = h" "x < length (nodes s2)" by (simp_all add: nodes2 key_at_def height_at_def x_def)
  have small: "n < x" if "n \<in> set (0 # bs @ as)" for n using that ok(1) unfolding ns by (auto simp: skip_ok_def x_def)
  have max12: "max_height s \<le> 12" using ok(1) by (simp add: skip_ok_def)
  have prev2: "prev2 ! l = Some (last (0 # on_level s l bs))" if "l < h" for l
  proof (cases "l < max_height s")
    case True
    then show ?thesis using prev(2) [of l] prev(1) hr(2) that by (simp add: prev2_def nth_fold_store)
  next
    case False
    then have "on_level s l bs = []" using okD(4) [OF ok(1)] by (fastforce simp: filter_empty_conv ns)
    then show ?thesis using False prev(1) hr(2) that by (simp add: prev2_def nth_fold_store)
  qed
  have differs: "(case (case as of [] \<Rightarrow> None | y # _ \<Rightarrow> Some y) of None \<Rightarrow> Some True
      | Some y \<Rightarrow> do { k \<leftarrow> node_key_at s y; r \<leftarrow> cmp key k; Some (r \<noteq> 0) }) = Some True"
  proof (cases as)
    case (Cons y ys)
    have "y \<in> set (nodes_from c s key ns)" using Cons by (simp flip: as_def)
    from before_less_from [OF ok(1) this new] have y: "y \<in> set ns" "c key (key_at s y) < 0" using Cons by (simp_all add: ns)
    then show ?thesis using Cons okD [OF ok(1) y(1)] answers [OF ok(2)] by simp
  qed simp
  have "skip_Insert cmp key s = link_levels [0..<h] prev2 x s2"
    using hr(4) x unfolding skip_Insert_def find
    by (simp add: differs h NewNode_def s2_def s1_def prev2_def hr(3) x_def Let_def)
  moreover have "\<exists>s'. link_levels [0..<h] prev2 x s2 = Some s' \<and>
      (\<forall>l < 12. chain s' l 0 (on_level s l bs @ (if l < h then [x] else []) @ on_level s l as)) \<and>
      length (nodes s') = length (nodes s2) \<and> max_height s' = max_height s2 \<and> key_at s' = key_at s2 \<and> height_at s' = height_at s2"
  proof (rule link_levels_links)
    show "0 \<le> h" "h \<le> 12" "x < length (nodes s2)" "height_at s2 x = h" "x \<noteq> 0" using hr(2) new2 ok(1) by (auto simp: skip_ok_def x_def)
    show "prev2 ! l = Some (last (0 # on_level s l bs))" if "l < h" for l using that by (rule prev2)
    show "distinct (0 # x # on_level s l bs @ on_level s l as)" for l
    proof -
      have "0 \<notin> set (bs @ as)" using okD(2) [OF ok(1)] ns by blast
      moreover have "x \<notin> set (0 # bs @ as)" using small by blast
      moreover have "distinct (bs @ as)" using ok(1) by (simp add: skip_ok_def ns)
      ultimately show ?thesis by auto
    qed
    show "chain s2 l 0 (on_level s l bs @ (if l < 0 then [x] else []) @ on_level s l as)" if "l < 12" for l
    proof -
      have "chain s l 0 (on_level s l bs @ on_level s l as)" using ok(1) that by (simp add: skip_ok_def ns)
      then have "chain s2 l 0 (on_level s l bs @ on_level s l as)" by (rule chain_cong) (use small old(3) in auto)
      then show ?thesis by simp
    qed
  qed
  ultimately obtain s' where s': "skip_Insert cmp key s = Some s'"
      "\<And>l. l < 12 \<Longrightarrow> chain s' l 0 (on_level s l bs @ (if l < h then [x] else []) @ on_level s l as)"
      "length (nodes s') = Suc x" "max_height s' = max (max_height s) h" "key_at s' = key_at s2" "height_at s' = height_at s2"
    using nodes2 max2 by (auto simp: x_def)
  have "skip_ok c good s' (bs @ x # as)"
  proof -
    have levels: "on_level s' l bs = on_level s l bs" "on_level s' l as = on_level s l as" for l
      using s'(6) old(2) small by (auto intro!: filter_cong)
    have keys: "key_at s' n = key_at s n" "height_at s' n = height_at s n" if "n \<in> set (0 # bs @ as)" for n
      using that s'(5,6) old small by auto
    have "sorted_wrt (\<lambda>m n. c (key_at s' m) (key_at s' n) < 0) (bs @ as)"
      using ok(1) keys(1) unfolding skip_ok_def ns by (auto intro: sorted_wrt_mono_rel [rotated])
    moreover have "c (key_at s' m) key < 0" if "m \<in> set bs" for m
      using that keys(1) [of m] beforeD [of m s key ns] by (simp add: bs_def)
    moreover have "c key (key_at s' m) < 0" if "m \<in> set as" for m
      using that keys(1) [of m] before_less_from [OF ok(1) _ new, of m] by (simp add: as_def)
    ultimately have "sorted_wrt (\<lambda>m n. c (key_at s' m) (key_at s' n) < 0) (bs @ x # as)"
      using s'(5) new2(1) by (auto simp: sorted_wrt_append)
    moreover have "set (bs @ x # as) = {1..<length (nodes s')}"
    proof -
      have "set (bs @ as) = {1..<x}" using ok(1) by (simp only: skip_ok_def ns x_def)
      moreover have "1 \<le> x" using small [of 0] by simp
      moreover have "set (bs @ x # as) = insert x (set (bs @ as))" by simp
      ultimately show ?thesis unfolding s'(3) atLeastLessThanSuc by (simp only: if_True)
    qed
    moreover have "distinct (bs @ x # as)"
    proof -
      have "x \<notin> set (bs @ as)" using small by auto
      moreover have "distinct (bs @ as)" using ok(1) by (simp add: skip_ok_def ns)
      ultimately show ?thesis by auto
    qed
    moreover have "chain s' l 0 (on_level s' l (bs @ x # as))" if "l < 12" for l
      using s'(2) [OF that] levels [of l] s'(6) new2(2) by (cases "l < h") simp_all
    moreover have "1 \<le> height_at s' n \<and> height_at s' n \<le> max_height s' \<and> good (key_at s' n)" if "n \<in> set (bs @ x # as)" for n
    proof (cases "n = x")
      case True
      then show ?thesis using s'(4,5,6) new2 hr(1) ok(2) by simp
    next
      case False
      then have "n \<in> set (bs @ as)" using that by auto
      then show ?thesis using keys [of n] okD [OF ok(1), of n] s'(4) by (auto simp: ns)
    qed
    ultimately show ?thesis using s'(3,4) keys(2) [of 0] ok(1) hr(2) by (auto simp: skip_ok_def Suc_le_eq)
  qed
  then show ?thesis using s' new2(1) old(1) by (auto simp: bs_def as_def x_def)
qed

end

section \<open>The skip list as a sorted list of keys\<close>

definition holds :: "('k \<Rightarrow> 'k \<Rightarrow> int) \<Rightarrow> ('k \<Rightarrow> bool) \<Rightarrow> 'k skiplist \<Rightarrow> 'k list \<Rightarrow> bool" where
  "holds c good s ks \<longleftrightarrow> (\<exists>ns. skip_ok c good s ns \<and> ks = map (key_at s) ns)"

text \<open>An iterator stands at the index \<open>i\<close>, or is not valid if there is no such key.\<close>

definition stands_at :: "('k \<Rightarrow> 'k \<Rightarrow> int) \<Rightarrow> ('k \<Rightarrow> bool) \<Rightarrow> 'k skiplist \<Rightarrow> 'k list \<Rightarrow> nat option \<Rightarrow> nat \<Rightarrow> bool" where
  "stands_at c good s ks it i \<longleftrightarrow>
     (\<exists>ns. skip_ok c good s ns \<and> ks = map (key_at s) ns \<and> it = (if i < length ns then Some (ns ! i) else None))"

definition keys_less :: "('k \<Rightarrow> 'k \<Rightarrow> int) \<Rightarrow> 'k \<Rightarrow> 'k list \<Rightarrow> nat" where
  "keys_less c key ks = length (takeWhile (\<lambda>k. c k key < 0) ks)"

context skip_order
begin

lemma holds_new: "holds c good (SkipList any) []"
  unfolding holds_def
  by (intro exI [of _ "[]"]) (auto simp: skip_ok_def SkipList_def height_at_def skip_Next_def kMaxHeight_def)

lemma before_keys: "map (key_at s) (nodes_before c s key ns) = takeWhile (\<lambda>k. c k key < 0) (map (key_at s) ns)"
  by (simp add: nodes_before_def takeWhile_map comp_def)

lemma from_keys: "map (key_at s) (nodes_from c s key ns) = dropWhile (\<lambda>k. c k key < 0) (map (key_at s) ns)"
  by (simp add: nodes_from_def dropWhile_map comp_def)

lemma holds_Insert:
  assumes "holds c good s ks" "good key" "\<not> (\<exists>k \<in> set ks. c k key = 0)"
  shows "\<exists>s'. skip_Insert cmp key s = Some s' \<and> holds c good s' (takeWhile (\<lambda>k. c k key < 0) ks @ key # dropWhile (\<lambda>k. c k key < 0) ks)"
proof -
  obtain ns where ns: "skip_ok c good s ns" "ks = map (key_at s) ns" using assms(1) by (auto simp: holds_def)
  have "\<not> (\<exists>m \<in> set ns. c (key_at s m) key = 0)" using assms(3) ns(2) by auto
  from Insert_keeps [OF ns(1) assms(2) this] obtain s' where s': "skip_Insert cmp key s = Some s'"
      "skip_ok c good s' (nodes_before c s key ns @ length (nodes s) # nodes_from c s key ns)"
      "key_at s' (length (nodes s)) = key" "\<forall>n < length (nodes s). key_at s' n = key_at s n" by blast
  have same: "map (key_at s') xs = map (key_at s) xs" if "set xs \<subseteq> set ns" for xs
    using that s'(4) okD(1) [OF ns(1)] by (intro map_cong) auto
  have "set (nodes_before c s key ns) \<subseteq> set ns" "set (nodes_from c s key ns) \<subseteq> set ns"
    using before_from [of s key ns] by (metis set_append sup_ge1, metis set_append sup_ge2)
  then have "map (key_at s') (nodes_before c s key ns @ length (nodes s) # nodes_from c s key ns) =
      takeWhile (\<lambda>k. c k key < 0) ks @ key # dropWhile (\<lambda>k. c k key < 0) ks"
    unfolding map_append list.map s'(3) ns(2) by (simp only: same before_keys from_keys)
  then show ?thesis using s'(1,2) unfolding holds_def by metis
qed

lemma equal_key:
  assumes "skip_ok c good s ns"
  shows "(\<exists>m \<in> set ns. c (key_at s m) key = 0) \<longleftrightarrow> (case nodes_from c s key ns of [] \<Rightarrow> False | y # _ \<Rightarrow> c key (key_at s y) = 0)"
proof (cases "nodes_from c s key ns")
  case Nil
  then show ?thesis using before_from [of s key ns] beforeD [of _ s key ns] by fastforce
next
  case (Cons y ys)
  then have y: "y \<in> set ns" "\<not> c (key_at s y) key < 0" using fromD [OF assms, of y key] by simp_all
  have sorted: "sorted_wrt (\<lambda>m n. c (key_at s m) (key_at s n) < 0) (nodes_from c s key ns)"
    using assms sorted_wrt_append [of "\<lambda>m n. c (key_at s m) (key_at s n) < 0" "nodes_before c s key ns" "nodes_from c s key ns"]
    by (simp add: skip_ok_def before_from)
  have "c key (key_at s y) = 0" if m: "m \<in> set ns" "c (key_at s m) key = 0" for m
  proof -
    have "m \<in> set (nodes_from c s key ns)" using m beforeD [of m s key ns] before_from [of s key ns] by (metis Un_iff less_irrefl set_append)
    then have "m = y \<or> c (key_at s y) (key_at s m) < 0" using sorted Cons by auto
    then have "c (key_at s y) key \<le> 0" using m(2) less_trans [of "key_at s y" "key_at s m" key] by auto
    then show ?thesis using y(2) eq_sym [of key "key_at s y"] by simp
  qed
  then show ?thesis using Cons y(1) eq_sym [of key "key_at s y"] by auto
qed

lemma Insert_again:
  assumes "holds c good s ks" "good key" "\<exists>k \<in> set ks. c k key = 0"
  shows "skip_Insert cmp key s = None"
proof -
  obtain ns where ns: "skip_ok c good s ns" "ks = map (key_at s) ns" using assms(1) by (auto simp: holds_def)
  then have "\<exists>m \<in> set ns. c (key_at s m) key = 0" using assms(3) by auto
  then obtain y ys where y: "nodes_from c s key ns = y # ys" "c key (key_at s y) = 0"
    using equal_key [OF ns(1), of key] by (auto split: list.splits)
  then have "y \<in> set ns" using fromD [OF ns(1), of y key] by simp
  then show ?thesis using FindGreaterOrEqual_finds [OF ns(1) assms(2), of "replicate kMaxHeight None"] y okD(5,6) [OF ns(1)] assms(2)
    by (auto simp: skip_Insert_def answers)
qed

lemma Contains_finds:
  assumes "holds c good s ks" "good key"
  shows "skip_Contains cmp s key = Some (\<exists>k \<in> set ks. c k key = 0)"
proof -
  obtain ns where ns: "skip_ok c good s ns" "ks = map (key_at s) ns" using assms(1) by (auto simp: holds_def)
  then have iff: "(\<exists>k \<in> set ks. c k key = 0) \<longleftrightarrow> (case nodes_from c s key ns of [] \<Rightarrow> False | y # _ \<Rightarrow> c key (key_at s y) = 0)"
    using equal_key [OF ns(1), of key] by simp
  show ?thesis
  proof (cases "nodes_from c s key ns")
    case (Cons y ys)
    then have "y \<in> set ns" using fromD [OF ns(1), of y key] by simp
    then show ?thesis using FindGreaterOrEqual_finds [OF ns(1) assms(2), of "[]"] Cons okD(5,6) [OF ns(1)] assms(2) iff
      by (auto simp: skip_Contains_def answers)
  qed (use FindGreaterOrEqual_finds [OF ns(1) assms(2), of "[]"] iff in \<open>auto simp: skip_Contains_def\<close>)
qed

lemma Seek_finds:
  assumes "holds c good s ks" "good key"
  shows "\<exists>it. iter_Seek cmp s key = Some it \<and> stands_at c good s ks it (keys_less c key ks)"
proof -
  obtain ns where ns: "skip_ok c good s ns" "ks = map (key_at s) ns" using assms(1) by (auto simp: holds_def)
  have split: "ns = nodes_before c s key ns @ nodes_from c s key ns" by (simp add: before_from)
  have "keys_less c key ks = length (nodes_before c s key ns)"
    using before_keys [of s key ns] by (metis keys_less_def length_map ns(2))
  then have "(case nodes_from c s key ns of [] \<Rightarrow> None | y # _ \<Rightarrow> Some y) = (if keys_less c key ks < length ns then Some (ns ! keys_less c key ks) else None)"
    by (subst (2 3) split) (auto simp: nth_append split: list.splits)
  then show ?thesis
    using FindGreaterOrEqual_finds [OF ns(1) assms(2), of "[]"] ns unfolding stands_at_def iter_Seek_def by auto
qed

lemma stands_key: "stands_at c good s ks it i \<Longrightarrow> i < length ks \<Longrightarrow> iter_Valid it \<and> iter_key s it = Some (ks ! i)"
  using okD(6) by (auto simp: stands_at_def iter_Valid_def iter_key_def)

lemma stands_end: "stands_at c good s ks it i \<Longrightarrow> i \<ge> length ks \<Longrightarrow> \<not> iter_Valid it"
  by (auto simp: stands_at_def iter_Valid_def)

lemma bottom_link:
  assumes "skip_ok c good s ns"
  shows "skip_Next s 0 0 = Some (if ns = [] then None else Some (ns ! 0))"
    "i < length ns \<Longrightarrow> skip_Next s (ns ! i) 0 = Some (if Suc i < length ns then Some (ns ! Suc i) else None)"
proof -
  have bottom: "on_level s 0 ns = ns" using assms by (rule all_on_bottom) simp
  have link: "chain s 0 x qs \<Longrightarrow> skip_Next s x 0 = Some (if qs = [] then None else Some (qs ! 0))" for x qs by (cases qs) auto
  have "chain s 0 0 ns" using assms bottom by (auto simp: skip_ok_def dest: spec [of _ 0])
  then show "skip_Next s 0 0 = Some (if ns = [] then None else Some (ns ! 0))" by (rule link)
  assume "i < length ns"
  then have "0 # on_level s 0 ns = (0 # take i ns) @ ns ! i # drop (Suc i) ns" unfolding bottom by (simp add: id_take_nth_drop [symmetric])
  from level_chain [OF assms _ this] have "chain s 0 (ns ! i) (drop (Suc i) ns)" by simp
  then show "skip_Next s (ns ! i) 0 = Some (if Suc i < length ns then Some (ns ! Suc i) else None)" by (auto dest: link)
qed

lemma stands_next:
  assumes "stands_at c good s ks it i" "i < length ks"
  shows "\<exists>it'. iter_Next s it = Some it' \<and> stands_at c good s ks it' (Suc i)"
  using assms bottom_link(2) [of s _ i] by (fastforce simp: stands_at_def iter_Next_def iter_Valid_def)

lemma stands_first: "holds c good s ks \<Longrightarrow> \<exists>it. iter_SeekToFirst s = Some it \<and> stands_at c good s ks it 0"
  using bottom_link(1) by (fastforce simp: stands_at_def holds_def iter_SeekToFirst_def)

lemma stands_prev:
  assumes "stands_at c good s ks it i" "i < length ks"
  shows "\<exists>it'. iter_Prev cmp s it = Some it' \<and> stands_at c good s ks it' (if i = 0 then length ks else i - 1)"
proof -
  obtain ns where ns: "skip_ok c good s ns" "ks = map (key_at s) ns" "it = Some (ns ! i)" "i < length ns"
    using assms by (auto simp: stands_at_def)
  define key where "key = key_at s (ns ! i)"
  have sorted: "sorted_wrt (\<lambda>m n. c (key_at s m) (key_at s n) < 0) ns" using ns(1) by (simp add: skip_ok_def)
  have "nodes_before c s key ns = take i ns"
  proof -
    have "c (key_at s (ns ! j)) key < 0" if "j < i" for j
      using sorted ns(4) that by (simp add: sorted_wrt_iff_nth_less key_def)
    moreover have "\<not> c (key_at s (ns ! i)) key < 0" by (simp add: key_def)
    ultimately show ?thesis unfolding nodes_before_def by (intro takeWhile_eq_take_P_nth) (use ns(4) in auto)
  qed
  moreover have h: "max_height s - 1 < 12" using ns(1) by (auto simp: skip_ok_def)
  moreover have "good key" using okD(5) [OF ns(1), of "ns ! i"] ns(4) by (simp add: key_def)
  ultimately have "FindLessThan cmp s key = Some (last (0 # take i ns))"
    using FindLessThan_loop_finds [OF ns(1) _ h, of key "[]" 0] by (simp add: FindLessThan_def)
  moreover have "last (0 # take i ns) = (if i = 0 then 0 else ns ! (i - 1))"
    using ns(4) by (auto simp: last_conv_nth)
  ultimately have find: "FindLessThan cmp s key = Some (if i = 0 then 0 else ns ! (i - 1))" by simp
  have "ns ! (i - 1) \<noteq> 0" "node_key_at s (ns ! i) = Some key"
    using okD(2) [OF ns(1), of "ns ! (i - 1)"] okD(6) [OF ns(1), of "ns ! i"] ns(4) by (simp_all add: key_def)
  then have "iter_Prev cmp s it = Some (if i = 0 then None else Some (ns ! (i - 1)))"
    using find ns(3) by (simp add: iter_Prev_def iter_Valid_def)
  moreover have "stands_at c good s ks (if i = 0 then None else Some (ns ! (i - 1))) (if i = 0 then length ks else i - 1)"
    unfolding stands_at_def using ns by (intro exI [of _ ns]) auto
  ultimately show ?thesis by blast
qed

lemma stands_last: "holds c good s ks \<Longrightarrow> \<exists>it. iter_SeekToLast s = Some it \<and> stands_at c good s ks it (length ks - 1)"
proof -
  assume "holds c good s ks"
  then obtain ns where ns: "skip_ok c good s ns" "ks = map (key_at s) ns" by (auto simp: holds_def)
  then have "max_height s - 1 < 12" by (auto simp: skip_ok_def)
  then have last: "FindLast s = Some (last (0 # ns))" using FindLast_loop_finds [OF ns(1), of _ "[]" 0] by (simp add: FindLast_def)
  show ?thesis
  proof (cases "ns = []")
    case False
    then have "last (0 # ns) = ns ! (length ns - 1)" "ns ! (length ns - 1) \<noteq> 0" using okD(2) [OF ns(1)] by (simp_all add: last_conv_nth)
    then have "iter_SeekToLast s = Some (Some (ns ! (length ns - 1)))" using last by (simp add: iter_SeekToLast_def)
    moreover have "stands_at c good s ks (Some (ns ! (length ns - 1))) (length ks - 1)" using ns False by (auto simp: stands_at_def)
    ultimately show ?thesis by blast
  qed (use last ns in \<open>auto simp: iter_SeekToLast_def stands_at_def\<close>)
qed

end

section \<open>Refinement\<close>

text \<open>C17: The skip list refines a sorted list. \<^verbatim>\<open>Insert\<close> puts a new key behind the smaller ones and fails its assertion for a key that is there;
  \<^verbatim>\<open>Contains\<close> and \<^verbatim>\<open>Seek\<close> answer as a scan of the list does, whatever the heights of the nodes; no search fails to end.\<close>

theorem skiplist_refines_sorted_list:
  assumes "cmp_ok c" "\<And>a b. good a \<Longrightarrow> good b \<Longrightarrow> cmp a b = Some (c a b)" "holds c good s ks" "good key"
  shows "(case skip_Insert cmp key s of
      None \<Rightarrow> \<exists>k \<in> set ks. c k key = 0
    | Some s' \<Rightarrow> \<not> (\<exists>k \<in> set ks. c k key = 0) \<and>
        holds c good s' (takeWhile (\<lambda>k. c k key < 0) ks @ key # dropWhile (\<lambda>k. c k key < 0) ks)) \<and>
    skip_Contains cmp s key = Some (\<exists>k \<in> set ks. c k key = 0) \<and>
    (\<exists>it. iter_Seek cmp s key = Some it \<and> stands_at c good s ks it (keys_less c key ks))"
proof -
  have order: "skip_order c cmp good" by unfold_locales (use assms(1,2) in auto)
  show ?thesis
    using skip_order.holds_Insert [OF order assms(3,4)] skip_order.Insert_again [OF order assms(3,4)]
      skip_order.Contains_finds [OF order assms(3,4)] skip_order.Seek_finds [OF order assms(3,4)]
    by (cases "\<exists>k \<in> set ks. c k key = 0") auto
qed

lemma int_order: "cmp_ok (\<lambda>a b. a - b :: int)" "skip_order (\<lambda>a b. a - b) (\<lambda>a b. Some (a - b)) (\<lambda>_ :: int. True)"
  by (unfold_locales, auto simp: cmp_ok_def)

theorem skiplist_refines_sorted_list_witness:
  "(case skip_Insert (\<lambda>a b. Some (a - b)) (7 :: int) (SkipList 0) of
      None \<Rightarrow> False | Some s' \<Rightarrow> holds (\<lambda>a b. a - b) (\<lambda>_. True) s' [7]) \<and>
   skip_Contains (\<lambda>a b. Some (a - b)) (SkipList 0) (7 :: int) = Some False"
proof -
  have "holds (\<lambda>a b. a - b :: int) (\<lambda>_. True) (SkipList 0) []" using int_order(2) by (rule skip_order.holds_new)
  from skiplist_refines_sorted_list [OF int_order(1) _ this, of "\<lambda>a b. Some (a - b)" 7]
  show ?thesis by (auto split: option.splits)
qed

end
