(* ===== verification/Leveldb_Memtable_Props.thy ===== *)
theory Leveldb_Memtable_Props
  imports Leveldb_Batch_Props Leveldb_Key_Props Skiplist_Props
begin

text \<open>
  A memory table stands for a set of entries, and a lookup at a sequence number finds the newest entry of the key that is not newer than that
  number. So a table into which batches were inserted answers every lookup as the list of their updates does.
\<close>

section \<open>Entries\<close>

record mem_entry =
  e_key :: "byte list"
  e_seq :: u64
  e_type :: byte
  e_value :: "byte list"

definition entry_tag :: "mem_entry \<Rightarrow> u64" where
  "entry_tag e = push_bit 8 (e_seq e) OR ucast (e_type e)"

definition entry_octets :: "mem_entry \<Rightarrow> byte list" where
  "entry_octets e = slice_octets (e_key e @ EncodeFixed64 (entry_tag e)) @ slice_octets (e_value e)"

definition entry_fits :: "mem_entry \<Rightarrow> bool" where
  "entry_fits e \<longleftrightarrow> length (e_key e) + 8 < 2 ^ 32 \<and> length (e_value e) < 2 ^ 32 \<and> e_seq e \<le> kMaxSequenceNumber \<and> e_type e \<le> 1"

lemma entry_Pack: "entry_fits e \<Longrightarrow> PackSequenceAndType (e_seq e) (e_type e) = Some (entry_tag e)"
  by (simp add: PackSequenceAndType_def entry_fits_def entry_tag_def kValueTypeForSeek_def kTypeValue_def)

lemma entry_tag_parts:
  assumes "entry_fits e"
  shows "drop_bit 8 (entry_tag e) = e_seq e" "ucast (entry_tag e AND 0xff) = e_type e"
  using key_tag_parts [OF entry_Pack [OF assms]] by simp_all

text \<open>Tags are ordered by their sequence numbers.\<close>

lemma tag_mono:
  assumes "PackSequenceAndType s t = Some a" "PackSequenceAndType s' t' = Some b"
  shows "s < s' \<Longrightarrow> a < b" "t' = 1 \<Longrightarrow> a \<le> b \<longleftrightarrow> s \<le> s'"
proof -
  have val: "unat a = unat s * 256 + unat t \<and> unat t \<le> 1" if "PackSequenceAndType s t = Some a" for s t a
  proof -
    have le: "s \<le> kMaxSequenceNumber" "t \<le> 1" and a: "a = push_bit 8 s OR ucast t"
      using that by (auto simp: PackSequenceAndType_def kValueTypeForSeek_def kTypeValue_def split: if_splits)
    have "unat s < 2 ^ 56" using le(1) by (simp add: word_le_nat_alt kMaxSequenceNumber_def)
    moreover have "unat t \<le> 1" using le(2) by (simp add: word_le_nat_alt)
    moreover have "unat (ucast t :: u64) = unat t" by (simp add: unat_ucast_le)
    ultimately show ?thesis unfolding a by (subst unat_push_bit_or) auto
  qed
  show "s < s' \<Longrightarrow> a < b" using val [OF assms(1)] val [OF assms(2)] by (simp add: word_less_nat_alt)
  show "t' = 1 \<Longrightarrow> a \<le> b \<longleftrightarrow> s \<le> s'" using val [OF assms(1)] val [OF assms(2)] by (auto simp: word_le_nat_alt)
qed

section \<open>The order of the table\<close>

lemma memtable_slice_octets [simp]:
  assumes "length xs < 2 ^ 32"
  shows "memtable_slice (slice_octets xs @ rest) = Some (xs, rest)"
proof -
  define e where "e = EncodeVarint32 (word_of_nat (length xs))"
  have e: "length e \<le> 5" unfolding e_def EncodeVarint32_octets
    using unsigned_less [of "word_of_nat (length xs) :: u32", where ?'a = nat] by (intro length_varint_octets) auto
  define q where "q = take (5 - length e) (xs @ rest)"
  have "GetVarint32 (e @ q) = (Some (word_of_nat (length xs)), q)" by (simp add: e_def)
  then have get: "GetVarint32Ptr (e @ q) = Some (word_of_nat (length xs), q)" by (auto simp: GetVarint32_def split: option.splits)
  have data: "slice_octets xs @ rest = e @ (xs @ rest)" by (simp add: slice_octets_def e_def)
  have limit: "take 5 (e @ (xs @ rest)) = e @ q" using e by (simp add: q_def)
  have p: "drop (min 5 (length (e @ (xs @ rest))) - length q) (e @ (xs @ rest)) = xs @ rest" using e by (simp add: q_def)
  show ?thesis unfolding memtable_slice_def data limit get bind.bind_lunit prod.case p Let_def using assms by (simp add: unat_of_nat)
qed

definition slot_key :: "byte list \<Rightarrow> byte list" where
  "slot_key data = fst (the (memtable_slice data))"

definition slot_order :: "(byte list \<Rightarrow> byte list \<Rightarrow> int) \<Rightarrow> byte list \<Rightarrow> byte list \<Rightarrow> int" where
  "slot_order user a b = ik_order user (slot_key a) (slot_key b)"

definition slot_ok :: "byte list \<Rightarrow> bool" where
  "slot_ok data \<longleftrightarrow> (case memtable_slice data of None \<Rightarrow> False | Some (k, _) \<Rightarrow> is_internal k)"

lemma slot_skip_order:
  assumes "cmp_ok user"
  shows "skip_order (slot_order user) (KeyComparator user) slot_ok"
proof unfold_locales
  have "cmp_ok (ik_order user)" by (rule ik_order_ok [OF assms])
  then show "cmp_ok (slot_order user)" by (auto simp: cmp_ok_def slot_order_def)
  fix a b assume "slot_ok a" "slot_ok b"
  then show "KeyComparator user a b = Some (slot_order user a b)"
    by (auto simp: slot_ok_def KeyComparator_def slot_order_def slot_key_def InternalKey_Compare_eq split: option.splits)
qed

interpretation memtable: skip_order "slot_order Slice_compare" "KeyComparator Slice_compare" slot_ok
  by (rule slot_skip_order [OF slice_order.ok])

lemma entry_slot:
  assumes "entry_fits e"
  shows "slot_ok (entry_octets e)" "slot_key (entry_octets e) = e_key e @ EncodeFixed64 (entry_tag e)"
  using assms by (simp_all add: slot_ok_def slot_key_def entry_octets_def entry_fits_def)

section \<open>The table as a set of entries\<close>

definition mem_holds :: "(byte list \<Rightarrow> byte list \<Rightarrow> int) \<Rightarrow> memtable \<Rightarrow> mem_entry set \<Rightarrow> bool" where
  "mem_holds user m E \<longleftrightarrow> inj_on e_seq E \<and>
     (\<exists>es. holds (slot_order user) slot_ok m (map entry_octets es) \<and> set es = E \<and> list_all entry_fits es)"

lemma holds_sorted: "holds c good s ks \<Longrightarrow> sorted_wrt (\<lambda>a b. c a b < 0) ks"
  by (auto simp: holds_def skip_ok_def sorted_wrt_map)

definition entry_order :: "(byte list \<Rightarrow> byte list \<Rightarrow> int) \<Rightarrow> mem_entry \<Rightarrow> byte list \<Rightarrow> u64 \<Rightarrow> int" where
  "entry_order user e k tag =
     (let r = user (e_key e) k in if r = 0 then (if entry_tag e > tag then -1 else if entry_tag e < tag then 1 else 0) else r)"

lemma slot_order_entry:
  assumes "entry_fits e" "slot_key d = k @ EncodeFixed64 tag"
  shows "slot_order user (entry_octets e) d = entry_order user e k tag"
  using entry_slot [OF assms(1)] assms(2) by (simp add: slot_order_def ik_order_def entry_order_def Let_def)

lemma mem_holds_new: "cmp_ok user \<Longrightarrow> mem_holds user new_MemTable {}"
  unfolding mem_holds_def new_MemTable_def
  by (intro conjI exI [of _ "[]"]) (simp_all add: skip_order.holds_new [OF slot_skip_order])

lemma MemTable_Add_buffer:
  assumes "entry_fits e"
  shows "MemTable_Add user (e_seq e) (e_type e) (e_key e) (e_value e) m = skip_Insert (KeyComparator user) (entry_octets e) m"
proof -
  have n: "unat (word_of_nat n :: u64) = n" "unat (ucast (word_of_nat n :: u64) :: u32) = n" if "n < 2 ^ 32" for n
    using that by (simp_all add: unat_of_nat unsigned_ucast_eq take_bit_eq_mod)
  have len: "length (e_key e) + 8 < 2 ^ 32" "length (e_value e) < 2 ^ 32" using assms by (simp_all add: entry_fits_def)
  have u32: "unat (word_of_nat n :: u32) = n" if "n < 2 ^ 32" for n using that by (simp add: unat_of_nat)
  have "entry_octets e = varint_octets (length (e_key e) + 8) @ e_key e @ EncodeFixed64 (entry_tag e) @
      varint_octets (length (e_value e)) @ e_value e"
    using u32 [OF len(1)] u32 [OF len(2)] by (simp add: entry_octets_def slice_octets_def EncodeVarint32_octets)
  then show ?thesis
    unfolding MemTable_Add_def Let_def VarintLength_octets EncodeVarint32_octets n [OF len(1)] n [OF len(2)]
    by (simp add: entry_tag_def)
qed

lemma MemTable_Add_holds:
  assumes "cmp_ok user" "mem_holds user m E" "entry_fits e" "\<And>e'. e' \<in> E \<Longrightarrow> e_seq e' \<noteq> e_seq e"
  shows "\<exists>m'. MemTable_Add user (e_seq e) (e_type e) (e_key e) (e_value e) m = Some m' \<and> mem_holds user m' (insert e E)"
proof -
  obtain es where es: "holds (slot_order user) slot_ok m (map entry_octets es)" "set es = E" "list_all entry_fits es" "inj_on e_seq E"
    using assms(2) by (auto simp: mem_holds_def)
  let ?P = "\<lambda>d. slot_order user d (entry_octets e) < 0"
  have "slot_order user (entry_octets e') (entry_octets e) \<noteq> 0" if "e' \<in> E" for e'
  proof
    have fits: "entry_fits e'" using es(2,3) that by (auto simp: list_all_iff)
    assume "slot_order user (entry_octets e') (entry_octets e) = 0"
    then have "entry_tag e' = entry_tag e"
      using slot_order_entry [OF fits entry_slot(2) [OF assms(3)]] by (auto simp: entry_order_def Let_def split: if_splits)
    then have "e_seq e' = e_seq e" using entry_tag_parts(1) [OF fits] entry_tag_parts(1) [OF assms(3)] by simp
    then show False using assms(4) [OF that] by simp
  qed
  then have "\<not> (\<exists>d \<in> set (map entry_octets es). slot_order user d (entry_octets e) = 0)" using es(2) by auto
  from skip_order.holds_Insert [OF slot_skip_order [OF assms(1)] es(1) entry_slot(1) [OF assms(3)] this] obtain m' where
      m': "skip_Insert (KeyComparator user) (entry_octets e) m = Some m'"
      "holds (slot_order user) slot_ok m' (takeWhile ?P (map entry_octets es) @ entry_octets e # dropWhile ?P (map entry_octets es))" by blast
  define es' where "es' = takeWhile (?P \<circ> entry_octets) es @ e # dropWhile (?P \<circ> entry_octets) es"
  have "map entry_octets es' = takeWhile ?P (map entry_octets es) @ entry_octets e # dropWhile ?P (map entry_octets es)"
    by (simp add: es'_def takeWhile_map dropWhile_map)
  moreover have "set (takeWhile (?P \<circ> entry_octets) es) \<union> set (dropWhile (?P \<circ> entry_octets) es) = E"
    by (metis es(2) set_append takeWhile_dropWhile_id)
  then have "set es' = insert e E" by (simp add: es'_def)
  moreover from this have "list_all entry_fits es'" using es(2,3) assms(3) by (auto simp: list_all_iff)
  moreover have "inj_on e_seq (insert e E)" using es(4) assms(4) by (force simp: inj_on_def)
  ultimately show ?thesis using m' MemTable_Add_buffer [OF assms(3)] unfolding mem_holds_def by metis
qed

section \<open>Lookups\<close>

text \<open>The entries of a key that a reader at a sequence number sees.\<close>

definition visible :: "(byte list \<Rightarrow> byte list \<Rightarrow> int) \<Rightarrow> mem_entry set \<Rightarrow> byte list \<Rightarrow> u64 \<Rightarrow> mem_entry set" where
  "visible user E k s = {e \<in> E. user (e_key e) k = 0 \<and> e_seq e \<le> s}"

lemma LookupKey_parts:
  assumes "new_LookupKey k s = Some lk"
  obtains tag where "PackSequenceAndType s 1 = Some tag" "memtable_key lk = slice_octets (k @ EncodeFixed64 tag)" "lookup_user_key lk = k"
  using assms by (auto simp: new_LookupKey_def kValueTypeForSeek_def kTypeValue_def slice_octets_def split: bind_splits)

lemma visible_order:
  assumes "entry_fits e" "PackSequenceAndType s 1 = Some tag"
  shows "e \<in> visible user E k s \<longleftrightarrow> e \<in> E \<and> user (e_key e) k = 0 \<and> \<not> entry_order user e k tag < 0"
  using tag_mono(2) [OF entry_Pack [OF assms(1)] assms(2)] by (auto simp: visible_def entry_order_def Let_def)

lemma seek_entry:
  assumes "cmp_ok user" "mem_holds user m E" "new_LookupKey k s = Some lk" "length k + 8 < 2 ^ 32"
  obtains it where "iter_Seek (KeyComparator user) m (memtable_key lk) = Some it" "\<not> iter_Valid it" "visible user E k s = {}"
  | it e where "iter_Seek (KeyComparator user) m (memtable_key lk) = Some it" "iter_Valid it" "iter_key m it = Some (entry_octets e)"
      "e \<in> E" "user (e_key e) k \<noteq> 0" "visible user E k s = {}"
  | it e where "iter_Seek (KeyComparator user) m (memtable_key lk) = Some it" "iter_Valid it" "iter_key m it = Some (entry_octets e)"
      "e \<in> visible user E k s" "\<And>e'. e' \<in> visible user E k s \<Longrightarrow> e_seq e' \<le> e_seq e"
proof -
  obtain es where es: "holds (slot_order user) slot_ok m (map entry_octets es)" "set es = E" "list_all entry_fits es"
    using assms(2) by (auto simp: mem_holds_def)
  have fits: "entry_fits e" if "e \<in> E" for e using that es(2,3) by (auto simp: list_all_iff)
  obtain tag where tag: "PackSequenceAndType s 1 = Some tag" "memtable_key lk = slice_octets (k @ EncodeFixed64 tag)"
    using LookupKey_parts [OF assms(3)] by metis
  define d where "d = memtable_key lk"
  have "memtable_slice d = Some (k @ EncodeFixed64 tag, [])"
    using memtable_slice_octets [of "k @ EncodeFixed64 tag" "[]"] assms(4) by (simp add: d_def tag(2))
  then have d: "slot_ok d" "slot_key d = k @ EncodeFixed64 tag" by (simp_all add: slot_ok_def slot_key_def)
  note order = skip_order.Seek_finds [OF slot_skip_order [OF assms(1)] es(1) d(1)]
  define i where "i = keys_less (slot_order user) d (map entry_octets es)"
  obtain it where it: "iter_Seek (KeyComparator user) m d = Some it" "stands_at (slot_order user) slot_ok m (map entry_octets es) it i"
    using order by (auto simp: i_def)
  have split: "i = length (takeWhile (\<lambda>e. entry_order user e k tag < 0) es)"
  proof -
    have "takeWhile (\<lambda>e. slot_order user (entry_octets e) d < 0) es = takeWhile (\<lambda>e. entry_order user e k tag < 0) es"
      using es(2) slot_order_entry [OF fits d(2)] by (intro takeWhile_cong) auto
    then show ?thesis by (simp add: i_def keys_less_def takeWhile_map comp_def)
  qed
  have before: "entry_order user (es ! j) k tag < 0" if "j < i" for j
    using that nth_mem [of j "takeWhile (\<lambda>e. entry_order user e k tag < 0) es"] takeWhile_nth [of j "\<lambda>e. entry_order user e k tag < 0" es]
    unfolding split by (auto dest: set_takeWhileD)
  have seen: "\<exists>j. i \<le> j \<and> j < length es \<and> e = es ! j" if "e \<in> visible user E k s" for e
  proof -
    have e: "e \<in> E" "\<not> entry_order user e k tag < 0" using that visible_order [OF fits tag(1)] by (auto simp: visible_def)
    then obtain j where "j < length es" "e = es ! j" using es(2) by (auto simp: in_set_conv_nth)
    then show ?thesis using before [of j] e(2) by (intro exI [of _ j]) (auto simp: not_less [symmetric])
  qed
  show thesis
  proof (cases "i < length es")
    case False
    then have "\<not> iter_Valid it" using skip_order.stands_end [OF slot_skip_order [OF assms(1)] it(2)] by simp
    moreover have "visible user E k s = {}" using seen False by fastforce
    ultimately show thesis using that(1) it(1) by (simp add: d_def)
  next
    case True
    define e where "e = es ! i"
    have e: "e \<in> E" using True es(2) by (auto simp: e_def)
    have at: "iter_Valid it" "iter_key m it = Some (entry_octets e)"
      using skip_order.stands_key [OF slot_skip_order [OF assms(1)] it(2)] True by (simp_all add: e_def)
    have ge: "\<not> entry_order user e k tag < 0" using True nth_length_takeWhile [of "\<lambda>e. entry_order user e k tag < 0" es] by (simp add: split e_def)
    have later: "entry_order user e (e_key e') (entry_tag e') < 0" if "e' \<in> visible user E k s" "e' \<noteq> e" for e'
    proof -
      note seen = seen [OF that(1)]
      then obtain j where j: "i \<le> j" "j < length es" "e' = es ! j" by blast
      then have "i < j" using that(2) by (cases "i = j") (auto simp: e_def)
      then have "slot_order user (entry_octets e) (entry_octets e') < 0"
        using holds_sorted [OF es(1)] j by (simp add: sorted_wrt_iff_nth_less e_def)
      moreover have "entry_fits e'" using j(2,3) es(3) by (auto simp: list_all_length)
      ultimately show ?thesis using slot_order_entry [OF fits [OF e] entry_slot(2)] by simp
    qed
    have c: "comparator user" using assms(1) by (simp add: comparator_def)
    show thesis
    proof (cases "user (e_key e) k = 0")
      case True
      then have "e \<in> visible user E k s" using visible_order [OF fits [OF e] tag(1)] e ge by simp
      moreover have "e_seq e' \<le> e_seq e" if e': "e' \<in> visible user E k s" for e'
      proof (cases "e' = e")
        case False
        have "user (e_key e') k = 0" "e' \<in> E" using e' by (simp_all add: visible_def)
        then have "user (e_key e) (e_key e') = 0"
          using True comparator.eq_sym [OF c] comparator.eq_trans [OF c, of "e_key e" k "e_key e'"] by simp
        then have "entry_tag e' < entry_tag e" using later [OF e' False] by (simp add: entry_order_def split: if_splits)
        then show ?thesis
          using tag_mono(1) [OF entry_Pack [OF fits [OF e]] entry_Pack [OF fits [OF \<open>e' \<in> E\<close>]]] by (meson not_le order.asym)
      qed simp
      ultimately show thesis using that(3) it(1) at by (simp add: d_def)
    next
      case False
      have "e' \<notin> visible user E k s" for e'
      proof
        assume e': "e' \<in> visible user E k s"
        then have "user (e_key e') k = 0" by (simp add: visible_def)
        moreover from this have "user (e_key e) (e_key e') \<le> 0"
          using later [OF e'] False by (cases "e' = e") (auto simp: entry_order_def Let_def split: if_splits)
        ultimately have "user (e_key e) k \<le> 0" using comparator.le_trans [OF c, of "e_key e" "e_key e'" k] by simp
        then show False using ge False by (simp add: entry_order_def)
      qed
      then have "visible user E k s = {}" by blast
      then show thesis using that(2) it(1) at e False by (simp add: d_def)
    qed
  qed
qed

lemma entry_slices:
  assumes "entry_fits e"
  shows "memtable_slice (entry_octets e) = Some (e_key e @ EncodeFixed64 (entry_tag e), slice_octets (e_value e))"
    "memtable_slice (slice_octets (e_value e)) = Some (e_value e, [])"
  using assms memtable_slice_octets [of "e_value e" "[]"] by (simp_all add: entry_octets_def entry_fits_def)

lemma MemTable_Get_finds:
  assumes "cmp_ok user" "mem_holds user m E" "new_LookupKey k s = Some lk" "length k + 8 < 2 ^ 32"
  shows "visible user E k s = {} \<Longrightarrow> MemTable_Get user m lk v st = Some (False, v, st)"
    "e \<in> visible user E k s \<Longrightarrow> (\<And>e'. e' \<in> visible user E k s \<Longrightarrow> e_seq e' \<le> e_seq e) \<Longrightarrow>
      MemTable_Get user m lk v st = Some (if e_type e = kTypeValue then (True, e_value e, st) else (True, v, NotFound []))"
proof -
  have fits: "entry_fits e" if "e \<in> E" for e using that assms(2) by (auto simp: mem_holds_def list_all_iff)
  have lk: "lookup_user_key lk = k" by (rule LookupKey_parts [OF assms(3)])
  have at: "MemTable_Get user m lk v st = Some
      (if user (e_key e) k = 0 then if e_type e = kTypeValue then (True, e_value e, st) else (True, v, NotFound []) else (False, v, st))"
    if it: "iter_Seek (KeyComparator user) m (memtable_key lk) = Some it" "iter_Valid it" "iter_key m it = Some (entry_octets e)" "e \<in> E" for it e
  proof -
    have "e_type e \<le> 1" using fits [OF it(4)] by (simp add: entry_fits_def)
    then have "e_type e = kTypeValue \<or> e_type e = kTypeDeletion"
      unfolding kTypeValue_def kTypeDeletion_def word_le_nat_alt word_unat_eq_iff by auto
    then show ?thesis
      using entry_slices [OF fits [OF it(4)]] entry_tag_parts(2) [OF fits [OF it(4)]] DecodeFixed64_Encode [of "entry_tag e" "[]"]
      by (auto simp: MemTable_Get_def it(1,2,3) lk ExtractUserKey_def Let_def)
  qed
  show "visible user E k s = {} \<Longrightarrow> MemTable_Get user m lk v st = Some (False, v, st)"
  proof (rule seek_entry [OF assms])
    fix it e
    assume "iter_Seek (KeyComparator user) m (memtable_key lk) = Some it" "iter_Valid it" "iter_key m it = Some (entry_octets e)" "e \<in> E"
      "user (e_key e) k \<noteq> 0"
    then show ?thesis using at by simp
  qed (auto simp: MemTable_Get_def)
  assume e: "e \<in> visible user E k s" "\<And>e'. e' \<in> visible user E k s \<Longrightarrow> e_seq e' \<le> e_seq e"
  show "MemTable_Get user m lk v st = Some (if e_type e = kTypeValue then (True, e_value e, st) else (True, v, NotFound []))"
  proof (rule seek_entry [OF assms])
    fix it f
    assume it: "iter_Seek (KeyComparator user) m (memtable_key lk) = Some it" "iter_Valid it" "iter_key m it = Some (entry_octets f)"
      and f: "f \<in> visible user E k s" "\<And>e'. e' \<in> visible user E k s \<Longrightarrow> e_seq e' \<le> e_seq f"
    have "f \<in> E" "user (e_key f) k = 0" using f(1) by (simp_all add: visible_def)
    moreover have "e_seq e = e_seq f" using e f by (intro order.antisym) auto
    then have "f = e" using assms(2) e(1) f(1) by (auto simp: mem_holds_def visible_def dest: inj_onD)
    ultimately show ?thesis using at [OF it] by simp
  qed (use e(1) in auto)
qed

end
