(* ===== verification/Leveldb_Snapshot.thy ===== *)
theory Leveldb_Snapshot
  imports Leveldb_Memtable_Props
begin

text \<open>
  Batches in a memory table: the updates of a batch become entries with consecutive sequence numbers, and a lookup at a sequence number
  answers as the updates up to that number do.
\<close>

section \<open>The entries of updates\<close>

fun op_entry :: "u64 \<Rightarrow> batch_op \<Rightarrow> mem_entry" where
  "op_entry s (Put_op k v) = \<lparr>e_key = k, e_seq = s, e_type = kTypeValue, e_value = v\<rparr>"
| "op_entry s (Delete_op k) = \<lparr>e_key = k, e_seq = s, e_type = kTypeDeletion, e_value = []\<rparr>"

fun entries_of :: "u64 \<Rightarrow> batch_op list \<Rightarrow> mem_entry list" where
  "entries_of s [] = []"
| "entries_of s (u # us) = op_entry s u # entries_of (s + 1) us"

text \<open>Sequence numbers from \<open>s\<close> on, for \<open>n\<close> updates, are within the range.\<close>

definition seq_room :: "u64 \<Rightarrow> nat \<Rightarrow> bool" where
  "seq_room s n \<longleftrightarrow> unat s + n \<le> 2 ^ 56"

lemma seq_roomD:
  assumes "seq_room s n"
  shows "j < n \<Longrightarrow> s + word_of_nat j \<le> kMaxSequenceNumber" "j \<le> n \<Longrightarrow> unat (s + word_of_nat j) = unat s + j"
proof -
  show plus: "unat (s + word_of_nat j) = unat s + j" if "j \<le> n" for j
    using assms that by (simp add: seq_room_def unat_word_ariths unat_of_nat)
  assume "j < n"
  then show "s + word_of_nat j \<le> kMaxSequenceNumber" using assms plus [of j] by (simp add: seq_room_def word_le_nat_alt kMaxSequenceNumber_def)
qed

lemma seq_room_Suc: "seq_room s (Suc n) \<Longrightarrow> seq_room (s + 1) n"
  using seq_roomD(2) [of s "Suc n" 1] by (simp add: seq_room_def)

lemma op_entry_simps [simp]: "e_seq (op_entry s u) = s" "e_key (op_entry s u) = (case u of Put_op k v \<Rightarrow> k | Delete_op k \<Rightarrow> k)"
  by (cases u; simp)+

lemma op_entry_fits: "op_fits u \<Longrightarrow> s \<le> kMaxSequenceNumber \<Longrightarrow> entry_fits (op_entry s u)"
  by (cases u) (simp_all add: entry_fits_def kTypeValue_def kTypeDeletion_def)

lemma entries_of_nth: "j < length us \<Longrightarrow> entries_of s us ! j = op_entry (s + word_of_nat j) (us ! j)"
  by (induction us arbitrary: s j) (auto simp: nth_Cons' less_Suc_eq_0_disj of_nat_diff add.assoc split: nat.splits)

lemma length_entries_of [simp]: "length (entries_of s us) = length us"
  by (induction us arbitrary: s) auto

lemma entries_of_append: "entries_of s (us @ vs) = entries_of s us @ entries_of (s + word_of_nat (length us)) vs"
  by (induction us arbitrary: s) (auto simp: add.assoc)

lemma set_entries_of: "set (entries_of s us) = {op_entry (s + word_of_nat j) (us ! j) | j. j < length us}"
  unfolding set_conv_nth length_entries_of by (rule Collect_cong, rule iff_exI) (auto simp: entries_of_nth)

text \<open>All sequence numbers of the table are below the next one.\<close>

definition table_upto :: "(byte list \<Rightarrow> byte list \<Rightarrow> int) \<Rightarrow> memtable \<Rightarrow> mem_entry set \<Rightarrow> u64 \<Rightarrow> bool" where
  "table_upto user m E s \<longleftrightarrow> mem_holds user m E \<and> (\<forall>e \<in> E. e_seq e < s)"

lemma inserter_adds:
  assumes "cmp_ok user" "table_upto user m E s" "op_fits u" "seq_room s (Suc n)"
  shows "\<exists>m'. (case u of Put_op k v \<Rightarrow> inserter_Put user k v | Delete_op k \<Rightarrow> inserter_Delete user k) \<lparr>ins_sequence = s, ins_mem = m\<rparr> =
      Some \<lparr>ins_sequence = s + 1, ins_mem = m'\<rparr> \<and> table_upto user m' (insert (op_entry s u) E) (s + 1)"
proof -
  have le: "s \<le> kMaxSequenceNumber" "unat (s + 1) = unat s + 1" using seq_roomD [OF assms(4), of 0] seq_roomD [OF assms(4), of 1] by simp_all
  obtain m' where m': "MemTable_Add user s (e_type (op_entry s u)) (e_key (op_entry s u)) (e_value (op_entry s u)) m = Some m'"
      "mem_holds user m' (insert (op_entry s u) E)"
    using MemTable_Add_holds [OF assms(1) _ op_entry_fits [OF assms(3) le(1)], of m E] assms(2) by (auto simp: table_upto_def)
  have "\<forall>e \<in> insert (op_entry s u) E. e_seq e < s + 1" using assms(2) le(2) by (auto simp: table_upto_def word_less_nat_alt)
  then show ?thesis using m' by (cases u) (auto simp: inserter_Put_def inserter_Delete_def table_upto_def)
qed

lemma replay_inserts:
  assumes "cmp_ok user" "table_upto user m E s" "list_all op_fits us" "seq_room s (length us)"
  shows "\<exists>m'. replay (inserter_Put user) (inserter_Delete user) us \<lparr>ins_sequence = s, ins_mem = m\<rparr> =
      Some \<lparr>ins_sequence = s + word_of_nat (length us), ins_mem = m'\<rparr> \<and>
    table_upto user m' (E \<union> set (entries_of s us)) (s + word_of_nat (length us))"
  using assms(2,3,4)
proof (induction us arbitrary: m E s)
  case (Cons u us)
  obtain m1 where m1: "(case u of Put_op k v \<Rightarrow> inserter_Put user k v | Delete_op k \<Rightarrow> inserter_Delete user k) \<lparr>ins_sequence = s, ins_mem = m\<rparr> =
      Some \<lparr>ins_sequence = s + 1, ins_mem = m1\<rparr>" "table_upto user m1 (insert (op_entry s u) E) (s + 1)"
    using inserter_adds [OF assms(1) Cons.prems(1), of u "length us"] Cons.prems(2,3) by auto
  from Cons.IH [OF m1(2)] Cons.prems(2,3) seq_room_Suc [of s "length us"] obtain m' where
    "replay (inserter_Put user) (inserter_Delete user) us \<lparr>ins_sequence = s + 1, ins_mem = m1\<rparr> =
       Some \<lparr>ins_sequence = s + 1 + word_of_nat (length us), ins_mem = m'\<rparr>"
    "table_upto user m' (insert (op_entry s u) E \<union> set (entries_of (s + 1) us)) (s + 1 + word_of_nat (length us))" by auto
  then show ?case using m1(1) by (cases u) (simp_all add: add.assoc)
qed simp

lemma InsertInto_inserts:
  assumes "cmp_ok user" "table_upto user m E s" "is_batch rep s us" "list_all op_fits us" "seq_room s (length us)"
  shows "\<exists>m'. InsertInto user rep m = Some (OK, m') \<and> table_upto user m' (E \<union> set (entries_of s us)) (s + word_of_nat (length us))"
proof -
  obtain m' where "replay (inserter_Put user) (inserter_Delete user) us \<lparr>ins_sequence = s, ins_mem = m\<rparr> =
      Some \<lparr>ins_sequence = s + word_of_nat (length us), ins_mem = m'\<rparr>"
      "table_upto user m' (E \<union> set (entries_of s us)) (s + word_of_nat (length us))"
    using replay_inserts [OF assms(1,2,4,5)] by blast
  then show ?thesis
    by (intro exI [of _ m'] conjI) (simp_all add: InsertInto_def Iterate_replays [OF assms(3,4)] batch_header(1) [OF assms(3)])
qed

section \<open>Snapshots\<close>

definition op_key :: "batch_op \<Rightarrow> byte list" where
  "op_key u = (case u of Put_op k v \<Rightarrow> k | Delete_op k \<Rightarrow> k)"

text \<open>The newest update of a key, and what a lookup makes of it.\<close>

definition newest :: "(byte list \<Rightarrow> byte list \<Rightarrow> int) \<Rightarrow> byte list \<Rightarrow> batch_op list \<Rightarrow> batch_op option" where
  "newest user k us = fold (\<lambda>u r. if user (op_key u) k = 0 then Some u else r) us None"

fun lookup_answer :: "batch_op option \<Rightarrow> byte list \<Rightarrow> status \<Rightarrow> bool \<times> byte list \<times> status" where
  "lookup_answer None v st = (False, v, st)"
| "lookup_answer (Some (Put_op _ w)) v st = (True, w, st)"
| "lookup_answer (Some (Delete_op _)) v st = (True, v, NotFound [])"

lemma newest_snoc [simp]: "newest user k [] = None"
  "newest user k (us @ [u]) = (if user (op_key u) k = 0 then Some u else newest user k us)"
  by (simp_all add: newest_def)

lemma newest_cases:
  obtains "newest user k us = None" "\<And>j. j < length us \<Longrightarrow> user (op_key (us ! j)) k \<noteq> 0"
  | i where "newest user k us = Some (us ! i)" "i < length us" "user (op_key (us ! i)) k = 0"
      "\<And>j. i < j \<Longrightarrow> j < length us \<Longrightarrow> user (op_key (us ! j)) k \<noteq> 0"
proof (induction us arbitrary: thesis rule: rev_induct)
  case (snoc u us)
  show ?case
  proof (cases "user (op_key u) k = 0")
    case True
    then show ?thesis by (intro snoc.prems(2) [of "length us"]) (auto simp: nth_append)
  next
    case False
    show ?thesis
    proof (rule snoc.IH)
      assume "newest user k us = None" "\<And>j. j < length us \<Longrightarrow> user (op_key (us ! j)) k \<noteq> 0"
      then show ?thesis using False by (intro snoc.prems(1)) (auto simp: nth_append less_Suc_eq)
    next
      fix i
      assume "newest user k us = Some (us ! i)" "i < length us" "user (op_key (us ! i)) k = 0"
        "\<And>j. i < j \<Longrightarrow> j < length us \<Longrightarrow> user (op_key (us ! j)) k \<noteq> 0"
      then show ?thesis using False by (intro snoc.prems(2) [of i]) (auto simp: nth_append less_Suc_eq)
    qed
  qed
qed simp

lemma Get_snapshot:
  assumes "cmp_ok user" "mem_holds user m (set (entries_of s0 us))" "seq_room s0 (length us)"
    "new_LookupKey k s = Some lk" "length k + 8 < 2 ^ 32"
  shows "MemTable_Get user m lk v st = Some (lookup_answer (newest user k (take (unat s + 1 - unat s0) us)) v st)"
proof -
  define n where "n = min (unat s + 1 - unat s0) (length us)"
  have take: "take (unat s + 1 - unat s0) us = take n us" by (simp add: n_def min_def)
  have visible: "visible user (set (entries_of s0 us)) k s = {op_entry (s0 + word_of_nat j) (us ! j) | j. j < n \<and> user (op_key (us ! j)) k = 0}"
  proof -
    have "s0 + word_of_nat j \<le> s \<longleftrightarrow> j < n" if "j < length us" for j
      using seq_roomD(2) [OF assms(3), of j] that by (auto simp: word_le_nat_alt n_def)
    then show ?thesis by (auto simp: visible_def set_entries_of op_key_def n_def)
  qed
  note get = MemTable_Get_finds [OF assms(1,2,4,5)]
  have "MemTable_Get user m lk v st = Some (lookup_answer (newest user k (take n us)) v st)"
  proof (rule newest_cases [of user k "take n us"])
    assume none: "newest user k (take n us) = None" "\<And>j. j < length (take n us) \<Longrightarrow> user (op_key (take n us ! j)) k \<noteq> 0"
    then have "visible user (set (entries_of s0 us)) k s = {}" unfolding visible by (auto simp: n_def)
    then show ?thesis using get(1) none(1) by simp
  next
    fix i
    assume i: "newest user k (take n us) = Some (take n us ! i)" "i < length (take n us)" "user (op_key (take n us ! i)) k = 0"
      and later: "\<And>j. i < j \<Longrightarrow> j < length (take n us) \<Longrightarrow> user (op_key (take n us ! j)) k \<noteq> 0"
    then have i': "i < n" "i < length us" "n \<le> length us" "user (op_key (us ! i)) k = 0" by (simp_all add: n_def)
    have le: "s0 + word_of_nat j \<le> s0 + word_of_nat i" if "j < n" "user (op_key (us ! j)) k = 0" for j
    proof -
      have "j \<le> i" using later [of j] that i'(3) by (fastforce simp: not_le [symmetric])
      then show ?thesis using seq_roomD(2) [OF assms(3)] i'(2) by (simp add: word_le_nat_alt)
    qed
    have "op_entry (s0 + word_of_nat i) (us ! i) \<in> visible user (set (entries_of s0 us)) k s" unfolding visible using i' by blast
    moreover have "e_seq e \<le> e_seq (op_entry (s0 + word_of_nat i) (us ! i))" if "e \<in> visible user (set (entries_of s0 us)) k s" for e
      using that le unfolding visible by auto
    ultimately have
      "MemTable_Get user m lk v st = Some (if e_type (op_entry (s0 + word_of_nat i) (us ! i)) = kTypeValue
         then (True, e_value (op_entry (s0 + word_of_nat i) (us ! i)), st) else (True, v, NotFound []))" by (rule get(2))
    then show ?thesis using i(1) i'(1) by (cases "us ! i") (simp_all add: kTypeValue_def kTypeDeletion_def)
  qed
  then show ?thesis unfolding take .
qed

end
