(* ===== verification/Leveldb_Log_Props.thy ===== *)
theory Leveldb_Log_Props
  imports Leveldb_Log "HOL-Library.Sublist"
begin

text \<open>
  What the log promises: a layout of the bytes for a sequence of records, the writer produces it under any failures of its file (\<open>AddRecord_loop_appends\<close>),
  and the reader takes it apart again, up to the place where the file ends (\<open>ReadRecord_loop_layout\<close>, \<open>ReadRecord_loop_torn\<close>).
\<close>

section \<open>The layout of the log\<close>

text \<open>
  A position is the number of bytes before it. \<open>padding\<close> is the number of zeros that end the block there, and \<open>avail_at\<close> the room
  for payload behind the zeros and a header.
\<close>

definition physical_record :: "u32 \<Rightarrow> byte list \<Rightarrow> byte list" where
  "physical_record t payload =
     le32 (crc32c_Mask (crc32c 0 (ucast t # payload))) @
     [word_of_nat (length payload mod 256), word_of_nat (length payload div 256), ucast t] @ payload"

definition padding :: "nat \<Rightarrow> nat" where
  "padding pos = (let left = 32768 - pos mod 32768 in if left < 7 then left else 0)"

definition avail_at :: "nat \<Rightarrow> nat" where
  "avail_at pos = 32768 - (pos + padding pos) mod 32768 - 7"

lemma padding_cases:
  obtains (pad) "padding pos > 0" "padding pos < 7" "pos mod 32768 + padding pos = 32768" "(pos + padding pos) mod 32768 = 0"
    | (no_pad) "padding pos = 0" "pos mod 32768 + 7 \<le> 32768"
proof (cases "32768 - pos mod 32768 < 7")
  case True
  moreover have "pos mod 32768 < 32768" by simp
  ultimately have "padding pos > 0" "padding pos < 7" "pos mod 32768 + padding pos = 32768" by (auto simp: padding_def)
  moreover from this(3) have "(pos + padding pos) mod 32768 = 0" by (metis mod_add_left_eq mod_self)
  ultimately show ?thesis by (rule that(1))
next
  case False
  then show ?thesis using that(2) by (auto simp: padding_def)
qed

lemma header_fits: "(pos + padding pos) mod 32768 + 7 + avail_at pos = 32768"
  by (cases pos rule: padding_cases) (auto simp: avail_at_def)

lemma avail_zero:
  assumes "avail_at pos = 0"
  shows "padding pos = 0" "(pos + 7) mod 32768 = 0"
proof -
  show p: "padding pos = 0" using header_fits [of pos] assms by (cases pos rule: padding_cases) auto
  have "pos mod 32768 + 7 = 32768" using header_fits [of pos] assms p by simp
  then show "(pos + 7) mod 32768 = 0" by (metis mod_add_left_eq mod_self)
qed

lemma block_end: "(pos + padding pos + 7 + avail_at pos) mod 32768 = 0"
proof -
  have sum: "(pos + padding pos) mod 32768 + (7 + avail_at pos) = 32768" using header_fits [of pos] by linarith
  have "((pos + padding pos) mod 32768 + (7 + avail_at pos)) mod 32768 = 0" unfolding sum by (rule mod_self)
  then show ?thesis by (simp only: mod_add_left_eq add.assoc)
qed

lemma block_start:
  assumes "pos mod 32768 = 0"
  shows "padding pos = 0" "avail_at pos = 32761"
  using assms by (simp_all add: padding_def avail_at_def)

function log_layout :: "nat \<Rightarrow> bool \<Rightarrow> byte list \<Rightarrow> byte list" where
  "log_layout pos begins data =
     (let n = min (length data) (avail_at pos);
          bytes = replicate (padding pos) 0 @ physical_record (fragment_type begins (length data = n)) (take n data)
      in if length data = n then bytes else bytes @ log_layout (pos + padding pos + 7 + n) False (drop n data))"
  by pat_completeness auto
termination
proof (relation "measures [\<lambda>(_, _, data). length data, \<lambda>(pos, _, _). if avail_at pos = 0 then 1 else 0]", goal_cases)
  case (2 pos begins data n bytes)
  then show ?case using avail_zero [of pos] block_start [of "pos + 7"] by (cases "avail_at pos = 0") auto
qed simp

declare log_layout.simps [simp del]

lemma length_physical_record [simp]: "length (physical_record t payload) = 7 + length payload"
  by (simp add: physical_record_def le32_def)

section \<open>The writer produces the layout\<close>

lemma crc32c_concat: "crc32c (crc32c crc d) e = crc32c crc (d @ e)"
  by (simp add: crc32c_def)

lemma Value_type_crc:
  assumes "t \<le> kMaxRecordType"
  shows "InitTypeCrc ! unat t = crc32c 0 [ucast t]"
proof -
  have "unat t < Suc (unat kMaxRecordType)" using assms by (simp add: word_le_nat_alt)
  then show ?thesis by (simp add: InitTypeCrc_def crc32c_Value_def nth_append del: upt_Suc)
qed

text \<open>What a call leaves in the file, and how its status tells whether all of it arrived.\<close>

definition appends :: "writable_file \<Rightarrow> byte list \<Rightarrow> status \<times> writable_file \<Rightarrow> bool" where
  "appends f d = (\<lambda>(s, f').
     (\<exists>b. wf_contents f' = wf_contents f @ b \<and> prefix b d \<and> (s = OK \<longrightarrow> b = d)) \<and>
     (wf_faults f = [] \<longrightarrow> s = OK \<and> wf_faults f' = []))"

lemma appends_Append: "appends f d (wf_Append f d)"
  by (auto simp: appends_def wf_Append_def take_is_prefix split: list.splits option.splits prod.splits)

lemma appends_both: "appends f d (OK, f1) \<Longrightarrow> appends f1 e (s, f2) \<Longrightarrow> appends f (d @ e) (s, f2)"
  by (fastforce simp: appends_def)

lemma appends_stop: "appends f d (s, f1) \<Longrightarrow> s \<noteq> OK \<Longrightarrow> appends f (d @ e) (s, f1)"
  by (fastforce simp: appends_def)

lemma appends_OK: "appends f d (OK, f1) \<Longrightarrow> wf_contents f1 = wf_contents f @ d"
  by (auto simp: appends_def)

lemma Emit_appends:
  assumes "type_crc w = InitTypeCrc" "t \<le> kMaxRecordType" "0 \<le> block_offset w" "block_offset w + 7 + int (length payload) \<le> 32768"
  shows "\<exists>s f. EmitPhysicalRecord w t payload =
      Some (s, w\<lparr>dest := f, block_offset := block_offset w + 7 + int (length payload)\<rparr>) \<and>
    appends (dest w) (physical_record t payload) (s, f)"
proof -
  let ?buf = "EncodeFixed32 (crc32c_Mask (crc32c 0 (ucast t # payload))) @
    [word_of_nat (length payload mod 256), word_of_nat (length payload div 256), ucast t]"
  have layout: "physical_record t payload = ?buf @ payload @ []" by (simp add: physical_record_def Encode_le)
  obtain s1 f1 where 1: "wf_Append (dest w) ?buf = (s1, f1)" by fastforce
  obtain s2 f2 where 2: "wf_Append f1 payload = (s2, f2)" by fastforce
  obtain s3 f3 where 3: "wf_Append f2 [] = (s3, f3)" by fastforce
  note app = appends_Append [of "dest w" ?buf, unfolded 1] appends_Append [of f1 payload, unfolded 2] appends_Append [of f2 "[]", unfolded 3]
  have "length payload \<le> 65535" using assms(3,4) by linarith
  then have emit: "EmitPhysicalRecord w t payload = Some (s, w\<lparr>dest := f, block_offset := block_offset w + 7 + int (length payload)\<rparr>)"
    if "(s, f) = (if s1 = OK then if s2 = OK then (s3, f3) else (s2, f2) else (s1, f1))" for s f
    using assms(4) that
    by (simp add: EmitPhysicalRecord_def Value_type_crc [OF assms(2)] assms(1) crc32c_concat 1 2 3 wf_Flush_def Let_def split: if_splits)
  consider "s1 \<noteq> OK" | "s1 = OK" "s2 \<noteq> OK" | "s1 = OK" "s2 = OK" by blast
  then show ?thesis
  proof cases
    case 1
    then show ?thesis using emit [of s1 f1] appends_stop [OF app(1)] unfolding layout by auto
  next
    case 2
    then show ?thesis using emit [of s2 f2] appends_both [OF app(1) [unfolded 2(1)] appends_stop [OF app(2), of "[]"]] unfolding layout by auto
  next
    case 3
    then show ?thesis
      using emit [of s3 f3] appends_both [OF app(1) [unfolded 3(1)] appends_both [OF app(2) [unfolded 3(2)] app(3)]] unfolding layout by auto
  qed
qed

text \<open>The writer is at position \<open>pos\<close> of the log.\<close>

definition writer_at :: "log_writer \<Rightarrow> nat \<Rightarrow> bool" where
  "writer_at w pos \<longleftrightarrow> type_crc w = InitTypeCrc \<and> 0 \<le> block_offset w \<and> block_offset w \<le> 32768 \<and>
     block_offset w mod 32768 = int (pos mod 32768)"

text \<open>The status of the zeros that end a block is ignored; where they are due, the next call must not fail.\<close>

definition padding_written :: "log_writer \<Rightarrow> nat \<Rightarrow> bool" where
  "padding_written w pos \<longleftrightarrow> padding pos = 0 \<or> wf_faults (dest w) = [] \<or> hd (wf_faults (dest w)) = None"

lemma new_block_appends:
  assumes "writer_at w pos"
  shows "padding_written w pos \<Longrightarrow> appends (dest w) (replicate (padding pos) 0) (OK, dest (log_new_block w))"
    "block_offset (log_new_block w) = int ((pos + padding pos) mod 32768)"
    "type_crc (log_new_block w) = InitTypeCrc"
proof -
  show "type_crc (log_new_block w) = InitTypeCrc" using assms(1) by (simp add: log_new_block_def writer_at_def Let_def)
  have off: "0 \<le> block_offset w" "block_offset w \<le> 32768" "block_offset w mod 32768 = int (pos mod 32768)"
    using assms(1) by (simp_all add: writer_at_def)
  have unchanged: "appends (dest w) [] (OK, dest w)" by (simp add: appends_def)
  have "(padding_written w pos \<longrightarrow> appends (dest w) (replicate (padding pos) 0) (OK, dest (log_new_block w))) \<and>
    block_offset (log_new_block w) = int ((pos + padding pos) mod 32768)"
  proof (cases "block_offset w = 32768")
    case True
    then have "pos mod 32768 = 0" using off(3) by simp
    then show ?thesis using True unchanged by (simp add: log_new_block_def Let_def block_start)
  next
    case False
    then have b: "block_offset w = int (pos mod 32768)" using off by simp
    show ?thesis
    proof (cases pos rule: padding_cases)
      case pad
      have "fst (wf_Append (dest w) (replicate (padding pos) 0)) = OK" if "padding_written w pos"
        using that pad(1) by (auto simp: padding_written_def wf_Append_def split: list.splits option.splits)
      then have "padding_written w pos \<Longrightarrow> appends (dest w) (replicate (padding pos) 0) (OK, snd (wf_Append (dest w) (replicate (padding pos) 0)))"
        using appends_Append [of "dest w" "replicate (padding pos) 0"] by (metis prod.collapse)
      moreover have "int 32768 - block_offset w = int (padding pos)" using b pad(3) by linarith
      ultimately show ?thesis using pad by (simp add: log_new_block_def Let_def)
    next
      case no_pad
      then show ?thesis using b unchanged by (simp add: log_new_block_def Let_def)
    qed
  qed
  then show "padding_written w pos \<Longrightarrow> appends (dest w) (replicate (padding pos) 0) (OK, dest (log_new_block w))"
    "block_offset (log_new_block w) = int ((pos + padding pos) mod 32768)"
    by simp_all
qed

lemma AddRecord_loop_appends:
  assumes "writer_at w pos" "padding_written w pos"
  shows "\<exists>s w'. AddRecord_loop begins data w = Some (s, w') \<and> appends (dest w) (log_layout pos begins data) (s, dest w') \<and>
    (s = OK \<longrightarrow> writer_at w' (pos + length (log_layout pos begins data)))"
  using assms
proof (induction pos begins data arbitrary: w rule: log_layout.induct)
  case (1 pos begins data)
  define w1 where "w1 = log_new_block w"
  define n where "n = min (length data) (avail_at pos)"
  define t where "t = fragment_type begins (length data = n)"
  define bytes where "bytes = replicate (padding pos) 0 @ physical_record t (take n data)"
  have length_bytes: "length bytes = padding pos + 7 + n" by (simp add: bytes_def n_def)
  note new = new_block_appends(1) [OF 1(2,3), folded w1_def] new_block_appends(2,3) [OF 1(2), folded w1_def]
  have fits: "(pos + padding pos) mod 32768 + 7 + avail_at pos = 32768" by (rule header_fits)
  have room: "block_offset w1 + 7 + int (avail_at pos) = 32768" using new(2) fits by linarith
  have n: "(if length data < avail_at pos then length data else avail_at pos) = n" by (simp add: n_def)
  have t: "t \<le> kMaxRecordType" by (simp add: t_def fragment_type_def record_types)
  have le: "block_offset w1 + 7 + int (length (take n data)) \<le> 32768" using room by (simp add: n_def)
  obtain s f where e: "EmitPhysicalRecord w1 t (take n data) = Some (s, w1\<lparr>dest := f, block_offset := block_offset w1 + 7 + int n\<rparr>)"
      "appends (dest w1) (physical_record t (take n data)) (s, f)"
    using Emit_appends [OF new(3) t _ le] new(2) by (auto simp: n_def)
  define w2 where "w2 = w1\<lparr>dest := f, block_offset := block_offset w1 + 7 + int n\<rparr>"
  have a: "appends (dest w) bytes (s, dest w2)"
    using appends_both [OF new(1) e(2)] by (simp add: w2_def bytes_def)
  have ok: "writer_at w2 (pos + padding pos + 7 + n)"
  proof -
    have "int n \<le> int (avail_at pos)" by (simp add: n_def)
    then have "0 \<le> block_offset w2 \<and> block_offset w2 \<le> 32768" using new(2) room by (simp add: w2_def)
    moreover have "block_offset w2 mod 32768 = int ((pos + padding pos + 7 + n) mod 32768)"
      by (simp add: w2_def new(2) zmod_int mod_add_left_eq add.assoc)
    ultimately show ?thesis using new(3) by (simp add: writer_at_def w2_def)
  qed
  have avail: "nat (int kBlockSize - block_offset w1 - int kHeaderSize) = avail_at pos" using room by simp
  have guards: "int kBlockSize - block_offset w \<ge> 0" "int kBlockSize - block_offset w1 - int kHeaderSize \<ge> 0"
    using 1(2) room by (simp_all add: writer_at_def)
  have "length data - n > 0 \<longleftrightarrow> length data \<noteq> n" by (auto simp: n_def)
  then have unfold: "AddRecord_loop begins data w =
      (if s = OK \<and> length data \<noteq> n then AddRecord_loop False (drop n data) w2 else Some (s, w2))"
    unfolding AddRecord_loop.simps [of begins data w] Let_def w1_def [symmetric] avail n
    by (simp only: guards if_True t_def [symmetric] e(1) w2_def [symmetric] option.case prod.case)
  have layout: "log_layout pos begins data =
      (if length data = n then bytes else bytes @ log_layout (pos + padding pos + 7 + n) False (drop n data))"
    by (subst log_layout.simps) (simp add: n_def bytes_def t_def Let_def)
  show ?case
  proof (cases "s = OK \<and> length data \<noteq> n")
    case True
    then have "n = avail_at pos" by (auto simp: n_def)
    then have "padding_written w2 (pos + padding pos + 7 + n)"
      using block_start [of "pos + padding pos + 7 + n"] block_end [of pos] by (simp add: padding_written_def)
    from 1(1) [OF n_def bytes_def [unfolded t_def] _ ok this] True
    obtain s' w' where "AddRecord_loop False (drop n data) w2 = Some (s', w')"
        "s' = OK \<longrightarrow> writer_at w' (pos + padding pos + 7 + n + length (log_layout (pos + padding pos + 7 + n) False (drop n data)))"
        "appends (dest w2) (log_layout (pos + padding pos + 7 + n) False (drop n data)) (s', dest w')" by auto
    then show ?thesis using unfold layout True appends_both [of "dest w" bytes "dest w2"] a length_bytes by (simp add: add.assoc)
  next
    case False
    then show ?thesis
      using unfold layout a ok length_bytes
        appends_stop [of "dest w" bytes s "dest w2" "log_layout (pos + padding pos + 7 + n) False (drop n data)"] by (auto simp: add.assoc)
  qed
qed

section \<open>Reading one physical record\<close>

definition record_header :: "u32 \<Rightarrow> byte list \<Rightarrow> byte list" where
  "record_header t payload =
     le32 (crc32c_Mask (crc32c 0 (ucast t # payload))) @
     [word_of_nat (length payload mod 256), word_of_nat (length payload div 256), ucast t]"

lemma physical_record_header: "physical_record t payload = record_header t payload @ payload"
  by (simp add: physical_record_def record_header_def)

lemma length_record_header [simp]: "length (record_header t payload) = 7"
  by (simp add: record_header_def le32_def)

lemma record_header_fields:
  assumes "length payload \<le> 65535"
  shows "unat ((record_header t payload @ rest) ! 4) + unat ((record_header t payload @ rest) ! 5) * 256 = length payload"
    "(record_header t payload @ rest) ! 6 = ucast t"
    "drop 6 (record_header t payload @ rest) = ucast t # rest"
    "DecodeFixed32 (record_header t payload @ rest) = crc32c_Mask (crc32c 0 (ucast t # payload))"
proof -
  have len: "length (le32 v) = 4" for v by (simp add: le32_def)
  have "unat (word_of_nat (length payload mod 256) :: byte) = length payload mod 256"
    "unat (word_of_nat (length payload div 256) :: byte) = length payload div 256"
    using assms by (simp_all add: unat_of_nat)
  then show "unat ((record_header t payload @ rest) ! 4) + unat ((record_header t payload @ rest) ! 5) * 256 = length payload"
    by (simp add: record_header_def nth_append len)
  show "(record_header t payload @ rest) ! 6 = ucast t" by (simp add: record_header_def nth_append len)
  show "drop 6 (record_header t payload @ rest) = ucast t # rest" by (simp add: record_header_def len)
  show "DecodeFixed32 (record_header t payload @ rest) = crc32c_Mask (crc32c 0 (ucast t # payload))"
    by (simp add: record_header_def flip: Encode_le)
qed

lemma signed_type:
  assumes "t < 128"
  shows "scast (ucast t :: byte) = (t :: u32)"
proof -
  have "unat t < 2 ^ 7" using assms by (simp add: word_less_nat_alt)
  then have "drop_bit 7 t = 0" by (simp add: drop_bit_eq_0_iff_unat)
  then have "\<not> bit t (7 + n)" for n using bit_drop_bit_eq [of 7 t] by (metis bit_0_eq bot_apply bot_bool_def comp_apply)
  then have low: "n < 7" if "bit t n" for n using that by (metis le_Suc_ex not_less)
  show ?thesis by (intro bit_word_eqI) (auto simp: bit_simps min_def dest!: low)
qed

lemma Parse_record:
  assumes "buffer r = physical_record t payload @ b" "t \<noteq> 0" "t < 128" "length payload \<le> 65535" "initial_offset r = 0"
  shows "ParsePhysicalRecord f r = (t, payload, r\<lparr>buffer := b\<rparr>)"
  using record_header_fields [OF assms(4), of t "payload @ b"] signed_type [OF assms(3)] assms(2,5)
  by (simp add: ParsePhysicalRecord_def Let_def assms(1) physical_record_header crc32c_Value_def kZeroType_def)

lemma Parse_cut:
  assumes "buffer r = record_header t payload @ b" "length b < length payload" "length payload \<le> 65535" "at_eof r"
  shows "ParsePhysicalRecord f r = (kEof, f, r\<lparr>buffer := []\<rparr>)"
  using record_header_fields [OF assms(3), of t b] assms(2,4)
  by (simp add: ParsePhysicalRecord_def Let_def assms(1))

text \<open>
  The reader at position \<open>pos\<close> of a log, with the rest of the log before it. Until the end is known, the buffer holds the rest of a
  block.
\<close>

definition reading :: "log_reader \<Rightarrow> nat \<Rightarrow> byte list \<Rightarrow> bool" where
  "reading r pos bytes \<longleftrightarrow>
     buffer r @ sf_rest (reader_file r) = bytes \<and> sf_faults (reader_file r) = [] \<and> initial_offset r = 0 \<and> \<not> resyncing r \<and>
     (if at_eof r then sf_rest (reader_file r) = [] \<and> length (buffer r) \<le> 32768 - pos mod 32768
      else length (buffer r) = (32768 - pos mod 32768) mod 32768)"

text \<open>The reader after it has read the next block.\<close>

definition refilled :: "log_reader \<Rightarrow> log_reader" where
  "refilled r =
     r\<lparr>buffer := take 32768 (sf_rest (reader_file r)),
       reader_file := (reader_file r)\<lparr>sf_rest := drop 32768 (sf_rest (reader_file r)), sf_faults := []\<rparr>,
       end_of_buffer_offset := end_of_buffer_offset r + word_of_nat (length (take 32768 (sf_rest (reader_file r)))),
       at_eof := length (sf_rest (reader_file r)) < 32768\<rparr>"

lemma Read_refill:
  assumes "length (buffer r) < 7" "\<not> at_eof r" "sf_faults (reader_file r) = []"
  shows "ReadPhysicalRecord f r = ReadPhysicalRecord f (refilled r)"
proof (cases "length (sf_rest (reader_file r)) < 32768")
  case False
  then have "refilled r = r\<lparr>buffer := take 32768 (sf_rest (reader_file r)),
      reader_file := (reader_file r)\<lparr>sf_rest := drop 32768 (sf_rest (reader_file r)), sf_faults := []\<rparr>,
      end_of_buffer_offset := end_of_buffer_offset r + 32768\<rparr>"
    using assms(2) by (cases r) (simp add: refilled_def)
  then show ?thesis using assms False by (subst ReadPhysicalRecord.simps) (simp add: sf_Read_def Let_def)
qed (use assms in \<open>subst ReadPhysicalRecord.simps, simp add: sf_Read_def refilled_def Let_def\<close>)

lemma Read_eof: "length (buffer r) < 7 \<Longrightarrow> at_eof r \<Longrightarrow> ReadPhysicalRecord f r = (kEof, f, r\<lparr>buffer := []\<rparr>)"
  by (subst ReadPhysicalRecord.simps) simp

lemma Read_parse: "length (buffer r) \<ge> 7 \<Longrightarrow> ReadPhysicalRecord f r = ParsePhysicalRecord f r"
  by (subst ReadPhysicalRecord.simps) simp

lemma refilled_reports [simp]: "reports (refilled r) = reports r"
  by (simp add: refilled_def)

lemma reading_cases:
  assumes "reading r pos bytes"
  obtains (eof) "at_eof r" "buffer r = bytes" "sf_rest (reader_file r) = []" "length bytes \<le> 32768 - pos mod 32768"
    | (inside) "\<not> at_eof r" "padding pos = 0" "length (buffer r) \<ge> 7" "length (buffer r) = 32768 - pos mod 32768"
    | (refill) "\<not> at_eof r" "length (buffer r) = padding pos" "(pos + padding pos) mod 32768 = 0" "length (buffer r) < 7"
proof (cases "at_eof r")
  case True
  then show ?thesis using assms eof by (auto simp: reading_def)
next
  case False
  then have len: "length (buffer r) = (32768 - pos mod 32768) mod 32768" using assms by (simp add: reading_def)
  show ?thesis
  proof (cases pos rule: padding_cases)
    case pad
    then have "32768 - pos mod 32768 = padding pos" by linarith
    then have "length (buffer r) = padding pos" using len pad(2) by simp
    then show ?thesis using refill False pad by simp
  next
    case no_pad
    show ?thesis
    proof (cases "pos mod 32768 = 0")
      case True
      then show ?thesis using refill False len no_pad by simp
    next
      case False
      then show ?thesis using inside \<open>\<not> at_eof r\<close> len no_pad by simp
    qed
  qed
qed

lemma append_split:
  assumes "xs @ ys = us @ vs" "length us \<le> length xs"
  obtains b where "xs = us @ b" "b @ ys = vs"
proof -
  have "us = take (length us) xs" using arg_cong [OF assms(1), of "take (length us)"] assms(2) by simp
  then have "xs = us @ drop (length us) xs" by (metis append_take_drop_id)
  then show ?thesis using that assms(1) by (metis append.assoc same_append_eq)
qed

lemma block_add:
  assumes "p mod 32768 + k \<le> 32768"
  shows "(p + k) mod 32768 = (if p mod 32768 + k = 32768 then 0 else p mod (32768 :: nat) + k)"
proof -
  have "(p + k) mod 32768 = (p mod 32768 + k) mod 32768" by (simp add: mod_add_left_eq)
  then show ?thesis using assms by simp
qed

lemma Read_parsed:
  assumes "buffer r = physical_record t payload @ b" "t \<noteq> 0" "t < 128" "length payload \<le> 65535" "initial_offset r = 0"
  shows "ReadPhysicalRecord f r = (t, payload, r\<lparr>buffer := b\<rparr>)"
  using Read_parse [of r f] Parse_record [OF assms, of f] assms(1) by simp

lemma Read_physical_record:
  assumes "reading r pos (replicate (padding pos) 0 @ physical_record t payload @ later)" "t \<noteq> 0" "t < 128"
    "(pos + padding pos) mod 32768 + 7 + length payload \<le> 32768"
  shows "\<exists>r'. ReadPhysicalRecord f r = (t, payload, r') \<and> reading r' (pos + padding pos + 7 + length payload) later \<and> reports r' = reports r"
proof -
  have small: "length payload \<le> 65535" using assms(4) by linarith
  have pos': "(pos + padding pos + 7 + length payload) mod 32768 =
      (if (pos + padding pos) mod 32768 + (7 + length payload) = 32768 then 0 else (pos + padding pos) mod 32768 + (7 + length payload))"
    using block_add [of "pos + padding pos" "7 + length payload"] assms(4) by (simp only: add.assoc)
  note r = assms(1) [unfolded reading_def]
  show ?thesis
    using assms(1)
  proof (cases rule: reading_cases)
    case eof
    then have "padding pos = 0" by (cases pos rule: padding_cases) auto
    then show ?thesis using eof Read_parsed [of r t payload later f] r assms(2,3) small pos' assms(4) by (auto simp: reading_def)
  next
    case inside
    have "buffer r @ sf_rest (reader_file r) = physical_record t payload @ later" using r inside by simp
    moreover have "length (physical_record t payload) \<le> length (buffer r)" using assms(4) inside by simp
    ultimately obtain b where b: "buffer r = physical_record t payload @ b" "b @ sf_rest (reader_file r) = later"
      by (rule append_split)
    have "length b = (32768 - (pos + padding pos + 7 + length payload) mod 32768) mod 32768"
    proof -
      have "length b = 32768 - (pos mod 32768 + (7 + length payload))" using inside(4) b(1) by simp
      then show ?thesis unfolding pos' using inside(2) assms(4) by simp
    qed
    then have "reading (r\<lparr>buffer := b\<rparr>) (pos + padding pos + 7 + length payload) later" using inside(1) r b(2) by (simp add: reading_def)
    then show ?thesis using Read_parsed [of r t payload b f] b(1) r assms(2,3) small by auto
  next
    case refill
    have rest: "sf_rest (reader_file r) = physical_record t payload @ later" using r refill by (auto simp: append_eq_append_conv)
    define b where "b = take (32768 - 7 - length payload) later"
    have "buffer (refilled r) = physical_record t payload @ b" using assms(4) by (simp add: refilled_def rest b_def)
    moreover have "initial_offset (refilled r) = 0" using r by (simp add: refilled_def)
    ultimately have "ReadPhysicalRecord f r = (t, payload, (refilled r)\<lparr>buffer := b\<rparr>)"
      using Read_refill [of r f] refill r Read_parsed [of "refilled r" t payload b f] assms(2,3) small by simp
    moreover have "reading ((refilled r)\<lparr>buffer := b\<rparr>) (pos + padding pos + 7 + length payload) later"
      using r rest assms(4) pos' refill(3) by (auto simp: reading_def refilled_def b_def)
    ultimately show ?thesis by (auto simp: refilled_def)
  qed
qed

lemma Read_torn:
  assumes "at_eof r" "strict_prefix (buffer r) (physical_record t payload)" "length payload \<le> 65535"
  shows "ReadPhysicalRecord f r = (kEof, f, r\<lparr>buffer := []\<rparr>)"
proof (cases "length (buffer r) < 7")
  case False
  have "strict_prefix (buffer r) (record_header t payload @ payload)" using assms(2) by (simp add: physical_record_header)
  then obtain z where "buffer r @ z = record_header t payload @ payload" "z \<noteq> []" by (auto elim!: strict_prefixE')
  then obtain b where "buffer r = record_header t payload @ b" "length b < length payload"
    using append_split [of "buffer r" z "record_header t payload" payload] False
    by (metis add_diff_cancel_right' length_append length_greater_0_conv length_record_header less_add_same_cancel1 not_less)
  then show ?thesis using False Read_parse [of r f] Parse_cut [of r t payload b f] assms by simp
qed (use Read_eof assms in auto)

lemma Read_torn_record:
  assumes "reading r pos bytes" "strict_prefix bytes (replicate (padding pos) 0 @ physical_record t payload)"
    "(pos + padding pos) mod 32768 + 7 + length payload \<le> 32768"
  shows "\<exists>r'. ReadPhysicalRecord f r = (kEof, f, r') \<and> \<not> resyncing r' \<and> reports r' = reports r"
proof -
  have small: "length payload \<le> 65535" using assms(3) by linarith
  have sync: "\<not> resyncing r" using assms(1) by (simp add: reading_def)
  have short: "length bytes < padding pos + 7 + length payload" using prefix_length_less [OF assms(2)] by simp
  note r = assms(1) [unfolded reading_def]
  show ?thesis
    using assms(1)
  proof (cases rule: reading_cases)
    case eof
    show ?thesis
    proof (cases "padding pos = 0")
      case True
      then show ?thesis using eof Read_torn [of r t payload f] assms(2) small sync by auto
    next
      case False
      then have "length bytes < 7" using eof by (cases pos rule: padding_cases) auto
      then show ?thesis using eof Read_eof [of r f] sync by auto
    qed
  next
    case inside
    then show ?thesis using short r assms(3) by auto
  next
    case refill
    define rest where "rest = sf_rest (reader_file r)"
    obtain z where z: "bytes @ z = replicate (padding pos) 0 @ physical_record t payload" "z \<noteq> []"
      using assms(2) by (auto elim!: strict_prefixE')
    have "buffer r @ (rest @ z) = replicate (padding pos) 0 @ physical_record t payload" using r z(1) by (auto simp: rest_def)
    then have "rest @ z = physical_record t payload" using refill(2) by (simp add: append_eq_append_conv)
    then have "strict_prefix rest (physical_record t payload)" using z(2) by (metis strict_prefix_simps(1) append_Nil2 same_append_eq strict_prefixI prefixI)
    moreover from this have "length rest < 32768" using prefix_length_less [of rest] assms(3) refill(3) by fastforce
    ultimately show ?thesis
      using Read_refill [of r f] refill r Read_torn [of "refilled r" t payload f] small sync by (auto simp: refilled_def rest_def)
  qed
qed

section \<open>Reading records\<close>

lemma fragment_type_cases:
  "fragment_type True True = kFullType" "fragment_type True False = kFirstType"
  "fragment_type False True = kLastType" "fragment_type False False = kMiddleType"
  by (simp_all add: fragment_type_def)

lemma fragment_type_range: "fragment_type b e \<noteq> 0" "fragment_type b e < 128"
  by (simp_all add: fragment_type_def record_types)

lemma reading_last_record [simp]: "reading (r\<lparr>last_record_offset := x\<rparr>) pos bytes \<longleftrightarrow> reading r pos bytes"
  by (simp add: reading_def)

lemma layout_step:
  fixes pos data
  defines "n \<equiv> min (length data) (avail_at pos)"
  shows "log_layout pos begins data =
      replicate (padding pos) 0 @ physical_record (fragment_type begins (length data = n)) (take n data) @
      (if length data = n then [] else log_layout (pos + padding pos + 7 + n) False (drop n data))"
    "(pos + padding pos) mod 32768 + 7 + length (take n data) \<le> 32768" "length (take n data) = n" "n \<le> length data"
  using header_fits [of pos] by (subst log_layout.simps, simp_all add: n_def Let_def)

lemma ReadRecord_loop_fragment:
  assumes "ReadPhysicalRecord fragment r = (fragment_type begins False, payload, r1)" "\<not> resyncing r1" "begins \<Longrightarrow> scratch = []"
  obtains p where "ReadRecord_loop (\<not> begins) prospective scratch fragment r = ReadRecord_loop True p (scratch @ payload) payload r1"
proof -
  have same: "r1\<lparr>resyncing := False\<rparr> = r1" using assms(2) by (cases r1) simp
  then show ?thesis using that assms
    by (subst (asm) ReadRecord_loop.simps) (cases begins; auto simp: fragment_type_cases record_types same Let_def)
qed

lemma ReadRecord_loop_layout:
  assumes "reading r pos (log_layout pos begins data @ later)" "begins \<Longrightarrow> scratch = []"
  shows "\<exists>r'. ReadRecord_loop (\<not> begins) prospective scratch fragment r = (Some (scratch @ data), r') \<and>
    reading r' (pos + length (log_layout pos begins data)) later \<and> reports r' = reports r"
  using assms
proof (induction pos begins data arbitrary: r scratch prospective fragment rule: log_layout.induct)
  case (1 pos begins data)
  define n where "n = min (length data) (avail_at pos)"
  define t where "t = fragment_type begins (length data = n)"
  note step = layout_step [where pos = pos and data = data, folded n_def]
  define later' where "later' = (if length data = n then later else log_layout (pos + padding pos + 7 + n) False (drop n data) @ later)"
  have "reading r pos (replicate (padding pos) 0 @ physical_record t (take n data) @ later')"
    using 1(2) step(1) [of begins] by (cases "length data = n") (simp_all add: t_def later'_def)
  from Read_physical_record [OF this _ _ step(2)] obtain r1 where r1:
      "ReadPhysicalRecord fragment r = (t, take n data, r1)" "reading r1 (pos + padding pos + 7 + n) later'" "reports r1 = reports r"
    using fragment_type_range [of begins "length data = n"] step(3) by (auto simp: t_def)
  then have "\<not> resyncing r1" by (simp add: reading_def)
  then have same: "r1\<lparr>resyncing := False\<rparr> = r1" by (cases r1) simp
  show ?case
  proof (cases "length data = n")
    case True
    then show ?thesis using r1 step(1) [of begins] 1(3) \<open>\<not> resyncing r1\<close>
      by (subst ReadRecord_loop.simps) (cases begins; auto simp: t_def later'_def fragment_type_cases record_types same add.assoc Let_def)
  next
    case False
    have next_reading: "reading r1 (pos + padding pos + 7 + n) (log_layout (pos + padding pos + 7 + n) False (drop n data) @ later)"
      using r1(2) False by (simp add: later'_def)
    obtain p where "ReadRecord_loop (\<not> begins) prospective scratch fragment r = ReadRecord_loop True p (scratch @ take n data) (take n data) r1"
      using ReadRecord_loop_fragment [of fragment r begins "take n data" r1 scratch prospective] r1(1) False 1(3) \<open>\<not> resyncing r1\<close>
      by (auto simp: t_def)
    moreover have "\<exists>r'. ReadRecord_loop True p' (scratch @ take n data) f' r1 = (Some ((scratch @ take n data) @ drop n data), r') \<and>
        reading r' (pos + padding pos + 7 + n + length (log_layout (pos + padding pos + 7 + n) False (drop n data))) later \<and>
        reports r' = reports r1" for p' f'
      using 1(1) [OF n_def refl _ next_reading, of "scratch @ take n data" p' f'] False by simp
    ultimately show ?thesis using step(1) [of begins] False r1(3) step(3) by (auto simp: add.assoc)
  qed
qed

lemma strict_prefix_append_cases:
  assumes "strict_prefix xs (ys @ zs)"
  obtains "strict_prefix xs ys" | us where "xs = ys @ us" "strict_prefix us zs"
proof (cases "strict_prefix xs ys")
  case False
  then obtain us where "xs = ys @ us" using assms by (auto simp: strict_prefix_def prefix_append)
  then show ?thesis using assms that(2) [of us] by (auto simp: strict_prefix_def)
qed

lemma ReadRecord_loop_torn:
  assumes "reading r pos bytes" "strict_prefix bytes (log_layout pos begins data)" "begins \<Longrightarrow> scratch = []"
  shows "\<exists>r'. ReadRecord_loop (\<not> begins) prospective scratch fragment r = (None, r') \<and> reports r' = reports r"
  using assms
proof (induction pos begins data arbitrary: r scratch prospective fragment bytes rule: log_layout.induct)
  case (1 pos begins data)
  define n where "n = min (length data) (avail_at pos)"
  define t where "t = fragment_type begins (length data = n)"
  define bytes1 where "bytes1 = replicate (padding pos) 0 @ physical_record t (take n data)"
  define rest where "rest = (if length data = n then [] else log_layout (pos + padding pos + 7 + n) False (drop n data))"
  note step = layout_step [where pos = pos and data = data, folded n_def]
  have "strict_prefix bytes (bytes1 @ rest)" using 1(3) step(1) [of begins] by (simp add: bytes1_def rest_def t_def)
  then show ?case
  proof (cases rule: strict_prefix_append_cases)
    case 1
    then obtain r1 where "ReadPhysicalRecord fragment r = (kEof, fragment, r1)" "\<not> resyncing r1" "reports r1 = reports r"
      using Read_torn_record [OF \<open>reading r pos bytes\<close>, of t "take n data" fragment] step(2) by (auto simp: bytes1_def)
    then show ?thesis by (subst ReadRecord_loop.simps) (auto simp: reader_types Let_def)
  next
    case (2 us)
    then have "reading r pos (replicate (padding pos) 0 @ physical_record t (take n data) @ us)"
      using \<open>reading r pos bytes\<close> by (simp add: bytes1_def)
    from Read_physical_record [OF this _ _ step(2)] obtain r1 where r1:
        "ReadPhysicalRecord fragment r = (t, take n data, r1)" "reading r1 (pos + padding pos + 7 + n) us" "reports r1 = reports r"
      using fragment_type_range [of begins "length data = n"] step(3) by (auto simp: t_def)
    then have "\<not> resyncing r1" by (simp add: reading_def)
    have False': "length data \<noteq> n" using 2(2) by (auto simp: rest_def split: if_splits)
    obtain p where "ReadRecord_loop (\<not> begins) prospective scratch fragment r = ReadRecord_loop True p (scratch @ take n data) (take n data) r1"
      using ReadRecord_loop_fragment [of fragment r begins "take n data" r1 scratch prospective] r1(1) False' 1(4) \<open>\<not> resyncing r1\<close>
      by (auto simp: t_def)
    then show ?thesis
      using "1.IH" [OF n_def refl False' r1(2), of "scratch @ take n data" p "take n data"] 2(2) False' r1(3) by (auto simp: rest_def)
  qed
qed

section \<open>Logs of many records\<close>

text \<open>The clients of the log: they add records until an error, and read records until there are none.\<close>

fun add_records :: "byte list list \<Rightarrow> log_writer \<Rightarrow> (status \<times> log_writer) option" where
  "add_records [] w = Some (OK, w)"
| "add_records (d # ds) w =
     (case AddRecord w d of None \<Rightarrow> None | Some (s, w) \<Rightarrow> if s = OK then add_records ds w else Some (s, w))"

fun read_records :: "nat \<Rightarrow> log_reader \<Rightarrow> byte list option list \<times> log_reader" where
  "read_records 0 r = ([], r)"
| "read_records (Suc n) r = (let (x, r) = ReadRecord r; (xs, r) = read_records n r in (x # xs, r))"

text \<open>What a fresh reader returns for the bytes of a file: all the records, then the end, and no report of a corruption.\<close>

definition reads_back :: "byte list \<Rightarrow> byte list list \<Rightarrow> bool" where
  "reads_back file ds \<longleftrightarrow> (\<forall>reporter verify.
     case read_records (Suc (length ds)) (log_Reader \<lparr>sf_rest = file, sf_faults = []\<rparr> reporter verify 0) of
       (xs, r) \<Rightarrow> xs = map Some ds @ [None] \<and> reports r = [])"

fun log_bytes :: "nat \<Rightarrow> byte list list \<Rightarrow> byte list" where
  "log_bytes pos [] = []"
| "log_bytes pos (d # ds) = log_layout pos True d @ log_bytes (pos + length (log_layout pos True d)) ds"

lemma log_bytes_append: "log_bytes pos (ds @ es) = log_bytes pos ds @ log_bytes (pos + length (log_bytes pos ds)) es"
  by (induction ds arbitrary: pos) (simp_all add: add.assoc)

lemma add_records_append:
  "add_records (ds @ es) w =
    (case add_records ds w of None \<Rightarrow> None | Some (s, w) \<Rightarrow> if s = OK then add_records es w else Some (s, w))"
  by (induction ds arbitrary: w) (auto split: option.splits)

lemma AddRecord_appends:
  assumes "writer_at w pos" "padding_written w pos"
  shows "\<exists>s w'. AddRecord w d = Some (s, w') \<and> appends (dest w) (log_layout pos True d) (s, dest w') \<and>
    (s = OK \<longrightarrow> writer_at w' (pos + length (log_layout pos True d)))"
  unfolding AddRecord_def using AddRecord_loop_appends [OF assms] .

lemma add_records_layout:
  assumes "writer_at w pos" "wf_faults (dest w) = []"
  shows "\<exists>w'. add_records ds w = Some (OK, w') \<and> wf_contents (dest w') = wf_contents (dest w) @ log_bytes pos ds \<and>
    writer_at w' (pos + length (log_bytes pos ds)) \<and> wf_faults (dest w') = []"
  using assms
proof (induction ds arbitrary: w pos)
  case (Cons d ds)
  from AddRecord_appends [OF Cons.prems(1), of d] Cons.prems(2) obtain w1 where
      "AddRecord w d = Some (OK, w1)" "appends (dest w) (log_layout pos True d) (OK, dest w1)" "writer_at w1 (pos + length (log_layout pos True d))"
    by (auto simp: padding_written_def appends_def)
  moreover from this have "wf_faults (dest w1) = []" "wf_contents (dest w1) = wf_contents (dest w) @ log_layout pos True d"
    using Cons.prems(2) by (auto simp: appends_def)
  ultimately show ?case using Cons.IH [of w1 "pos + length (log_layout pos True d)"] by (auto simp: add.assoc)
qed simp

lemma ReadRecord_reading: "reading r pos bytes \<Longrightarrow> ReadRecord r = ReadRecord_loop False 0 [] [] r"
  by (simp add: ReadRecord_def reading_def)

lemma ReadRecord_next:
  assumes "reading r pos (log_layout pos True d @ later)"
  shows "\<exists>r'. ReadRecord r = (Some d, r') \<and> reading r' (pos + length (log_layout pos True d)) later \<and> reports r' = reports r"
  using ReadRecord_loop_layout [OF assms, of "[]" 0 "[]"] ReadRecord_reading [OF assms] by simp

lemma ReadRecord_end:
  assumes "reading r pos tail" "strict_prefix tail (log_layout pos True d)"
  shows "\<exists>r'. ReadRecord r = (None, r') \<and> reports r' = reports r"
  using ReadRecord_loop_torn [OF assms, of "[]" 0 "[]"] ReadRecord_reading [OF assms(1)] by simp

lemma read_records_layout:
  assumes "reading r pos (log_bytes pos ds @ tail)" "strict_prefix tail (log_layout (pos + length (log_bytes pos ds)) True d)"
  shows "\<exists>r'. read_records (Suc (length ds)) r = (map Some ds @ [None], r') \<and> reports r' = reports r"
  using assms
proof (induction ds arbitrary: r pos)
  case Nil
  then show ?case using ReadRecord_end [of r pos tail d] by auto
next
  case (Cons e ds)
  then have "reading r pos (log_layout pos True e @ log_bytes (pos + length (log_layout pos True e)) ds @ tail)" by simp
  from ReadRecord_next [OF this] obtain r1 where
      "ReadRecord r = (Some e, r1)" "reading r1 (pos + length (log_layout pos True e)) (log_bytes (pos + length (log_layout pos True e)) ds @ tail)"
      "reports r1 = reports r" by auto
  then show ?case using Cons.IH [of r1 "pos + length (log_layout pos True e)"] Cons.prems(2) by (auto simp: add.assoc)
qed

lemma reads_back_torn:
  assumes "strict_prefix tail (log_layout (length (log_bytes 0 ds)) True d)"
  shows "reads_back (log_bytes 0 ds @ tail) ds"
  unfolding reads_back_def
proof (intro allI)
  fix reporter verify
  define r where "r = log_Reader \<lparr>sf_rest = log_bytes 0 ds @ tail, sf_faults = []\<rparr> reporter verify 0"
  have "reading r 0 (log_bytes 0 ds @ tail)" "reports r = []" by (simp_all add: reading_def r_def log_Reader_def)
  then show "case read_records (Suc (length ds)) r of (xs, r) \<Rightarrow> xs = map Some ds @ [None] \<and> reports r = []"
    using read_records_layout [of r 0 ds tail d] assms by auto
qed

lemma layout_not_empty: "log_layout pos begins d \<noteq> []"
  by (subst log_layout.simps) (simp add: Let_def physical_record_def le32_def)

lemma reads_back_all: "reads_back (log_bytes 0 ds) ds"
  using reads_back_torn [of "[]" ds "[]"] layout_not_empty [of _ True "[]"] by (simp add: strict_prefix_def eq_commute [of "[]"])

lemma writer_at_new: "writer_at (log_Writer f) 0" "writer_at (log_Writer_at f (word_of_nat n)) n"
proof -
  have "unat (word_of_nat n :: u64) mod 32768 = n mod 32768"
    by (simp add: unat_of_nat mod_mod_cancel)
  then show "writer_at (log_Writer_at f (word_of_nat n)) n" by (simp add: writer_at_def log_Writer_at_def zmod_int)
qed (simp add: writer_at_def log_Writer_def)

text \<open>
  The reader extends the record types by \<^verbatim>\<open>kEof\<close> = 5 and \<^verbatim>\<open>kBadRecord\<close> = 6. A record of the type 5 in the file, with a
  correct checksum, is taken for the end of the file, without the report of an unknown record type; all records behind it are lost.
\<close>

lemma type_5_ends_log:
  assumes "length payload \<le> 32761"
  shows "\<exists>r. ReadRecord (log_Reader \<lparr>sf_rest = physical_record 5 payload @ later, sf_faults = []\<rparr> reporter verify 0) = (None, r) \<and> reports r = []"
proof -
  define r where "r = log_Reader \<lparr>sf_rest = physical_record 5 payload @ later, sf_faults = []\<rparr> reporter verify 0"
  have "reading r 0 (physical_record 5 payload @ later)" "reports r = []" by (simp_all add: reading_def r_def log_Reader_def)
  moreover from this obtain r' where "ReadPhysicalRecord [] r = (5, payload, r')" "reports r' = []" "\<not> resyncing r'"
    using Read_physical_record [of r 0 5 payload later "[]"] block_start [of 0] assms by (auto simp: reading_def)
  ultimately show ?thesis using ReadRecord_reading [of r]
    unfolding r_def [symmetric] by (subst (asm) ReadRecord_loop.simps) (simp add: reader_types Let_def)
qed

abbreviation fresh_writer :: log_writer where
  "fresh_writer \<equiv> log_Writer \<lparr>wf_contents = [], wf_faults = []\<rparr>"

lemma fresh_records:
  obtains w where "add_records ds fresh_writer = Some (OK, w)" "wf_contents (dest w) = log_bytes 0 ds"
    "writer_at w (length (log_bytes 0 ds))" "wf_faults (dest w) = []"
  using add_records_layout [OF writer_at_new(1), of "\<lparr>wf_contents = [], wf_faults = []\<rparr>" ds] by (auto simp: log_Writer_def)

lemma take_strict_prefix: "k < length xs \<Longrightarrow> strict_prefix (take k xs) xs"
proof -
  assume "k < length xs"
  then have "length (take k xs) \<noteq> length xs" by simp
  then have "take k xs \<noteq> xs" by metis
  then show ?thesis by (simp add: strict_prefix_def take_is_prefix)
qed

text \<open>C15: Records of any number and length that are added to a fresh log, by one writer and then by another writer that continues the file, are
  read back in order, whatever the fragments, with and without checksums, and no corruption is reported.
\<close>

theorem log_round_trip:
  "\<exists>w w'. add_records ds fresh_writer = Some (OK, w) \<and>
     add_records es (log_Writer_at (dest w) (word_of_nat (length (wf_contents (dest w))))) = Some (OK, w') \<and>
     reads_back (wf_contents (dest w')) (ds @ es)"
proof -
  obtain w where w: "add_records ds fresh_writer = Some (OK, w)" "wf_contents (dest w) = log_bytes 0 ds" "wf_faults (dest w) = []"
    by (rule fresh_records)
  then obtain w' where "add_records es (log_Writer_at (dest w) (word_of_nat (length (wf_contents (dest w))))) = Some (OK, w')"
      "wf_contents (dest w') = log_bytes 0 ds @ log_bytes (length (log_bytes 0 ds)) es"
    using add_records_layout [OF writer_at_new(2) [of "dest w" "length (log_bytes 0 ds)"], of es] by (auto simp: log_Writer_at_def)
  then show ?thesis using w reads_back_all [of "ds @ es"] by (auto simp: log_bytes_append)
qed

text \<open>C31: If the file is cut at any place, the records that were complete are read back, and the torn one is not reported as a corruption: after
  \<open>ds\<close> and one more record \<open>d\<close>, any part of the bytes of \<open>d\<close> is ignored, and all of them are \<open>d\<close>.
\<close>

theorem log_torn_tail:
  "\<exists>w w' bytes. add_records ds fresh_writer = Some (OK, w) \<and> AddRecord w d = Some (OK, w') \<and>
     wf_contents (dest w') = wf_contents (dest w) @ bytes \<and>
     reads_back (wf_contents (dest w) @ take k bytes) (if k < length bytes then ds else ds @ [d])"
proof -
  obtain w where w: "add_records ds fresh_writer = Some (OK, w)" "wf_contents (dest w) = log_bytes 0 ds"
      "writer_at w (length (log_bytes 0 ds))" "wf_faults (dest w) = []" by (rule fresh_records)
  let ?bytes = "log_layout (length (log_bytes 0 ds)) True d"
  from AddRecord_appends [OF w(3), of d] w(4) obtain w' where w': "AddRecord w d = Some (OK, w')" "wf_contents (dest w') = wf_contents (dest w) @ ?bytes"
    by (auto simp: padding_written_def appends_def)
  have "reads_back (wf_contents (dest w) @ take k ?bytes) (if k < length ?bytes then ds else ds @ [d])"
    using reads_back_torn [OF take_strict_prefix] reads_back_all [of "ds @ [d]"] by (simp add: w(2) log_bytes_append)
  then show ?thesis using w(1) w' by blast
qed

text \<open>C16: Any call that fails while a record is added, except the one that fills the rest of the current block with zeros, does no harm to the
  records before it, and never fails an assertion. If \<open>AddRecord\<close> reports success, the record is read back; otherwise it is read back or it is
  not. The zeros are excluded by \<open>padding_written\<close>: either the record begins without them, or their write does not fail; the status of that
  call is not looked at, and what happens then is \<open>log_padding_failure_unnoticed\<close>.
\<close>

theorem log_survives_failure:
  assumes "add_records ds fresh_writer = Some (OK, w)"
    "padding_written (w\<lparr>dest := (dest w)\<lparr>wf_faults := faults\<rparr>\<rparr>) (length (wf_contents (dest w)))"
  shows "\<exists>s w'. AddRecord (w\<lparr>dest := (dest w)\<lparr>wf_faults := faults\<rparr>\<rparr>) d = Some (s, w') \<and>
    (reads_back (wf_contents (dest w')) (ds @ [d]) \<or> s \<noteq> OK \<and> reads_back (wf_contents (dest w')) ds)"
proof -
  define u where "u = w\<lparr>dest := (dest w)\<lparr>wf_faults := faults\<rparr>\<rparr>"
  let ?bytes = "log_layout (length (log_bytes 0 ds)) True d"
  have w: "wf_contents (dest w) = log_bytes 0 ds" "writer_at w (length (log_bytes 0 ds))"
    using fresh_records [of ds] assms(1) by auto
  then have "writer_at u (length (log_bytes 0 ds))" "padding_written u (length (log_bytes 0 ds))"
    using assms(2) by (simp_all add: u_def writer_at_def)
  from AddRecord_appends [OF this, of d] obtain s w' where "AddRecord u d = Some (s, w')" "appends (dest u) ?bytes (s, dest w')" by auto
  then obtain b where b: "wf_contents (dest w') = log_bytes 0 ds @ b" "prefix b ?bytes" "s = OK \<longrightarrow> b = ?bytes"
    using w(1) by (auto simp: appends_def u_def)
  have "reads_back (wf_contents (dest w')) (ds @ [d]) \<or> s \<noteq> OK \<and> reads_back (wf_contents (dest w')) ds"
  proof (cases "b = ?bytes")
    case True
    then show ?thesis using reads_back_all [of "ds @ [d]"] b(1) by (simp add: log_bytes_append)
  next
    case False
    then show ?thesis using reads_back_torn [of b ds d] b by (auto simp: strict_prefix_def)
  qed
  then show ?thesis using \<open>AddRecord u d = Some (s, w')\<close> unfolding u_def by blast
qed

theorem log_survives_failure_witness:
  "\<exists>s w'. AddRecord (fresh_writer\<lparr>dest := \<lparr>wf_contents = [], wf_faults = [None, Some (2, ''disk full'')]\<rparr>\<rparr>) [1, 2, 3] = Some (s, w') \<and>
    (reads_back (wf_contents (dest w')) [[1, 2, 3]] \<or> s \<noteq> OK \<and> reads_back (wf_contents (dest w')) [])"
  using log_survives_failure [of "[]" fresh_writer "[None, Some (2, ''disk full'')]" "[1, 2, 3]"]
  by (simp add: padding_written_def log_Writer_def)

lemma new_block_again: "log_new_block (log_new_block w) = log_new_block w"
  by (simp add: log_new_block_def Let_def)

lemma length_whole_layout: "length data \<le> avail_at pos \<Longrightarrow> length (log_layout pos begins data) = padding pos + 7 + length data"
  using layout_step(1) [of pos begins data] by simp

text \<open>C33: The zeros at the end of a block are the exception: if their write fails, \<open>AddRecord\<close> still reports success, and the offset in the block
  no longer agrees with the length of the file, by which the reader goes.
\<close>

theorem log_padding_failure_unnoticed:
  assumes "add_records ds fresh_writer = Some (OK, w)" "k < padding (length (wf_contents (dest w)))"
  shows "\<exists>w'. AddRecord (w\<lparr>dest := (dest w)\<lparr>wf_faults := [Some (k, msg)]\<rparr>\<rparr>) d = Some (OK, w') \<and>
    block_offset w' mod 32768 \<noteq> int (length (wf_contents (dest w')) mod 32768)"
proof -
  define u where "u = w\<lparr>dest := (dest w)\<lparr>wf_faults := [Some (k, msg)]\<rparr>\<rparr>"
  define pos where "pos = length (log_bytes 0 ds)"
  have w: "wf_contents (dest w) = log_bytes 0 ds" "writer_at w pos"
    using fresh_records [of ds] assms(1) by (auto simp: pos_def)
  then have u: "writer_at u pos" by (simp add: u_def writer_at_def)
  define u1 where "u1 = log_new_block u"
  have k: "k < padding pos" using assms(2) w(1) by (simp add: pos_def)
  then have pad: "padding pos < 7" "pos mod 32768 + padding pos = 32768" by (cases pos rule: padding_cases; simp)+
  note new = new_block_appends(2,3) [OF u, folded u1_def]
  have "block_offset u \<noteq> 32768" using pad k u by (auto simp: writer_at_def)
  then have "0 \<le> block_offset u" "block_offset u < 32768" using u by (auto simp: writer_at_def)
  then have "block_offset u mod 32768 = block_offset u" by (rule mod_pos_pos_trivial)
  then have "block_offset u = int (pos mod 32768)" using u by (simp add: writer_at_def)
  then have "nat (32768 - block_offset u) = padding pos" "block_offset u > 32761" "block_offset u < 32768"
    using pad k by auto
  then have disk: "wf_faults (dest u1) = []" "wf_contents (dest u1) = log_bytes 0 ds @ replicate k 0"
    using k w(1) by (simp_all add: u1_def log_new_block_def Let_def wf_Append_def) (simp_all add: u_def)
  have u1: "writer_at u1 (pos + padding pos)" using new by (simp add: writer_at_def)
  then have guards: "int kBlockSize - block_offset u \<ge> 0" "int kBlockSize - block_offset u1 \<ge> 0"
    using u by (simp_all add: writer_at_def)
  have "log_new_block u1 = u1" by (simp add: u1_def new_block_again)
  then have "AddRecord u d = AddRecord u1 d"
    unfolding AddRecord_def AddRecord_loop.simps [of True d u] AddRecord_loop.simps [of True d u1]
    by (simp only: guards if_True u1_def [symmetric])
  moreover obtain w' where "AddRecord u1 d = Some (OK, w')" "wf_contents (dest w') = wf_contents (dest u1) @ log_layout (pos + padding pos) True d"
      "writer_at w' (pos + padding pos + length (log_layout (pos + padding pos) True d))"
    using AddRecord_appends [OF u1, of d] disk(1) by (auto simp: padding_written_def appends_def)
  moreover have "(pos + padding pos + l) mod 32768 \<noteq> (pos + (k + l)) mod 32768" for l
  proof
    assume "(pos + padding pos + l) mod 32768 = (pos + (k + l)) mod 32768"
    then have "32768 dvd (pos + padding pos + l) - (pos + (k + l))" by (rule mod_eq_dvd_iff_nat [THEN iffD1, rotated]) (use k in simp)
    then show False using k pad(1) by (auto dest: dvd_imp_le)
  qed
  ultimately show ?thesis using disk(2) unfolding u_def by (auto simp: writer_at_def pos_def)
qed

theorem log_padding_failure_unnoticed_witness:
  "\<exists>w w'. add_records [replicate 32758 0] fresh_writer = Some (OK, w) \<and>
    AddRecord (w\<lparr>dest := (dest w)\<lparr>wf_faults := [Some (2, ''disk full'')]\<rparr>\<rparr>) [1] = Some (OK, w') \<and>
    block_offset w' mod 32768 \<noteq> int (length (wf_contents (dest w')) mod 32768)"
proof -
  obtain w where w: "add_records [replicate 32758 0] fresh_writer = Some (OK, w)" "wf_contents (dest w) = log_bytes 0 [replicate 32758 0]"
    by (rule fresh_records)
  have "length (log_bytes 0 [replicate 32758 0]) = 32765"
    using length_whole_layout [of "replicate 32758 0" 0 True] block_start [of 0] by simp
  then have "2 < padding (length (wf_contents (dest w)))" by (simp add: w(2) padding_def)
  from log_padding_failure_unnoticed [OF w(1) this, of "''disk full''" "[1]"] w(1) show ?thesis by blast
qed

end
