(* ===== verification/Leveldb_Db_Group.thy ===== *)
theory Leveldb_Db_Group
  imports Leveldb_Db Leveldb_Snapshot Leveldb_Log_Props
begin

text \<open>
  The queue of writers: the group that is written together is a prefix of the queue, its batch holds the updates of its writers in order,
  and the loop at the end hands the status to exactly these writers.
\<close>

section \<open>The writers of a group\<close>

definition batch_ops :: "byte list \<Rightarrow> batch_op list" where
  "batch_ops b =
     (case WriteBatch_Iterate (\<lambda>k v us. Some (us @ [Put_op k v])) (\<lambda>k us. Some (us @ [Delete_op k])) b [] of
        Some (_, us) \<Rightarrow> us | None \<Rightarrow> [])"

definition good_batch :: "byte list \<Rightarrow> bool" where
  "good_batch b \<longleftrightarrow> (\<exists>seq. is_batch b seq (batch_ops b)) \<and> list_all op_fits (batch_ops b) \<and> length (batch_ops b) < 2 ^ 31"

definition writer_ops :: "db_writer \<Rightarrow> batch_op list" where
  "writer_ops w = (case w_batch w of None \<Rightarrow> [] | Some b \<Rightarrow> batch_ops b)"

definition writer_ok :: "db_writer \<Rightarrow> bool" where
  "writer_ok w \<longleftrightarrow> (case w_batch w of None \<Rightarrow> True | Some b \<Rightarrow> good_batch b)"

abbreviation group_ops :: "db_writer list \<Rightarrow> batch_op list" where
  "group_ops ws \<equiv> concat (map writer_ops ws)"

lemma replay_collects: "replay (\<lambda>k v us. Some (us @ [Put_op k v])) (\<lambda>k us. Some (us @ [Delete_op k])) us vs = Some (vs @ us)"
proof (induction us arbitrary: vs)
  case (Cons u us)
  then show ?case by (cases u) auto
qed simp

lemma batch_ops_eq: "is_batch b seq us \<Longrightarrow> list_all op_fits us \<Longrightarrow> batch_ops b = us"
  by (simp add: batch_ops_def Iterate_replays replay_collects)

lemma length_batch: "is_batch b seq us \<Longrightarrow> length us \<le> length b"
proof -
  have "length us \<le> length (concat (map op_octets us))"
  proof (induction us)
    case (Cons u us)
    then show ?case by (cases u) auto
  qed simp
  then show "is_batch b seq us \<Longrightarrow> length us \<le> length b" by (simp add: is_batch_def)
qed

lemma writer_ok_fits: "writer_ok w \<Longrightarrow> list_all op_fits (writer_ops w)"
  by (auto simp: writer_ok_def writer_ops_def good_batch_def split: option.splits)

text \<open>What the loop knows of the group: its updates are \<open>us\<close>, and they are not more than the bytes it counts.\<close>

definition group_result :: "byte list \<Rightarrow> nat \<Rightarrow> byte list option \<Rightarrow> batch_op list \<Rightarrow> bool" where
  "group_result b max_size result us \<longleftrightarrow>
     (case result of None \<Rightarrow> us = batch_ops b | Some r \<Rightarrow> is_batch r 0 us \<and> length us \<le> max_size)"

lemma group_result_append:
  assumes "good_batch b" "w_batch front = Some b" "group_result b max_size result us" "good_batch c" "length us + length (batch_ops c) \<le> max_size"
  obtains r r' where
    "(case result of
        None \<Rightarrow> if WB_Count WriteBatch_Clear = 0 then do { f \<leftarrow> w_batch front; WriteBatch_Append WriteBatch_Clear f } else None
      | Some r \<Rightarrow> Some r) = Some r" "WriteBatch_Append r c = Some r'" "group_result b max_size (Some r') (us @ batch_ops c)"
proof -
  have zero: "WB_Count WriteBatch_Clear = 0" using batch_header(2) [OF batch_Clear] by simp
  obtain sb sc where s: "is_batch b sb (batch_ops b)" "is_batch c sc (batch_ops c)" using assms(1,4) by (auto simp: good_batch_def)
  have "\<exists>r. (case result of
        None \<Rightarrow> if WB_Count WriteBatch_Clear = 0 then do { f \<leftarrow> w_batch front; WriteBatch_Append WriteBatch_Clear f } else None
      | Some r \<Rightarrow> Some r) = Some r \<and> is_batch r 0 us"
    using batch_Append [OF batch_Clear s(1)] assms(2,3) zero by (cases result) (auto simp: group_result_def)
  then obtain r where r: "(case result of
        None \<Rightarrow> if WB_Count WriteBatch_Clear = 0 then do { f \<leftarrow> w_batch front; WriteBatch_Append WriteBatch_Clear f } else None
      | Some r \<Rightarrow> Some r) = Some r" "is_batch r 0 us" by blast
  obtain r' where "WriteBatch_Append r c = Some r'" "is_batch r' 0 (us @ batch_ops c)" using batch_Append [OF r(2) s(2)] by blast
  then show thesis using that [OF r(1)] assms(5) by (simp add: group_result_def)
qed

lemma BuildBatchGroup_loop_group:
  assumes "w_batch front = Some b" "good_batch b" "list_all writer_ok ws" "group_result b max_size result us" "length us \<le> bytes"
  shows "\<exists>result' n. BuildBatchGroup_loop front WriteBatch_Clear max_size bytes result i (Suc i) ws = Some (result', i + n) \<and> n \<le> length ws \<and>
    (\<forall>w \<in> set (take n ws). w_sync w \<longrightarrow> w_sync front) \<and> group_result b max_size result' (us @ group_ops (take n ws))"
  using assms(3,4,5)
proof (induction ws arbitrary: result us bytes i)
  case (Cons w ws)
  have stop: "\<exists>result' n. Some (result, i) = Some (result', i + n) \<and> n \<le> length (w # ws) \<and>
      (\<forall>w \<in> set (take n (w # ws)). w_sync w \<longrightarrow> w_sync front) \<and> group_result b max_size result' (us @ group_ops (take n (w # ws)))"
    by (intro exI [of _ result] exI [of _ 0]) (simp add: Cons.prems(2))
  show ?case
  proof (cases "w_sync w \<and> \<not> w_sync front")
    case True
    then show ?thesis using stop by simp
  next
    case sync: False
    show ?thesis
    proof (cases "w_batch w")
      case None
      from Cons.IH [of result us bytes "Suc i"] Cons.prems obtain result' n where n:
          "BuildBatchGroup_loop front WriteBatch_Clear max_size bytes result (Suc i) (Suc (Suc i)) ws = Some (result', Suc i + n)" "n \<le> length ws"
          "\<forall>w \<in> set (take n ws). w_sync w \<longrightarrow> w_sync front" "group_result b max_size result' (us @ group_ops (take n ws))" by auto
      moreover have "writer_ops w = []" using None by (simp add: writer_ops_def)
      ultimately show ?thesis using sync None by (intro exI [of _ result'] exI [of _ "Suc n"]) auto
    next
      case (Some c)
      then have c: "good_batch c" "writer_ops w = batch_ops c" using Cons.prems(1) by (simp_all add: writer_ok_def writer_ops_def)
      then have len: "length us + length (batch_ops c) \<le> bytes + length c"
        using Cons.prems(3) length_batch by (fastforce simp: good_batch_def intro: add_mono)
      show ?thesis
      proof (cases "bytes + length c > max_size")
        case True
        then show ?thesis using stop sync Some by (simp add: Let_def)
      next
        case False
        then have "length us + length (batch_ops c) \<le> max_size" using len by simp
        from group_result_append [OF assms(2,1) Cons.prems(2) c(1) this] obtain r r' where r:
            "(case result of
                None \<Rightarrow> if WB_Count WriteBatch_Clear = 0 then do { f \<leftarrow> w_batch front; WriteBatch_Append WriteBatch_Clear f } else None
              | Some r \<Rightarrow> Some r) = Some r" "WriteBatch_Append r c = Some r'" "group_result b max_size (Some r') (us @ batch_ops c)" .
        from Cons.IH [of "Some r'" "us @ batch_ops c" "bytes + length c" "Suc i"] Cons.prems(1) r(3) len obtain result' n where n:
            "BuildBatchGroup_loop front WriteBatch_Clear max_size (bytes + length c) (Some r') (Suc i) (Suc (Suc i)) ws = Some (result', Suc i + n)"
            "n \<le> length ws" "\<forall>w \<in> set (take n ws). w_sync w \<longrightarrow> w_sync front"
            "group_result b max_size result' ((us @ batch_ops c) @ group_ops (take n ws))" by auto
        have "BuildBatchGroup_loop front WriteBatch_Clear max_size bytes result i (Suc i) (w # ws) =
            BuildBatchGroup_loop front WriteBatch_Clear max_size (bytes + length c) (Some r') (Suc i) (Suc (Suc i)) ws"
          unfolding BuildBatchGroup_loop.simps(2) using sync Some False r(1,2) by (auto simp: Let_def)
        then show ?thesis using n sync c(2) by (intro exI [of _ result'] exI [of _ "Suc n"]) auto
      qed
    qed
  qed
qed simp

lemma BuildBatchGroup_group:
  assumes "list_all writer_ok (w # ws)" "w_batch w = Some b"
  obtains result n seq where "BuildBatchGroup WriteBatch_Clear (w # ws) = Some (result, n)" "n \<le> length ws"
    "\<forall>r \<in> set (take n ws). w_sync r \<longrightarrow> w_sync w" "is_batch (case result of None \<Rightarrow> b | Some r \<Rightarrow> r) seq (group_ops (w # take n ws))"
    "list_all op_fits (group_ops (w # take n ws))" "length (group_ops (w # take n ws)) < 2 ^ 31"
    "result = None \<Longrightarrow> group_ops (w # take n ws) = writer_ops w"
proof -
  have b: "good_batch b" "writer_ops w = batch_ops b" using assms by (simp_all add: writer_ok_def writer_ops_def)
  define max_size where "max_size = (if length b \<le> 128 * 1024 then length b + 128 * 1024 else 1024 * 1024)"
  have "length (batch_ops b) \<le> length b" using b(1) length_batch by (auto simp: good_batch_def)
  moreover have "group_result b max_size None (batch_ops b)" by (simp add: group_result_def)
  ultimately obtain result n where n: "BuildBatchGroup_loop w WriteBatch_Clear max_size (length b) None 0 (Suc 0) ws = Some (result, n)" "n \<le> length ws"
      "\<forall>r \<in> set (take n ws). w_sync r \<longrightarrow> w_sync w" "group_result b max_size result (batch_ops b @ group_ops (take n ws))"
    using BuildBatchGroup_loop_group [OF assms(2) b(1), of ws max_size None "batch_ops b" "length b" 0] assms(1) by auto
  define us where "us = group_ops (w # take n ws)"
  have gr: "group_result b max_size result us" using n(4) b(2) by (simp add: us_def)
  have "list_all op_fits us"
    using assms(1) writer_ok_fits by (fastforce simp: us_def list_all_iff dest: in_set_takeD)
  moreover have "max_size < 2 ^ 31" by (simp add: max_size_def)
  then have "length us < 2 ^ 31"
    using gr b(1) by (cases result) (simp_all add: group_result_def good_batch_def)
  moreover have "BuildBatchGroup WriteBatch_Clear (w # ws) = Some (result, n)"
    using n(1) assms(2) by (simp add: BuildBatchGroup_def max_size_def Let_def)
  moreover have "\<exists>seq. is_batch (case result of None \<Rightarrow> b | Some r \<Rightarrow> r) seq us"
    using gr b(1) by (cases result) (auto simp: group_result_def good_batch_def)
  moreover have "us = writer_ops w" if "result = None"
    using gr that b(2) by (simp add: group_result_def)
  ultimately show thesis using that [of result n] n(2,3) unfolding us_def by blast
qed

lemma Write_finish_behind:
  "n < length ws \<Longrightarrow> Write_finish status (Suc i) (Suc i + n) ws =
    Some (map (\<lambda>w. w\<lparr>w_status := status, w_done := True\<rparr>) (take (Suc n) ws), drop (Suc n) ws)"
proof (induction ws arbitrary: n i)
  case (Cons w ws)
  show ?case
  proof (cases n)
    case (Suc m)
    then show ?thesis using Cons.IH [of m "Suc i"] Cons.prems by simp
  qed simp
qed simp

lemma Write_finish_front:
  "n \<le> length ws \<Longrightarrow> Write_finish status 0 n (w # ws) =
    Some (w # map (\<lambda>w. w\<lparr>w_status := status, w_done := True\<rparr>) (take n ws), drop n ws)"
  using Write_finish_behind [of "n - 1" ws status 0] by (cases n) auto

end
