(* ===== verification/Leveldb_Db_Run.thy ===== *)
theory Leveldb_Db_Run
  imports Leveldb_Db_Group
begin

text \<open>
  Runs of a database: what the writes leave in the log and in the memory table, what a read at a sequence number finds, and that recovery
  rebuilds the table from the log.
\<close>

section \<open>Batches in the log and in the table\<close>

fun insert_all :: "(byte list \<Rightarrow> byte list \<Rightarrow> int) \<Rightarrow> byte list list \<Rightarrow> memtable \<Rightarrow> memtable option" where
  "insert_all user [] m = Some m"
| "insert_all user (rep # reps) m =
     (case InsertInto user rep m of None \<Rightarrow> None | Some (s, m) \<Rightarrow> if s = OK then insert_all user reps m else None)"

text \<open>Batches with consecutive sequence numbers from \<open>s\<close> on, and their updates.\<close>

fun numbered :: "u64 \<Rightarrow> byte list list \<Rightarrow> batch_op list list \<Rightarrow> bool" where
  "numbered s [] uss \<longleftrightarrow> uss = []"
| "numbered s (rep # reps) uss \<longleftrightarrow>
     (case uss of
        [] \<Rightarrow> False
      | us # uss \<Rightarrow>
          is_batch rep s us \<and> list_all op_fits us \<and> length us < 2 ^ 31 \<and> numbered (s + word_of_nat (length us)) reps uss)"

lemma insert_all_append: "insert_all user (xs @ ys) m = (case insert_all user xs m of None \<Rightarrow> None | Some m \<Rightarrow> insert_all user ys m)"
  by (induction xs arbitrary: m) (auto split: option.splits prod.splits)

lemma numbered_append:
  "numbered s reps uss \<Longrightarrow> numbered (s + word_of_nat (length (concat uss))) reps' uss' \<Longrightarrow> numbered s (reps @ reps') (uss @ uss')"
  by (induction s reps uss rule: numbered.induct) (auto simp: add.assoc split: list.splits)

lemma seq_room_split: "seq_room s (m + n) \<Longrightarrow> seq_room s m \<and> seq_room (s + word_of_nat m) n"
  using seq_roomD(2) [of s "m + n" m] by (simp add: seq_room_def)

lemma insert_all_inserts:
  assumes "cmp_ok user" "table_upto user m E s" "numbered s reps uss" "seq_room s (length (concat uss))"
  shows "\<exists>m'. insert_all user reps m = Some m' \<and>
    table_upto user m' (E \<union> set (entries_of s (concat uss))) (s + word_of_nat (length (concat uss)))"
  using assms(2,3,4)
proof (induction s reps uss arbitrary: m E rule: numbered.induct)
  case (2 s rep reps uss)
  then obtain us vss where uss: "uss = us # vss" "is_batch rep s us" "list_all op_fits us" "numbered (s + word_of_nat (length us)) reps vss"
    by (auto split: list.splits)
  have room: "seq_room s (length us)" "seq_room (s + word_of_nat (length us)) (length (concat vss))"
    using seq_room_split [of s "length us" "length (concat vss)"] "2.prems"(3) uss(1) by simp_all
  obtain m1 where m1: "InsertInto user rep m = Some (OK, m1)" "table_upto user m1 (E \<union> set (entries_of s us)) (s + word_of_nat (length us))"
    using InsertInto_inserts [OF assms(1) "2.prems"(1) uss(2,3) room(1)] by blast
  from "2.IH" [OF uss(1) m1(2) uss(4) room(2)] obtain m' where "insert_all user reps m1 = Some m'"
      "table_upto user m' (E \<union> set (entries_of s us) \<union> set (entries_of (s + word_of_nat (length us)) (concat vss)))
        (s + word_of_nat (length us) + word_of_nat (length (concat vss)))" by blast
  then show ?case using m1(1) uss(1) by (simp add: entries_of_append Un_assoc add.assoc)
qed simp

section \<open>The invariant\<close>

text \<open>
  The log holds the batches \<open>reps\<close>, whose updates are \<open>uss\<close>, numbered from 1 on; inserting them into an empty table gives the table; every
  waiting writer has a batch that was built by the operations on batches.
\<close>

definition db_ok :: "(byte list \<Rightarrow> byte list \<Rightarrow> int) \<Rightarrow> db \<Rightarrow> byte list list \<Rightarrow> batch_op list list \<Rightarrow> bool" where
  "db_ok user db reps uss \<longleftrightarrow>
     writer_at (db_log db) (length (log_bytes 0 reps)) \<and> dest (db_log db) = \<lparr>wf_contents = log_bytes 0 reps, wf_faults = []\<rparr> \<and>
     numbered 1 reps uss \<and> length (concat uss) < 2 ^ 56 \<and> insert_all user reps new_MemTable = Some (db_mem db) \<and>
     last_sequence db = word_of_nat (length (concat uss)) \<and> tmp_batch db = WriteBatch_Clear \<and> db_imm db = None \<and>
     list_all writer_ok (db_writers db)"

definition fresh_db :: db where
  "fresh_db =
     \<lparr>db_writers = [], db_log = fresh_writer, db_mem = new_MemTable, db_imm = None, tmp_batch = WriteBatch_Clear, last_sequence = 0, bg_error = OK\<rparr>"

lemma db_ok_fresh: "db_ok user fresh_db [] []"
  using writer_at_new(1) by (simp add: db_ok_def fresh_db_def log_Writer_def)

lemma new_table_upto: "cmp_ok user \<Longrightarrow> table_upto user new_MemTable {} 1"
  by (simp add: table_upto_def mem_holds_new)

lemma db_ok_table:
  assumes "cmp_ok user" "db_ok user db reps uss"
  shows "table_upto user (db_mem db) (set (entries_of 1 (concat uss))) (last_sequence db + 1)" "seq_room 1 (length (concat uss))"
proof -
  show room: "seq_room 1 (length (concat uss))" using assms(2) by (simp add: db_ok_def seq_room_def)
  then show "table_upto user (db_mem db) (set (entries_of 1 (concat uss))) (last_sequence db + 1)"
    using insert_all_inserts [OF assms(1) new_table_upto [OF assms(1)], of reps uss] assms(2) by (auto simp: db_ok_def add.commute)
qed

lemma signed_count: "n < 2 ^ 31 \<Longrightarrow> scast (word_of_nat n :: u32) = (word_of_nat n :: u64)"
proof -
  assume "n < 2 ^ 31"
  then have "sint (word_of_nat n :: u32) = int n" by (simp add: signed_of_nat signed_take_bit_int_eq_self)
  then show ?thesis by (simp add: scast_eq)
qed

text \<open>A clean write of the writer at the front, whose batch is not null.\<close>

lemma Write_writes:
  assumes "cmp_ok user" "db_ok user db reps uss" "db_writers db = w # ws" "w_batch w = Some b"
    "length (concat uss) + length (group_ops (db_writers db)) < 2 ^ 56"
  obtains n w' db' rep where
    "DBImpl_Write user OK OK db = Some (OK, w' # map (\<lambda>r. r\<lparr>w_status := OK, w_done := True\<rparr>) (take n ws), db')" "n \<le> length ws"
    "writer_ops w' = writer_ops w" "db_writers db' = drop n ws" "\<forall>r \<in> set (take n ws). w_sync r \<longrightarrow> w_sync w"
    "db_ok user db' (reps @ [rep]) (uss @ [group_ops (w # take n ws)])"
proof -
  have ok: "writer_at (db_log db) (length (log_bytes 0 reps))" "dest (db_log db) = \<lparr>wf_contents = log_bytes 0 reps, wf_faults = []\<rparr>"
      "numbered 1 reps uss" "insert_all user reps new_MemTable = Some (db_mem db)" "last_sequence db = word_of_nat (length (concat uss))"
      "tmp_batch db = WriteBatch_Clear" "db_imm db = None" "list_all writer_ok (w # ws)"
    using assms(2,3) by (simp_all add: db_ok_def)
  obtain result n seq where g: "BuildBatchGroup WriteBatch_Clear (w # ws) = Some (result, n)" "n \<le> length ws"
      "\<forall>r \<in> set (take n ws). w_sync r \<longrightarrow> w_sync w" "is_batch (case result of None \<Rightarrow> b | Some r \<Rightarrow> r) seq (group_ops (w # take n ws))"
      "list_all op_fits (group_ops (w # take n ws))" "length (group_ops (w # take n ws)) < 2 ^ 31"
      "result = None \<Longrightarrow> group_ops (w # take n ws) = writer_ops w"
    using BuildBatchGroup_group [OF ok(8) assms(4)] by metis
  define us where "us = group_ops (w # take n ws)"
  define rep where "rep = WB_SetSequence (last_sequence db + 1) (case result of None \<Rightarrow> b | Some r \<Rightarrow> r)"
  have rep: "is_batch rep (1 + word_of_nat (length (concat uss))) us"
    using batch_SetSequence [OF g(4)] ok(5) by (simp add: rep_def us_def add.commute)
  have "length us \<le> length (group_ops (db_writers db))"
    using append_take_drop_id [of n ws] assms(3) unfolding us_def by (metis (no_types) append_Cons concat_append le_add1 length_append map_append)
  then have fits: "length (concat uss) + length us < 2 ^ 56" using assms(5) by simp
  then have room: "seq_room (last_sequence db + 1) (length us)" "seq_room 1 (length (concat uss))"
    using seq_room_split [of 1 "length (concat uss)" "length us"] ok(5) by (simp_all add: seq_room_def add.commute)
  obtain m' where m': "InsertInto user rep (db_mem db) = Some (OK, m')"
    using InsertInto_inserts [OF assms(1) db_ok_table(1) [OF assms(1,2)], of rep us] rep ok(5) g(5) room(1) by (auto simp: us_def add.commute)
  obtain lg where lg: "AddRecord (db_log db) rep = Some (OK, lg)" "dest lg = \<lparr>wf_contents = log_bytes 0 (reps @ [rep]), wf_faults = []\<rparr>"
      "writer_at lg (length (log_bytes 0 (reps @ [rep])))"
    using AddRecord_appends [OF ok(1), of rep] ok(2) by (auto simp: padding_written_def appends_def log_bytes_append intro!: writable_file.equality)
  define w' where "w' = (case result of None \<Rightarrow> w\<lparr>w_batch := Some rep\<rparr> | Some _ \<Rightarrow> w)"
  define db1 where "db1 = db\<lparr>db_log := lg, db_mem := m', db_writers := w' # ws, tmp_batch := WriteBatch_Clear,
    last_sequence := last_sequence db + word_of_nat (length us)\<rparr>"
  have count: "scast (WB_Count rep) = (word_of_nat (length us) :: u64)"
    unfolding batch_header(2) [OF rep] using g(6) by (intro signed_count) (simp add: us_def)
  have "Write_apply user OK OK db = Some (OK, n, db1)"
  proof (cases result)
    case None
    then have "WB_SetSequence (last_sequence db + 1) b = rep" by (simp add: rep_def)
    then show ?thesis using g(1) lg(1) m' count ok(6) assms(3,4) None by (cases db) (simp add: Write_apply_def w'_def db1_def)
  next
    case (Some r)
    then have "WB_SetSequence (last_sequence db + 1) r = rep" by (simp add: rep_def)
    then show ?thesis using g(1) lg(1) m' count ok(6) assms(3,4) Some by (cases db) (simp add: Write_apply_def w'_def db1_def)
  qed
  then have "DBImpl_Write user OK OK db =
      Some (OK, w' # map (\<lambda>r. r\<lparr>w_status := OK, w_done := True\<rparr>) (take n ws), db1\<lparr>db_writers := drop n ws\<rparr>)"
    using Write_finish_front [OF g(2), of OK w'] by (simp add: DBImpl_Write_def db1_def)
  moreover have "writer_ops w' = writer_ops w"
    using g(7) batch_ops_eq [OF rep] g(5) by (cases result) (auto simp: w'_def us_def writer_ops_def)
  moreover have "db_ok user (db1\<lparr>db_writers := drop n ws\<rparr>) (reps @ [rep]) (uss @ [us])"
  proof -
    have "numbered 1 (reps @ [rep]) (uss @ [us])" using numbered_append [OF ok(3), of "[rep]" "[us]"] rep g(5,6) by (simp add: us_def)
    moreover have "list_all writer_ok (drop n ws)" using ok(8) by (auto simp: list_all_iff dest: in_set_dropD)
    ultimately show ?thesis using lg m' ok fits by (simp add: db_ok_def db1_def insert_all_append)
  qed
  ultimately show thesis using that g(2,3) by (simp add: us_def)
qed

lemma Write_without_batch:
  "db_writers db = w # ws \<Longrightarrow> w_batch w = None \<or> room \<noteq> OK \<Longrightarrow> DBImpl_Write user room synced db = Some (room, [w], db\<lparr>db_writers := ws\<rparr>)"
  by (auto simp: DBImpl_Write_def Write_apply_def split: option.splits)

section \<open>Where a log ends\<close>

text \<open>A reader that comes to these bytes returns no record and makes no report.\<close>

definition log_end :: "nat \<Rightarrow> byte list \<Rightarrow> bool" where
  "log_end pos bytes \<longleftrightarrow> (\<forall>r. reading r pos bytes \<longrightarrow> (\<exists>r'. ReadRecord r = (None, r') \<and> reports r' = reports r))"

lemma log_end_torn: "strict_prefix torn (log_layout pos True d) \<Longrightarrow> log_end pos torn"
  using ReadRecord_end by (auto simp: log_end_def)

lemma log_end_nothing: "log_end pos []"
  using layout_not_empty [of pos True "[]"] by (intro log_end_torn [of _ _ "[]"]) (simp add: strict_prefix_def eq_commute [of "[]"])

text \<open>A header announces more bytes than are there: whatever they are, the reader takes it for a record that the writer did not finish.\<close>

lemma Read_header_short:
  assumes "reading r pos (record_header t payload @ b)" "padding pos = 0" "pos mod 32768 + 7 + length payload \<le> 32768" "length b < length payload"
  shows "\<exists>r'. ReadPhysicalRecord f r = (kEof, f, r') \<and> \<not> resyncing r' \<and> reports r' = reports r"
proof -
  have small: "length payload \<le> 65535" using assms(3) by linarith
  note r = assms(1) [unfolded reading_def]
  have parse: "ReadPhysicalRecord f q = (kEof, f, q\<lparr>buffer := []\<rparr>)" if "buffer q = record_header t payload @ b" "at_eof q" for q
    using Read_parse [of q f] Parse_cut [OF that(1) assms(4) small that(2)] that(1) by simp
  show ?thesis
    using assms(1)
  proof (cases rule: reading_cases)
    case eof
    then show ?thesis using parse [of r] r by simp
  next
    case inside
    have "length (buffer r) + length (sf_rest (reader_file r)) = 7 + length b" using arg_cong [OF conjunct1 [OF r], of length] by simp
    then show ?thesis using inside(4) assms(3,4) by linarith
  next
    case refill
    have "sf_rest (reader_file r) = record_header t payload @ b" "length (record_header t payload @ b) < 32768"
      using refill(2) assms(2,3,4) r by auto
    then show ?thesis using Read_refill [of r f] parse [of "refilled r"] refill r by (auto simp: refilled_def)
  qed
qed

lemma log_end_header:
  assumes "padding pos = 0" "pos mod 32768 + 7 + length d \<le> 32768" "length b < length d"
  shows "log_end pos (take 7 (log_layout pos True d) @ b)"
  unfolding log_end_def
proof (intro allI impI)
  fix r
  have "avail_at pos \<ge> length d" using assms(1,2) by (simp add: avail_at_def)
  then have "take 7 (log_layout pos True d) = record_header kFullType d"
    using layout_step(1) [of pos True d] assms(1) by (simp add: physical_record_header fragment_type_def)
  moreover assume r: "reading r pos (take 7 (log_layout pos True d) @ b)"
  ultimately obtain r' where "ReadPhysicalRecord [] r = (kEof, [], r')" "\<not> resyncing r'" "reports r' = reports r"
    using Read_header_short [OF _ assms] by metis
  then show "\<exists>r'. ReadRecord r = (None, r') \<and> reports r' = reports r"
    using ReadRecord_reading [OF r] by (subst (asm) ReadRecord_loop.simps) (simp add: reader_types Let_def)
qed

section \<open>Recovery\<close>

lemma rec_ReadRecord_quiet:
  "ReadRecord (rec_reader r) = (x, reader) \<Longrightarrow> reports reader = reports (rec_reader r) \<Longrightarrow>
    rec_ReadRecord paranoid r = (x, r\<lparr>rec_reader := reader\<rparr>)"
  by (cases r) (simp add: rec_ReadRecord_def)

text \<open>The loop, for a table that never becomes too large: it inserts the batches of the log, and stops where the log ends.\<close>

lemma recover_loop:
  assumes "\<forall>m. usage m \<le> write_buffer_size" "reading (rec_reader r) pos (log_bytes pos reps @ torn)"
    "log_end (pos + length (log_bytes pos reps)) torn" "numbered s reps uss" "seq_room s (length (concat uss))"
    "1 \<le> unat s" "insert_all user reps (case rec_mem r of None \<Rightarrow> new_MemTable | Some m \<Rightarrow> m) = Some mem" "rec_status r = OK" "rec_max r = s - 1"
  shows "\<exists>r'. RecoverLogFile_loop user paranoid write_buffer_size usage flush r = Some r' \<and> rec_status r' = OK \<and>
    (case rec_mem r' of None \<Rightarrow> new_MemTable | Some m \<Rightarrow> m) = mem \<and> rec_max r' = s - 1 + word_of_nat (length (concat uss)) \<and>
    compactions r' = compactions r \<and> save_manifest r' = save_manifest r \<and> rec_env r' = rec_env r"
  using assms(2-)
proof (induction reps arbitrary: r pos s uss)
  case Nil
  obtain reader where "ReadRecord (rec_reader r) = (None, reader)" "reports reader = reports (rec_reader r)"
    using Nil.prems(1,2) by (auto simp: log_end_def)
  then show ?case using Nil.prems by (subst RecoverLogFile_loop.simps) (simp add: rec_ReadRecord_quiet)
next
  case (Cons rep reps)
  then obtain us vss where uss: "uss = us # vss" "is_batch rep s us" "list_all op_fits us" "length us < 2 ^ 31"
      "numbered (s + word_of_nat (length us)) reps vss" by (auto split: list.splits)
  define pos' where "pos' = pos + length (log_layout pos True rep)"
  define s' where "s' = s + word_of_nat (length us)"
  have "reading (rec_reader r) pos (log_layout pos True rep @ log_bytes pos' reps @ torn)" using Cons.prems(1) by (simp add: pos'_def)
  from ReadRecord_next [OF this] obtain reader where reader: "ReadRecord (rec_reader r) = (Some rep, reader)"
      "reading reader pos' (log_bytes pos' reps @ torn)" "reports reader = reports (rec_reader r)" by (auto simp: pos'_def)
  obtain m1 where m1: "InsertInto user rep (case rec_mem r of None \<Rightarrow> new_MemTable | Some m \<Rightarrow> m) = Some (OK, m1)" "insert_all user reps m1 = Some mem"
    using Cons.prems(6) by (auto split: option.splits if_splits)
  have room: "seq_room s' (length (concat vss))" "unat s' = unat s + length us"
    using seq_room_split [of s "length us" "length (concat vss)"] seq_roomD(2) [of s "length (concat uss)" "length us"] Cons.prems(4) uss(1)
    by (simp_all add: s'_def)
  have last: "WB_Sequence rep + scast (WB_Count rep) - 1 = s' - 1"
    unfolding batch_header(1,2) [OF uss(2)] signed_count [OF uss(4)] by (simp add: s'_def)
  have "unat (s - 1) = unat s - 1" "unat (s' - 1) = unat s' - 1" using Cons.prems(5) room(2) by (simp_all add: unat_sub_if_size word_less_nat_alt)
  then have newer: "\<not> s - 1 < s' - 1 \<Longrightarrow> s - 1 = s' - 1" using room(2) by (simp add: word_less_nat_alt word_unat_eq_iff)
  define r1 where "r1 = r\<lparr>rec_reader := reader, rec_status := OK, rec_mem := Some m1, rec_max := s' - 1\<rparr>"
  have "length rep \<ge> 12" by (rule batch_header(4) [OF uss(2)])
  note step = this Cons.prems(7,8) rec_ReadRecord_quiet [OF reader(1,3)] m1(1) last assms(1)
  have "RecoverLogFile_loop user paranoid write_buffer_size usage flush r = RecoverLogFile_loop user paranoid write_buffer_size usage flush r1"
  proof (cases "s - 1 < s' - 1")
    case True
    then show ?thesis using step
      by (subst RecoverLogFile_loop.simps)
        (cases r; simp add: Let_def WB_SetContents_def kHeader_def MaybeIgnoreError_def r1_def not_less [symmetric])
  next
    case False
    then have "s' = s" using newer by simp
    then show ?thesis using step
      by (subst RecoverLogFile_loop.simps)
        (cases r; simp add: Let_def WB_SetContents_def kHeader_def MaybeIgnoreError_def r1_def not_less [symmetric])
  qed
  moreover have "\<exists>r'. RecoverLogFile_loop user paranoid write_buffer_size usage flush r1 = Some r' \<and> rec_status r' = OK \<and>
      (case rec_mem r' of None \<Rightarrow> new_MemTable | Some m \<Rightarrow> m) = mem \<and> rec_max r' = s' - 1 + word_of_nat (length (concat vss)) \<and>
      compactions r' = compactions r1 \<and> save_manifest r' = save_manifest r1 \<and> rec_env r' = rec_env r1"
  proof (rule Cons.IH)
    show "reading (rec_reader r1) pos' (log_bytes pos' reps @ torn)" using reader(2) by (simp add: r1_def)
    show "log_end (pos' + length (log_bytes pos' reps)) torn" using Cons.prems(2) by (simp add: pos'_def add.assoc)
    show "numbered s' reps vss" using uss(5) by (simp add: s'_def)
    show "seq_room s' (length (concat vss))" "1 \<le> unat s'" using room Cons.prems(5) by simp_all
    show "insert_all user reps (case rec_mem r1 of None \<Rightarrow> new_MemTable | Some m \<Rightarrow> m) = Some mem" using m1(2) by (simp add: r1_def)
    show "rec_status r1 = OK" "rec_max r1 = s' - 1" by (simp_all add: r1_def)
  qed
  ultimately show ?case using uss(1) by (simp add: r1_def s'_def algebra_simps)
qed

lemma recovered:
  assumes "\<forall>m. usage m \<le> write_buffer_size" "db_ok user db reps uss" "log_end (length (log_bytes 0 reps)) torn"
  shows "\<exists>r. RecoverLogFile user paranoid write_buffer_size True True usage flush (OK, \<lparr>sf_rest = log_bytes 0 reps @ torn, sf_faults = []\<rparr>) (Some (f, n)) 0 e =
      Some (r, Some (log_Writer_at f n, db_mem db)) \<and> rec_status r = OK \<and> rec_max r = last_sequence db \<and> rec_env r = e"
proof -
  define r0 where "r0 = \<lparr>rec_reader = log_Reader \<lparr>sf_rest = log_bytes 0 reps @ torn, sf_faults = []\<rparr> True True 0, rec_status = OK, rec_mem = None,
    rec_max = 0, compactions = 0, save_manifest = False, rec_env = e\<rparr>"
  have "reading (rec_reader r0) 0 (log_bytes 0 reps @ torn)" by (simp add: reading_def log_Reader_def r0_def)
  moreover have "seq_room 1 (length (concat uss))" using assms(2) by (simp add: db_ok_def seq_room_def)
  ultimately obtain r where r: "RecoverLogFile_loop user paranoid write_buffer_size usage flush r0 = Some r" "rec_status r = OK"
      "(case rec_mem r of None \<Rightarrow> new_MemTable | Some m \<Rightarrow> m) = db_mem db" "rec_max r = last_sequence db" "compactions r = 0" "rec_env r = e"
    using recover_loop [where r = r0 and pos = 0 and s = 1 and reps = reps and torn = torn and uss = uss and mem = "db_mem db" and user = user and paranoid = paranoid and flush = flush, OF assms(1)] assms(2,3)
    by (auto simp: db_ok_def r0_def)
  then have "RecoverLogFile_end True True (Some (f, n)) flush r = (r\<lparr>rec_mem := None\<rparr>, Some (log_Writer_at f n, db_mem db))"
    by (simp add: RecoverLogFile_end_def split: option.splits)
  then show ?thesis using r by (intro exI [of _ "r\<lparr>rec_mem := None\<rparr>"]) (simp add: RecoverLogFile_def r0_def)
qed

lemma db_ok_reopened:
  assumes "db_ok user db reps uss" "f = dest (db_log db)" "n = word_of_nat (length (wf_contents f))"
  shows "db_ok user \<lparr>db_writers = [], db_log = log_Writer_at f n, db_mem = db_mem db, db_imm = None, tmp_batch = WriteBatch_Clear,
    last_sequence = last_sequence db, bg_error = OK\<rparr> reps uss"
  using assms writer_at_new(2) by (auto simp: db_ok_def log_Writer_at_def)

section \<open>Runs\<close>

text \<open>
  A run starts with an empty database. Threads add writers to the queue, the writer at the front writes its group, and the database is closed
  and opened again with the option \<^verbatim>\<open>reuse_logs\<close>, which is off by default: without it recovery writes the table to a file of level 0 and starts a
  new log. \<open>us\<close> are the updates of all writers whose \<^verbatim>\<open>Write\<close> returned OK, in order.
\<close>

inductive db_run :: "(byte list \<Rightarrow> byte list \<Rightarrow> int) \<Rightarrow> db \<Rightarrow> batch_op list \<Rightarrow> bool" for user where
  run_fresh: "db_run user fresh_db []"
| run_queue: "db_run user db us \<Longrightarrow> writer_ok w \<Longrightarrow> db_run user (db\<lparr>db_writers := db_writers db @ [w]\<rparr>) us"
| run_write: "db_run user db us \<Longrightarrow> DBImpl_Write user room OK db = Some (status, finished, db') \<Longrightarrow>
    length us + length (group_ops (db_writers db)) < 2 ^ 56 \<Longrightarrow> db_run user db' (us @ (if status = OK then group_ops finished else []))"
| run_reopen: "db_run user db us \<Longrightarrow> \<forall>m. usage m \<le> write_buffer_size \<Longrightarrow>
    RecoverLogFile user paranoid write_buffer_size True True usage flush (OK, \<lparr>sf_rest = wf_contents (dest (db_log db)), sf_faults = []\<rparr>)
      (Some (dest (db_log db), word_of_nat (length (wf_contents (dest (db_log db)))))) 0 () = Some (r, Some (lg, mem)) \<Longrightarrow>
    db_run user \<lparr>db_writers = [], db_log = lg, db_mem = mem, db_imm = None, tmp_batch = WriteBatch_Clear, last_sequence = rec_max r, bg_error = OK\<rparr> us"

lemma writer_ops_marked [simp]: "writer_ops (r\<lparr>w_status := status, w_done := True\<rparr>) = writer_ops r"
  by (simp add: writer_ops_def)

lemma db_run_ok:
  assumes "cmp_ok user" "db_run user db us"
  shows "\<exists>reps uss. db_ok user db reps uss \<and> us = concat uss"
  using assms(2)
proof induction
  case run_fresh
  show ?case using db_ok_fresh by (intro exI [of _ "[]"]) simp
next
  case (run_queue db us w)
  then obtain reps uss where "db_ok user db reps uss" "us = concat uss" by blast
  then show ?case using run_queue.hyps(2) by (intro exI [of _ reps] exI [of _ uss]) (simp add: db_ok_def)
next
  case (run_write db us room status finished db')
  then obtain reps uss where ok: "db_ok user db reps uss" "us = concat uss" by blast
  obtain w ws where ws: "db_writers db = w # ws"
    using run_write.hyps(2) by (cases "db_writers db") (auto simp: DBImpl_Write_def Write_apply_def)
  have rest: "db_ok user (db\<lparr>db_writers := ws\<rparr>) reps uss" using ok(1) ws by (simp add: db_ok_def)
  show ?case
  proof (cases "room = OK \<and> w_batch w \<noteq> None")
    case False
    then have "status = room" "finished = [w]" "db' = db\<lparr>db_writers := ws\<rparr>" "status = OK \<Longrightarrow> writer_ops w = []"
      using Write_without_batch [OF ws, of room user OK] run_write.hyps(2) by (auto simp: writer_ops_def)
    then show ?thesis using rest ok(2) by (intro exI [of _ reps] exI [of _ uss]) simp
  next
    case True
    then obtain b where b: "w_batch w = Some b" by auto
    have "length (concat uss) + length (group_ops (db_writers db)) < 2 ^ 56" using run_write.hyps(3) ok(2) by simp
    from Write_writes [OF assms(1) ok(1) ws b this] obtain n w' db'' rep where
        "DBImpl_Write user OK OK db = Some (OK, w' # map (\<lambda>r. r\<lparr>w_status := OK, w_done := True\<rparr>) (take n ws), db'')"
        "writer_ops w' = writer_ops w" "db_ok user db'' (reps @ [rep]) (uss @ [group_ops (w # take n ws)])" by metis
    then have "status = OK" "group_ops finished = group_ops (w # take n ws)" "db_ok user db' (reps @ [rep]) (uss @ [group_ops (w # take n ws)])"
      using run_write.hyps(2) True by (auto simp: comp_def)
    then show ?thesis using ok(2) by (intro exI [of _ "reps @ [rep]"] exI [of _ "uss @ [group_ops (w # take n ws)]"]) simp
  qed
next
  case (run_reopen db us usage write_buffer_size paranoid flush r lg mem)
  then obtain reps uss where ok: "db_ok user db reps uss" "us = concat uss" by blast
  then have "wf_contents (dest (db_log db)) = log_bytes 0 reps" by (simp add: db_ok_def)
  then have "lg = log_Writer_at (dest (db_log db)) (word_of_nat (length (wf_contents (dest (db_log db)))))" "mem = db_mem db" "rec_max r = last_sequence db"
    using recovered [OF run_reopen.hyps(2) ok(1) log_end_nothing, of paranoid flush "dest (db_log db)"
      "word_of_nat (length (wf_contents (dest (db_log db))))" "()"] run_reopen.hyps(3) by auto
  then show ?case using db_ok_reopened [OF ok(1) refl refl] ok(2) by (intro exI [of _ reps] exI [of _ uss]) simp
qed

text \<open>What the invariant says of the table and of the log, whatever the order of the events was.\<close>

lemma db_ok_holds:
  assumes "cmp_ok user" "db_ok user db reps uss"
  shows "mem_holds user (db_mem db) (set (entries_of 1 (concat uss)))" "last_sequence db = word_of_nat (length (concat uss))"
    "reads_back (wf_contents (dest (db_log db))) reps"
  using db_ok_table(1) [OF assms] assms(2) reads_back_all [of reps] by (auto simp: table_upto_def db_ok_def)

lemma db_run_holds:
  assumes "cmp_ok user" "db_run user db us"
  shows "\<exists>reps. mem_holds user (db_mem db) (set (entries_of 1 us)) \<and> last_sequence db = word_of_nat (length us) \<and>
    reads_back (wf_contents (dest (db_log db))) reps"
  using db_run_ok [OF assms] db_ok_holds [OF assms(1)] by metis

lemma numbered_last:
  "numbered s (reps @ [rep]) (uss @ [us]) \<Longrightarrow> length reps = length uss \<Longrightarrow> is_batch rep (s + word_of_nat (length (concat uss))) us"
proof (induction s reps uss rule: numbered.induct)
  case (2 s r reps uss)
  then show ?case by (cases uss) (auto simp: add.assoc)
qed simp

lemma numbered_length: "numbered s reps uss \<Longrightarrow> length reps = length uss"
  by (induction s reps uss rule: numbered.induct) (auto split: list.splits)

lemma db_ok_last: "db_ok user db (reps @ [rep]) (uss @ [us]) \<Longrightarrow> is_batch rep (1 + word_of_nat (length (concat uss))) us"
  using numbered_last [of 1 reps rep uss us] numbered_length [of 1 "reps @ [rep]" "uss @ [us]"] by (simp add: db_ok_def)

lemma reads_back_nothing:
  assumes "reads_back [] ds"
  shows "ds = []"
proof (cases ds)
  case (Cons d ds')
  let ?r = "log_Reader \<lparr>sf_rest = [], sf_faults = []\<rparr> True True 0"
  obtain x r where r: "ReadRecord ?r = (x, r)" by (cases "ReadRecord ?r")
  obtain xs r' where rs: "read_records (length ds) r = (xs, r')" by (cases "read_records (length ds) r")
  have "x = None" using reads_back_all [of "[]"] r by (auto simp: reads_back_def dest!: spec [of _ True])
  moreover have "x = Some d" using assms r rs Cons by (auto simp: reads_back_def dest!: spec [of _ True])
  ultimately show ?thesis by simp
qed

text \<open>A small run: one writer with one update.\<close>

abbreviation one_writer :: db_writer where
  "one_writer \<equiv> \<lparr>w_batch = Some (WriteBatch_Put [1] [2] WriteBatch_Clear), w_sync = False, w_status = OK, w_done = False\<rparr>"

lemma one_writer: "writer_ok one_writer" "writer_ops one_writer = [Put_op [1] [2]]"
proof -
  have b: "is_batch (WriteBatch_Put [1] [2] WriteBatch_Clear) 0 [Put_op [1] [2]]" using batch_Put [OF batch_Clear] by simp
  moreover from b have "batch_ops (WriteBatch_Put [1] [2] WriteBatch_Clear) = [Put_op [1] [2]]" by (rule batch_ops_eq) simp
  ultimately show "writer_ok one_writer" "writer_ops one_writer = [Put_op [1] [2]]"
    by (auto simp: writer_ok_def writer_ops_def good_batch_def)
qed

lemma one_queued: "db_run Slice_compare (fresh_db\<lparr>db_writers := [one_writer]\<rparr>) []"
proof -
  have "fresh_db\<lparr>db_writers := [one_writer]\<rparr> = fresh_db\<lparr>db_writers := db_writers fresh_db @ [one_writer]\<rparr>" by (simp add: fresh_db_def)
  then show ?thesis using run_queue [OF run_fresh one_writer(1)] by metis
qed

lemma one_written:
  obtains db where "db_run Slice_compare db [Put_op [1] [2]]"
proof -
  let ?db = "fresh_db\<lparr>db_writers := [one_writer]\<rparr>"
  have ok: "db_ok Slice_compare ?db [] []" using db_ok_fresh [of Slice_compare] one_writer(1) by (simp add: db_ok_def)
  obtain n w' db' rep where w: "DBImpl_Write Slice_compare OK OK ?db =
      Some (OK, w' # map (\<lambda>r. r\<lparr>w_status := OK, w_done := True\<rparr>) (take n []), db')" "writer_ops w' = writer_ops one_writer"
    by (rule Write_writes [OF slice_order.ok ok, of one_writer "[]" "WriteBatch_Put [1] [2] WriteBatch_Clear"])
      (use one_writer(2) in simp_all)
  have "db_run Slice_compare db' ([] @ (if OK = OK then group_ops [w'] else []))"
    by (rule run_write [OF one_queued]) (use w(1) one_writer(2) in simp_all)
  then show thesis using that w(2) one_writer(2) by simp
qed

section \<open>Properties\<close>

text \<open>C7: A write of the database never fails an assertion. It returns OK to a prefix of the queue and to no one else, and a group with a writer that
  asks for \<^verbatim>\<open>sync\<close> is led by such a writer. When it returns, the memory table holds exactly the updates of the run so far and then those of all
  writers of the group, in the order of the queue and numbered on without a gap, \<^verbatim>\<open>LastSequence\<close> is the number of them, and reading the log
  gives the records that were there and one more: the batch of all updates of the group, at the next sequence number. (Nothing is written for a
  writer without a batch.)\<close>

theorem db_writes_in_order:
  assumes "cmp_ok user" "db_run user db us" "db_writers db = w # ws" "length us + length (group_ops (w # ws)) < 2 ^ 56"
  shows "\<exists>n w' db' old new. DBImpl_Write user OK OK db = Some (OK, w' # map (\<lambda>r. r\<lparr>w_status := OK, w_done := True\<rparr>) (take n ws), db') \<and>
    writer_ops w' = writer_ops w \<and> db_writers db' = drop n ws \<and> (\<forall>r \<in> set (take n ws). w_sync r \<longrightarrow> w_sync w) \<and>
    mem_holds user (db_mem db') (set (entries_of 1 (us @ group_ops (w # take n ws)))) \<and>
    last_sequence db' = word_of_nat (length (us @ group_ops (w # take n ws))) \<and>
    reads_back (wf_contents (dest (db_log db))) old \<and> reads_back (wf_contents (dest (db_log db'))) (old @ new) \<and>
    (if w_batch w = None then n = 0 \<and> new = []
     else \<exists>rep. new = [rep] \<and> is_batch rep (last_sequence db + 1) (group_ops (w # take n ws))) \<and>
    db_run user db' (us @ group_ops (w # take n ws))"
proof (cases "w_batch w")
  case None
  note wr = Write_without_batch [OF assms(3), of OK user OK]
  have "writer_ops w = []" using None by (simp add: writer_ops_def)
  moreover have "db_run user (db\<lparr>db_writers := ws\<rparr>) (us @ (if OK = OK then group_ops [w] else []))"
    by (rule run_write [OF assms(2) wr]) (use None assms(3,4) in simp_all)
  moreover obtain reps where "mem_holds user (db_mem db) (set (entries_of 1 us))" "last_sequence db = word_of_nat (length us)"
      "reads_back (wf_contents (dest (db_log db))) reps"
    using db_run_holds [OF assms(1,2)] by blast
  ultimately show ?thesis
    using wr None by (intro exI [of _ 0] exI [of _ w] exI [of _ "db\<lparr>db_writers := ws\<rparr>"] exI [of _ reps] exI [of _ "[]"]) simp
next
  case (Some b)
  obtain reps uss where ok: "db_ok user db reps uss" "us = concat uss" using db_run_ok [OF assms(1,2)] by blast
  have "length (concat uss) + length (group_ops (db_writers db)) < 2 ^ 56" using assms(3,4) ok(2) by simp
  from Write_writes [OF assms(1) ok(1) assms(3) Some this] obtain n w' db' rep where w:
      "DBImpl_Write user OK OK db = Some (OK, w' # map (\<lambda>r. r\<lparr>w_status := OK, w_done := True\<rparr>) (take n ws), db')"
      "writer_ops w' = writer_ops w" "db_writers db' = drop n ws" "\<forall>r \<in> set (take n ws). w_sync r \<longrightarrow> w_sync w"
      "db_ok user db' (reps @ [rep]) (uss @ [group_ops (w # take n ws)])" by metis
  have "db_run user db' (us @ (if OK = OK then group_ops (w' # map (\<lambda>r. r\<lparr>w_status := OK, w_done := True\<rparr>) (take n ws)) else []))"
    by (rule run_write [OF assms(2) w(1)]) (use assms(3,4) in simp)
  moreover have "is_batch rep (last_sequence db + 1) (group_ops (w # take n ws))"
    using db_ok_last [OF w(5)] ok(1) by (simp add: db_ok_def add.commute)
  ultimately show ?thesis using w(1-4) db_ok_holds [OF assms(1) w(5)] db_ok_holds(3) [OF assms(1) ok(1)] Some ok(2)
    by (intro exI [of _ n] exI [of _ w'] exI [of _ db'] exI [of _ reps] exI [of _ "[rep]"]) (simp add: comp_def)
qed

text \<open>One writer that puts a key: the table has its entry, with the sequence number 1.\<close>

theorem db_writes_in_order_witness:
  "\<exists>n w' db'. DBImpl_Write Slice_compare OK OK (fresh_db\<lparr>db_writers := [one_writer]\<rparr>) =
      Some (OK, w' # map (\<lambda>r. r\<lparr>w_status := OK, w_done := True\<rparr>) (take n []), db') \<and>
    mem_holds Slice_compare (db_mem db') (set (entries_of 1 [Put_op [1] [2]])) \<and> last_sequence db' = 1 \<and>
    (\<exists>rep. reads_back (wf_contents (dest (db_log db'))) [rep] \<and> is_batch rep 1 [Put_op [1] [2]]) \<and>
    db_run Slice_compare db' [Put_op [1] [2]]"
proof -
  let ?db = "fresh_db\<lparr>db_writers := [one_writer]\<rparr>"
  have "length ([] :: batch_op list) + length (group_ops [one_writer]) < 2 ^ 56" using one_writer(2) by simp
  from db_writes_in_order [OF slice_order.ok one_queued _ this] obtain n w' db' old new where
      db': "DBImpl_Write Slice_compare OK OK ?db = Some (OK, w' # map (\<lambda>r. r\<lparr>w_status := OK, w_done := True\<rparr>) (take n []), db')"
      "mem_holds Slice_compare (db_mem db') (set (entries_of 1 [Put_op [1] [2]]))" "last_sequence db' = 1"
      "reads_back (wf_contents (dest (db_log ?db))) old" "reads_back (wf_contents (dest (db_log db'))) (old @ new)"
      "\<exists>rep. new = [rep] \<and> is_batch rep (last_sequence ?db + 1) [Put_op [1] [2]]" "db_run Slice_compare db' [Put_op [1] [2]]"
    using one_writer(2) by auto
  moreover have "wf_contents (dest (db_log ?db)) = []" "last_sequence ?db = 0" by (simp_all add: fresh_db_def log_Writer_def)
  moreover from this have "old = []" using reads_back_nothing db'(4) by simp
  ultimately show ?thesis by (intro exI [of _ n] exI [of _ w'] exI [of _ db']) auto
qed

text \<open>C6: A read at a sequence number sees the updates up to that number: after any run, \<^verbatim>\<open>Get\<close> returns the value of the last of them that wrote the
  key, or the status \<^verbatim>\<open>NotFound\<close> if that was a deletion; only if there is none, the files of the current version are asked.\<close>

theorem db_reads_snapshots:
  assumes "cmp_ok user" "db_run user db us" "unat s \<le> length us" "length k + 8 < 2 ^ 32"
  shows "\<exists>lk. new_LookupKey k s = Some lk \<and>
    DBImpl_Get user current (Some s) k v db =
      Some (case newest user k (take (unat s) us) of
              None \<Rightarrow> current lk v
            | Some (Put_op _ w) \<Rightarrow> (OK, w)
            | Some (Delete_op _) \<Rightarrow> (NotFound [], v))"
proof -
  obtain reps uss where ok: "db_ok user db reps uss" "us = concat uss" using db_run_ok [OF assms(1,2)] by blast
  note table = db_ok_table [OF assms(1) ok(1)]
  have "length us < 2 ^ 56" using ok by (simp add: db_ok_def)
  then have "s \<le> kMaxSequenceNumber" using assms(3) by (simp add: word_le_nat_alt kMaxSequenceNumber_def)
  then obtain lk where lk: "new_LookupKey k s = Some lk" by (simp add: new_LookupKey_def PackSequenceAndType_def)
  have "MemTable_Get user (db_mem db) lk v OK = Some (lookup_answer (newest user k (take (unat s) us)) v OK)"
    using Get_snapshot [OF assms(1) _ table(2) lk assms(4), of "db_mem db" v OK] table(1) ok(2) by (simp add: table_upto_def)
  moreover have "db_imm db = None" using ok(1) by (simp add: db_ok_def)
  ultimately have get: "DBImpl_Get user current (Some s) k v db =
      (case lookup_answer (newest user k (take (unat s) us)) v OK of (found, v, s) \<Rightarrow> Some (if found then (s, v) else current lk v))"
    using lk by (auto simp: DBImpl_Get_def split: prod.splits)
  show ?thesis
  proof (cases "newest user k (take (unat s) us)")
    case (Some u)
    then show ?thesis using get lk by (cases u) simp_all
  qed (use get lk in simp)
qed

theorem db_reads_snapshots_witness:
  "\<exists>db. db_run Slice_compare db [Put_op [1] [2]] \<and> DBImpl_Get Slice_compare (\<lambda>lk v. (IOError [], v)) (Some 1) [1] [] db = Some (OK, [2]) \<and>
    DBImpl_Get Slice_compare (\<lambda>lk v. (IOError [], v)) (Some 0) [1] [] db = Some (IOError [], [])"
proof -
  obtain db where db: "db_run Slice_compare db [Put_op [1] [2]]" by (rule one_written)
  have key: "Slice_compare (op_key (Put_op [1] [2])) [1] = 0" by (simp add: op_key_def)
  show ?thesis
    using db db_reads_snapshots [OF slice_order.ok db, of 1 "[1]" "\<lambda>lk v. (IOError [], v)" "[]"]
      db_reads_snapshots [OF slice_order.ok db, of 0 "[1]" "\<lambda>lk v. (IOError [], v)" "[]"] key
    by (intro exI [of _ db]) (auto simp: newest_def)
qed

text \<open>C5: Recovery: after any run, replaying the log file rebuilds the memory table and the last sequence number, even if the file ends with any
  part of the bytes of one more record, and the status is OK; that is so as long as the table stays below the write buffer size.\<close>

theorem db_recovers:
  assumes "cmp_ok user" "db_run user db us" "\<forall>m. usage m \<le> write_buffer_size"
    "AddRecord (db_log db) d = Some (OK, lg)" "wf_contents (dest lg) = wf_contents (dest (db_log db)) @ bytes" "k < length bytes"
  shows "\<exists>r. RecoverLogFile user paranoid write_buffer_size True True usage flush
      (OK, \<lparr>sf_rest = wf_contents (dest (db_log db)) @ take k bytes, sf_faults = []\<rparr>) (Some (f, n)) 0 e =
        Some (r, Some (log_Writer_at f n, db_mem db)) \<and> rec_status r = OK \<and> rec_max r = last_sequence db \<and> rec_env r = e \<and>
    last_sequence db = word_of_nat (length us)"
proof -
  obtain reps uss where ok: "db_ok user db reps uss" "us = concat uss" using db_run_ok [OF assms(1,2)] by blast
  then have db: "writer_at (db_log db) (length (log_bytes 0 reps))" "wf_contents (dest (db_log db)) = log_bytes 0 reps"
      "wf_faults (dest (db_log db)) = []" "last_sequence db = word_of_nat (length us)" by (simp_all add: db_ok_def)
  then have "bytes = log_layout (length (log_bytes 0 reps)) True d"
    using AddRecord_appends [OF db(1), of d] assms(4,5) by (auto simp: padding_written_def appends_def)
  then have "log_end (length (log_bytes 0 reps)) (take k bytes)" using log_end_torn [OF take_strict_prefix] assms(6) by simp
  from recovered [OF assms(3) ok(1) this] show ?thesis using db by simp
qed

theorem db_recovers_witness:
  "\<exists>db bytes r. db_run Slice_compare db [Put_op [1] [2]] \<and> length bytes = 6 \<and>
    RecoverLogFile Slice_compare True 0 True True (\<lambda>_. 0) (\<lambda>_ e. (IOError [], e))
      (OK, \<lparr>sf_rest = wf_contents (dest (db_log db)) @ bytes, sf_faults = []\<rparr>) (Some (dest (db_log db), 0)) 0 () =
        Some (r, Some (log_Writer_at (dest (db_log db)) 0, db_mem db)) \<and> rec_max r = 1"
proof -
  obtain db where db: "db_run Slice_compare db [Put_op [1] [2]]" by (rule one_written)
  obtain reps uss where ok: "db_ok Slice_compare db reps uss" using db_run_ok [OF slice_order.ok db] by blast
  define bytes where "bytes = log_layout (length (log_bytes 0 reps)) True (replicate 9 0)"
  have w: "writer_at (db_log db) (length (log_bytes 0 reps))" "wf_faults (dest (db_log db)) = []" using ok by (simp_all add: db_ok_def)
  then obtain lg where "AddRecord (db_log db) (replicate 9 0) = Some (OK, lg)" "wf_contents (dest lg) = wf_contents (dest (db_log db)) @ bytes"
    using AddRecord_appends [OF w(1), of "replicate 9 0"] by (auto simp: padding_written_def appends_def bytes_def)
  moreover have "length bytes \<ge> 7" using layout_step(1) [of "length (log_bytes 0 reps)" True "replicate 9 0"] by (simp add: bytes_def)
  ultimately show ?thesis
    using db_recovers [OF slice_order.ok db, of "\<lambda>_. 0" 0 "replicate 9 0" lg bytes 6 True "\<lambda>_ e. (IOError [], e)" "dest (db_log db)" 0 "()"] db
    by (intro exI [of _ db] exI [of _ "take 6 bytes"]) auto
qed

text \<open>C21: A log that ends with a cut record must not be used on: if it ends after the header of a record, then whatever is appended to it and
  acknowledged, as long as it is shorter than the cut record was, is lost at the next recovery, which reports no error.\<close>

theorem reused_log_loses_writes:
  assumes "cmp_ok user" "db_run user db us" "\<forall>m. usage m \<le> write_buffer_size"
    "AddRecord (db_log db) d = Some (OK, lg)" "wf_contents (dest lg) = wf_contents (dest (db_log db)) @ bytes"
    "length (wf_contents (dest (db_log db))) mod 32768 + 7 + length d \<le> 32768"
    "file = wf_contents (dest (db_log db)) @ take 7 bytes"
    "add_records ds (log_Writer_at \<lparr>wf_contents = file, wf_faults = []\<rparr> (word_of_nat (length file))) = Some (OK, lg')"
    "length (wf_contents (dest lg')) < length file + length d"
  shows "\<exists>r lg'' mem. RecoverLogFile user paranoid write_buffer_size True True usage flush
      (OK, \<lparr>sf_rest = wf_contents (dest lg'), sf_faults = []\<rparr>) (Some (f, n)) 0 e = Some (r, Some (lg'', mem)) \<and>
    mem = db_mem db \<and> rec_status r = OK \<and> rec_max r = last_sequence db"
proof -
  obtain reps uss where ok: "db_ok user db reps uss" "us = concat uss" using db_run_ok [OF assms(1,2)] by blast
  define pos where "pos = length (log_bytes 0 reps)"
  have db: "writer_at (db_log db) pos" "wf_contents (dest (db_log db)) = log_bytes 0 reps" "wf_faults (dest (db_log db)) = []"
    using ok(1) by (simp_all add: db_ok_def pos_def)
  then have bytes: "bytes = log_layout pos True d"
    using AddRecord_appends [OF db(1), of d] assms(4,5) by (auto simp: padding_written_def appends_def)
  obtain lg2 where "add_records ds (log_Writer_at \<lparr>wf_contents = file, wf_faults = []\<rparr> (word_of_nat (length file))) = Some (OK, lg2)"
      "wf_contents (dest lg2) = file @ log_bytes (length file) ds"
    using add_records_layout [OF writer_at_new(2), of "\<lparr>wf_contents = file, wf_faults = []\<rparr>" "length file" ds] by (auto simp: log_Writer_at_def)
  then have contents: "wf_contents (dest lg') = log_bytes 0 reps @ take 7 bytes @ log_bytes (length file) ds" "length (log_bytes (length file) ds) < length d"
    using assms(7,8,9) db(2) by simp_all
  have "pos mod 32768 + 7 + length d \<le> 32768" using assms(6) db(2) by (simp add: pos_def)
  moreover from this have "padding pos = 0" by (simp add: padding_def Let_def)
  ultimately have "log_end pos (take 7 bytes @ log_bytes (length file) ds)" unfolding bytes using contents(2) by (intro log_end_header)
  from recovered [OF assms(3) ok(1) this [unfolded pos_def]] show ?thesis unfolding contents(1) by metis
qed

theorem reused_log_loses_writes_witness:
  "\<exists>lg lg' r lg'' mem. AddRecord (db_log fresh_db) (replicate 100 0) = Some (OK, lg) \<and>
    add_records [[1]] (log_Writer_at \<lparr>wf_contents = take 7 (wf_contents (dest lg)), wf_faults = []\<rparr> 7) = Some (OK, lg') \<and>
    RecoverLogFile Slice_compare True 0 True True (\<lambda>_. 0) (\<lambda>_ e. (IOError [], e))
      (OK, \<lparr>sf_rest = wf_contents (dest lg'), sf_faults = []\<rparr>) (Some (dest lg', 0)) 0 () = Some (r, Some (lg'', mem)) \<and>
    mem = new_MemTable \<and> rec_status r = OK"
proof -
  have db: "wf_contents (dest (db_log fresh_db)) = []" "db_mem fresh_db = new_MemTable" by (simp_all add: fresh_db_def log_Writer_def)
  obtain lg where lg: "AddRecord (db_log fresh_db) (replicate 100 0) = Some (OK, lg)" "wf_contents (dest lg) = log_layout 0 True (replicate 100 0)"
    using AddRecord_appends [OF writer_at_new(1), of "\<lparr>wf_contents = [], wf_faults = []\<rparr>" "replicate 100 0"]
    by (auto simp: padding_written_def appends_def fresh_db_def log_Writer_def)
  define cut where "cut = take 7 (wf_contents (dest lg))"
  have len: "length cut = 7" using length_whole_layout [of "replicate 100 0" 0 True] by (simp add: cut_def lg(2) avail_at_def padding_def)
  have "length (log_bytes 7 [[1]]) = 8" using length_whole_layout [of "[1]" 7 True] by (simp add: avail_at_def padding_def)
  moreover obtain lg' where lg': "add_records [[1]] (log_Writer_at \<lparr>wf_contents = cut, wf_faults = []\<rparr> 7) = Some (OK, lg')"
      "wf_contents (dest lg') = cut @ log_bytes 7 [[1]]"
    using add_records_layout [OF writer_at_new(2), of "\<lparr>wf_contents = cut, wf_faults = []\<rparr>" 7 "[[1]]"] by (auto simp: log_Writer_at_def)
  ultimately have short: "length (wf_contents (dest lg')) < length cut + length (replicate 100 0)" using len by simp
  obtain r lg'' mem where "RecoverLogFile Slice_compare True 0 True True (\<lambda>_. 0) (\<lambda>_ e. (IOError [], e))
      (OK, \<lparr>sf_rest = wf_contents (dest lg'), sf_faults = []\<rparr>) (Some (dest lg', 0)) 0 () = Some (r, Some (lg'', mem))" "mem = new_MemTable" "rec_status r = OK"
    using reused_log_loses_writes [OF slice_order.ok run_fresh, of "\<lambda>_. 0" 0 "replicate 100 0" lg "wf_contents (dest lg)" cut "[[1]]" lg' True
        "\<lambda>_ e. (IOError [], e)" "dest lg'" 0 "()"] db lg(1) lg'(1) len short by (auto simp: cut_def)
  then show ?thesis using lg(1) lg'(1) unfolding cut_def by blast
qed

end
