(* ===== verification/Leveldb_Db_Failures.thy ===== *)
theory Leveldb_Db_Failures
  imports Leveldb_Db_Run
begin

text \<open>
  What a failed write leaves behind. The header of a record reaches the log, its payload does not: the write returns the error, but the database
  goes on with the same log, and recovery does not find the writes that follow.
\<close>

lemma layout_header:
  assumes "padding pos = 0" "pos mod 32768 + 7 + length d \<le> 32768"
  shows "take 7 (log_layout pos True d) = record_header kFullType d" "log_layout pos True d = physical_record kFullType d"
proof -
  have "avail_at pos \<ge> length d" using assms by (simp add: avail_at_def)
  then show "log_layout pos True d = physical_record kFullType d" "take 7 (log_layout pos True d) = record_header kFullType d"
    using layout_step(1) [of pos True d] assms(1) by (simp_all add: physical_record_header fragment_type_def)
qed

lemma new_block_unchanged:
  assumes "writer_at w pos" "padding pos = 0"
  shows "dest (log_new_block w) = dest w"
proof -
  have off: "0 \<le> block_offset w" "block_offset w \<le> 32768" "block_offset w mod 32768 = int (pos mod 32768)"
    using assms(1) by (simp_all add: writer_at_def)
  show ?thesis
  proof (cases "block_offset w = 32768")
    case False
    then have "block_offset w = int (pos mod 32768)" using off by simp
    moreover have "pos mod 32768 + 7 \<le> 32768" using assms(2) by (cases pos rule: padding_cases) simp_all
    ultimately show ?thesis by (simp add: log_new_block_def Let_def)
  qed (simp add: log_new_block_def Let_def)
qed

lemma AddRecord_header_only:
  assumes "writer_at w pos" "padding pos = 0" "pos mod 32768 + 7 + length d \<le> 32768" "wf_faults (dest w) = [None, Some (0, msg)]"
  shows "\<exists>w'. AddRecord w d = Some (IOError msg, w') \<and> writer_at w' (pos + 7 + length d) \<and>
    dest w' = \<lparr>wf_contents = wf_contents (dest w) @ record_header kFullType d, wf_faults = []\<rparr>"
proof -
  define w1 where "w1 = log_new_block w"
  note new = new_block_appends(2,3) [OF assms(1), folded w1_def] new_block_unchanged [OF assms(1,2), folded w1_def]
  have off: "block_offset w1 = int (pos mod 32768)" using new(1) assms(2) by simp
  have guards: "int kBlockSize - block_offset w \<ge> 0" "int kBlockSize - block_offset w1 - int kHeaderSize \<ge> 0"
      "\<not> nat (int kBlockSize - block_offset w1 - int kHeaderSize) < length d \<or> nat (int kBlockSize - block_offset w1 - int kHeaderSize) = length d"
    using assms(1,3) off by (auto simp: writer_at_def)
  define w' where "w' = w1\<lparr>dest := \<lparr>wf_contents = wf_contents (dest w) @ record_header kFullType d, wf_faults = []\<rparr>,
    block_offset := block_offset w1 + 7 + int (length d)\<rparr>"
  have "EmitPhysicalRecord w1 kFullType d = Some (IOError msg, w')"
  proof -
    have "length d \<le> 65535" using assms(3) by linarith
    moreover have "EncodeFixed32 (crc32c_Mask (crc32c_Extend 0 (type_crc w1 ! unat kFullType) d)) @
        [word_of_nat (length d mod 256), word_of_nat (length d div 256), ucast kFullType] = record_header kFullType d"
      using Value_type_crc [of kFullType] new(2) by (simp add: record_header_def Encode_le record_types crc32c_concat)
    ultimately show ?thesis using off assms(3,4) new(3)
      by (simp add: EmitPhysicalRecord_def wf_Append_def w'_def Let_def)
  qed
  moreover have "writer_at w' (pos + 7 + length d)"
  proof -
    have "int (pos mod 32768) + 7 + int (length d) \<le> 32768" using assms(3) by linarith
    then show ?thesis using off new(2) by (simp add: writer_at_def w'_def zmod_int mod_add_left_eq add.assoc)
  qed
  ultimately show ?thesis using guards
    unfolding AddRecord_def AddRecord_loop.simps [of True d w] w1_def [symmetric] Let_def
    by (intro exI [of _ w']) (simp add: fragment_type_def w'_def)
qed

lemma Write_alone:
  assumes "db_writers db = [w]" "w_batch w = Some b" "AddRecord (db_log db) (WB_SetSequence (last_sequence db + 1) b) = Some (s, lg)"
    "(if s = OK then InsertInto user (WB_SetSequence (last_sequence db + 1) b) (db_mem db) else Some (s, db_mem db)) = Some (s', m)"
  shows "\<exists>db' w'. DBImpl_Write user OK OK db = Some (s', [w'], db') \<and> db_log db' = lg \<and> db_mem db' = m \<and> bg_error db' = bg_error db \<and>
    last_sequence db' = last_sequence db + scast (WB_Count (WB_SetSequence (last_sequence db + 1) b))"
  using assms by (auto simp: DBImpl_Write_def Write_apply_def BuildBatchGroup_def Let_def split: if_splits)

lemma table_upto_mono: "table_upto user m E s \<Longrightarrow> s \<le> s' \<Longrightarrow> table_upto user m E s'"
  by (auto simp: table_upto_def)

abbreviation payload_fails :: "string \<Rightarrow> db \<Rightarrow> db" where
  "payload_fails msg db \<equiv> db\<lparr>db_log := (db_log db)\<lparr>dest := (dest (db_log db))\<lparr>wf_faults := [None, Some (0, msg)]\<rparr>\<rparr>\<rparr>"

lemma writer_batch:
  assumes "writer_ok w" "w_batch w = Some b"
  shows "is_batch (WB_SetSequence s b) s (writer_ops w)" "length (WB_SetSequence s b) = length b"
    "scast (WB_Count (WB_SetSequence s b)) = (word_of_nat (length (writer_ops w)) :: u64)"
proof -
  obtain seq where b: "is_batch b seq (writer_ops w)" "list_all op_fits (writer_ops w)" "length (writer_ops w) < 2 ^ 31"
    using assms by (auto simp: writer_ok_def writer_ops_def good_batch_def)
  show numbered: "is_batch (WB_SetSequence s b) s (writer_ops w)" by (rule batch_SetSequence [OF b(1)])
  show "length (WB_SetSequence s b) = length b" using batch_header(6) [OF b(1)] b(1) by (auto simp: is_batch_def)
  show "scast (WB_Count (WB_SetSequence s b)) = (word_of_nat (length (writer_ops w)) :: u64)"
    unfolding batch_header(2) [OF numbered] by (rule signed_count [OF b(3)])
qed

text \<open>The two writes, and what the reader makes of the log behind them.\<close>

lemma Write_fails:
  assumes "writer_at (db_log db) pos" "pos mod 32768 + 7 + length b \<le> 32768" "db_writers db = [w]" "w_batch w = Some b" "writer_ok w"
  obtains w' db1 where "DBImpl_Write user OK OK (payload_fails msg db) = Some (IOError msg, [w'], db1)"
    "writer_at (db_log db1) (pos + 7 + length b)" "db_mem db1 = db_mem db" "bg_error db1 = bg_error db"
    "last_sequence db1 = last_sequence db + word_of_nat (length (writer_ops w))"
    "dest (db_log db1) = \<lparr>wf_contents = wf_contents (dest (db_log db)) @ record_header kFullType (WB_SetSequence (last_sequence db + 1) b), wf_faults = []\<rparr>"
proof -
  note rep = writer_batch [OF assms(5,4), of "last_sequence db + 1"]
  have pad: "padding pos = 0" using assms(2) by (simp add: padding_def Let_def)
  have fits: "pos mod 32768 + 7 + length (WB_SetSequence (last_sequence db + 1) b) \<le> 32768" using assms(2) rep(2) by simp
  have "writer_at (db_log (payload_fails msg db)) pos" using assms(1) by (simp add: writer_at_def)
  from AddRecord_header_only [OF this pad fits, of msg] obtain lg where
      lg: "AddRecord (db_log (payload_fails msg db)) (WB_SetSequence (last_sequence db + 1) b) = Some (IOError msg, lg)" "writer_at lg (pos + 7 + length b)"
      "dest lg = \<lparr>wf_contents = wf_contents (dest (db_log db)) @ record_header kFullType (WB_SetSequence (last_sequence db + 1) b), wf_faults = []\<rparr>"
    by (auto simp: rep(2))
  show thesis
    using Write_alone [of "payload_fails msg db" w b "IOError msg" lg user "IOError msg" "db_mem db"] assms(3,4) lg rep(3) that by auto
qed

lemma Write_succeeds:
  assumes "cmp_ok user" "writer_at (db_log db) pos" "wf_faults (dest (db_log db)) = []" "table_upto user (db_mem db) E (last_sequence db + 1)"
    "w_batch w = Some b" "writer_ok w" "seq_room (last_sequence db + 1) (length (writer_ops w))"
  obtains w' db' where "DBImpl_Write user OK OK (db\<lparr>db_writers := [w]\<rparr>) = Some (OK, [w'], db')"
    "wf_contents (dest (db_log db')) = wf_contents (dest (db_log db)) @ log_layout pos True (WB_SetSequence (last_sequence db + 1) b)"
    "table_upto user (db_mem db') (E \<union> set (entries_of (last_sequence db + 1) (writer_ops w)))
      (last_sequence db + 1 + word_of_nat (length (writer_ops w)))"
proof -
  note rep = writer_batch [OF assms(6,5), of "last_sequence db + 1"]
  obtain lg where lg: "AddRecord (db_log db) (WB_SetSequence (last_sequence db + 1) b) = Some (OK, lg)"
      "wf_contents (dest lg) = wf_contents (dest (db_log db)) @ log_layout pos True (WB_SetSequence (last_sequence db + 1) b)"
    using AddRecord_appends [OF assms(2), of "WB_SetSequence (last_sequence db + 1) b"] assms(3) by (auto simp: padding_written_def appends_def)
  obtain m where m: "InsertInto user (WB_SetSequence (last_sequence db + 1) b) (db_mem db) = Some (OK, m)"
      "table_upto user m (E \<union> set (entries_of (last_sequence db + 1) (writer_ops w))) (last_sequence db + 1 + word_of_nat (length (writer_ops w)))"
    using InsertInto_inserts [OF assms(1,4) rep(1) writer_ok_fits [OF assms(6)] assms(7)] by blast
  show thesis
    using Write_alone [of "db\<lparr>db_writers := [w]\<rparr>" w b OK lg user OK m] assms(5) lg m that by auto
qed

lemma log_end_cut_record:
  assumes "pos mod 32768 + 7 + length d + 7 + length d2 \<le> 32768" "7 + length d2 < length d"
  shows "log_end pos (record_header kFullType d @ log_layout (pos + 7 + length d) True d2)"
proof -
  have fits: "padding pos = 0" "pos mod 32768 + 7 + length d \<le> 32768" using assms(1) by (simp_all add: padding_def Let_def)
  have "(pos + 7 + length d) mod 32768 \<le> pos mod 32768 + (7 + length d)"
    using mod_less_eq_dividend [of "pos mod 32768 + (7 + length d)" 32768] by (simp add: mod_add_left_eq add.assoc)
  then have far: "(pos + 7 + length d) mod 32768 + 7 + length d2 \<le> 32768" using assms(1) by linarith
  then have "padding (pos + 7 + length d) = 0" by (simp add: padding_def Let_def)
  then have "length (log_layout (pos + 7 + length d) True d2) < length d" using far assms(2) by (subst layout_header(2)) simp_all
  from log_end_header [OF fits this] show ?thesis by (simp add: layout_header(1) [OF fits])
qed

lemma unat_next_sequence: "j < 2 ^ 56 \<Longrightarrow> unat (word_of_nat j + 1 :: u64) = j + 1"
  using seq_roomD(2) [of 1 j j] by (simp add: seq_room_def add.commute)

text \<open>C20: A write whose payload does not reach the log is reported to its caller and does not reach the table, but it does not stop the database: the
  next write returns OK and reaches the table, and if it is shorter than the failed one, then recovery loses it, without an error.\<close>

theorem failed_append_loses_later_writes:
  assumes "cmp_ok user" "db_run user db us" "db_writers db = [w]" "w_batch w = Some b" "w_batch w2 = Some b2" "writer_ok w2"
    "length us + length (writer_ops w) + length (writer_ops w2) < 2 ^ 56"
    "length (wf_contents (dest (db_log db))) mod 32768 + 7 + length b + 7 + length b2 \<le> 32768" "7 + length b2 < length b"
    "\<forall>m. usage m \<le> write_buffer_size"
  shows "\<exists>w' db1 w2' db2. DBImpl_Write user OK OK (payload_fails msg db) = Some (IOError msg, [w'], db1) \<and>
    db_mem db1 = db_mem db \<and> bg_error db1 = bg_error db \<and> DBImpl_Write user OK OK (db1\<lparr>db_writers := [w2]\<rparr>) = Some (OK, [w2'], db2) \<and>
    mem_holds user (db_mem db2) (set (entries_of 1 us) \<union> set (entries_of (last_sequence db1 + 1) (writer_ops w2))) \<and>
    (\<exists>r. RecoverLogFile user paranoid write_buffer_size True True usage flush
        (OK, \<lparr>sf_rest = wf_contents (dest (db_log db2)), sf_faults = []\<rparr>) (Some (f, n)) 0 e = Some (r, Some (log_Writer_at f n, db_mem db)) \<and>
      rec_status r = OK)"
proof -
  obtain reps uss where ok: "db_ok user db reps uss" "us = concat uss" using db_run_ok [OF assms(1,2)] by blast
  define pos where "pos = length (log_bytes 0 reps)"
  have db: "writer_at (db_log db) pos" "wf_contents (dest (db_log db)) = log_bytes 0 reps" "last_sequence db = word_of_nat (length us)" "writer_ok w"
    using ok assms(3) by (simp_all add: db_ok_def pos_def)
  have fits: "pos mod 32768 + 7 + length b + 7 + length b2 \<le> 32768" using assms(8) db(2) by (simp add: pos_def)
  then have fits1: "pos mod 32768 + 7 + length b \<le> 32768" by simp
  obtain w' db1 where db1: "DBImpl_Write user OK OK (payload_fails msg db) = Some (IOError msg, [w'], db1)" "writer_at (db_log db1) (pos + 7 + length b)"
      "db_mem db1 = db_mem db" "bg_error db1 = bg_error db" "last_sequence db1 = last_sequence db + word_of_nat (length (writer_ops w))"
      "dest (db_log db1) = \<lparr>wf_contents = log_bytes 0 reps @ record_header kFullType (WB_SetSequence (last_sequence db + 1) b), wf_faults = []\<rparr>"
    using Write_fails [OF db(1) fits1 assms(3,4) db(4), of user msg] unfolding db(2) by metis
  have "last_sequence db1 = word_of_nat (length us + length (writer_ops w))" using db1(5) db(3) by simp
  then have "unat (last_sequence db1 + 1) = length us + length (writer_ops w) + 1" "unat (last_sequence db + 1) = length us + 1"
    using unat_next_sequence [of "length us + length (writer_ops w)"] unat_next_sequence [of "length us"] assms(7) db(3) by simp_all
  then have room: "seq_room (last_sequence db1 + 1) (length (writer_ops w2))" "last_sequence db + 1 \<le> last_sequence db1 + 1"
    using assms(7) by (simp_all add: seq_room_def word_le_nat_alt)
  have table: "table_upto user (db_mem db1) (set (entries_of 1 us)) (last_sequence db1 + 1)"
    using table_upto_mono [OF db_ok_table(1) [OF assms(1) ok(1)] room(2)] db1(3) ok(2) by simp
  have no_faults: "wf_faults (dest (db_log db1)) = []" using db1(6) by simp
  obtain w2' db2 where db2: "DBImpl_Write user OK OK (db1\<lparr>db_writers := [w2]\<rparr>) = Some (OK, [w2'], db2)"
      "wf_contents (dest (db_log db2)) = wf_contents (dest (db_log db1)) @ log_layout (pos + 7 + length b) True (WB_SetSequence (last_sequence db1 + 1) b2)"
      "table_upto user (db_mem db2) (set (entries_of 1 us) \<union> set (entries_of (last_sequence db1 + 1) (writer_ops w2)))
        (last_sequence db1 + 1 + word_of_nat (length (writer_ops w2)))"
    by (rule Write_succeeds [OF assms(1) db1(2) no_faults table assms(5,6) room(1)])
  have "log_end (length (log_bytes 0 reps)) (record_header kFullType (WB_SetSequence (last_sequence db + 1) b) @
      log_layout (pos + 7 + length b) True (WB_SetSequence (last_sequence db1 + 1) b2))"
    using log_end_cut_record [of pos "WB_SetSequence (last_sequence db + 1) b" "WB_SetSequence (last_sequence db1 + 1) b2"] fits assms(9)
      writer_batch(2) [OF db(4) assms(4)] writer_batch(2) [OF assms(6,5)] by (simp add: pos_def)
  from recovered [OF assms(10) ok(1) this, of paranoid flush f n e] obtain r where
      "RecoverLogFile user paranoid write_buffer_size True True usage flush (OK, \<lparr>sf_rest = wf_contents (dest (db_log db2)), sf_faults = []\<rparr>) (Some (f, n)) 0 e =
        Some (r, Some (log_Writer_at f n, db_mem db))" "rec_status r = OK" unfolding db2(2) db1(6) by auto
  with db1 db2 show ?thesis by (intro exI [of _ w'] exI [of _ db1] exI [of _ w2'] exI [of _ db2]) (simp add: table_upto_def)
qed

abbreviation long_writer :: db_writer where
  "long_writer \<equiv> \<lparr>w_batch = Some (WriteBatch_Put [1] (replicate 30 0) WriteBatch_Clear), w_sync = False, w_status = OK, w_done = False\<rparr>"

lemma one_batch: "is_batch (WriteBatch_Put k v WriteBatch_Clear) 0 [Put_op k v]"
  using batch_Put [OF batch_Clear] by simp

lemma length_slice_octets: "length xs < 128 \<Longrightarrow> length (slice_octets xs) = 1 + length xs"
  by (simp add: slice_octets_def EncodeVarint32_octets unat_of_nat varint_octets_small)

lemma length_one_batch: "length k < 128 \<Longrightarrow> length v < 128 \<Longrightarrow> length (WriteBatch_Put k v WriteBatch_Clear) = 15 + length k + length v"
  using one_batch [of k v] by (simp add: is_batch_def length_slice_octets)

lemma long_writer: "writer_ok long_writer" "writer_ops long_writer = [Put_op [1] (replicate 30 0)]"
proof -
  have "batch_ops (WriteBatch_Put [1] (replicate 30 0) WriteBatch_Clear) = [Put_op [1] (replicate 30 0)]" by (rule batch_ops_eq [OF one_batch]) simp
  then show "writer_ok long_writer" "writer_ops long_writer = [Put_op [1] (replicate 30 0)]"
    using one_batch [of "[1]" "replicate 30 0"] by (auto simp: writer_ok_def writer_ops_def good_batch_def)
qed

theorem failed_append_loses_later_writes_witness:
  "\<exists>w' db1 w2' db2. DBImpl_Write Slice_compare OK OK (payload_fails ''disk full'' (fresh_db\<lparr>db_writers := [long_writer]\<rparr>)) =
      Some (IOError ''disk full'', [w'], db1) \<and>
    DBImpl_Write Slice_compare OK OK (db1\<lparr>db_writers := [one_writer]\<rparr>) = Some (OK, [w2'], db2) \<and>
    (\<exists>r lg. RecoverLogFile Slice_compare True 0 True True (\<lambda>_. 0) (\<lambda>_ e. (OK, e))
        (OK, \<lparr>sf_rest = wf_contents (dest (db_log db2)), sf_faults = []\<rparr>) (Some (\<lparr>wf_contents = [], wf_faults = []\<rparr>, 0)) 0 () =
      Some (r, Some (lg, new_MemTable)))"
proof -
  let ?db = "fresh_db\<lparr>db_writers := [long_writer]\<rparr>"
  have "?db = fresh_db\<lparr>db_writers := db_writers fresh_db @ [long_writer]\<rparr>" by (simp add: fresh_db_def)
  then have run: "db_run Slice_compare ?db []" using run_queue [OF run_fresh long_writer(1)] by metis
  have empty: "wf_contents (dest (db_log ?db)) = []" "db_mem ?db = new_MemTable" by (simp_all add: fresh_db_def log_Writer_def)
  have room: "length (wf_contents (dest (db_log ?db))) mod 32768 + 7 + length (WriteBatch_Put [1] (replicate 30 0) WriteBatch_Clear) + 7 +
      length (WriteBatch_Put [1] [2] WriteBatch_Clear) \<le> 32768"
    "7 + length (WriteBatch_Put [1] [2] WriteBatch_Clear) < length (WriteBatch_Put [1] (replicate 30 0) WriteBatch_Clear)"
    unfolding empty by (simp_all add: length_one_batch)
  have few: "length ([] :: batch_op list) + length (writer_ops long_writer) + length (writer_ops one_writer) < 2 ^ 56"
    using long_writer(2) one_writer(2) by simp
  have "db_writers ?db = [long_writer]" "w_batch long_writer = Some (WriteBatch_Put [1] (replicate 30 0) WriteBatch_Clear)"
    "w_batch one_writer = Some (WriteBatch_Put [1] [2] WriteBatch_Clear)" "\<forall>m :: memtable. (0 :: nat) \<le> 0" by simp_all
  note lost = failed_append_loses_later_writes [OF slice_order.ok run this(1-3) one_writer(1) few room this(4),
      of "''disk full''" True "\<lambda>_ e. (OK, e)" "\<lparr>wf_contents = [], wf_faults = []\<rparr>" 0 "()"]
  then show ?thesis unfolding empty by (elim exE conjE) (intro exI conjI)
qed

end
