(* ===== verification/Spec2Isabelle.thy ===== *)
theory Spec2Isabelle
  imports Base64_Correct Set_Of Utf8 Ber_Convert Stack Avl Lhash Bio_Props Timer_Heap Nanopb_Fields Leveldb_Db_Failures
begin

text \<open>
  The byte-level core of the libraries that the login application is built on.

  The application itself is Swift user-interface code that calls Firebase. The programs that do the work, and that read bytes from
  the network, are the C and C++ libraries under \<^verbatim>\<open>src/LoginPage_Udemy/Pods\<close>: BoringSSL (\<^verbatim>\<open>BoringSSL-GRPC/src\<close>), the core of gRPC
  (\<^verbatim>\<open>gRPC-Core\<close>), the protocol buffer runtime nanopb (\<^verbatim>\<open>nanopb\<close>) and the storage engine of Firestore's local cache, LevelDB
  (\<^verbatim>\<open>leveldb-library\<close>). This development models their containers, buffers, parsers
  and encoders. File names below are relative to the library.

  \<^bold>\<open>Shared vocabulary.\<close>
  \<open>Prelude\<close>: machine types, and actions: a C function that returns 1 or 0 and changes one object is a function from the old state to an optional
  result and the new state, and the state is kept on failure. \<open>Mem\<close>: \<^verbatim>\<open>crypto/mem.c\<close>, with libc's \<^verbatim>\<open>malloc\<close> as a parameter that may fail: a function
  of the size, of which \<^verbatim>\<open>BIO_new_bio_pair\<close>, which undoes what it has allocated when a later allocation fails, takes one for each of its calls.
  \<open>Consttime\<close>: the branch-free selections of \<^verbatim>\<open>crypto/internal.h\<close>. \<open>Codec\<close>, \<open>Comparator\<close>, \<open>Key_Map\<close> hold the contracts (locales) that several
  components provide: a wire format whose reader accepts exactly its encodings, a comparison function, a dictionary with operations that can
  fail. They are interpreted for the length-prefixed strings, integers, DER elements and UTF-8, for the order of SET OF, for the AVL tree and
  the hash table.

  \<^bold>\<open>Reading and building byte strings\<close> (\<^verbatim>\<open>crypto/bytestring\<close>).
  \<^item> \<open>Cbs\<close>: the reader \<^verbatim>\<open>CBS\<close> of \<^verbatim>\<open>cbs.c\<close>. \<open>Der\<close>: DER as pure functions, and that the reader accepts exactly that. \<open>Asn1_Values\<close>, \<open>Oid\<close>:
    integers, strings, object identifiers.
  \<^item> \<open>Cbb\<close>, \<open>Cbb_Asn1\<close>: the builder \<^verbatim>\<open>CBB\<close> of \<^verbatim>\<open>cbb.c\<close>, with the shared growing buffer, the chain of children whose length prefixes are still
    open, and the shifting of contents when a length needs more octets than were reserved. \<open>Cbb_Frames\<close> states what it promises, a stack of
    frames, and proves that flushing refines it; \<open>Cbb_Append\<close>, \<open>Cbb_Tree\<close> and \<open>Cbb_Program\<close> go from single operations to whole programs: a
    program emits the serialisation of its tree, and succeeds if the lengths and the memory suffice.
  \<^item> \<open>Set_Of\<close>: the sorting of SET OF. \<open>Ber\<close>, \<open>Ber_Convert\<close>: the conversion of BER to DER of \<^verbatim>\<open>ber.c\<close>, which reads with \<^verbatim>\<open>CBS\<close> and writes
    with \<^verbatim>\<open>CBB\<close>, and exactly which values its first pass takes for BER. \<open>Unicode\<close>, \<open>Utf8\<close>: \<^verbatim>\<open>unicode.c\<close>.

  \<^bold>\<open>Base64\<close> (\<^verbatim>\<open>crypto/base64/base64.c\<close>). \<open>Base64\<close> has the block and streaming operations, \<open>Base64_Correct\<close> the round trips, for every way of
  cutting the input into pieces, as seen by a caller that takes what \<^verbatim>\<open>*out_len\<close> reports.

  \<^bold>\<open>Containers.\<close> \<open>Stack\<close>: \<^verbatim>\<open>crypto/stack/stack.c\<close> (libc's \<^verbatim>\<open>qsort\<close> is a parameter). \<open>Lhash\<close>: \<^verbatim>\<open>crypto/lhash/lhash.c\<close>. \<open>Avl\<close>: the persistent
  tree of gRPC's \<^verbatim>\<open>src/core/lib/avl/avl.cc\<close>. \<open>Timer_Heap\<close>: the heap of pending timers of \<^verbatim>\<open>src/core/lib/iomgr/timer_heap.cc\<close>, an array of
  pointers to timers that know their index. \<open>Buf\<close>: \<^verbatim>\<open>crypto/buf/buf.c\<close>. For each: an invariant that every operation keeps, and that sequences of
  operations act on a list, a dictionary or a priority queue.

  \<^bold>\<open>Streams\<close> (\<^verbatim>\<open>crypto/bio\<close>). \<open>Bio_Base\<close>: the \<^verbatim>\<open>BIO\<close> object and the store of all live ones. \<open>Bio_Pair\<close> (\<^verbatim>\<open>pair.c\<close>) and \<open>Bio_Mem\<close> (\<^verbatim>\<open>bio_mem.c\<close>) are
  the methods of two kinds; \<open>Bio\<close> dispatches to them (\<^verbatim>\<open>bio.c\<close>), with reference counts and chains. \<open>Bio_Stream\<close> states what the code that moves
  whole messages expects of a BIO (locales \<open>byte_source\<close>, \<open>ending_source\<close>, \<open>byte_sink\<close>) and proves \<^verbatim>\<open>BIO_write_all\<close>, \<^verbatim>\<open>bio_read_full\<close>,
  \<^verbatim>\<open>bio_read_all\<close> and \<^verbatim>\<open>BIO_read_asn1\<close> against that; \<open>Bio_Ports\<close> shows that both kinds meet it. \<open>Bio_Props\<close>: over every interleaving of operations
  on its ends, a pair is two queues in opposite directions, and reading an element from a BIO agrees with the reader \<^verbatim>\<open>CBS\<close>.

  \<^bold>\<open>Protocol buffers\<close> (nanopb, \<^verbatim>\<open>pb_decode.c\<close>, \<^verbatim>\<open>pb_encode.c\<close>). \<open>Nanopb\<close>: streams over buffers, varints, tags, substreams, and the functions that
  move one member of a message structure. \<open>Nanopb_Wire\<close>: what the writers write and that the readers read it. \<open>Nanopb_Props\<close> and \<open>Nanopb_Fields\<close>:
  whole messages, bounds of every reader, members. A store of the decoders of byte arrays and strings that would leave its block is a result of its own,
  and it is proved that none does.

  \<^bold>\<open>LevelDB.\<close> \<open>Octets\<close>: numbers as little-endian bytes and as groups of seven bits, for nanopb and LevelDB. \<open>Leveldb_Coding\<close>:
  \<^verbatim>\<open>util/coding.cc\<close>. \<open>Crc32c\<close>: \<^verbatim>\<open>util/crc32c.cc\<close>, whose tables and interleaved strides are proved to compute the checksum that is defined bit by
  bit. \<open>Leveldb_Log\<close>: the write-ahead log, \<^verbatim>\<open>db/log_writer.cc\<close> and \<^verbatim>\<open>db/log_reader.cc\<close>, over files whose calls may fail; \<open>Leveldb_Log_Props\<close>: the layout
  of a log, what the writer leaves in the file when calls fail, and what the reader makes of any front of it.
  \<open>Skiplist\<close>: \<^verbatim>\<open>db/skiplist.h\<close> with the generator of \<^verbatim>\<open>util/random.h\<close>, as nodes with links per level; \<open>Skiplist_Props\<close>: the levels are chains of
  one sorted list, whatever the heights, and searching and inserting refine that list, for any comparison that a locale describes.
  \<open>Leveldb_Key\<close>: \<^verbatim>\<open>util/comparator.cc\<close> and the internal keys of \<^verbatim>\<open>db/dbformat.cc\<close>; \<open>Leveldb_Key_Props\<close>: their order, and what a comparator promises of
  the keys it shortens (a locale, met by both comparators). \<open>Leveldb_Memtable\<close>: \<^verbatim>\<open>db/memtable.cc\<close> and \<^verbatim>\<open>db/write_batch.cc\<close>; \<open>Leveldb_Batch_Props\<close>:
  a batch is a list of updates; \<open>Leveldb_Memtable_Props\<close> and \<open>Leveldb_Snapshot\<close>: a table is a set of entries, and a lookup finds the newest entry
  that it may see. \<open>Leveldb_Db\<close>: of \<^verbatim>\<open>db/db_impl.cc\<close>, the group commit of \<^verbatim>\<open>Write\<close>, the tables that \<^verbatim>\<open>Get\<close> looks at, and \<^verbatim>\<open>RecoverLogFile\<close>.
  \<open>Leveldb_Db_Group\<close>: which writers form a group. \<open>Leveldb_Db_Run\<close> composes the parts: in every state that queueing, writing and
  reopening reach, the memory table holds exactly the updates of the answered writers, the log reads back as their batches in order, recovery
  rebuilds the table from it, and reads see the updates up to their sequence number. \<open>Leveldb_Db_Failures\<close>: what is lost when the payload of a record does not reach the log.

  \<^bold>\<open>Bounds and termination.\<close> A loop of the code is a recursion with a termination proof where its length is bounded by its input. Otherwise it is a
  partial function, and \<open>None\<close> is a loop that does not end: the loops of \<^verbatim>\<open>bio.c\<close> over other BIOs, the two loops of the timer heap, the
  searches of the skip list and the recovery loop; the properties state that the result is not \<open>None\<close>. The copying loops of \<^verbatim>\<open>pair.c\<close> have the two iterations that their comment
  allows as a bound, and \<open>None\<close> if that does not suffice; it always does. The recursion of \<^verbatim>\<open>ber.c\<close> fails below \<open>kMaxDepth\<close> levels, as in
  the code, and otherwise ends because every nested element is shorter. Sizes are natural numbers with \<^verbatim>\<open>size_t\<close> arithmetic written out modulo 2 to the 64; integers that the code computes with are words.

  \<^bold>\<open>Not modelled.\<close> Releasing and cleansing memory, the error queue and error messages, locks, and the reference counts of the AVL nodes: they do not
  influence the results. BIOs over files, sockets and connections: system calls. The iteration of nanopb over generated field descriptors, with
  submessages, arrays, oneofs, extensions and callbacks: it addresses message structures by byte offsets that
  the generator of the descriptors computes. The TLS state machine, cryptographic primitives, the asynchronous parts of gRPC, the Firestore client and
  the Swift application rest on sockets, threads, assembly code or user-interface frameworks, and no part of them is used by the components
  above. Of LevelDB, the tables on disk, versions and compaction are left out; where \<^verbatim>\<open>Write\<close>, \<^verbatim>\<open>Get\<close> and \<^verbatim>\<open>RecoverLogFile\<close> call them
  (\<^verbatim>\<open>MakeRoomForWrite\<close>, \<^verbatim>\<open>WriteLevel0Table\<close>, \<^verbatim>\<open>Version::Get\<close>, the memory that the arena counts), their result is an argument, and the properties of runs
  assume that a memory table does not outgrow its limit, and that the database is opened with \<^verbatim>\<open>reuse_logs\<close> (by default it is off, and recovery writes the
  table to a file of level 0 instead). Runs are clean: files fail only in the theorems that say so. Threads are steps on the queue of
  writers, as the mutex makes them; the memory order of lock-free readers is not modelled.
\<close>

end
